(* ===== verification/Prelude.thy ===== *)
theory Prelude
  imports Main "HOL-Library.Word" "HOL-Library.Multiset" "HOL-Library.Sublist"
begin

text \<open>
  Shared vocabulary of the development: the machine integer types of the C code (LP64, as on
  the iOS targets the pods are built for), byte strings, the arithmetic of \<open>size_t\<close>, and the
  generic lemmas on words and lists that the components use.
\<close>

unbundle bit_operations_syntax

section \<open>Types\<close>

type_synonym u8 = "8 word"
type_synonym u16 = "16 word"
type_synonym u32 = "32 word"
type_synonym u64 = "64 word"
type_synonym crypto_word_t = "64 word"
type_synonym c_int = "32 word"
type_synonym bytes = "u8 list"

text \<open>
  A \<open>size_t\<close> is a natural number below \<open>2 ^ 64\<close>; where the code adds or multiplies
  sizes the wrap-around is written out with these two operations.
\<close>

abbreviation (input) SIZE_MAX :: nat where "SIZE_MAX \<equiv> 2 ^ 64 - 1"
abbreviation (input) INT_MAX :: nat where "INT_MAX \<equiv> 2 ^ 31 - 1"

definition size_add :: "nat \<Rightarrow> nat \<Rightarrow> nat" where
  "size_add a b = (a + b) mod 2 ^ 64"

definition size_mul :: "nat \<Rightarrow> nat \<Rightarrow> nat" where
  "size_mul a b = (a * b) mod 2 ^ 64"

text \<open>Lemma collections: readers, mask arithmetic, and sizes that do not wrap.\<close>

named_theorems reader_simps \<open>unfolding rules for readers\<close>
named_theorems mask_simps \<open>constant-time masks as conditionals\<close>
named_theorems size_simps \<open>arithmetic on sizes that does not wrap\<close>

lemma size_add_small [size_simps]: "a + b < 2 ^ 64 \<Longrightarrow> size_add a b = a + b"
  by (simp add: size_add_def)

lemma size_mul_small [size_simps]: "a * b < 2 ^ 64 \<Longrightarrow> size_mul a b = a * b"
  by (simp add: size_mul_def)

lemma size_add_overflow_iff:
  assumes "a < 2 ^ 64" "b < 2 ^ 64"
  shows "size_add a b < a \<longleftrightarrow> 2 ^ 64 \<le> a + b"
proof (cases "a + b < 2 ^ 64")
  case True
  then show ?thesis by (simp add: size_add_def)
next
  case False
  then have "(a + b) mod 2 ^ 64 = a + b - 2 ^ 64"
    using assms by (simp add: mod_if)
  then show ?thesis using False assms by (simp add: size_add_def)
qed

section \<open>The most significant bit\<close>

lemma bit_msb_unat:
  fixes w :: "'a::len word"
  shows "bit w (LENGTH('a) - 1) \<longleftrightarrow> 2 ^ (LENGTH('a) - 1) \<le> unat w"
proof -
  have "bit w (LENGTH('a) - 1) \<longleftrightarrow> bit (unat w) (LENGTH('a) - 1)"
    by (simp add: bit_unsigned_iff)
  also have "\<dots> \<longleftrightarrow> odd (unat w div 2 ^ (LENGTH('a) - 1))"
    by (simp add: bit_iff_odd)
  also have "\<dots> \<longleftrightarrow> 2 ^ (LENGTH('a) - 1) \<le> unat w"
  proof (cases "2 ^ (LENGTH('a) - 1) \<le> unat w")
    case True
    have "unat w < 2 * 2 ^ (LENGTH('a) - 1)"
      using unsigned_less [of w, where ?'a = nat] by (simp flip: power_Suc)
    with True have "unat w div 2 ^ (LENGTH('a) - 1) = 1"
      by (intro div_nat_eqI) auto
    with True show ?thesis by simp
  qed simp
  finally show ?thesis .
qed

lemma drop_bit_msb:
  fixes w :: "'a::len word"
  shows "drop_bit (LENGTH('a) - 1) w = of_bool (bit w (LENGTH('a) - 1))"
proof (rule bit_eqI)
  fix n assume "possible_bit TYPE('a word) n"
  then show "bit (drop_bit (LENGTH('a) - 1) w) n
      = bit (of_bool (bit w (LENGTH('a) - 1)) :: 'a word) n"
    by (cases n) (auto simp: bit_drop_bit_eq bit_of_bool_iff dest: bit_imp_le_length)
qed

text \<open>
  Unsigned comparison read off the sign bits: the case analysis the comment on
  \<open>constant_time_lt_w\<close> makes.
\<close>

lemma word_less_msb:
  fixes a b :: "'a::len word"
  shows "a < b \<longleftrightarrow>
    (if bit a (LENGTH('a) - 1) = bit b (LENGTH('a) - 1)
     then bit (a - b) (LENGTH('a) - 1) else bit b (LENGTH('a) - 1))"
proof -
  define m :: nat where "m = 2 ^ (LENGTH('a) - 1)"
  have m: "2 ^ LENGTH('a) = 2 * m"
    by (simp add: m_def flip: power_Suc)
  have a: "unat a < 2 * m" and b: "unat b < 2 * m"
    using unsigned_less [of a, where ?'a = nat] unsigned_less [of b, where ?'a = nat]
    by (simp_all add: m)
  have s: "unat (a - b) = (if unat b \<le> unat a then unat a - unat b else unat a + 2 * m - unat b)"
    by (simp add: unat_sub_if' m)
  show ?thesis
    unfolding bit_msb_unat word_less_nat_alt m_def [symmetric] s
    using a b by auto
qed

section \<open>Bits of words\<close>

lemma bit_high [simp]: "LENGTH('a) \<le> n \<Longrightarrow> \<not> bit (w :: 'a::len word) n"
  by (auto dest: bit_imp_le_length)

text \<open>Equality of words bit by bit, with the bits enumerated: the bits of a concrete width.\<close>

lemma word_eq_upt:
  fixes x y :: "'a::len word"
  assumes "list_all (\<lambda>n. bit x n = bit y n) [0..<LENGTH('a)]"
  shows "x = y"
  using assms by (auto intro!: bit_word_eqI simp: list_all_iff)

lemma word_xor_eq_0 [simp]: "a XOR b = 0 \<longleftrightarrow> a = (b :: 'a::len word)"
  by (auto simp: bit_eq_iff bit_simps)

lemma word_or_eq_0 [simp]: "a OR b = 0 \<longleftrightarrow> a = 0 \<and> b = (0 :: 'a::len word)"
  by (auto simp: bit_eq_iff bit_simps)

lemma ucast_u8_id [simp]:
  "(ucast (ucast (b :: u8) :: u64) :: u8) = b"
  "(ucast (ucast (b :: u8) :: u32) :: u8) = b"
  "(ucast (ucast (b :: u8) :: u16) :: u8) = b"
  by (simp_all add: bit_eq_iff bit_simps)

lemma unat_take_bit: "unat (take_bit n w) = unat w mod 2 ^ n"
  unfolding unsigned_take_bit_eq by (simp add: take_bit_eq_mod)

lemma unat_drop_bit: "unat (drop_bit n w) = unat w div 2 ^ n"
  unfolding unat_drop_bit_eq by (simp add: drop_bit_eq_div)

lemma unat_push_or:
  fixes x y :: "'a::len word"
  assumes "unat y < 2 ^ k" "unat x * 2 ^ k + unat y < 2 ^ LENGTH('a)"
  shows "unat (push_bit k x OR y) = unat x * 2 ^ k + unat y"
proof -
  have k: "unat (push_bit k x) = unat x * 2 ^ k"
    using assms(2) unfolding unsigned_push_bit_eq by (simp add: push_bit_eq_mult take_bit_nat_eq_self)
  have y: "y = take_bit k y" using assms(1) by (simp add: word_unat_eq_iff unat_take_bit)
  have "push_bit k x OR y = push_bit k x + y"
    by (rule disjunctive_add_eq_or [symmetric], subst y) (auto simp: bit_eq_iff bit_simps)
  then show ?thesis using assms(2) k by (simp add: unat_word_ariths)
qed

lemma unat_ucast_up:
  fixes w :: "'a::len word"
  assumes "LENGTH('a) \<le> LENGTH('b)"
  shows "unat (ucast w :: 'b::len word) = unat w"
proof -
  have "unat w < 2 ^ LENGTH('b)"
    by (rule order_less_le_trans [OF unsigned_less power_increasing [OF assms]]) simp
  then show ?thesis by (simp add: unsigned_ucast_eq take_bit_nat_eq_self)
qed

lemma unat_u8_less [simp]: "unat (b :: u8) < 256"
  using unsigned_less [of b, where ?'a = nat] by simp

text \<open>
  A negated shift amount reduced by a mask, as in \<open>(-shift) & 31\<close>, and the rotations written
  with two shifts.
\<close>

lemma neg_and_mask:
  assumes "s < 2 ^ k"
  shows "nat ((- int s) AND mask k) = (if s = 0 then 0 else 2 ^ k - s)"
proof -
  have s: "int s < 2 ^ k" using assms by (metis of_nat_less_numeral_power_cancel_iff)
  have "(- int s) AND mask k = (- int s) mod 2 ^ k"
    using take_bit_eq_mask [of k "- int s"] by (simp add: take_bit_eq_mod)
  also have "\<dots> = (if s = 0 then 0 else 2 ^ k - int s)"
    using s by (auto simp add: zmod_zminus1_eq_if)
  finally show ?thesis using assms by (auto simp: nat_diff_distrib nat_power_eq)
qed

lemma shifts_word_rotl:
  fixes v :: "'a::len word"
  assumes "s < LENGTH('a)"
  shows "push_bit s v OR drop_bit (if s = 0 then 0 else LENGTH('a) - s) v = word_rotl s v"
  using assms by (intro bit_word_eqI) (auto simp: bit_simps mod_if add.commute)

lemma shifts_word_rotr:
  fixes v :: "'a::len word"
  assumes "s < LENGTH('a)"
  shows "drop_bit s v OR push_bit (if s = 0 then 0 else LENGTH('a) - s) v = word_rotr s v"
  using assms by (intro bit_word_eqI) (auto simp: bit_simps mod_if add.commute)

section \<open>Byte strings as numbers\<close>

primrec le_nat :: "bytes \<Rightarrow> nat" where
  "le_nat [] = 0"
| "le_nat (b # bs) = unat b + 256 * le_nat bs"

definition be_nat :: "bytes \<Rightarrow> nat" where
  "be_nat bs = le_nat (rev bs)"

primrec nat_le :: "nat \<Rightarrow> nat \<Rightarrow> bytes" where
  "nat_le 0 v = []"
| "nat_le (Suc n) v = of_nat v # nat_le n (v div 256)"

definition nat_be :: "nat \<Rightarrow> nat \<Rightarrow> bytes" where
  "nat_be n v = rev (nat_le n v)"

lemma length_nat_le [simp]: "length (nat_le n v) = n"
  by (induction n arbitrary: v) auto

lemma length_nat_be [simp]: "length (nat_be n v) = n"
  by (simp add: nat_be_def)

lemma le_nat_bound: "le_nat bs < 256 ^ length bs"
proof (induction bs)
  case (Cons b bs)
  then show ?case using unat_u8_less [of b] by (simp del: unat_u8_less)
qed simp

lemma be_nat_bound: "be_nat bs < 256 ^ length bs"
  using le_nat_bound [of "rev bs"] by (simp add: be_nat_def)

lemma unat_of_nat_u8 [simp]: "unat (of_nat v :: u8) = v mod 256"
  by (simp add: unat_of_nat)

lemma le_nat_nat_le [simp]: "le_nat (nat_le n v) = v mod 256 ^ n"
proof (induction n arbitrary: v)
  case (Suc n)
  show ?case by (simp add: Suc mod_mult2_eq)
qed simp

lemma be_nat_nat_be [simp]: "be_nat (nat_be n v) = v mod 256 ^ n"
  by (simp add: be_nat_def nat_be_def)

lemma u8_256_mult [simp]: "(256 :: u8) * x = 0"
proof -
  have zero: "(256 :: u8) = 0" by simp
  show ?thesis by (simp only: zero mult_zero_left)
qed

lemma nat_le_le_nat [simp]: "nat_le (length bs) (le_nat bs) = bs"
  by (induction bs) auto

lemma nat_be_be_nat [simp]: "nat_be (length bs) (be_nat bs) = bs"
  using nat_le_le_nat [of "rev bs"] by (simp add: nat_be_def be_nat_def)

lemma be_nat_Nil [simp]: "be_nat [] = 0"
  by (simp add: be_nat_def)

lemma le_nat_append: "le_nat (xs @ ys) = le_nat xs + 256 ^ length xs * le_nat ys"
  by (induction xs) (auto simp: algebra_simps)

lemma be_nat_append: "be_nat (xs @ ys) = be_nat xs * 256 ^ length ys + be_nat ys"
  by (simp add: be_nat_def le_nat_append)

lemma be_nat_Cons: "be_nat (x # xs) = unat x * 256 ^ length xs + be_nat xs"
  using be_nat_append [of "[x]" xs] by (simp add: be_nat_def)

end
