(* ===== verification/ConstTime.thy ===== *)
theory ConstTime
  imports Prelude
begin

text \<open>
  The constant-time helpers, byte swaps, loads and stores, rotations and carry arithmetic of
  \<open>crypto/internal.h\<close>. \<open>crypto_word_t\<close> is 64 bits wide. Every comparison is
  branch-free bit arithmetic in the code; the lemmas of the collection \<open>mask_simps\<close> turn it
  into the conditional it stands for, which is what the client components use.
\<close>

unbundle bit_operations_syntax

section \<open>Masks\<close>

abbreviation (input) CONSTTIME_TRUE_W :: crypto_word_t where "CONSTTIME_TRUE_W \<equiv> NOT 0"
abbreviation (input) CONSTTIME_FALSE_W :: crypto_word_t where "CONSTTIME_FALSE_W \<equiv> 0"

definition value_barrier_w :: "crypto_word_t \<Rightarrow> crypto_word_t" where
  "value_barrier_w a = a"

definition constant_time_msb_w :: "crypto_word_t \<Rightarrow> crypto_word_t" where
  "constant_time_msb_w a = 0 - drop_bit (8 * 8 - 1) a"

definition constant_time_lt_w :: "crypto_word_t \<Rightarrow> crypto_word_t \<Rightarrow> crypto_word_t" where
  "constant_time_lt_w a b = constant_time_msb_w (a XOR ((a XOR b) OR ((a - b) XOR a)))"

definition constant_time_lt_8 :: "crypto_word_t \<Rightarrow> crypto_word_t \<Rightarrow> u8" where
  "constant_time_lt_8 a b = ucast (constant_time_lt_w a b)"

definition constant_time_ge_w :: "crypto_word_t \<Rightarrow> crypto_word_t \<Rightarrow> crypto_word_t" where
  "constant_time_ge_w a b = NOT (constant_time_lt_w a b)"

definition constant_time_ge_8 :: "crypto_word_t \<Rightarrow> crypto_word_t \<Rightarrow> u8" where
  "constant_time_ge_8 a b = ucast (constant_time_ge_w a b)"

definition constant_time_is_zero_w :: "crypto_word_t \<Rightarrow> crypto_word_t" where
  "constant_time_is_zero_w a = constant_time_msb_w (NOT a AND (a - 1))"

definition constant_time_is_zero_8 :: "crypto_word_t \<Rightarrow> u8" where
  "constant_time_is_zero_8 a = ucast (constant_time_is_zero_w a)"

definition constant_time_eq_w :: "crypto_word_t \<Rightarrow> crypto_word_t \<Rightarrow> crypto_word_t" where
  "constant_time_eq_w a b = constant_time_is_zero_w (a XOR b)"

definition constant_time_eq_8 :: "crypto_word_t \<Rightarrow> crypto_word_t \<Rightarrow> u8" where
  "constant_time_eq_8 a b = ucast (constant_time_eq_w a b)"

text \<open>A C \<open>int\<close> converted to \<open>crypto_word_t\<close> is sign-extended.\<close>

definition constant_time_eq_int :: "c_int \<Rightarrow> c_int \<Rightarrow> crypto_word_t" where
  "constant_time_eq_int a b = constant_time_eq_w (scast a) (scast b)"

definition constant_time_eq_int_8 :: "c_int \<Rightarrow> c_int \<Rightarrow> u8" where
  "constant_time_eq_int_8 a b = constant_time_eq_8 (scast a) (scast b)"

definition constant_time_select_w ::
    "crypto_word_t \<Rightarrow> crypto_word_t \<Rightarrow> crypto_word_t \<Rightarrow> crypto_word_t" where
  "constant_time_select_w msk a b =
     (let msk = value_barrier_w msk in (msk AND a) OR (NOT msk AND b))"

definition constant_time_select_8 :: "crypto_word_t \<Rightarrow> u8 \<Rightarrow> u8 \<Rightarrow> u8" where
  "constant_time_select_8 msk a b =
     (let m = ucast (value_barrier_w msk) in (m AND a) OR (NOT m AND b))"

definition constant_time_select_int :: "crypto_word_t \<Rightarrow> c_int \<Rightarrow> c_int \<Rightarrow> c_int" where
  "constant_time_select_int msk a b =
     ucast (constant_time_select_w msk (scast a) (scast b))"

text \<open>
  The two conditional block operations return the new contents of \<open>dst\<close>; \<open>n\<close> is
  at most the length of both buffers.
\<close>

definition constant_time_conditional_memcpy ::
    "bytes \<Rightarrow> bytes \<Rightarrow> nat \<Rightarrow> crypto_word_t \<Rightarrow> bytes" where
  "constant_time_conditional_memcpy dst src n msk =
     map2 (\<lambda>i out. constant_time_select_8 msk i out) (take n src) (take n dst) @ drop n dst"

definition constant_time_conditional_memxor ::
    "bytes \<Rightarrow> bytes \<Rightarrow> nat \<Rightarrow> crypto_word_t \<Rightarrow> bytes" where
  "constant_time_conditional_memxor dst src n msk =
     map2 (\<lambda>i out. out XOR ucast (value_barrier_w msk AND ucast i)) (take n src) (take n dst)
     @ drop n dst"

section \<open>Endianness, loads and stores\<close>

definition CRYPTO_bswap2 :: "u16 \<Rightarrow> u16" where
  "CRYPTO_bswap2 x = drop_bit 8 x OR push_bit 8 x"

definition CRYPTO_bswap4 :: "u32 \<Rightarrow> u32" where
  "CRYPTO_bswap4 x =
     (let x = drop_bit 16 x OR push_bit 16 x
      in drop_bit 8 (x AND 0xff00ff00) OR push_bit 8 (x AND 0x00ff00ff))"

definition CRYPTO_bswap8 :: "u64 \<Rightarrow> u64" where
  "CRYPTO_bswap8 x =
     ucast (CRYPTO_bswap4 (ucast (drop_bit 32 x))) OR push_bit 32 (ucast (CRYPTO_bswap4 (ucast x)))"

text \<open>
  \<open>memcpy\<close> between a byte buffer and an integer object copies the object representation,
  which is little-endian on the modelled targets.
\<close>

primrec mem_load :: "bytes \<Rightarrow> 'a::len word" where
  "mem_load [] = 0"
| "mem_load (b # bs) = ucast b OR push_bit 8 (mem_load bs)"

primrec mem_store :: "nat \<Rightarrow> 'a::len word \<Rightarrow> bytes" where
  "mem_store 0 v = []"
| "mem_store (Suc n) v = ucast v # mem_store n (drop_bit 8 v)"

definition CRYPTO_load_u32_le :: "bytes \<Rightarrow> u32" where
  "CRYPTO_load_u32_le inp = mem_load (take 4 inp)"

definition CRYPTO_store_u32_le :: "u32 \<Rightarrow> bytes" where
  "CRYPTO_store_u32_le v = mem_store 4 v"

definition CRYPTO_load_u32_be :: "bytes \<Rightarrow> u32" where
  "CRYPTO_load_u32_be inp = CRYPTO_bswap4 (mem_load (take 4 inp))"

definition CRYPTO_store_u32_be :: "u32 \<Rightarrow> bytes" where
  "CRYPTO_store_u32_be v = mem_store 4 (CRYPTO_bswap4 v)"

definition CRYPTO_load_u64_le :: "bytes \<Rightarrow> u64" where
  "CRYPTO_load_u64_le inp = mem_load (take 8 inp)"

definition CRYPTO_store_u64_le :: "u64 \<Rightarrow> bytes" where
  "CRYPTO_store_u64_le v = mem_store 8 v"

definition CRYPTO_load_u64_be :: "bytes \<Rightarrow> u64" where
  "CRYPTO_load_u64_be inp = CRYPTO_bswap8 (mem_load (take 8 inp))"

definition CRYPTO_store_u64_be :: "u64 \<Rightarrow> bytes" where
  "CRYPTO_store_u64_be v = mem_store 8 (CRYPTO_bswap8 v)"

section \<open>Rotations and carries\<close>

text \<open>
  \<open>shift\<close> is an \<open>int\<close> in the code; shifting by the width or more is undefined there, so
  the amount is a natural number and the lemmas take it below the width.
\<close>

definition CRYPTO_rotl_u32 :: "u32 \<Rightarrow> nat \<Rightarrow> u32" where
  "CRYPTO_rotl_u32 value shift =
     push_bit shift value OR drop_bit (nat ((- int shift) AND 31)) value"

definition CRYPTO_rotr_u32 :: "u32 \<Rightarrow> nat \<Rightarrow> u32" where
  "CRYPTO_rotr_u32 value shift =
     drop_bit shift value OR push_bit (nat ((- int shift) AND 31)) value"

definition CRYPTO_rotl_u64 :: "u64 \<Rightarrow> nat \<Rightarrow> u64" where
  "CRYPTO_rotl_u64 value shift =
     push_bit shift value OR drop_bit (nat ((- int shift) AND 63)) value"

definition CRYPTO_rotr_u64 :: "u64 \<Rightarrow> nat \<Rightarrow> u64" where
  "CRYPTO_rotr_u64 value shift =
     drop_bit shift value OR push_bit (nat ((- int shift) AND 63)) value"

text \<open>The results are pairs of the sum or difference and the outgoing carry or borrow.\<close>

definition CRYPTO_addc_u32 :: "u32 \<Rightarrow> u32 \<Rightarrow> u32 \<Rightarrow> u32 \<times> u32" where
  "CRYPTO_addc_u32 x y carry =
     (let ret = (ucast carry :: u64) + ((ucast x :: u64) + ucast y)
      in (ucast ret, ucast (drop_bit 32 ret)))"

definition CRYPTO_addc_u64 :: "u64 \<Rightarrow> u64 \<Rightarrow> u64 \<Rightarrow> u64 \<times> u64" where
  "CRYPTO_addc_u64 x y carry =
     (let x = x + carry;
          carry = of_bool (x < carry);
          ret = x + y;
          carry = carry + of_bool (ret < x)
      in (ret, carry))"

definition CRYPTO_addc_u64_uint128 :: "u64 \<Rightarrow> u64 \<Rightarrow> u64 \<Rightarrow> u64 \<times> u64" where
  "CRYPTO_addc_u64_uint128 x y carry =
     (let ret = (ucast carry :: 128 word) + ((ucast x :: 128 word) + ucast y)
      in (ucast ret, ucast (drop_bit 64 ret)))"

definition CRYPTO_subc_u32 :: "u32 \<Rightarrow> u32 \<Rightarrow> u32 \<Rightarrow> u32 \<times> u32" where
  "CRYPTO_subc_u32 x y borrow =
     (x - y - borrow, of_bool (x < y) OR (of_bool (x = y) AND borrow))"

definition CRYPTO_subc_u64 :: "u64 \<Rightarrow> u64 \<Rightarrow> u64 \<Rightarrow> u64 \<times> u64" where
  "CRYPTO_subc_u64 x y borrow =
     (x - y - borrow, of_bool (x < y) OR (of_bool (x = y) AND borrow))"

section \<open>Masks are conditionals\<close>

lemma constant_time_msb_w_eq [mask_simps]:
  "constant_time_msb_w a = (if bit a 63 then CONSTTIME_TRUE_W else CONSTTIME_FALSE_W)"
  using drop_bit_msb [of a] by (simp add: constant_time_msb_w_def)

lemma constant_time_lt_w_eq [mask_simps]:
  "constant_time_lt_w a b = (if a < b then CONSTTIME_TRUE_W else CONSTTIME_FALSE_W)"
  using word_less_msb [of a b]
  by (auto simp: constant_time_lt_w_def constant_time_msb_w_eq bit_simps)

lemma constant_time_ge_w_eq [mask_simps]:
  "constant_time_ge_w a b = (if b \<le> a then CONSTTIME_TRUE_W else CONSTTIME_FALSE_W)"
  by (auto simp: constant_time_ge_w_def constant_time_lt_w_eq)

lemma is_zero_msb: "bit (NOT a AND (a - 1)) 63 \<longleftrightarrow> (a :: crypto_word_t) = 0"
proof (cases "a = 0")
  case False
  have "bit (a - 1) 63 \<Longrightarrow> bit a 63"
    using bit_msb_unat [of a] bit_msb_unat [of "a - 1"] False
    by (simp add: unat_minus_one)
  with False show ?thesis by (auto simp: bit_simps)
qed simp

lemma constant_time_is_zero_w_eq [mask_simps]:
  "constant_time_is_zero_w a = (if a = 0 then CONSTTIME_TRUE_W else CONSTTIME_FALSE_W)"
  by (simp add: constant_time_is_zero_w_def constant_time_msb_w_eq is_zero_msb)

lemma constant_time_eq_w_eq [mask_simps]:
  "constant_time_eq_w a b = (if a = b then CONSTTIME_TRUE_W else CONSTTIME_FALSE_W)"
  by (simp add: constant_time_eq_w_def constant_time_is_zero_w_eq)

lemma ucast_minus_1 [simp]:
  "(ucast (- 1 :: crypto_word_t) :: u8) = - 1"
  "(ucast (ucast (- 1 :: u8) :: crypto_word_t) :: u8) = - 1"
  by (simp_all add: bit_eq_iff bit_simps)

lemma mask_8_eq [mask_simps]:
  "constant_time_lt_8 a b = (if a < b then NOT 0 else 0)"
  "constant_time_ge_8 a b = (if b \<le> a then NOT 0 else 0)"
  "constant_time_is_zero_8 a = (if a = 0 then NOT 0 else 0)"
  "constant_time_eq_8 a b = (if a = b then NOT 0 else 0)"
  by (simp_all add: constant_time_lt_8_def constant_time_ge_8_def constant_time_is_zero_8_def
      constant_time_eq_8_def mask_simps)

lemma scast_int_eq_iff [simp]: "(scast a :: crypto_word_t) = scast b \<longleftrightarrow> a = (b :: c_int)"
proof
  assume "(scast a :: crypto_word_t) = scast b"
  then have "(scast (scast a :: crypto_word_t) :: c_int) = scast (scast b :: crypto_word_t)"
    by simp
  then show "a = b" by (simp add: scast_up_scast_id is_up)
qed simp

lemma ucast_scast_int [simp]: "(ucast (scast a :: crypto_word_t) :: c_int) = a"
  by (rule bit_eqI) (simp add: bit_simps)

lemma constant_time_eq_int_eq [mask_simps]:
  "constant_time_eq_int a b = (if a = b then CONSTTIME_TRUE_W else CONSTTIME_FALSE_W)"
  "constant_time_eq_int_8 a b = (if a = b then NOT 0 else 0)"
  by (simp_all add: constant_time_eq_int_def constant_time_eq_int_8_def mask_simps)

lemma constant_time_select_eq [mask_simps]:
  "constant_time_select_w (if P then CONSTTIME_TRUE_W else CONSTTIME_FALSE_W) a b
     = (if P then a else b)"
  "constant_time_select_8 (if P then CONSTTIME_TRUE_W else CONSTTIME_FALSE_W) x y
     = (if P then x else y)"
  "constant_time_select_8 (ucast (if P then NOT 0 else 0 :: u8)) x y = (if P then x else y)"
  "constant_time_select_int (if P then CONSTTIME_TRUE_W else CONSTTIME_FALSE_W) i j
     = (if P then i else j)"
  by (simp_all add: constant_time_select_w_def constant_time_select_8_def
      constant_time_select_int_def value_barrier_w_def)

lemma map2_proj:
  assumes "length xs = length ys"
  shows "map2 (\<lambda>x y. x) xs ys = xs" "map2 (\<lambda>x y. y) xs ys = ys"
  using assms by (induction xs ys rule: list_induct2) auto

lemma constant_time_conditional_memcpy_eq:
  assumes "n \<le> length src" "n \<le> length dst"
  shows "constant_time_conditional_memcpy dst src n
      (if P then CONSTTIME_TRUE_W else CONSTTIME_FALSE_W)
    = (if P then take n src @ drop n dst else dst)"
  using assms by (simp add: constant_time_conditional_memcpy_def constant_time_select_eq map2_proj)

lemma constant_time_conditional_memxor_eq:
  assumes "n \<le> length src" "n \<le> length dst"
  shows "constant_time_conditional_memxor dst src n
      (if P then CONSTTIME_TRUE_W else CONSTTIME_FALSE_W)
    = (if P then map2 (XOR) (take n dst) (take n src) @ drop n dst else dst)"
  using assms
  by (auto simp: constant_time_conditional_memxor_def value_barrier_w_def map2_proj
      intro!: nth_equalityI)

section \<open>Byte order\<close>

lemma CRYPTO_bswap2_load: "CRYPTO_bswap2 (mem_load [a, b]) = mem_load [b, a]"
  by (rule word_eq_upt) (simp add: CRYPTO_bswap2_def bit_simps upt_rec)

lemma CRYPTO_bswap4_load: "CRYPTO_bswap4 (mem_load [a, b, c, d]) = mem_load [d, c, b, a]"
  by (rule word_eq_upt) (simp add: CRYPTO_bswap4_def Let_def bit_simps upt_rec)

text \<open>\<open>bswap8\<close> swaps the halves and swaps the bytes of each.\<close>

lemma mem_load_halves:
  "(ucast (mem_load [a, b, c, d, e, f, g, h] :: u64) :: u32) = mem_load [a, b, c, d]"
  "(ucast (drop_bit 32 (mem_load [a, b, c, d, e, f, g, h] :: u64)) :: u32) = mem_load [e, f, g, h]"
  by (rule word_eq_upt, simp add: bit_simps upt_rec)+

lemma mem_load_join:
  "(ucast (mem_load [a, b, c, d] :: u32) :: u64) OR push_bit 32 (ucast (mem_load [e, f, g, h] :: u32))
     = mem_load [a, b, c, d, e, f, g, h]"
  by (rule word_eq_upt) (simp add: bit_simps upt_rec)

lemma CRYPTO_bswap8_load:
  "CRYPTO_bswap8 (mem_load [a, b, c, d, e, f, g, h]) = mem_load [h, g, f, e, d, c, b, a]"
  by (simp only: CRYPTO_bswap8_def mem_load_halves CRYPTO_bswap4_load mem_load_join)

lemma mem_load_of_nat:
  assumes "8 \<le> LENGTH('a)"
  shows "mem_load bs = (of_nat (le_nat bs) :: 'a::len word)"
proof (induction bs)
  case (Cons b bs)
  have "(ucast b :: 'a word) AND push_bit 8 (mem_load bs) = 0"
    using assms by (auto simp: bit_eq_iff bit_simps dest: bit_imp_le_length)
  then have "(mem_load (b # bs) :: 'a word) = ucast b + push_bit 8 (mem_load bs)"
    by (simp add: disjunctive_add_eq_or)
  also have "\<dots> = of_nat (unat b) + 256 * of_nat (le_nat bs)"
    by (simp add: Cons push_bit_eq_mult)
  finally show ?case by simp
qed simp

lemma unat_mem_load:
  assumes "8 \<le> LENGTH('a)" "8 * length bs \<le> LENGTH('a)"
  shows "unat (mem_load bs :: 'a::len word) = le_nat bs"
proof -
  have "le_nat bs < 2 ^ (8 * length bs)"
    using le_nat_bound [of bs] by (simp add: power_mult)
  also have "\<dots> \<le> 2 ^ LENGTH('a)" using assms(2) by simp
  finally show ?thesis using assms(1) by (simp add: mem_load_of_nat unat_of_nat)
qed

lemma mem_store_nat_le:
  assumes "8 \<le> LENGTH('a)"
  shows "mem_store n (v :: 'a::len word) = nat_le n (unat v)"
proof (induction n arbitrary: v)
  case (Suc n)
  have "unat (drop_bit 8 v) = unat v div 256"
    unfolding unat_drop_bit_eq by (simp add: drop_bit_eq_div)
  moreover have "(ucast v :: u8) = of_nat (unat v)"
    by simp
  ultimately show ?case by (simp add: Suc)
qed simp

declare mem_load.simps [simp del] mem_store.simps [simp del]

lemma mem_store_load:
  assumes "8 \<le> LENGTH('a)" "8 * n \<le> LENGTH('a)" "length bs = n"
  shows "mem_store n (mem_load bs :: 'a::len word) = bs"
  using assms nat_le_le_nat [of bs] by (simp add: mem_store_nat_le unat_mem_load)

lemma mem_load_store:
  assumes "8 * n = LENGTH('a)"
  shows "mem_load (mem_store n v) = (v :: 'a::len word)"
proof -
  have "8 \<le> LENGTH('a)" using assms len_gt_0 [where ?'a = 'a] by arith
  moreover have "unat v < 256 ^ n"
    using unsigned_less [of v, where ?'a = nat] assms [symmetric] by (simp add: power_mult)
  ultimately show ?thesis
    using assms by (simp add: word_unat_eq_iff unat_mem_load mem_store_nat_le)
qed

lemma list_4: "length xs = 4 \<Longrightarrow> \<exists>a b c d. xs = [a, b, c, d]"
  by (auto simp: eval_nat_numeral length_Suc_conv)

lemma list_8: "length xs = 8 \<Longrightarrow> \<exists>a b c d e f g h. xs = [a, b, c, d, e, f, g, h]"
  by (auto simp: eval_nat_numeral length_Suc_conv)

text \<open>The loads and stores read and write little- and big-endian numbers.\<close>

lemma CRYPTO_loads:
  assumes "length bs = 4" "length cs = 8"
  shows "unat (CRYPTO_load_u32_le bs) = le_nat bs" "unat (CRYPTO_load_u32_be bs) = be_nat bs"
    "unat (CRYPTO_load_u64_le cs) = le_nat cs" "unat (CRYPTO_load_u64_be cs) = be_nat cs"
proof -
  obtain a b c d where bs: "bs = [a, b, c, d]" using assms(1) list_4 by blast
  obtain s t u v w x y z where cs: "cs = [s, t, u, v, w, x, y, z]" using assms(2) list_8 by blast
  show "unat (CRYPTO_load_u32_le bs) = le_nat bs" "unat (CRYPTO_load_u64_le cs) = le_nat cs"
    using assms by (simp_all add: CRYPTO_load_u32_le_def CRYPTO_load_u64_le_def unat_mem_load)
  show "unat (CRYPTO_load_u32_be bs) = be_nat bs"
    using unat_mem_load [of "rev bs", where ?'a = 32] CRYPTO_bswap4_load [of a b c d]
    by (simp add: CRYPTO_load_u32_be_def bs be_nat_def)
  show "unat (CRYPTO_load_u64_be cs) = be_nat cs"
    using unat_mem_load [of "rev cs", where ?'a = 64] CRYPTO_bswap8_load [of s t u v w x y z]
    by (simp add: CRYPTO_load_u64_be_def cs be_nat_def)
qed

lemma length_mem_store [simp]: "length (mem_store n v) = n"
  by (induction n arbitrary: v) (auto simp: mem_store.simps)

lemma CRYPTO_store_u32_be_eq: "CRYPTO_store_u32_be v = nat_be 4 (unat v)"
proof -
  obtain a b c d where l: "mem_store 4 v = [a, b, c, d]"
    using list_4 [of "mem_store 4 v"] by auto
  then have "v = mem_load [a, b, c, d]"
    using mem_load_store [of 4 v] by simp
  then have "mem_store 4 (CRYPTO_bswap4 v) = [d, c, b, a]"
    by (simp add: CRYPTO_bswap4_load mem_store_load)
  also have "\<dots> = rev (mem_store 4 v)" by (simp add: l)
  finally show ?thesis by (simp add: CRYPTO_store_u32_be_def nat_be_def mem_store_nat_le)
qed

lemma CRYPTO_store_u64_be_eq: "CRYPTO_store_u64_be v = nat_be 8 (unat v)"
proof -
  obtain a b c d e f g h where l: "mem_store 8 v = [a, b, c, d, e, f, g, h]"
    using list_8 [of "mem_store 8 v"] by auto
  then have "v = mem_load [a, b, c, d, e, f, g, h]"
    using mem_load_store [of 8 v] by simp
  then have "mem_store 8 (CRYPTO_bswap8 v) = [h, g, f, e, d, c, b, a]"
    by (simp add: CRYPTO_bswap8_load mem_store_load)
  also have "\<dots> = rev (mem_store 8 v)" by (simp add: l)
  finally show ?thesis by (simp add: CRYPTO_store_u64_be_def nat_be_def mem_store_nat_le)
qed

section \<open>Rotations and carries\<close>

lemma CRYPTO_rot_u32_eq:
  assumes "s < 32"
  shows "CRYPTO_rotl_u32 v s = word_rotl s v" "CRYPTO_rotr_u32 v s = word_rotr s v"
  using assms neg_and_mask [of s 5] shifts_word_rotl [of s v] shifts_word_rotr [of s v]
  by (simp_all add: CRYPTO_rotl_u32_def CRYPTO_rotr_u32_def mask_numeral split: if_splits)

lemma CRYPTO_rot_u64_eq:
  assumes "s < 64"
  shows "CRYPTO_rotl_u64 v s = word_rotl s v" "CRYPTO_rotr_u64 v s = word_rotr s v"
  using assms neg_and_mask [of s 6] shifts_word_rotl [of s v] shifts_word_rotr [of s v]
  by (simp_all add: CRYPTO_rotl_u64_def CRYPTO_rotr_u64_def mask_numeral split: if_splits)

lemma CRYPTO_addc_u64_exact:
  assumes "carry \<le> 1" and "CRYPTO_addc_u64 x y carry = (r, c)"
  shows "unat r + 2 ^ 64 * unat c = unat x + unat y + unat carry" "c \<le> 1"
  using assms unsigned_less [of x, where ?'a = nat] unsigned_less [of y, where ?'a = nat]
  by (auto simp: word_less_nat_alt unat_plus_if' word_le_nat_alt CRYPTO_addc_u64_def Let_def
      split: if_splits)

lemma word_le_1_cases:
  fixes b :: u64
  assumes "b \<le> 1"
  obtains "b = 0" | "b = 1"
proof -
  have "unat b = 0 \<or> unat b = 1" using assms by (auto simp: word_le_nat_alt)
  then have "b = 0 \<or> b = 1" by (metis unat_eq_zero unat_1 word_unat_eq_iff)
  then show ?thesis using that by blast
qed

lemma CRYPTO_subc_u64_exact:
  assumes "borrow \<le> 1" and "CRYPTO_subc_u64 x y borrow = (r, c)"
  shows "unat r + unat y + unat borrow = unat x + 2 ^ 64 * unat c" "c \<le> 1"
proof -
  have rc: "r = x - y - borrow" "c = of_bool (x < y) OR (of_bool (x = y) AND borrow)"
    using assms(2) by (simp_all add: CRYPTO_subc_u64_def)
  have bounds: "unat x < 2 ^ 64" "unat y < 2 ^ 64"
    using unsigned_less [of x, where ?'a = nat] unsigned_less [of y, where ?'a = nat] by simp_all
  show "unat r + unat y + unat borrow = unat x + 2 ^ 64 * unat c"
  proof (cases rule: word_le_1_cases [OF assms(1)])
    case 1
    then show ?thesis using bounds
      by (cases "x < y") (auto simp: rc unat_sub_if' word_less_nat_alt)
  next
    case 2
    moreover have "x \<noteq> y \<Longrightarrow> unat x \<noteq> unat y" by (simp add: word_unat_eq_iff)
    ultimately show ?thesis using bounds
      by (cases "x < y"; cases "x = y")
        (auto simp: rc unat_sub_if' word_less_nat_alt unsigned_minus_1_eq_mask mask_eq_exp_minus_1)
  qed
  show "c \<le> 1"
    by (cases rule: word_le_1_cases [OF assms(1)]; cases "x < y"; cases "x = y") (simp_all add: rc)
qed

text \<open>The portable carry computation agrees with the one over 128-bit integers.\<close>

lemma CRYPTO_addc_u64_uint128_exact:
  assumes "carry \<le> 1" and "CRYPTO_addc_u64_uint128 x y carry = (r, c)"
  shows "unat r + 2 ^ 64 * unat c = unat x + unat y + unat carry"
proof -
  define t :: "128 word" where "t = ucast carry + (ucast x + ucast y)"
  have "unat carry \<le> 1" using assms(1) by (simp add: word_le_nat_alt)
  moreover have "unat x < 2 ^ 64" "unat y < 2 ^ 64"
    using unsigned_less [of x, where ?'a = nat] unsigned_less [of y, where ?'a = nat] by simp_all
  ultimately have t: "unat t = unat carry + (unat x + unat y)" and lt: "unat t < 2 ^ 65"
    by (simp_all add: t_def unat_word_ariths unsigned_ucast_eq take_bit_eq_mod)
  have "r = ucast t" "c = ucast (drop_bit 64 t)"
    using assms(2) by (simp_all add: CRYPTO_addc_u64_uint128_def t_def Let_def)
  moreover have "unat (drop_bit 64 t) = unat t div 2 ^ 64"
    unfolding unat_drop_bit_eq by (simp add: drop_bit_eq_div)
  moreover have "unat t div 2 ^ 64 < 2 ^ 64" using lt by (simp add: less_mult_imp_div_less)
  ultimately have "unat r = unat t mod 2 ^ 64" "unat c = unat t div 2 ^ 64"
    by (simp_all add: unsigned_ucast_eq take_bit_eq_mod)
  then show ?thesis using t by (metis add.assoc add.commute mod_mult_div_eq)
qed

end
