(* ===== verification/Mem.thy ===== *)
theory Mem
  imports ConstTime
begin

text \<open>
  The memory and string helpers of \<open>crypto/mem.c\<close> that the byte-string and container code
  calls. Whether the system allocator serves a request is the parameter \<open>malloc_ok\<close>, a
  predicate on the number of bytes; freshly allocated bytes hold the arbitrary value \<open>fill\<close>.
  A C string is the list of its bytes including the terminator; reading past the end of the
  list is \<open>None\<close>.
\<close>

unbundle bit_operations_syntax

type_synonym malloc = "nat \<Rightarrow> bool"

abbreviation (input) OPENSSL_MALLOC_PREFIX :: nat where "OPENSSL_MALLOC_PREFIX \<equiv> 8"

text \<open>
  An allocation succeeds or fails by the size asked for. A modelled function takes the \<open>malloc\<close> in force for its call, so
  within one call requests of the same size have the same outcome; \<open>obj_add_object\<close>, which allocates several blocks of the
  same size, takes one for each.
\<close>

definition OPENSSL_malloc :: "malloc \<Rightarrow> nat \<Rightarrow> bool" where
  "OPENSSL_malloc malloc_ok sz =
     (if size_add sz OPENSSL_MALLOC_PREFIX < sz then False
      else malloc_ok (size_add sz OPENSSL_MALLOC_PREFIX))"

definition OPENSSL_zalloc :: "malloc \<Rightarrow> nat \<Rightarrow> bytes option" where
  "OPENSSL_zalloc malloc_ok sz =
     (if OPENSSL_malloc malloc_ok sz then Some (replicate sz 0) else None)"

definition OPENSSL_calloc :: "malloc \<Rightarrow> nat \<Rightarrow> nat \<Rightarrow> bytes option" where
  "OPENSSL_calloc malloc_ok num sz =
     (if sz \<noteq> 0 \<and> num > SIZE_MAX div sz then None
      else OPENSSL_zalloc malloc_ok (size_mul num sz))"

text \<open>The new block starts with the old contents, cut to the new size.\<close>

definition OPENSSL_realloc :: "malloc \<Rightarrow> 'a \<Rightarrow> 'a list \<Rightarrow> nat \<Rightarrow> nat \<Rightarrow> 'a list option" where
  "OPENSSL_realloc malloc_ok fill old elem_size new_num =
     (if OPENSSL_malloc malloc_ok (new_num * elem_size)
      then Some (take new_num old @ replicate (new_num - length old) fill) else None)"

definition CRYPTO_memcmp :: "bytes \<Rightarrow> bytes \<Rightarrow> nat \<Rightarrow> u8" where
  "CRYPTO_memcmp a b len = foldl (\<lambda>x i. x OR (a ! i XOR b ! i)) 0 [0..<len]"

definition OPENSSL_hash32 :: "bytes \<Rightarrow> u32" where
  "OPENSSL_hash32 inp = foldl (\<lambda>h b. (h XOR ucast b) * 16777619) 2166136261 inp"

fun OPENSSL_strnlen :: "bytes \<Rightarrow> nat \<Rightarrow> nat option" where
  "OPENSSL_strnlen s 0 = Some 0"
| "OPENSSL_strnlen [] (Suc len) = None"
| "OPENSSL_strnlen (c # s) (Suc len) =
     (if c = 0 then Some 0 else map_option Suc (OPENSSL_strnlen s len))"

definition OPENSSL_isalpha :: "int \<Rightarrow> bool" where
  "OPENSSL_isalpha c \<longleftrightarrow> (c \<ge> 97 \<and> c \<le> 122) \<or> (c \<ge> 65 \<and> c \<le> 90)"

definition OPENSSL_isdigit :: "int \<Rightarrow> bool" where
  "OPENSSL_isdigit c \<longleftrightarrow> c \<ge> 48 \<and> c \<le> 57"

definition OPENSSL_isxdigit :: "int \<Rightarrow> bool" where
  "OPENSSL_isxdigit c \<longleftrightarrow> OPENSSL_isdigit c \<or> (c \<ge> 97 \<and> c \<le> 102) \<or> (c \<ge> 65 \<and> c \<le> 70)"

definition OPENSSL_fromxdigit :: "int \<Rightarrow> u8 option" where
  "OPENSSL_fromxdigit c =
     (if OPENSSL_isdigit c then Some (of_int (c - 48))
      else if 97 \<le> c \<and> c \<le> 102 then Some (of_int (c - 97 + 10))
      else if 65 \<le> c \<and> c \<le> 70 then Some (of_int (c - 65 + 10))
      else None)"

definition OPENSSL_isalnum :: "int \<Rightarrow> bool" where
  "OPENSSL_isalnum c \<longleftrightarrow> OPENSSL_isalpha c \<or> OPENSSL_isdigit c"

definition OPENSSL_tolower :: "int \<Rightarrow> int" where
  "OPENSSL_tolower c = (if c \<ge> 65 \<and> c \<le> 90 then c + (97 - 65) else c)"

definition OPENSSL_isspace :: "int \<Rightarrow> bool" where
  "OPENSSL_isspace c \<longleftrightarrow> c = 9 \<or> c = 10 \<or> c = 11 \<or> c = 12 \<or> c = 13 \<or> c = 32"

text \<open>\<open>char\<close> is signed on the modelled targets, so a byte of a string is read with \<open>sint\<close>.\<close>

fun OPENSSL_strcasecmp :: "bytes \<Rightarrow> bytes \<Rightarrow> int option" where
  "OPENSSL_strcasecmp (a # as) (b # bs) =
     (let aa = OPENSSL_tolower (sint a); bb = OPENSSL_tolower (sint b)
      in if aa < bb then Some (- 1) else if aa > bb then Some 1
         else if aa = 0 then Some 0 else OPENSSL_strcasecmp as bs)"
| "OPENSSL_strcasecmp _ _ = None"

fun OPENSSL_strncasecmp :: "bytes \<Rightarrow> bytes \<Rightarrow> nat \<Rightarrow> int option" where
  "OPENSSL_strncasecmp a b 0 = Some 0"
| "OPENSSL_strncasecmp (a # as) (b # bs) (Suc n) =
     (let aa = OPENSSL_tolower (sint a); bb = OPENSSL_tolower (sint b)
      in if aa < bb then Some (- 1) else if aa > bb then Some 1
         else if aa = 0 then Some 0 else OPENSSL_strncasecmp as bs n)"
| "OPENSSL_strncasecmp _ _ (Suc n) = None"

text \<open>\<open>OPENSSL_strndup\<close> returns the new string, terminator included.\<close>

definition OPENSSL_strndup :: "malloc \<Rightarrow> bytes \<Rightarrow> nat \<Rightarrow> bytes option" where
  "OPENSSL_strndup malloc_ok str sz =
     (case OPENSSL_strnlen str sz of None \<Rightarrow> None
      | Some sz \<Rightarrow>
          if size_add sz 1 < sz then None
          else if OPENSSL_malloc malloc_ok (size_add sz 1) then Some (take sz str @ [0])
          else None)"

definition OPENSSL_memdup :: "malloc \<Rightarrow> bytes \<Rightarrow> bytes option" where
  "OPENSSL_memdup malloc_ok data =
     (if length data = 0 then None
      else if OPENSSL_malloc malloc_ok (length data) then Some data else None)"

text \<open>\<open>memcmp\<close> orders by the first differing byte, as an unsigned char.\<close>

fun memcmp :: "bytes \<Rightarrow> bytes \<Rightarrow> int" where
  "memcmp (a # as) (b # bs) = (if a = b then memcmp as bs else if a < b then - 1 else 1)"
| "memcmp _ _ = 0"

text \<open>\<open>memchr\<close> returns the index of the first occurrence, \<open>None\<close> for \<open>NULL\<close>.\<close>

fun OPENSSL_memchr :: "bytes \<Rightarrow> u8 \<Rightarrow> nat option" where
  "OPENSSL_memchr [] c = None"
| "OPENSSL_memchr (b # s) c = (if b = c then Some 0 else map_option Suc (OPENSSL_memchr s c))"

section \<open>Lemmas\<close>

lemma OPENSSL_memchr_None: "OPENSSL_memchr s c = None \<longleftrightarrow> c \<notin> set s"
  by (induction s) auto

lemma OPENSSL_memchr_Some:
  "OPENSSL_memchr s c = Some i \<longleftrightarrow> i < length s \<and> s ! i = c \<and> c \<notin> set (take i s)"
proof (induction s arbitrary: i)
  case (Cons b s)
  then show ?case by (cases i) auto
qed simp

lemma foldl_or_eq_0:
  "foldl (\<lambda>x i. x OR f i) (x0 :: u8) is = 0 \<longleftrightarrow> x0 = 0 \<and> (\<forall>i \<in> set is. f i = 0)"
  by (induction "is" arbitrary: x0) auto

lemma CRYPTO_memcmp_eq_0:
  assumes "len \<le> length a" "len \<le> length b"
  shows "CRYPTO_memcmp a b len = 0 \<longleftrightarrow> take len a = take len b"
  using assms by (auto simp: CRYPTO_memcmp_def foldl_or_eq_0 list_eq_iff_nth_eq)

lemma OPENSSL_strnlen_spec:
  "OPENSSL_strnlen s n = Some k \<Longrightarrow> k \<le> n \<and> k \<le> length s \<and> (\<forall>b \<in> set (take k s). b \<noteq> 0)
     \<and> (k < n \<longrightarrow> k < length s \<and> s ! k = 0)"
  by (induction s n arbitrary: k rule: OPENSSL_strnlen.induct) (auto split: if_splits)

lemma OPENSSL_fromxdigit_defined: "OPENSSL_fromxdigit c \<noteq> None \<longleftrightarrow> OPENSSL_isxdigit c"
  by (auto simp: OPENSSL_fromxdigit_def OPENSSL_isxdigit_def OPENSSL_isdigit_def)

end
