(* ===== verification/Bytestring.thy ===== *)
theory Bytestring
  imports Mem
begin

text \<open>
  The first half of \<open>crypto/bytestring/cbs.c\<close>: a \<open>CBS\<close> is a pointer into a buffer and a
  length, modelled as the list of the bytes it still covers. A C function that takes a
  \<open>CBS *\<close> and returns one or zero is a reader: it maps the \<open>CBS\<close> to the value stored
  in the out-parameter (\<open>None\<close> when it returns zero) and to the \<open>CBS\<close> afterwards, which the
  code may have advanced on failure too. \<open>rd_bind\<close> is the sequencing
  \<open>if (!f(cbs, &x)) return 0; ...\<close>.
\<close>

unbundle bit_operations_syntax

type_synonym CBS = bytes
type_synonym 'a reader = "CBS \<Rightarrow> 'a option \<times> CBS"

section \<open>Readers\<close>

definition rd_return :: "'a \<Rightarrow> 'a reader" where
  "rd_return x cbs = (Some x, cbs)"

definition rd_fail :: "'a reader" where
  "rd_fail cbs = (None, cbs)"

definition rd_bind :: "'a reader \<Rightarrow> ('a \<Rightarrow> 'b reader) \<Rightarrow> 'b reader" where
  "rd_bind m f cbs = (case m cbs of (None, cbs') \<Rightarrow> (None, cbs') | (Some x, cbs') \<Rightarrow> f x cbs')"

section \<open>Definitions\<close>

definition cbs_get :: "nat \<Rightarrow> bytes reader" where
  "cbs_get n cbs = (if length cbs < n then (None, cbs) else (Some (take n cbs), drop n cbs))"

definition CBS_skip :: "nat \<Rightarrow> unit reader" where
  "CBS_skip len = rd_bind (cbs_get len) (\<lambda>_. rd_return ())"

text \<open>The result is the return value, \<open>*out_ptr\<close> (\<open>None\<close> for \<open>NULL\<close>) and \<open>*out_len\<close>.\<close>

definition CBS_stow :: "malloc \<Rightarrow> CBS \<Rightarrow> bool \<times> bytes option \<times> nat" where
  "CBS_stow malloc_ok cbs =
     (if length cbs = 0 then (True, None, 0)
      else case OPENSSL_memdup malloc_ok cbs of
        None \<Rightarrow> (False, None, 0)
      | Some p \<Rightarrow> (True, Some p, length cbs))"

definition CBS_strdup :: "malloc \<Rightarrow> CBS \<Rightarrow> bytes option" where
  "CBS_strdup malloc_ok cbs = OPENSSL_strndup malloc_ok cbs (length cbs)"

definition CBS_contains_zero_byte :: "CBS \<Rightarrow> bool" where
  "CBS_contains_zero_byte cbs \<longleftrightarrow> OPENSSL_memchr cbs 0 \<noteq> None"

definition CBS_mem_equal :: "CBS \<Rightarrow> bytes \<Rightarrow> bool" where
  "CBS_mem_equal cbs data \<longleftrightarrow>
     (if length data \<noteq> length cbs then False else CRYPTO_memcmp cbs data (length data) = 0)"

definition cbs_get_u :: "nat \<Rightarrow> u64 reader" where
  "cbs_get_u len =
     rd_bind (cbs_get len)
       (\<lambda>data. rd_return (foldl (\<lambda>result b. push_bit 8 result OR ucast b) 0 data))"

definition CBS_get_u8 :: "u8 reader" where
  "CBS_get_u8 = rd_bind (cbs_get 1) (\<lambda>v. rd_return (hd v))"

definition CBS_get_u16 :: "u16 reader" where
  "CBS_get_u16 = rd_bind (cbs_get_u 2) (\<lambda>v. rd_return (ucast v))"

definition CBS_get_u16le :: "u16 reader" where
  "CBS_get_u16le = rd_bind CBS_get_u16 (\<lambda>out. rd_return (CRYPTO_bswap2 out))"

definition CBS_get_u24 :: "u32 reader" where
  "CBS_get_u24 = rd_bind (cbs_get_u 3) (\<lambda>v. rd_return (ucast v))"

definition CBS_get_u32 :: "u32 reader" where
  "CBS_get_u32 = rd_bind (cbs_get_u 4) (\<lambda>v. rd_return (ucast v))"

definition CBS_get_u32le :: "u32 reader" where
  "CBS_get_u32le = rd_bind CBS_get_u32 (\<lambda>out. rd_return (CRYPTO_bswap4 out))"

definition CBS_get_u64 :: "u64 reader" where
  "CBS_get_u64 = cbs_get_u 8"

definition CBS_get_u64le :: "u64 reader" where
  "CBS_get_u64le = rd_bind (cbs_get_u 8) (\<lambda>out. rd_return (CRYPTO_bswap8 out))"

definition CBS_get_last_u8 :: "u8 reader" where
  "CBS_get_last_u8 cbs =
     (if length cbs = 0 then (None, cbs)
      else (Some (cbs ! (length cbs - 1)), take (length cbs - 1) cbs))"

definition CBS_get_bytes :: "nat \<Rightarrow> CBS reader" where
  "CBS_get_bytes len = rd_bind (cbs_get len) (\<lambda>v. rd_return v)"

definition CBS_copy_bytes :: "nat \<Rightarrow> bytes reader" where
  "CBS_copy_bytes len = rd_bind (cbs_get len) (\<lambda>v. rd_return v)"

definition cbs_get_length_prefixed :: "nat \<Rightarrow> CBS reader" where
  "cbs_get_length_prefixed len_len =
     rd_bind (cbs_get_u len_len) (\<lambda>len. CBS_get_bytes (unat len))"

definition CBS_get_u8_length_prefixed :: "CBS reader" where
  "CBS_get_u8_length_prefixed = cbs_get_length_prefixed 1"

definition CBS_get_u16_length_prefixed :: "CBS reader" where
  "CBS_get_u16_length_prefixed = cbs_get_length_prefixed 2"

definition CBS_get_u24_length_prefixed :: "CBS reader" where
  "CBS_get_u24_length_prefixed = cbs_get_length_prefixed 3"

definition CBS_get_until_first :: "u8 \<Rightarrow> CBS reader" where
  "CBS_get_until_first c cbs =
     (case OPENSSL_memchr cbs c of None \<Rightarrow> (None, cbs)
      | Some split \<Rightarrow> CBS_get_bytes split cbs)"

text \<open>
  The loop of \<open>CBS_get_u64_decimal\<close>: \<open>v\<close> and \<open>seen_digit\<close> are its variables; it ends
  at the first byte that is not a digit.
\<close>

abbreviation (input) UINT64_MAX :: u64 where "UINT64_MAX \<equiv> - 1"

fun cbs_decimal_loop :: "u64 \<Rightarrow> bool \<Rightarrow> u64 reader" where
  "cbs_decimal_loop v seen_digit [] = (if seen_digit then Some v else None, [])"
| "cbs_decimal_loop v seen_digit (c # cbs) =
     (if \<not> OPENSSL_isdigit (uint c) then (if seen_digit then Some v else None, c # cbs)
      else if (v = 0 \<and> seen_digit) \<or> v > UINT64_MAX div 10 \<or> v * 10 > UINT64_MAX - ucast (c - 48)
      then (None, cbs)
      else cbs_decimal_loop (v * 10 + ucast (c - 48)) True cbs)"

definition CBS_get_u64_decimal :: "u64 reader" where
  "CBS_get_u64_decimal = cbs_decimal_loop 0 False"

section \<open>Readers consume a prefix\<close>

lemma rd_bind_simps [reader_simps]:
  "m cbs = (None, cbs') \<Longrightarrow> rd_bind m f cbs = (None, cbs')"
  "m cbs = (Some x, cbs') \<Longrightarrow> rd_bind m f cbs = f x cbs'"
  by (simp_all add: rd_bind_def)

lemma rd_bind_Some_iff [reader_simps]:
  "rd_bind m f cbs = (Some y, cbs'') \<longleftrightarrow>
     (\<exists>x cbs'. m cbs = (Some x, cbs') \<and> f x cbs' = (Some y, cbs''))"
  by (auto simp: rd_bind_def split: prod.splits option.splits)

lemma rd_return_iff [reader_simps]: "rd_return x cbs = (r, cbs') \<longleftrightarrow> r = Some x \<and> cbs' = cbs"
  by (auto simp: rd_return_def)

lemma rd_fail_iff [reader_simps]: "rd_fail cbs = (r, cbs') \<longleftrightarrow> r = None \<and> cbs' = cbs"
  by (auto simp: rd_fail_def)

text \<open>The bytes left after a reader are a suffix of the bytes before it, whatever it returns.\<close>

definition rd_consumes :: "'a reader \<Rightarrow> bool" where
  "rd_consumes m \<longleftrightarrow> (\<forall>cbs r cbs'. m cbs = (r, cbs') \<longrightarrow> suffix cbs' cbs)"

lemma rd_consumesI [intro?]:
  "(\<And>cbs r cbs'. m cbs = (r, cbs') \<Longrightarrow> suffix cbs' cbs) \<Longrightarrow> rd_consumes m"
  by (simp add: rd_consumes_def)

lemma rd_consumesD: "rd_consumes m \<Longrightarrow> m cbs = (r, cbs') \<Longrightarrow> suffix cbs' cbs"
  by (simp add: rd_consumes_def)

lemma rd_consumes_return [intro]: "rd_consumes (rd_return x)"
  by (simp add: rd_consumes_def rd_return_def)

lemma rd_consumes_fail [intro]: "rd_consumes rd_fail"
  by (simp add: rd_consumes_def rd_fail_def)

lemma rd_consumes_bind [intro]:
  assumes "rd_consumes m" "\<And>x. rd_consumes (f x)"
  shows "rd_consumes (rd_bind m f)"
proof
  fix cbs r cbs' assume run: "rd_bind m f cbs = (r, cbs')"
  obtain x cbs1 where m: "m cbs = (x, cbs1)" by fastforce
  with assms(1) have "suffix cbs1 cbs" by (rule rd_consumesD)
  moreover have "suffix cbs' cbs1"
    using run m rd_consumesD [OF assms(2)] by (cases x) (auto simp: rd_bind_def)
  ultimately show "suffix cbs' cbs" by (rule suffix_order.trans [rotated])
qed

lemma rd_consumes_cbs_get [intro]: "rd_consumes (cbs_get n)"
  by (auto simp: rd_consumes_def cbs_get_def suffix_drop split: if_splits)

lemma cbs_get_append [reader_simps]:
  "length xs = n \<Longrightarrow> cbs_get n (xs @ ys) = (Some xs, ys)"
  by (simp add: cbs_get_def)

lemma cbs_get_Some_iff [reader_simps]:
  "cbs_get n cbs = (Some xs, ys) \<longleftrightarrow> cbs = xs @ ys \<and> length xs = n"
  by (auto simp: cbs_get_def split: if_splits)

section \<open>Codecs\<close>

text \<open>
  The contract between a serialised form and its reader, shared by every encoding of the
  library: \<open>dec\<close> reads back what \<open>enc\<close> writes and leaves the rest, and accepts nothing
  else. It follows that encodings are unambiguous: no encoding is a proper prefix of
  another, and reading a sequence gives back the values written.
\<close>

locale codec =
  fixes enc :: "'a \<Rightarrow> bytes" and dec :: "'a reader" and valid :: "'a \<Rightarrow> bool"
  assumes dec_enc: "valid x \<Longrightarrow> dec (enc x @ rest) = (Some x, rest)"
    and enc_dec: "dec cbs = (Some x, rest) \<Longrightarrow> valid x \<and> cbs = enc x @ rest"
begin

lemma dec_iff: "dec cbs = (Some x, rest) \<longleftrightarrow> valid x \<and> cbs = enc x @ rest"
  using dec_enc enc_dec by blast

lemma unambiguous:
  assumes "valid x" "valid y" "enc x @ r = enc y @ s"
  shows "x = y \<and> r = s"
proof -
  have "(Some x, r) = dec (enc x @ r)" by (simp only: dec_enc [OF assms(1)])
  also have "\<dots> = (Some y, s)" by (simp only: assms(3) dec_enc [OF assms(2)])
  finally show ?thesis by simp
qed

lemma prefix_free:
  assumes "valid x" "valid y" "prefix (enc x) (enc y)"
  shows "x = y"
proof -
  obtain zs where "enc y = enc x @ zs" using assms(3) by (auto simp: prefix_def)
  with unambiguous [OF assms(1,2), of zs "[]"] show ?thesis by simp
qed

lemma enc_inj: "inj_on enc {x. valid x}"
  using unambiguous [of _ _ "[]" "[]"] by (auto simp: inj_on_def)

text \<open>Reading while the input is not empty, as the loops over the elements of a sequence do.\<close>

lemma concat_unambiguous:
  assumes "list_all valid xs" "list_all valid ys" "\<And>x. valid x \<Longrightarrow> enc x \<noteq> []"
    and "concat (map enc xs) = concat (map enc ys)"
  shows "xs = ys"
  using assms(1,2,4)
proof (induction xs arbitrary: ys)
  case Nil
  then show ?case using assms(3) by (cases ys) auto
next
  case (Cons x xs)
  show ?case
  proof (cases ys)
    case Nil
    with Cons.prems assms(3) [of x] show ?thesis by simp
  next
    case (Cons y ys')
    with Cons.prems unambiguous [of x y "concat (map enc xs)" "concat (map enc ys')"] Cons.IH [of ys']
    show ?thesis by simp
  qed
qed

end

section \<open>Integers\<close>

lemma push_or_u8:
  fixes r :: "'a::len word"
  assumes "8 \<le> LENGTH('a)"
  shows "push_bit 8 r OR ucast (b :: u8) = 256 * r + ucast b"
proof -
  have "push_bit 8 r AND ucast b = 0"
    using assms by (auto simp: bit_eq_iff bit_simps dest: bit_imp_le_length)
  then show ?thesis by (simp add: disjunctive_add_eq_or [symmetric] push_bit_eq_mult mult.commute)
qed

lemma foldl_be_u64:
  "foldl (\<lambda>r b. push_bit 8 r OR ucast b) (of_nat k :: u64) bs
     = of_nat (k * 256 ^ length bs + be_nat bs)"
proof (induction bs arbitrary: k)
  case (Cons b bs)
  have "push_bit 8 (of_nat k :: u64) OR ucast b = of_nat (256 * k + unat b)"
    by (simp add: push_or_u8)
  then have "foldl (\<lambda>r b. push_bit 8 r OR ucast b) (of_nat k :: u64) (b # bs)
      = of_nat ((256 * k + unat b) * 256 ^ length bs + be_nat bs)"
    by (simp only: foldl.simps Cons)
  then show ?case by (simp add: be_nat_Cons algebra_simps)
qed simp

lemma cbs_get_u_iff:
  "cbs_get_u n cbs = (Some v, rest) \<longleftrightarrow>
     (\<exists>bs. cbs = bs @ rest \<and> length bs = n \<and> v = of_nat (be_nat bs))"
  using foldl_be_u64 [of 0] by (auto simp: cbs_get_u_def reader_simps)

lemma cbs_get_u_codec:
  assumes "n \<le> 8"
  shows "cbs_get_u n cbs = (Some v, rest) \<longleftrightarrow>
    unat v < 256 ^ n \<and> cbs = nat_be n (unat v) @ rest"
proof -
  have fits: "be_nat bs < 2 ^ 64" if "length bs = n" for bs
  proof -
    have "be_nat bs < 256 ^ n" using be_nat_bound [of bs] that by simp
    also have "(256 :: nat) ^ n \<le> 256 ^ 8" using assms by (rule power_increasing) simp
    finally show ?thesis by simp
  qed
  have "v = of_nat (be_nat bs) \<longleftrightarrow> unat v = be_nat bs" if "length bs = n" for bs
    using fits [OF that] by (auto simp: word_unat_eq_iff unat_of_nat)
  then have "cbs_get_u n cbs = (Some v, rest) \<longleftrightarrow>
      (\<exists>bs. cbs = bs @ rest \<and> length bs = n \<and> unat v = be_nat bs)"
    by (auto simp: cbs_get_u_iff)
  also have "\<dots> \<longleftrightarrow> unat v < 256 ^ n \<and> cbs = nat_be n (unat v) @ rest"
    by (metis be_nat_bound be_nat_nat_be length_nat_be mod_less nat_be_be_nat)
  finally show ?thesis .
qed

lemma unat_ucast_u64:
  fixes v :: u64
  assumes "8 * n \<le> LENGTH('a)" "unat v < 256 ^ n"
  shows "unat (ucast v :: 'a::len word) = unat v"
proof -
  have "unat v < 2 ^ (8 * n)" using assms(2) by (simp add: power_mult)
  also have "\<dots> \<le> 2 ^ LENGTH('a)" using assms(1) by simp
  finally show ?thesis by (simp add: unsigned_ucast_eq take_bit_eq_mod)
qed

lemma cbs_get_ucast_iff:
  fixes w :: "'a::len word"
  assumes "8 * n \<le> LENGTH('a)" "LENGTH('a) \<le> 64"
  shows "rd_bind (cbs_get_u n) (\<lambda>v. rd_return (ucast v)) cbs = (Some w, rest) \<longleftrightarrow>
    unat w < 256 ^ n \<and> cbs = nat_be n (unat w) @ rest"
proof -
  have n: "n \<le> 8" using assms by simp
  have "unat w < 2 ^ 64"
    by (rule order_less_le_trans [OF unsigned_less power_increasing [OF assms(2)]]) simp
  then have up: "unat (ucast w :: u64) = unat w" by (simp add: unsigned_ucast_eq take_bit_eq_mod)
  have down: "(ucast (ucast w :: u64) :: 'a word) = w"
    using assms(2) by (intro bit_word_eqI) (simp add: bit_simps)
  show ?thesis
  proof
    assume "rd_bind (cbs_get_u n) (\<lambda>v. rd_return (ucast v)) cbs = (Some w, rest)"
    then obtain v :: u64 where "unat v < 256 ^ n" "cbs = nat_be n (unat v) @ rest" "w = ucast v"
      using n by (auto simp: reader_simps cbs_get_u_codec)
    then show "unat w < 256 ^ n \<and> cbs = nat_be n (unat w) @ rest"
      using assms(1) by (simp add: unat_ucast_u64)
  next
    assume "unat w < 256 ^ n \<and> cbs = nat_be n (unat w) @ rest"
    then have "cbs_get_u n cbs = (Some (ucast w), rest)" using n up by (simp add: cbs_get_u_codec)
    then show "rd_bind (cbs_get_u n) (\<lambda>v. rd_return (ucast v)) cbs = (Some w, rest)"
      by (simp add: rd_bind_def rd_return_def down)
  qed
qed

lemma CBS_get_u8_simps [simp]:
  "CBS_get_u8 [] = (None, [])" "CBS_get_u8 (b # cbs) = (Some b, cbs)"
  by (simp_all add: CBS_get_u8_def rd_bind_def rd_return_def cbs_get_def)

lemma CBS_get_u8_iff [reader_simps]: "CBS_get_u8 cbs = (Some b, rest) \<longleftrightarrow> cbs = b # rest"
  by (cases cbs) auto

lemma unat_lt_pow256:
  "unat (w :: u16) < 65536" "unat (x :: u32) < 4294967296" "unat (y :: u64) < 18446744073709551616"
  using unsigned_less [of w, where ?'a = nat] unsigned_less [of x, where ?'a = nat]
    unsigned_less [of y, where ?'a = nat] by simp_all

interpretation u8_codec: codec "\<lambda>v. [v]" CBS_get_u8 "\<lambda>v. True"
  by unfold_locales (auto simp: reader_simps)

interpretation u16_codec: codec "\<lambda>v. nat_be 2 (unat v)" CBS_get_u16 "\<lambda>v. True"
  by unfold_locales (simp_all add: CBS_get_u16_def cbs_get_ucast_iff unat_lt_pow256)

interpretation u24_codec: codec "\<lambda>v. nat_be 3 (unat v)" CBS_get_u24 "\<lambda>v. unat v < 256 ^ 3"
  by unfold_locales (simp_all add: CBS_get_u24_def cbs_get_ucast_iff)

interpretation u32_codec: codec "\<lambda>v. nat_be 4 (unat v)" CBS_get_u32 "\<lambda>v. True"
  by unfold_locales (simp_all add: CBS_get_u32_def cbs_get_ucast_iff unat_lt_pow256)

interpretation u64_codec: codec "\<lambda>v. nat_be 8 (unat v)" CBS_get_u64 "\<lambda>v. True"
  by unfold_locales (simp_all add: CBS_get_u64_def cbs_get_u_codec unat_lt_pow256)

text \<open>The little-endian readers swap the bytes of what the big-endian ones read.\<close>

lemma codec_involution:
  assumes "codec enc dec (\<lambda>_. True)" "\<And>x. f (f x) = x"
  shows "codec (\<lambda>x. enc (f x)) (rd_bind dec (\<lambda>v. rd_return (f v))) (\<lambda>_. True)"
proof
  fix x rest show "rd_bind dec (\<lambda>v. rd_return (f v)) (enc (f x) @ rest) = (Some x, rest)"
    using codec.dec_enc [OF assms(1), of "f x" rest] assms(2) by (simp add: rd_bind_def rd_return_def)
next
  fix cbs x rest assume "rd_bind dec (\<lambda>v. rd_return (f v)) cbs = (Some x, rest)"
  then obtain v where "dec cbs = (Some v, rest)" "x = f v" by (auto simp: reader_simps)
  then show "True \<and> cbs = enc (f x) @ rest"
    using codec.enc_dec [OF assms(1), of cbs v rest] assms(2) by simp
qed

lemma mem_load_word:
  fixes v :: "'a::len word"
  assumes "8 * n = LENGTH('a)"
  obtains bs where "length bs = n" "v = mem_load bs" "mem_store n v = bs"
  using mem_load_store [OF assms, of v] by (metis length_mem_store)

lemma CRYPTO_bswap_involution [simp]:
  "CRYPTO_bswap2 (CRYPTO_bswap2 x) = x" "CRYPTO_bswap4 (CRYPTO_bswap4 y) = y"
  "CRYPTO_bswap8 (CRYPTO_bswap8 z) = z"
proof -
  obtain bs where "length bs = 2" "x = mem_load bs" using mem_load_word [of 2 x] by auto
  then show "CRYPTO_bswap2 (CRYPTO_bswap2 x) = x"
    by (auto simp: numeral_2_eq_2 length_Suc_conv CRYPTO_bswap2_load)
  obtain bs where "length bs = 4" "y = mem_load bs" using mem_load_word [of 4 y] by auto
  then show "CRYPTO_bswap4 (CRYPTO_bswap4 y) = y"
    using list_4 [of bs] by (auto simp: CRYPTO_bswap4_load)
  obtain bs where "length bs = 8" "z = mem_load bs" using mem_load_word [of 8 z] by auto
  then show "CRYPTO_bswap8 (CRYPTO_bswap8 z) = z"
    using list_8 [of bs] by (auto simp: CRYPTO_bswap8_load)
qed

interpretation u16le_codec: codec "\<lambda>v. nat_be 2 (unat (CRYPTO_bswap2 v))" CBS_get_u16le "\<lambda>v. True"
  unfolding CBS_get_u16le_def by (rule codec_involution) (rule u16_codec.codec_axioms, simp)

interpretation u32le_codec: codec "\<lambda>v. nat_be 4 (unat (CRYPTO_bswap4 v))" CBS_get_u32le "\<lambda>v. True"
  unfolding CBS_get_u32le_def by (rule codec_involution) (rule u32_codec.codec_axioms, simp)

interpretation u64le_codec: codec "\<lambda>v. nat_be 8 (unat (CRYPTO_bswap8 v))" CBS_get_u64le "\<lambda>v. True"
  unfolding CBS_get_u64le_def
  by (rule codec_involution) (rule u64_codec.codec_axioms [unfolded CBS_get_u64_def], simp)

section \<open>Length-prefixed strings\<close>

lemma CBS_get_bytes_iff [reader_simps]:
  "CBS_get_bytes n cbs = (Some xs, rest) \<longleftrightarrow> cbs = xs @ rest \<and> length xs = n"
  by (simp add: CBS_get_bytes_def reader_simps)

lemma CBS_get_bytes_None: "CBS_get_bytes n cbs = (None, cbs') \<longleftrightarrow> length cbs < n \<and> cbs' = cbs"
  by (auto simp: CBS_get_bytes_def rd_bind_def rd_return_def cbs_get_def)

lemma length_prefixed_codec:
  assumes "n \<le> 8"
  shows "codec (\<lambda>xs. nat_be n (length xs) @ xs) (cbs_get_length_prefixed n)
    (\<lambda>xs. length xs < 256 ^ n \<and> length xs < 2 ^ 64)"
proof
  fix xs rest :: bytes assume len: "length xs < 256 ^ n \<and> length xs < 2 ^ 64"
  then have "unat (of_nat (length xs) :: u64) = length xs" by (simp add: unat_of_nat)
  then have "cbs_get_u n (nat_be n (length xs) @ xs @ rest) = (Some (of_nat (length xs)), xs @ rest)"
    using assms len by (simp add: cbs_get_u_codec)
  then show "cbs_get_length_prefixed n ((nat_be n (length xs) @ xs) @ rest) = (Some xs, rest)"
    using len by (simp add: cbs_get_length_prefixed_def rd_bind_def reader_simps unat_of_nat)
next
  fix cbs xs rest assume "cbs_get_length_prefixed n cbs = (Some xs, rest)"
  then obtain v :: u64
    where "unat v < 256 ^ n" "cbs = nat_be n (unat v) @ xs @ rest" "length xs = unat v"
    using assms by (auto simp: cbs_get_length_prefixed_def reader_simps cbs_get_u_codec)
  then show "(length xs < 256 ^ n \<and> length xs < 2 ^ 64) \<and> cbs = (nat_be n (length xs) @ xs) @ rest"
    using unsigned_less [of v, where ?'a = nat] by simp
qed

interpretation u8_length_prefixed_codec: codec "\<lambda>xs. nat_be 1 (length xs) @ xs"
  CBS_get_u8_length_prefixed "\<lambda>xs. length xs < 256 ^ 1 \<and> length xs < 2 ^ 64"
  unfolding CBS_get_u8_length_prefixed_def by (rule length_prefixed_codec) simp

interpretation u16_length_prefixed_codec: codec "\<lambda>xs. nat_be 2 (length xs) @ xs"
  CBS_get_u16_length_prefixed "\<lambda>xs. length xs < 256 ^ 2 \<and> length xs < 2 ^ 64"
  unfolding CBS_get_u16_length_prefixed_def by (rule length_prefixed_codec) simp

interpretation u24_length_prefixed_codec: codec "\<lambda>xs. nat_be 3 (length xs) @ xs"
  CBS_get_u24_length_prefixed "\<lambda>xs. length xs < 256 ^ 3 \<and> length xs < 2 ^ 64"
  unfolding CBS_get_u24_length_prefixed_def by (rule length_prefixed_codec) simp

section \<open>Decimal numbers\<close>

text \<open>
  \<open>decimal\<close> is the output of \<open>snprintf("%" PRIu64)\<close>: the decimal digits without leading
  zeros. \<open>CBS_get_u64_decimal\<close> accepts exactly these strings, for every 64-bit value.
\<close>

fun decimal :: "nat \<Rightarrow> bytes" where
  "decimal n = (if n < 10 then [of_nat (48 + n)] else decimal (n div 10) @ [of_nat (48 + n mod 10)])"

declare decimal.simps [simp del]

definition digit_val :: "u8 \<Rightarrow> nat" where
  "digit_val c = unat c - 48"

definition decimal_val :: "nat \<Rightarrow> bytes \<Rightarrow> nat" where
  "decimal_val a ds = foldl (\<lambda>a d. 10 * a + digit_val d) a ds"

abbreviation (input) is_digit :: "u8 \<Rightarrow> bool" where "is_digit c \<equiv> OPENSSL_isdigit (uint c)"

lemma isdigit_iff: "is_digit c \<longleftrightarrow> 48 \<le> unat c \<and> unat c \<le> 57"
  unfolding OPENSSL_isdigit_def uint_nat by linarith

lemma decimal_val_simps [simp]:
  "decimal_val a [] = a" "decimal_val a (d # ds) = decimal_val (10 * a + digit_val d) ds"
  by (simp_all add: decimal_val_def)

lemma digit_val_less: "is_digit c \<Longrightarrow> digit_val c < 10"
  by (auto simp: isdigit_iff digit_val_def)

lemma of_nat_digit_val: "is_digit c \<Longrightarrow> of_nat (48 + digit_val c) = c"
  by (simp add: isdigit_iff digit_val_def word_unat_eq_iff)

lemma digit_val_of_nat: "n < 10 \<Longrightarrow> is_digit (of_nat (48 + n)) \<and> digit_val (of_nat (48 + n)) = n"
  by (simp add: isdigit_iff digit_val_def del: of_nat_add)

lemma decimal_step: "0 < a \<Longrightarrow> d < 10 \<Longrightarrow> decimal (10 * a + d) = decimal a @ [of_nat (48 + d)]"
  by (subst decimal.simps) simp

lemma decimal_decimal_val:
  "0 < a \<Longrightarrow> list_all is_digit ds \<Longrightarrow> decimal (decimal_val a ds) = decimal a @ ds"
proof (induction ds arbitrary: a)
  case (Cons d ds)
  from Cons.prems have "decimal (10 * a + digit_val d) = decimal a @ [d]"
    using decimal_step [of a "digit_val d"] digit_val_less [of d] of_nat_digit_val [of d] by simp
  with Cons show ?case by simp
qed simp

lemma decimal_val_ge: "a \<le> decimal_val a ds"
proof (induction ds arbitrary: a)
  case (Cons d ds)
  have "a \<le> 10 * a + digit_val d" by simp
  also have "\<dots> \<le> decimal_val (10 * a + digit_val d) ds" by (rule Cons)
  finally show ?case by simp
qed simp

lemma decimal_split:
  "\<exists>d ds. decimal n = d # ds \<and> is_digit d \<and> list_all is_digit ds \<and> decimal_val (digit_val d) ds = n
     \<and> (digit_val d = 0 \<longrightarrow> ds = [])"
proof (induction n rule: decimal.induct)
  case (1 n)
  show ?case
  proof (cases "n < 10")
    case True
    then show ?thesis using digit_val_of_nat [OF True] by (subst decimal.simps) simp
  next
    case False
    with 1 obtain d ds where IH: "decimal (n div 10) = d # ds" "is_digit d" "list_all is_digit ds"
        "decimal_val (digit_val d) ds = n div 10" "digit_val d = 0 \<longrightarrow> ds = []" by auto
    have "decimal n = d # ds @ [of_nat (48 + n mod 10)]"
      using False IH(1) by (subst decimal.simps) simp
    moreover have "decimal_val (digit_val d) (ds @ [c]) = 10 * (n div 10) + digit_val c" for c
      using IH(4) by (simp add: decimal_val_def)
    moreover have "digit_val d \<noteq> 0" using False IH(4,5) by auto
    ultimately show ?thesis
      using IH digit_val_of_nat [of "n mod 10"] by (auto simp del: of_nat_add)
  qed
qed

definition digits_end :: "bytes \<Rightarrow> bool" where
  "digits_end rest \<longleftrightarrow> (case rest of [] \<Rightarrow> True | c # _ \<Rightarrow> \<not> is_digit c)"

lemma decimal_guard:
  assumes "is_digit c"
  shows "(v > UINT64_MAX div 10 \<or> v * 10 > UINT64_MAX - ucast (c - 48)) \<longleftrightarrow>
      2 ^ 64 \<le> 10 * unat (v :: u64) + digit_val c"
    and "10 * unat v + digit_val c < 2 ^ 64 \<Longrightarrow>
      unat (v * 10 + ucast (c - 48)) = 10 * unat v + digit_val c"
proof -
  have c: "unat (ucast (c - 48) :: u64) = digit_val c" "digit_val c < 10"
    using assms digit_val_less [OF assms]
    by (simp_all add: isdigit_iff digit_val_def unat_sub_if' unsigned_ucast_eq take_bit_eq_mod)
  have b: "unat (UINT64_MAX - ucast (c - 48) :: u64) = 2 ^ 64 - 1 - digit_val c"
    using c by (simp add: unat_sub_if' unsigned_minus_1_eq_mask mask_eq_exp_minus_1)
  have d: "v > UINT64_MAX div 10 \<longleftrightarrow> unat v > 1844674407370955161"
    by (simp add: word_less_nat_alt unat_div unsigned_minus_1_eq_mask mask_eq_exp_minus_1)
  have m: "unat (v * 10) = 10 * unat v" if "\<not> v > UINT64_MAX div 10"
    using that unfolding d by (simp add: unat_word_ariths)
  show "(v > UINT64_MAX div 10 \<or> v * 10 > UINT64_MAX - ucast (c - 48)) \<longleftrightarrow>
      2 ^ 64 \<le> 10 * unat (v :: u64) + digit_val c"
  proof (cases "v > UINT64_MAX div 10")
    case True then show ?thesis unfolding d by simp
  next
    case False
    then show ?thesis using m [OF False] b c(2) by (simp add: word_less_nat_alt) linarith
  qed
  show "10 * unat v + digit_val c < 2 ^ 64 \<Longrightarrow>
      unat (v * 10 + ucast (c - 48)) = 10 * unat v + digit_val c"
    using c by (simp add: unat_word_ariths)
qed

lemma cbs_decimal_loop_iff:
  "v \<noteq> 0 \<Longrightarrow> cbs_decimal_loop v True cbs = (Some w, rest) \<longleftrightarrow>
     (\<exists>ds. cbs = ds @ rest \<and> list_all is_digit ds \<and> digits_end rest \<and> unat w = decimal_val (unat v) ds)"
proof (induction cbs arbitrary: v)
  case Nil
  then show ?case by (auto simp: digits_end_def word_unat_eq_iff)
next
  case (Cons c cbs)
  show ?case
  proof (cases "is_digit c")
    case False
    then have "(\<exists>ds. c # cbs = ds @ rest \<and> list_all is_digit ds \<and> digits_end rest
        \<and> unat w = decimal_val (unat v) ds) \<longleftrightarrow> rest = c # cbs \<and> w = v"
      by (auto simp: digits_end_def Cons_eq_append_conv word_unat_eq_iff)
    with False show ?thesis by auto
  next
    case True
    let ?v = "v * 10 + ucast (c - 48)"
    have split: "(\<exists>ds. c # cbs = ds @ rest \<and> list_all is_digit ds \<and> digits_end rest
          \<and> unat w = decimal_val (unat v) ds) \<longleftrightarrow>
        (\<exists>ds. cbs = ds @ rest \<and> list_all is_digit ds \<and> digits_end rest
          \<and> unat w = decimal_val (10 * unat v + digit_val c) ds)"
      using True by (auto simp: digits_end_def Cons_eq_append_conv)
    show ?thesis
    proof (cases "2 ^ 64 \<le> 10 * unat v + digit_val c")
      case over: True
      have "unat w \<noteq> decimal_val (10 * unat v + digit_val c) ds" for ds
        using over decimal_val_ge [of "10 * unat v + digit_val c" ds] unsigned_less [of w, where ?'a = nat]
        by simp
      with over show ?thesis unfolding split using True decimal_guard(1) [OF True, of v] by auto
    next
      case False
      then have v: "unat ?v = 10 * unat v + digit_val c" using decimal_guard(2) [OF True] by simp
      then have "?v \<noteq> 0" using Cons.prems by (auto simp: word_unat_eq_iff)
      from Cons.IH [OF this] show ?thesis
        unfolding split v using False True Cons.prems decimal_guard(1) [OF True, of v] by auto
    qed
  qed
qed

lemma cbs_decimal_loop_0:
  "cbs_decimal_loop 0 True cbs = (Some w, rest) \<longleftrightarrow> w = 0 \<and> cbs = rest \<and> digits_end rest"
  by (cases cbs) (auto simp: digits_end_def)

lemma CBS_get_u64_decimal_Cons:
  assumes "is_digit d"
  shows "CBS_get_u64_decimal (d # cbs) = cbs_decimal_loop (of_nat (digit_val d)) True cbs"
proof -
  have "(ucast (d - 48) :: u64) = of_nat (digit_val d)"
    using decimal_guard(2) [OF assms, of 0] digit_val_less [OF assms]
    by (simp add: word_unat_eq_iff unat_of_nat)
  then show ?thesis
    using assms digit_val_less [OF assms] decimal_guard(1) [OF assms, of 0]
    by (simp add: CBS_get_u64_decimal_def)
qed

lemma CBS_get_u64_decimal_digits:
  assumes d: "is_digit d"
  shows "CBS_get_u64_decimal (d # cbs) = (Some v, rest) \<longleftrightarrow>
    (\<exists>ds. cbs = ds @ rest \<and> list_all is_digit ds \<and> digits_end rest
       \<and> unat v = decimal_val (digit_val d) ds \<and> (digit_val d = 0 \<longrightarrow> ds = []))"
proof (cases "digit_val d = 0")
  case True
  then show ?thesis by (auto simp: CBS_get_u64_decimal_Cons [OF d] cbs_decimal_loop_0 word_unat_eq_iff)
next
  case False
  have n: "unat (of_nat (digit_val d) :: u64) = digit_val d"
    using digit_val_less [OF d] by (simp add: unat_of_nat)
  with False have "(of_nat (digit_val d) :: u64) \<noteq> 0" by (auto simp: word_unat_eq_iff)
  from cbs_decimal_loop_iff [OF this] show ?thesis
    using False n by (simp add: CBS_get_u64_decimal_Cons [OF d])
qed

lemma decimal_Cons_val:
  assumes "is_digit d" "list_all is_digit ds" "digit_val d = 0 \<longrightarrow> ds = []"
  shows "decimal (decimal_val (digit_val d) ds) = d # ds"
proof -
  have "decimal (digit_val d) = [d]"
    using digit_val_less [OF assms(1)] of_nat_digit_val [OF assms(1)] by (subst decimal.simps) simp
  then show ?thesis using assms decimal_decimal_val [of "digit_val d" ds] by (cases "digit_val d") auto
qed

lemma CBS_get_u64_decimal_iff:
  "CBS_get_u64_decimal cbs = (Some v, rest) \<longleftrightarrow> cbs = decimal (unat v) @ rest \<and> digits_end rest"
proof
  assume run: "CBS_get_u64_decimal cbs = (Some v, rest)"
  then obtain d cbs' where cbs: "cbs = d # cbs'" and d: "is_digit d"
    by (cases cbs) (auto simp: CBS_get_u64_decimal_def split: if_splits)
  from run [unfolded cbs CBS_get_u64_decimal_digits [OF d]] show "cbs = decimal (unat v) @ rest \<and> digits_end rest"
    using decimal_Cons_val [OF d] decimal_Cons_val [OF d, of "[]"] cbs by auto
next
  assume cbs: "cbs = decimal (unat v) @ rest \<and> digits_end rest"
  obtain d ds where "decimal (unat v) = d # ds" "is_digit d" "list_all is_digit ds"
      "decimal_val (digit_val d) ds = unat v" "digit_val d = 0 \<longrightarrow> ds = []"
    using decimal_split [of "unat v"] by auto
  then show "CBS_get_u64_decimal cbs = (Some v, rest)"
    using cbs CBS_get_u64_decimal_digits [of d "ds @ rest" v rest] by auto
qed
section \<open>The other readers\<close>

lemma CBS_get_until_first_iff:
  "CBS_get_until_first c cbs = (Some out, rest) \<longleftrightarrow>
     cbs = out @ rest \<and> c \<notin> set out \<and> rest \<noteq> [] \<and> hd rest = c"
proof
  assume "CBS_get_until_first c cbs = (Some out, rest)"
  then obtain i where "OPENSSL_memchr cbs c = Some i" "cbs = out @ rest" "length out = i"
    by (auto simp: CBS_get_until_first_def reader_simps split: option.splits)
  then show "cbs = out @ rest \<and> c \<notin> set out \<and> rest \<noteq> [] \<and> hd rest = c"
    by (auto simp: OPENSSL_memchr_Some nth_append hd_conv_nth in_set_conv_nth)
next
  assume a: "cbs = out @ rest \<and> c \<notin> set out \<and> rest \<noteq> [] \<and> hd rest = c"
  then have "OPENSSL_memchr cbs c = Some (length out)"
    by (auto simp: OPENSSL_memchr_Some nth_append hd_conv_nth)
  with a show "CBS_get_until_first c cbs = (Some out, rest)"
    by (simp add: CBS_get_until_first_def reader_simps)
qed

lemma CBS_get_last_u8_iff: "CBS_get_last_u8 cbs = (Some b, rest) \<longleftrightarrow> cbs = rest @ [b]"
proof (cases cbs rule: rev_cases)
  case (snoc ys y)
  then show ?thesis by (auto simp: CBS_get_last_u8_def)
qed (simp add: CBS_get_last_u8_def)

lemma CBS_mem_equal_iff: "CBS_mem_equal cbs data \<longleftrightarrow> cbs = data"
  by (auto simp: CBS_mem_equal_def CRYPTO_memcmp_eq_0)

lemma CBS_contains_zero_byte_iff: "CBS_contains_zero_byte cbs \<longleftrightarrow> 0 \<in> set cbs"
  using OPENSSL_memchr_None [of cbs 0] by (auto simp: CBS_contains_zero_byte_def)

text \<open>The string copy is the bytes up to the first zero byte, and a terminator.\<close>

lemma CBS_strdup_spec:
  assumes "length cbs < 2 ^ 64 - 1"
  defines "s \<equiv> takeWhile (\<lambda>c. c \<noteq> 0) cbs"
  shows "CBS_strdup malloc_ok cbs =
    (if OPENSSL_malloc malloc_ok (length s + 1) then Some (s @ [0]) else None)"
proof -
  have len: "OPENSSL_strnlen cbs (length cbs) = Some (length s)"
    unfolding s_def by (induction cbs) auto
  have "length s \<le> length cbs" by (simp add: s_def length_takeWhile_le)
  then have "size_add (length s) 1 = length s + 1" using assms by (simp add: size_simps)
  moreover have "take (length s) cbs = s" by (simp add: s_def takeWhile_eq_take [symmetric])
  ultimately show ?thesis by (simp add: CBS_strdup_def OPENSSL_strndup_def len)
qed

section \<open>Properties\<close>

text \<open>\<open>CBS_get_u64_decimal\<close> accepts exactly the decimal numerals without leading zeros of the
  numbers below \<open>2 ^ 64\<close>, followed by the end of the input or a byte that is no digit, and returns
  their value.\<close>
theorem CBS_get_u64_decimal_exact:
  "CBS_get_u64_decimal cbs = (Some v, rest) \<longleftrightarrow>
     cbs = decimal (unat v) @ rest \<and> (case rest of [] \<Rightarrow> True | c # _ \<Rightarrow> \<not> OPENSSL_isdigit (uint c))"
  by (rule CBS_get_u64_decimal_iff [unfolded digits_end_def])

text \<open>\<open>CBS_get_u16_length_prefixed\<close> returns \<open>out\<close> and leaves \<open>rest\<close> if and only if the
  input is the big-endian 16-bit length of \<open>out\<close>, \<open>out\<close> and \<open>rest\<close>.\<close>
theorem CBS_get_u16_length_prefixed_exact:
  "CBS_get_u16_length_prefixed cbs = (Some out, rest) \<longleftrightarrow>
     length out < 2 ^ 16 \<and> cbs = nat_be 2 (length out) @ out @ rest"
  using u16_length_prefixed_codec.dec_iff [of cbs out rest] by auto

end
