(* ===== verification/Asn1.thy ===== *)
theory Asn1
  imports Bytestring
begin

text \<open>
  The ASN.1 half of \<open>crypto/bytestring/cbs.c\<close>: base-128 integers, tags, DER and BER
  elements, INTEGER, BOOLEAN, BIT STRING and OBJECT IDENTIFIER contents. Out-parameters that
  the code writes on a failing path are not part of the result. The reference encoders below
  (\<open>base128\<close>, \<open>der_tag\<close>, \<open>der_length\<close>, \<open>der_element\<close>, \<open>asn1_int\<close>) are
  written from X.690, not from the parser; the \<open>codec\<close> interpretations show that the parser
  accepts exactly what they produce. The lemmas here are on base-128 integers, tags and elements;
  those on the contents of elements are in \<open>Asn1Values\<close>.
\<close>

unbundle bit_operations_syntax

section \<open>Definitions\<close>

type_synonym CBS_ASN1_TAG = u32

abbreviation (input) CBS_ASN1_TAG_SHIFT :: nat where "CBS_ASN1_TAG_SHIFT \<equiv> 24"
abbreviation (input) CBS_ASN1_CONSTRUCTED :: u32 where "CBS_ASN1_CONSTRUCTED \<equiv> 0x20000000"
abbreviation (input) CBS_ASN1_SEQUENCE :: u32 where "CBS_ASN1_SEQUENCE \<equiv> 0x20000010"
abbreviation (input) CBS_ASN1_TAG_NUMBER_MASK :: u32 where "CBS_ASN1_TAG_NUMBER_MASK \<equiv> 0x1fffffff"
abbreviation (input) CBS_ASN1_BOOLEAN :: u32 where "CBS_ASN1_BOOLEAN \<equiv> 1"
abbreviation (input) CBS_ASN1_INTEGER :: u32 where "CBS_ASN1_INTEGER \<equiv> 2"
abbreviation (input) CBS_ASN1_OCTETSTRING :: u32 where "CBS_ASN1_OCTETSTRING \<equiv> 4"
abbreviation (input) CBS_ASN1_OBJECT :: u32 where "CBS_ASN1_OBJECT \<equiv> 6"

text \<open>The \<open>do ... while\<close> loop of \<open>parse_base128_integer\<close>, with \<open>v\<close> its accumulator.\<close>

fun parse_base128_loop :: "u64 \<Rightarrow> u64 reader" where
  "parse_base128_loop v [] = (None, [])"
| "parse_base128_loop v (b # cbs) =
     (if drop_bit (64 - 7) v \<noteq> 0 then (None, cbs)
      else if v = 0 \<and> b = 0x80 then (None, cbs)
      else let v = push_bit 7 v OR ucast (b AND 0x7f)
           in if b AND 0x80 \<noteq> 0 then parse_base128_loop v cbs else (Some v, cbs))"

definition parse_base128_integer :: "u64 reader" where
  "parse_base128_integer = parse_base128_loop 0"

definition parse_asn1_tag :: "CBS_ASN1_TAG reader" where
  "parse_asn1_tag =
     rd_bind CBS_get_u8 (\<lambda>tag_byte.
       let tag = push_bit CBS_ASN1_TAG_SHIFT (ucast tag_byte AND 0xe0) :: u32;
           tag_number = ucast (tag_byte AND 0x1f) :: u32
       in rd_bind
            (if tag_number = 0x1f then
               rd_bind parse_base128_integer (\<lambda>v.
                 if v > ucast CBS_ASN1_TAG_NUMBER_MASK \<or> v < 0x1f then rd_fail
                 else rd_return (ucast v))
             else rd_return tag_number)
            (\<lambda>tag_number.
               let tag = tag OR tag_number
               in if tag AND NOT CBS_ASN1_CONSTRUCTED = 0 then rd_fail else rd_return tag))"

record asn1_element =
  elem_out :: CBS
  elem_tag :: CBS_ASN1_TAG
  elem_header_len :: nat
  elem_ber_found :: bool
  elem_indefinite :: bool

text \<open>
  \<open>header\<close> is the code's copy of the \<open>CBS\<close>: on every failing path \<open>*cbs\<close> keeps its
  value. \<open>size_t\<close> sums wrap.
\<close>

definition cbs_get_any_asn1_element :: "bool \<Rightarrow> asn1_element reader" where
  "cbs_get_any_asn1_element ber_ok cbs =
     (case parse_asn1_tag cbs of (None, _) \<Rightarrow> (None, cbs) | (Some tag, header) \<Rightarrow>
      case CBS_get_u8 header of (None, _) \<Rightarrow> (None, cbs) | (Some length_byte, header) \<Rightarrow>
      let header_len = length cbs - length header;
          finish = (\<lambda>len hl ber indef. rd_bind (CBS_get_bytes len) (\<lambda>out. rd_return
            \<lparr> elem_out = out, elem_tag = tag, elem_header_len = hl, elem_ber_found = ber,
              elem_indefinite = indef \<rparr>) cbs)
      in if length_byte AND 0x80 = 0 then
           finish (size_add (unat length_byte) header_len) header_len False False
         else let num_bytes = unat (length_byte AND 0x7f) in
           if ber_ok \<and> tag AND CBS_ASN1_CONSTRUCTED \<noteq> 0 \<and> num_bytes = 0 then
             finish header_len header_len True True
           else if num_bytes = 0 \<or> num_bytes > 4 then (None, cbs)
           else case cbs_get_u num_bytes header of (None, _) \<Rightarrow> (None, cbs) | (Some len64, _) \<Rightarrow>
             if len64 < 128 \<and> \<not> ber_ok then (None, cbs)
             else if drop_bit ((num_bytes - 1) * 8) len64 = 0 \<and> \<not> ber_ok then (None, cbs)
             else let len = unat len64 in
               if size_add (size_add len header_len) num_bytes < len then (None, cbs)
               else finish (size_add len (size_add header_len num_bytes))
                      (size_add header_len num_bytes)
                      (len64 < 128 \<or> drop_bit ((num_bytes - 1) * 8) len64 = 0) False)"

definition CBS_get_any_asn1_element :: "asn1_element reader" where
  "CBS_get_any_asn1_element = cbs_get_any_asn1_element False"

definition CBS_get_any_ber_asn1_element :: "asn1_element reader" where
  "CBS_get_any_ber_asn1_element = cbs_get_any_asn1_element True"

text \<open>\<open>CBS_skip(out, header_len)\<close> on the element just read.\<close>

definition skip_header :: "asn1_element \<Rightarrow> CBS reader" where
  "skip_header e cbs =
     (case CBS_skip (elem_header_len e) (elem_out e) of
        (None, _) \<Rightarrow> (None, cbs) | (Some _, out) \<Rightarrow> (Some out, cbs))"

definition CBS_get_any_asn1 :: "(CBS \<times> CBS_ASN1_TAG) reader" where
  "CBS_get_any_asn1 =
     rd_bind CBS_get_any_asn1_element
       (\<lambda>e. rd_bind (skip_header e) (\<lambda>out. rd_return (out, elem_tag e)))"

definition cbs_get_asn1 :: "CBS_ASN1_TAG \<Rightarrow> bool \<Rightarrow> CBS reader" where
  "cbs_get_asn1 tag_value skip =
     rd_bind CBS_get_any_asn1_element (\<lambda>e.
       if elem_tag e \<noteq> tag_value then rd_fail
       else if skip then skip_header e else rd_return (elem_out e))"

definition CBS_get_asn1 :: "CBS_ASN1_TAG \<Rightarrow> CBS reader" where
  "CBS_get_asn1 tag_value = cbs_get_asn1 tag_value True"

definition CBS_get_asn1_element :: "CBS_ASN1_TAG \<Rightarrow> CBS reader" where
  "CBS_get_asn1_element tag_value = cbs_get_asn1 tag_value False"

definition CBS_peek_asn1_tag :: "CBS \<Rightarrow> CBS_ASN1_TAG \<Rightarrow> bool" where
  "CBS_peek_asn1_tag cbs tag_value \<longleftrightarrow> fst (parse_asn1_tag cbs) = Some tag_value"

text \<open>\<open>None\<close> when the contents are no INTEGER, otherwise \<open>*out_is_negative\<close>.\<close>

definition CBS_is_valid_asn1_integer :: "CBS \<Rightarrow> bool option" where
  "CBS_is_valid_asn1_integer cbs =
     (case CBS_get_u8 cbs of (None, _) \<Rightarrow> None | (Some first_byte, copy) \<Rightarrow>
      let is_negative = (first_byte AND 0x80 \<noteq> 0)
      in case CBS_get_u8 copy of (None, _) \<Rightarrow> Some is_negative | (Some second_byte, _) \<Rightarrow>
         if (first_byte = 0x00 \<and> second_byte AND 0x80 = 0) \<or>
            (first_byte = 0xff \<and> second_byte AND 0x80 \<noteq> 0) then None
         else Some is_negative)"

definition CBS_is_unsigned_asn1_integer :: "CBS \<Rightarrow> bool" where
  "CBS_is_unsigned_asn1_integer cbs \<longleftrightarrow>
     (case CBS_is_valid_asn1_integer cbs of None \<Rightarrow> False | Some is_negative \<Rightarrow> \<not> is_negative)"

fun asn1_uint64_loop :: "u64 \<Rightarrow> bytes \<Rightarrow> u64 option" where
  "asn1_uint64_loop out [] = Some out"
| "asn1_uint64_loop out (b # data) =
     (if drop_bit 56 out \<noteq> 0 then None else asn1_uint64_loop (push_bit 8 out OR ucast b) data)"

definition CBS_get_asn1_uint64 :: "u64 reader" where
  "CBS_get_asn1_uint64 =
     rd_bind (CBS_get_asn1 CBS_ASN1_INTEGER) (\<lambda>data.
       if \<not> CBS_is_unsigned_asn1_integer data then rd_fail
       else case asn1_uint64_loop 0 data of None \<Rightarrow> rd_fail | Some out \<Rightarrow> rd_return out)"

definition CBS_get_asn1_int64 :: "u64 reader" where
  "CBS_get_asn1_int64 =
     rd_bind (CBS_get_asn1 CBS_ASN1_INTEGER) (\<lambda>data.
       case CBS_is_valid_asn1_integer data of None \<Rightarrow> rd_fail | Some is_negative \<Rightarrow>
         if length data > 8 then rd_fail
         else let sign_extend = replicate (8 - length data) (if is_negative then 0xff else 0) @ data
              in rd_return (CRYPTO_load_u64_be sign_extend))"

definition CBS_get_asn1_bool :: "bool reader" where
  "CBS_get_asn1_bool =
     rd_bind (CBS_get_asn1 CBS_ASN1_BOOLEAN) (\<lambda>data.
       if length data \<noteq> 1 then rd_fail
       else let value = hd data
            in if value \<noteq> 0 \<and> value \<noteq> 0xff then rd_fail else rd_return (value \<noteq> 0))"

text \<open>An absent optional element is \<open>Some None\<close>.\<close>

definition CBS_get_optional_asn1 :: "CBS_ASN1_TAG \<Rightarrow> CBS option reader" where
  "CBS_get_optional_asn1 tag cbs =
     (if CBS_peek_asn1_tag cbs tag
      then rd_bind (CBS_get_asn1 tag) (\<lambda>out. rd_return (Some out)) cbs
      else rd_return None cbs)"

text \<open>
  The three functions below read a present child to its end: the child is its own \<open>CBS\<close>,
  and anything after the value in it is an error.
\<close>

definition read_whole :: "'a reader \<Rightarrow> CBS \<Rightarrow> 'a reader" where
  "read_whole m child =
     (case m child of (Some x, rest) \<Rightarrow> if length rest \<noteq> 0 then rd_fail else rd_return x
      | (None, _) \<Rightarrow> rd_fail)"

definition CBS_get_optional_asn1_octet_string :: "CBS_ASN1_TAG \<Rightarrow> (CBS \<times> bool) reader" where
  "CBS_get_optional_asn1_octet_string tag =
     rd_bind (CBS_get_optional_asn1 tag) (\<lambda>c. case c of
         Some child \<Rightarrow> rd_bind (read_whole (CBS_get_asn1 CBS_ASN1_OCTETSTRING) child)
                         (\<lambda>out. rd_return (out, True))
       | None \<Rightarrow> rd_return ([], False))"

definition CBS_get_optional_asn1_uint64 :: "CBS_ASN1_TAG \<Rightarrow> u64 \<Rightarrow> u64 reader" where
  "CBS_get_optional_asn1_uint64 tag default_value =
     rd_bind (CBS_get_optional_asn1 tag) (\<lambda>c. case c of
         Some child \<Rightarrow> read_whole CBS_get_asn1_uint64 child
       | None \<Rightarrow> rd_return default_value)"

definition CBS_get_optional_asn1_bool :: "CBS_ASN1_TAG \<Rightarrow> bool \<Rightarrow> bool reader" where
  "CBS_get_optional_asn1_bool tag default_value =
     rd_bind (CBS_get_optional_asn1 tag) (\<lambda>c. case c of
         Some child \<Rightarrow> rd_bind (read_whole (CBS_get_asn1 CBS_ASN1_BOOLEAN) child) (\<lambda>child2.
           if length child2 \<noteq> 1 then rd_fail
           else let boolean = hd child2
                in if boolean = 0 then rd_return False
                   else if boolean = 0xff then rd_return True else rd_fail)
       | None \<Rightarrow> rd_return default_value)"

definition CBS_is_valid_asn1_bitstring :: "CBS \<Rightarrow> bool" where
  "CBS_is_valid_asn1_bitstring cbs \<longleftrightarrow>
     (case CBS_get_u8 cbs of (None, _) \<Rightarrow> False | (Some num_unused_bits, inp) \<Rightarrow>
      if num_unused_bits > 7 then False
      else if num_unused_bits = 0 then True
      else case CBS_get_last_u8 inp of (None, _) \<Rightarrow> False | (Some last_byte, _) \<Rightarrow>
        last_byte AND (push_bit (unat num_unused_bits) 1 - 1) = 0)"

definition CBS_asn1_bitstring_has_bit :: "CBS \<Rightarrow> u32 \<Rightarrow> bool" where
  "CBS_asn1_bitstring_has_bit cbs n \<longleftrightarrow>
     (if \<not> CBS_is_valid_asn1_bitstring cbs then False
      else let byte_num = unat (drop_bit 3 n + 1); bit_num = unat (7 - (n AND 7))
           in byte_num < length cbs \<and> cbs ! byte_num AND push_bit bit_num 1 \<noteq> 0)"

fun valid_asn1_oid_loop :: "u8 \<Rightarrow> CBS \<Rightarrow> bool" where
  "valid_asn1_oid_loop prev [] \<longleftrightarrow> prev AND 0x80 = 0"
| "valid_asn1_oid_loop prev (v # copy) \<longleftrightarrow>
     (if prev AND 0x80 = 0 \<and> v = 0x80 then False else valid_asn1_oid_loop v copy)"

definition CBS_is_valid_asn1_oid :: "CBS \<Rightarrow> bool" where
  "CBS_is_valid_asn1_oid cbs \<longleftrightarrow> (if length cbs = 0 then False else valid_asn1_oid_loop 0 cbs)"

section \<open>Reference encodings\<close>

text \<open>Base-128, X.690 8.1.2.4.2: seven bits per octet, the high bit set on all but the last.\<close>

fun base128_high :: "nat \<Rightarrow> bytes" where
  "base128_high n = (if n = 0 then [] else base128_high (n div 128) @ [of_nat (128 + n mod 128)])"

declare base128_high.simps [simp del]

definition base128 :: "nat \<Rightarrow> bytes" where
  "base128 n = base128_high (n div 128) @ [of_nat (n mod 128)]"

text \<open>Identifier octets, X.690 8.1.2.\<close>

definition der_tag :: "CBS_ASN1_TAG \<Rightarrow> bytes" where
  "der_tag tag =
     (let cls = of_nat (unat tag div 2 ^ 29 * 32); number = unat tag mod 2 ^ 29
      in if number < 31 then [cls + of_nat number] else (cls + 31) # base128 number)"

definition valid_tag :: "CBS_ASN1_TAG \<Rightarrow> bool" where
  "valid_tag tag \<longleftrightarrow> tag AND NOT CBS_ASN1_CONSTRUCTED \<noteq> 0"

text \<open>Length octets, X.690 8.1.3 and 10.1.\<close>

fun octets :: "nat \<Rightarrow> nat" where
  "octets n = (if n < 256 then 1 else Suc (octets (n div 256)))"

declare octets.simps [simp del]

definition der_length :: "nat \<Rightarrow> bytes" where
  "der_length n =
     (if n < 128 then [of_nat n] else of_nat (128 + octets n) # nat_be (octets n) n)"

definition der_element :: "CBS_ASN1_TAG \<Rightarrow> bytes \<Rightarrow> bytes" where
  "der_element tag contents = der_tag tag @ der_length (length contents) @ contents"

text \<open>Contents of an INTEGER, X.690 8.3: two's complement in the fewest octets.\<close>

function asn1_int :: "int \<Rightarrow> bytes" where
  "asn1_int i = (if - 128 \<le> i \<and> i < 128 then [of_int i] else asn1_int (i div 256) @ [of_int i])"
  by auto
termination by (relation "measure (\<lambda>i. nat \<bar>i\<bar>)") auto

declare asn1_int.simps [simp del]

section \<open>Base-128 integers\<close>

abbreviation (input) high_bit :: "u8 \<Rightarrow> bool" where "high_bit b \<equiv> b AND 0x80 \<noteq> 0"

lemma high_bit_iff: "high_bit b \<longleftrightarrow> 128 \<le> unat b"
proof -
  have "b AND 0x80 = 0 \<longleftrightarrow> \<not> bit b 7"
    using and_exp_eq_0_iff_not_bit [of b 7] by simp
  then show ?thesis using bit_msb_unat [of b] by simp
qed

lemma and_7f: "(b :: u8) AND 0x7f = take_bit 7 b"
  by (simp add: take_bit_eq_mask mask_eq_exp_minus_1)

lemma unat_low_bits: "unat ((b :: u8) AND 0x7f) = unat b mod 128"
  unfolding and_7f unsigned_take_bit_eq by (simp add: take_bit_eq_mod)

lemma base128_high_0 [simp]: "base128_high 0 = []"
  by (simp add: base128_high.simps)

definition val128 :: "nat \<Rightarrow> bytes \<Rightarrow> nat" where
  "val128 a bs = foldl (\<lambda>a b. 128 * a + unat b mod 128) a bs"

lemma val128_simps [simp]:
  "val128 a [] = a" "val128 a (b # bs) = val128 (128 * a + unat b mod 128) bs"
  by (simp_all add: val128_def)

lemma val128_ge: "a \<le> val128 a bs"
proof (induction bs arbitrary: a)
  case (Cons b bs)
  have "a \<le> 128 * a + unat b mod 128" by simp
  also have "\<dots> \<le> val128 (128 * a + unat b mod 128) bs" by (rule Cons)
  finally show ?case by simp
qed simp

lemma base128_high_step:
  "0 < a \<or> 0 < d \<Longrightarrow> d < 128 \<Longrightarrow> base128_high (128 * a + d) = base128_high a @ [of_nat (128 + d)]"
  by (subst base128_high.simps) auto

lemma of_nat_high: "high_bit b \<Longrightarrow> of_nat (128 + unat b mod 128) = b"
proof -
  assume "high_bit b"
  then have "128 \<le> unat b" unfolding high_bit_iff .
  then have "128 + unat b mod 128 = unat b"
    using unat_u8_less [of b] by (simp add: le_mod_geq del: unat_u8_less)
  then show ?thesis by simp
qed

text \<open>The accumulator after a run of continuation octets, from a non-zero start.\<close>

lemma base128_high_val:
  "0 < a \<Longrightarrow> list_all high_bit bs \<Longrightarrow> base128_high (val128 a bs) = base128_high a @ bs"
proof (induction bs arbitrary: a)
  case (Cons b bs)
  from Cons.prems have "base128_high (128 * a + unat b mod 128) = base128_high a @ [b]"
    using base128_high_step [of a "unat b mod 128"] of_nat_high [of b] by simp
  with Cons show ?case by simp
qed simp

lemma base128_high_split:
  "list_all high_bit (base128_high n) \<and> val128 0 (base128_high n) = n
     \<and> (n \<noteq> 0 \<longrightarrow> base128_high n \<noteq> [] \<and> hd (base128_high n) \<noteq> 0x80)"
proof (induction n rule: base128_high.induct)
  case (1 n)
  show ?case
  proof (cases "n = 0")
    case True
    then show ?thesis by simp
  next
    case False
    have eq: "base128_high n = base128_high (n div 128) @ [of_nat (128 + n mod 128)]"
      using False by (subst base128_high.simps) simp
    have u: "unat (of_nat (128 + n mod 128) :: u8) = 128 + n mod 128"
      by (simp del: of_nat_add)
    have "n mod 128 \<noteq> 0" if "n div 128 = 0" using that False by (metis div_mod_decomp mult_0 add_0)
    then have "(of_nat (128 + n mod 128) :: u8) \<noteq> 0x80" if "n div 128 = 0"
      using that u by (auto simp: word_unat_eq_iff simp del: of_nat_add)
    then show ?thesis
      using 1 [OF False] u False unfolding eq
      by (cases "n div 128 = 0")
        (auto simp: high_bit_iff val128_def hd_append simp del: of_nat_add)
  qed
qed

lemma parse_step:
  assumes "drop_bit 57 (v :: u64) = 0"
  shows "unat (push_bit 7 v OR ucast (b AND 0x7f :: u8)) = 128 * unat v + unat b mod 128"
proof -
  have "push_bit 7 v AND ucast (b AND 0x7f :: u8) = 0"
    unfolding and_7f by (rule bit_word_eqI) (auto simp: bit_simps)
  then have "push_bit 7 v OR ucast (b AND 0x7f :: u8) = of_nat (128 * unat v + unat b mod 128)"
    by (simp add: disjunctive_add_eq_or [symmetric] push_bit_eq_mult mult.commute flip: unat_low_bits)
  moreover have "unat v < 2 ^ 57"
  proof -
    have "unat v div 2 ^ 57 = 0"
      using assms unat_drop_bit_eq [of 57 v] by (simp add: drop_bit_eq_div)
    then show ?thesis by (simp add: div_eq_0_iff)
  qed
  ultimately show ?thesis by (simp add: unat_of_nat del: of_nat_add)
qed

lemma drop_57: "drop_bit 57 (v :: u64) = 0 \<longleftrightarrow> 128 * unat v < 2 ^ 64"
proof -
  have "drop_bit 57 v = 0 \<longleftrightarrow> unat v div 2 ^ 57 = 0"
    using unat_drop_bit_eq [of 57 v] by (simp add: drop_bit_eq_div word_unat_eq_iff)
  then show ?thesis by (auto simp: div_eq_0_iff)
qed

lemma parse_base128_loop_iff:
  "parse_base128_loop v cbs = (Some w, rest) \<longleftrightarrow>
     (\<exists>hs d. cbs = hs @ d # rest \<and> list_all high_bit hs \<and> \<not> high_bit d
        \<and> (v = 0 \<longrightarrow> hs = [] \<or> hd hs \<noteq> 0x80) \<and> unat w = val128 (unat v) (hs @ [d]))"
proof (induction cbs arbitrary: v)
  case Nil
  then show ?case by simp
next
  case (Cons b cbs)
  let ?v = "push_bit 7 v OR ucast (b AND 0x7f :: u8)"
  let ?R = "\<exists>hs d. b # cbs = hs @ d # rest \<and> list_all high_bit hs \<and> \<not> high_bit d
        \<and> (v = 0 \<longrightarrow> hs = [] \<or> hd hs \<noteq> 0x80) \<and> unat w = val128 (unat v) (hs @ [d])"
  have big: "val128 (unat v) (hs @ [d]) \<noteq> unat w" if "\<not> drop_bit 57 v = 0" "b # cbs = hs @ d # rest" for hs d
  proof -
    obtain x xs where "hs @ [d] = x # xs" by (cases hs) auto
    moreover have "unat w < 128 * unat v"
      using that(1) unsigned_less [of w, where ?'a = nat] unfolding drop_57 by simp
    ultimately show ?thesis using val128_ge [of "128 * unat v + unat x mod 128" xs] by simp
  qed
  show ?case
  proof (cases "drop_bit 57 v = 0")
    case False
    then have "\<not> ?R" using big by metis
    with False show ?thesis by simp
  next
    case True
    note v = parse_step [OF True, of b]
    show ?thesis
    proof (cases "high_bit b")
      case False
      then have "b \<noteq> 0x80" by auto
      have "?R \<longleftrightarrow> rest = cbs \<and> unat w = 128 * unat v + unat b mod 128"
        using False by (auto simp: Cons_eq_append_conv)
      moreover have "Some ?v = Some w \<longleftrightarrow> unat w = 128 * unat v + unat b mod 128"
        unfolding option.inject word_unat_eq_iff v by auto
      ultimately show ?thesis using True False \<open>b \<noteq> 0x80\<close> by (simp add: Let_def) metis
    next
      case h: True
      have "?R \<longleftrightarrow> (v = 0 \<longrightarrow> b \<noteq> 0x80) \<and> (\<exists>hs d. cbs = hs @ d # rest \<and> list_all high_bit hs
          \<and> \<not> high_bit d \<and> unat w = val128 (unat ?v) (hs @ [d]))"
        using h unfolding v by (auto simp: Cons_eq_append_conv)
      moreover have "?v \<noteq> 0" if "v = 0 \<longrightarrow> b \<noteq> 0x80"
      proof -
        have "unat v \<noteq> 0 \<or> unat b mod 128 \<noteq> 0"
        proof (cases "v = 0")
          case True
          have "unat b mod 128 \<noteq> 0" if "unat b mod 128 = 0"
            using of_nat_high [OF h, unfolded that] \<open>v = 0 \<longrightarrow> b \<noteq> 0x80\<close> True by simp
          then show ?thesis by blast
        qed (simp add: unat_gt_0)
        then have "unat ?v \<noteq> 0" unfolding v by simp
        then show ?thesis by auto
      qed
      moreover have "parse_base128_loop v (b # cbs) = (Some w, rest) \<longleftrightarrow>
          (v = 0 \<longrightarrow> b \<noteq> 0x80) \<and> parse_base128_loop ?v cbs = (Some w, rest)"
        using True h by (simp add: Let_def)
      ultimately show ?thesis unfolding Cons.IH by blast
    qed
  qed
qed

lemma val128_append: "val128 a (xs @ ys) = val128 (val128 a xs) ys"
  by (simp add: val128_def)

lemma low_octet: "\<not> high_bit d \<Longrightarrow> of_nat (unat d mod 128) = d"
  unfolding high_bit_iff by simp

lemma base128_high_val_0:
  assumes "list_all high_bit hs" "hs = [] \<or> hd hs \<noteq> 0x80"
  shows "base128_high (val128 0 hs) = hs"
proof (cases hs)
  case (Cons b bs)
  with assms have b: "high_bit b" "b \<noteq> 0x80" by auto
  have "unat b mod 128 \<noteq> 0"
  proof
    assume "unat b mod 128 = 0"
    from of_nat_high [OF b(1), unfolded this] b(2) show False by simp
  qed
  moreover from this have "base128_high (unat b mod 128) = [b]"
    using base128_high_step [of 0 "unat b mod 128"] of_nat_high [OF b(1)]
    by simp
  ultimately show ?thesis
    using assms Cons base128_high_val [of "unat b mod 128" bs] by simp
qed simp

lemma parse_base128_integer_iff:
  "parse_base128_integer cbs = (Some v, rest) \<longleftrightarrow> cbs = base128 (unat v) @ rest"
proof
  assume "parse_base128_integer cbs = (Some v, rest)"
  then obtain hs d where s: "cbs = hs @ d # rest" "list_all high_bit hs" "\<not> high_bit d"
      "hs = [] \<or> hd hs \<noteq> 0x80" "unat v = 128 * val128 0 hs + unat d mod 128"
    unfolding parse_base128_integer_def parse_base128_loop_iff by (auto simp: val128_append)
  have "base128 (unat v) = hs @ [d]"
    using base128_high_val_0 [OF s(2,4)] low_octet [OF s(3)] by (simp add: base128_def s(5))
  with s(1) show "cbs = base128 (unat v) @ rest" by simp
next
  assume cbs: "cbs = base128 (unat v) @ rest"
  have "\<not> high_bit (of_nat (unat v mod 128))" by (simp add: high_bit_iff)
  then show "parse_base128_integer cbs = (Some v, rest)"
    using base128_high_split [of "unat v div 128"] cbs
    unfolding parse_base128_integer_def parse_base128_loop_iff base128_def
    by (intro exI [of _ "base128_high (unat v div 128)"] exI [of _ "of_nat (unat v mod 128)"])
      (auto simp: val128_append)
qed

interpretation base128_codec: codec "\<lambda>v. base128 (unat v)" parse_base128_integer "\<lambda>v. True"
  by unfold_locales (simp_all add: parse_base128_integer_iff)

section \<open>Tags\<close>

lemma unat_tag_class: "unat (push_bit 24 (ucast (b :: u8) AND 0xe0) :: u32) = unat b div 32 * 2 ^ 29"
proof -
  have e0: "(0xe0 :: u32) = push_bit 5 (mask 3)" by (simp add: mask_eq_exp_minus_1)
  have "(push_bit 24 (ucast b AND 0xe0) :: u32) = push_bit 29 (ucast (drop_bit 5 b))"
    unfolding e0 by (rule bit_word_eqI) (auto simp: bit_simps)
  moreover have "unat (ucast (drop_bit 5 b) :: u32) = unat b div 32"
    using unat_ucast_up [of "drop_bit 5 b", where ?'b = 32] by (simp add: unat_drop_bit)
  moreover have "unat b div 32 < 8" using unat_u8_less [of b] by (simp del: unat_u8_less)
  ultimately show ?thesis
    by (simp only: push_bit_eq_mult) (simp add: unat_word_ariths)
qed

lemma unat_tag_low: "unat (ucast ((b :: u8) AND 0x1f) :: u32) = unat b mod 32"
proof -
  have "b AND 0x1f = take_bit 5 b" by (simp add: take_bit_eq_mask mask_eq_exp_minus_1)
  then have "unat (b AND 0x1f) = unat b mod 32" by (simp only: unat_take_bit) simp
  then show ?thesis using unat_ucast_up [of "b AND 0x1f", where ?'b = 32] by simp
qed

lemma unat_tag_join:
  assumes "unat (n :: u32) < 2 ^ 29"
  shows "unat (push_bit 24 (ucast (b :: u8) AND 0xe0) OR n) = unat b div 32 * 2 ^ 29 + unat n"
proof -
  let ?c = "push_bit 24 (ucast b AND 0xe0) :: u32"
  have "unat b div 32 < 8" using unat_u8_less [of b] by (simp del: unat_u8_less)
  have e0: "(0xe0 :: u32) = push_bit 5 (mask 3)" by (simp add: mask_eq_exp_minus_1)
  have "unat (take_bit 29 n) = unat n" using assms by (simp only: unat_take_bit) simp
  then have "take_bit 29 n = n" by (simp only: word_unat_eq_iff)
  moreover have "?c AND take_bit 29 n = 0"
    unfolding e0 by (rule bit_word_eqI) (auto simp: bit_simps)
  ultimately have "?c OR n = ?c + n" by (simp only: disjunctive_add_eq_or)
  then have "unat (?c OR n) = (unat ?c + unat n) mod 2 ^ 32"
    by (simp only: unat_word_ariths) simp
  then show ?thesis
    using assms \<open>unat b div 32 < 8\<close> unfolding unat_tag_class by simp
qed

text \<open>One identifier octet, and what the parser makes of its two parts.\<close>

lemma tag_number_iff:
  "rd_bind parse_base128_integer (\<lambda>v. if v > ucast CBS_ASN1_TAG_NUMBER_MASK \<or> v < 0x1f then rd_fail
      else rd_return (ucast v)) cbs = (Some n, rest) \<longleftrightarrow>
    cbs = base128 (unat n) @ rest \<and> 31 \<le> unat n \<and> unat (n :: u32) < 2 ^ 29"
  (is "?run \<longleftrightarrow> ?spec")
proof
  assume ?run
  then obtain v :: u64 where v: "cbs = base128 (unat v) @ rest" "n = ucast v" "\<not> v > 0x1fffffff" "\<not> v < 0x1f"
    by (auto simp: reader_simps parse_base128_integer_iff split: if_splits)
  then have "31 \<le> unat v" "unat v < 2 ^ 29" by (simp_all add: word_less_nat_alt)
  moreover from this have "unat n = unat v"
    unfolding v(2) by (simp add: unsigned_ucast_eq take_bit_nat_eq_self)
  ultimately show ?spec using v(1) by simp
next
  assume ?spec
  moreover have "unat (ucast n :: u64) = unat n" by (rule unat_ucast_up) simp
  moreover have "(ucast (ucast n :: u64) :: u32) = n" by (rule bit_word_eqI) (simp add: bit_simps)
  ultimately show ?run
    by (auto simp: rd_bind_Some_iff parse_base128_integer_iff rd_return_iff word_less_nat_alt
        intro!: exI [of _ "ucast n :: u64"])
qed

lemma tag_join_iff:
  fixes n tag :: u32
  assumes "unat n < 2 ^ 29"
  shows "tag = push_bit 24 (ucast (b :: u8) AND 0xe0) OR n \<longleftrightarrow>
    unat tag div 2 ^ 29 = unat b div 32 \<and> unat tag mod 2 ^ 29 = unat n"
  unfolding word_unat_eq_iff unat_tag_join [OF assms]
proof
  assume t: "unat tag = unat b div 32 * 2 ^ 29 + unat n"
  show "unat tag div 2 ^ 29 = unat b div 32 \<and> unat tag mod 2 ^ 29 = unat n"
    unfolding t using assms by simp
next
  assume "unat tag div 2 ^ 29 = unat b div 32 \<and> unat tag mod 2 ^ 29 = unat n"
  then show "unat tag = unat b div 32 * 2 ^ 29 + unat n" by (metis div_mult_mod_eq)
qed

definition tag_number_reader :: "u8 \<Rightarrow> u32 reader" where
  "tag_number_reader b =
     (if (ucast (b AND 0x1f) :: u32) = 0x1f then
        rd_bind parse_base128_integer (\<lambda>v.
          if v > ucast CBS_ASN1_TAG_NUMBER_MASK \<or> v < 0x1f then rd_fail else rd_return (ucast v))
      else rd_return (ucast (b AND 0x1f)))"

lemma tag_number_reader_iff:
  "tag_number_reader b cbs = (Some n, rest) \<longleftrightarrow>
     (if unat b mod 32 = 31 then cbs = base128 (unat n) @ rest \<and> 31 \<le> unat n \<and> unat n < 2 ^ 29
      else cbs = rest \<and> unat n = unat b mod 32)"
proof -
  have "(ucast (b AND 0x1f) :: u32) = 0x1f \<longleftrightarrow> unat b mod 32 = 31"
    unfolding word_unat_eq_iff unat_tag_low by simp
  moreover have "n = ucast (b AND 0x1f) \<longleftrightarrow> unat n = unat b mod 32"
    unfolding word_unat_eq_iff unat_tag_low ..
  ultimately show ?thesis
    using tag_number_iff [of cbs n rest] unfolding tag_number_reader_def
    by (cases "unat b mod 32 = 31") (auto simp: rd_return_iff)
qed

lemma parse_asn1_tag_unfold:
  "parse_asn1_tag cbs = (Some tag, rest) \<longleftrightarrow>
     (\<exists>b cbs' n. cbs = b # cbs' \<and> tag_number_reader b cbs' = (Some n, rest)
        \<and> tag = push_bit 24 (ucast b AND 0xe0) OR n \<and> valid_tag tag)"
  unfolding parse_asn1_tag_def tag_number_reader_def [symmetric] Let_def valid_tag_def
  by (auto simp: rd_bind_Some_iff CBS_get_u8_iff rd_return_iff rd_fail_iff split: if_splits)

lemma parse_asn1_tag_cases:
  "parse_asn1_tag cbs = (Some tag, rest) \<longleftrightarrow>
     valid_tag tag \<and> (\<exists>b cbs'. cbs = b # cbs' \<and> unat tag div 2 ^ 29 = unat b div 32 \<and>
       (if unat b mod 32 = 31
        then cbs' = base128 (unat tag mod 2 ^ 29) @ rest \<and> 31 \<le> unat tag mod 2 ^ 29
        else cbs' = rest \<and> unat tag mod 2 ^ 29 = unat b mod 32))"
    (is "_ \<longleftrightarrow> _ \<and> (\<exists>b cbs'. cbs = b # cbs' \<and> ?P b cbs')")
proof -
  have "(\<exists>n. tag_number_reader b cbs' = (Some n, rest) \<and> tag = push_bit 24 (ucast b AND 0xe0) OR n)
      \<longleftrightarrow> ?P b cbs'" (is "?L \<longleftrightarrow> _") for b cbs'
  proof
    assume ?L
    then obtain n where n: "tag_number_reader b cbs' = (Some n, rest)"
      "tag = push_bit 24 (ucast b AND 0xe0) OR n" by blast
    have m: "unat b mod 32 < 32" by simp
    have "unat n < 2 ^ 29"
      using n(1) m unfolding tag_number_reader_iff by (auto split: if_splits simp del: mod_less_divisor)
    from n tag_join_iff [OF this, of tag b] show "?P b cbs'"
      unfolding tag_number_reader_iff by (auto split: if_splits)
  next
    assume P: "?P b cbs'"
    let ?n = "of_nat (unat tag mod 2 ^ 29) :: u32"
    have n: "unat ?n = unat tag mod 2 ^ 29"
      unfolding unat_of_nat by (rule mod_less) (rule order_less_trans [of _ "2 ^ 29"], simp_all)
    then have "unat ?n < 2 ^ 29" by simp
    from tag_join_iff [OF this, of tag b] P n show ?L
      by (intro exI [of _ ?n]) (auto simp: tag_number_reader_iff split: if_splits)
  qed
  then show ?thesis unfolding parse_asn1_tag_unfold by blast
qed

lemma der_tag_octet:
  "unat (of_nat (unat (tag :: u32) div 2 ^ 29 * 32) + of_nat k :: u8) = unat tag div 2 ^ 29 * 32 + k"
  if "k < 32"
proof -
  have "unat tag div 2 ^ 29 < 8"
    using unsigned_less [of tag, where ?'a = nat] by (simp add: less_mult_imp_div_less)
  then show ?thesis using that by (simp add: unat_of_nat flip: of_nat_add of_nat_mult)
qed

lemma parse_asn1_tag_iff:
  "parse_asn1_tag cbs = (Some tag, rest) \<longleftrightarrow> valid_tag tag \<and> cbs = der_tag tag @ rest"
proof -
  let ?c = "unat tag div 2 ^ 29" and ?n = "unat tag mod 2 ^ 29"
  have "(\<exists>b cbs'. cbs = b # cbs' \<and> ?c = unat b div 32 \<and>
      (if unat b mod 32 = 31 then cbs' = base128 ?n @ rest \<and> 31 \<le> ?n
       else cbs' = rest \<and> ?n = unat b mod 32)) \<longleftrightarrow> cbs = der_tag tag @ rest" (is "?L \<longleftrightarrow> ?R")
  proof
    assume ?L
    then obtain b cbs' where b: "cbs = b # cbs'" "?c = unat b div 32"
      and n: "if unat b mod 32 = 31 then cbs' = base128 ?n @ rest \<and> 31 \<le> ?n
              else cbs' = rest \<and> ?n = unat b mod 32" by blast
    have b': "of_nat (?c * 32) + of_nat (unat b mod 32) = b"
      unfolding b(2) of_nat_add [symmetric] div_mult_mod_eq by simp
    have "unat b mod 32 < 32" by simp
    then have "?n < 31 \<longleftrightarrow> unat b mod 32 \<noteq> 31" using n by (auto split: if_splits simp del: mod_less_divisor)
    then show ?R using n b(1) b' unfolding der_tag_def Let_def by (auto split: if_splits)
  next
    assume R: ?R
    show ?L
    proof (cases "?n < 31")
      case True
      with der_tag_octet [of ?n tag] R show ?thesis by (auto simp: der_tag_def Let_def)
    next
      case False
      with der_tag_octet [of 31 tag] R show ?thesis by (auto simp: der_tag_def Let_def)
    qed
  qed
  then show ?thesis unfolding parse_asn1_tag_cases by blast
qed

interpretation tag_codec: codec der_tag parse_asn1_tag valid_tag
  by unfold_locales (simp_all add: parse_asn1_tag_iff)

section \<open>Elements\<close>

lemma octets_bounds: "n < 256 ^ octets n \<and> (1 \<le> n \<longrightarrow> 256 ^ (octets n - 1) \<le> n) \<and> 1 \<le> octets n"
proof (induction n rule: octets.induct)
  case (1 n)
  show ?case
  proof (cases "n < 256")
    case True
    then show ?thesis by (simp add: octets.simps)
  next
    case False
    let ?m = "octets (n div 256)"
    have o: "octets n = Suc ?m" using False by (subst octets.simps) simp
    have IH: "n div 256 < 256 ^ ?m" "256 ^ (?m - 1) \<le> n div 256" "1 \<le> ?m" using 1 False by auto
    have "n < 256 ^ ?m * 256" using IH(1) by (simp add: div_less_iff_less_mult)
    moreover have "256 ^ (?m - 1) * 256 \<le> n" using IH(2) by (simp add: less_eq_div_iff_mult_less_eq)
    moreover have "256 ^ (?m - 1) * 256 = (256 :: nat) ^ ?m"
      using IH(3) by (simp flip: power_Suc2)
    ultimately show ?thesis by (simp add: o mult.commute)
  qed
qed

lemma octets_le_iff:
  assumes "1 \<le> n"
  shows "octets n \<le> k \<longleftrightarrow> n < 256 ^ k"
proof
  assume "octets n \<le> k"
  then have "(256 :: nat) ^ octets n \<le> 256 ^ k" by (rule power_increasing) simp
  with octets_bounds [of n] show "n < 256 ^ k" by linarith
next
  assume "n < 256 ^ k"
  moreover have "256 ^ (octets n - 1) \<le> n" using octets_bounds [of n] assms by simp
  ultimately have "(256 :: nat) ^ (octets n - 1) < 256 ^ k" by linarith
  then have "octets n - 1 < k" by (rule power_less_imp_less_exp [rotated]) simp
  then show "octets n \<le> k" by simp
qed

lemma octets_eqI:
  assumes "256 ^ (k - 1) \<le> n" "n < 256 ^ k" "1 \<le> k"
  shows "octets n = k"
proof -
  have n: "1 \<le> n" using assms(1) by (rule order_trans [rotated]) simp
  have "octets n \<le> k" "\<not> octets n \<le> k - 1"
    using assms octets_le_iff [OF n, of k] octets_le_iff [OF n, of "k - 1"] by simp_all
  then show ?thesis using assms(3) by simp
qed

text \<open>The length octets as the DER branch of the parser reads them.\<close>

definition der_len_read :: "CBS \<Rightarrow> (nat \<times> nat) option" where
  "der_len_read header =
     (case CBS_get_u8 header of (None, _) \<Rightarrow> None | (Some length_byte, header) \<Rightarrow>
      if length_byte AND 0x80 = 0 then Some (unat length_byte, 1)
      else let num_bytes = unat (length_byte AND 0x7f) in
        if num_bytes = 0 \<or> num_bytes > 4 then None
        else case cbs_get_u num_bytes header of (None, _) \<Rightarrow> None | (Some len64, _) \<Rightarrow>
          if len64 < 128 \<or> drop_bit ((num_bytes - 1) * 8) len64 = 0 then None
          else Some (unat len64, Suc num_bytes))"

lemma drop_bit_octet_0: "drop_bit ((k - 1) * 8) (v :: u64) = 0 \<longleftrightarrow> unat v < 256 ^ (k - 1)"
proof -
  have "drop_bit ((k - 1) * 8) v = 0 \<longleftrightarrow> unat v div 2 ^ ((k - 1) * 8) = 0"
    unfolding word_unat_eq_iff unat_drop_bit by simp
  also have "(2 :: nat) ^ ((k - 1) * 8) = 256 ^ (k - 1)"
    by (subst mult.commute) (simp add: power_mult)
  finally show ?thesis by (auto simp: div_eq_0_iff)
qed

lemma der_len_read_long:
  assumes "high_bit b"
  shows "der_len_read (b # header) = Some (len, k) \<longleftrightarrow>
    (\<exists>n r. unat b = 128 + n \<and> 1 \<le> n \<and> n \<le> 4 \<and> k = Suc n \<and> header = nat_be n len @ r
       \<and> 128 \<le> len \<and> octets len = n)" (is "?L \<longleftrightarrow> ?R")
proof
  assume ?L
  let ?n = "unat b mod 128"
  from \<open>?L\<close> assms obtain len64 r where r: "?n \<noteq> 0" "?n \<le> 4" "cbs_get_u ?n header = (Some len64, r)"
      "\<not> len64 < 128" "drop_bit ((?n - 1) * 8) len64 \<noteq> 0" "len = unat len64" "k = Suc ?n"
    by (auto simp: der_len_read_def unat_low_bits Let_def split: if_splits prod.splits option.splits)
  then have "unat len64 < 256 ^ ?n" "header = nat_be ?n len @ r" by (auto simp: cbs_get_u_codec)
  moreover have "256 ^ (?n - 1) \<le> len" using r(5,6) by (simp only: drop_bit_octet_0)
  moreover have "128 \<le> len" using r(4,6) by (simp add: word_less_nat_alt)
  moreover have "unat b = 128 + ?n"
    using assms unat_u8_less [of b] unfolding high_bit_iff by (simp add: le_mod_geq del: unat_u8_less)
  ultimately show ?R using r octets_eqI [of ?n len] by (intro exI [of _ ?n] exI [of _ r]) auto
next
  assume ?R
  then obtain n r where n: "unat b = 128 + n" "1 \<le> n" "n \<le> 4" "k = Suc n" "header = nat_be n len @ r"
    "128 \<le> len" "octets len = n" by blast
  have b: "unat b mod 128 = n" using n(1,3) by simp
  have "len < 256 ^ n" "256 ^ (n - 1) \<le> len" using octets_bounds [of len] n by auto
  moreover have "(256 :: nat) ^ n \<le> 256 ^ 4" using n(3) by (rule power_increasing) simp
  ultimately have len: "unat (of_nat len :: u64) = len" by (simp add: unat_of_nat)
  then have "cbs_get_u n header = (Some (of_nat len), r)"
    using n \<open>len < 256 ^ n\<close> by (simp add: cbs_get_u_codec)
  moreover have "drop_bit ((n - 1) * 8) (of_nat len :: u64) \<noteq> 0"
    unfolding drop_bit_octet_0 len using \<open>256 ^ (n - 1) \<le> len\<close> by simp
  moreover have "\<not> (of_nat len :: u64) < 128" using len n(6) by (simp add: word_less_nat_alt)
  ultimately show ?L
    using assms n len b by (simp add: der_len_read_def unat_low_bits)
qed

lemma der_len_read_iff:
  "der_len_read header = Some (len, k) \<longleftrightarrow>
     len < 2 ^ 32 \<and> (\<exists>r. header = der_length len @ r) \<and> k = length (der_length len)"
proof (cases header)
  case Nil
  then show ?thesis by (auto simp: der_len_read_def der_length_def)
next
  case (Cons b header')
  show ?thesis
  proof (cases "high_bit b")
    case False
    then have b: "unat b < 128" unfolding high_bit_iff by simp
    have "of_nat (128 + octets len) \<noteq> b" if "128 \<le> len" "len < 2 ^ 32"
      using b octets_le_iff [of len 4] that by (auto simp del: of_nat_add)
    moreover have "len < 128 \<Longrightarrow> of_nat len = b \<longleftrightarrow> len = unat b"
      using b by (auto simp: word_unat_eq_iff)
    ultimately show ?thesis
      using False Cons b by (auto simp: der_len_read_def der_length_def)
  next
    case True
    then have b: "128 \<le> unat b" unfolding high_bit_iff .
    have small: "len < 128 \<Longrightarrow> of_nat len \<noteq> b" using b by auto
    have "octets len \<le> 4 \<longleftrightarrow> len < 2 ^ 32" if "128 \<le> len" using octets_le_iff [of len 4] that by simp
    moreover have "unat b = 128 + octets len \<longleftrightarrow> b = of_nat (128 + octets len)" if "octets len \<le> 4"
      using that unat_of_nat_u8 [of "128 + octets len"] by (auto simp: word_unat_eq_iff simp del: of_nat_add)
    ultimately show ?thesis
      unfolding Cons der_len_read_long [OF True] using small octets_bounds [of len]
      by (cases "len < 128") (auto simp: der_length_def)
  qed
qed

lemma length_base128_high: "length (base128_high n) \<le> n"
proof (induction n rule: base128_high.induct)
  case (1 n)
  show ?case
  proof (cases "n = 0")
    case False
    have "n div 128 < n" using False by simp
    then have "length (base128_high (n div 128)) < n" using 1 False by fastforce
    then show ?thesis using False by (subst base128_high.simps) simp
  qed simp
qed

lemma length_der_tag: "length (der_tag tag) \<le> 2 ^ 29 + 2"
proof -
  have "unat tag mod 2 ^ 29 div 128 \<le> 2 ^ 29"
    by (rule order_trans [OF div_le_dividend]) (rule less_imp_le, simp)
  then show ?thesis
    using length_base128_high [of "unat tag mod 2 ^ 29 div 128"]
    by (simp add: der_tag_def base128_def Let_def)
qed

text \<open>
  The length octets in both modes: the length, the number of octets read, and whether the form
  is BER only or indefinite.
\<close>

definition asn1_len_read :: "bool \<Rightarrow> CBS_ASN1_TAG \<Rightarrow> CBS \<Rightarrow> (nat \<times> nat \<times> bool \<times> bool) option" where
  "asn1_len_read ber_ok tag header =
     (case CBS_get_u8 header of (None, _) \<Rightarrow> None | (Some length_byte, header) \<Rightarrow>
      if length_byte AND 0x80 = 0 then Some (unat length_byte, 1, False, False)
      else let num_bytes = unat (length_byte AND 0x7f) in
        if ber_ok \<and> tag AND CBS_ASN1_CONSTRUCTED \<noteq> 0 \<and> num_bytes = 0 then Some (0, 1, True, True)
        else if num_bytes = 0 \<or> num_bytes > 4 then None
        else case cbs_get_u num_bytes header of (None, _) \<Rightarrow> None | (Some len64, _) \<Rightarrow>
          let ber = (len64 < 128 \<or> drop_bit ((num_bytes - 1) * 8) len64 = 0)
          in if ber \<and> \<not> ber_ok then None else Some (unat len64, Suc num_bytes, ber, False))"

lemma asn1_len_read_der:
  "asn1_len_read False tag header = map_option (\<lambda>(len, k). (len, k, False, False)) (der_len_read header)"
  by (simp add: asn1_len_read_def der_len_read_def Let_def split: prod.split option.split)

lemma asn1_len_read_ber:
  "asn1_len_read False tag header =
     (case asn1_len_read True tag header of None \<Rightarrow> None
      | Some (len, k, ber, indef) \<Rightarrow> if ber then None else Some (len, k, ber, indef))"
  by (simp add: asn1_len_read_def Let_def split: prod.split option.split)

text \<open>No size in it wraps, because a header is short.\<close>

lemma element_unfold:
  assumes "parse_asn1_tag cbs = (Some tag, header)"
  shows "cbs_get_any_asn1_element ber_ok cbs =
    (case asn1_len_read ber_ok tag header of None \<Rightarrow> (None, cbs) | Some (len, k, ber, indef) \<Rightarrow>
       rd_bind (CBS_get_bytes (length (der_tag tag) + k + len)) (\<lambda>out. rd_return
         \<lparr> elem_out = out, elem_tag = tag, elem_header_len = length (der_tag tag) + k,
           elem_ber_found = ber, elem_indefinite = indef \<rparr>) cbs)"
proof (cases header)
  case Nil
  then show ?thesis using assms by (simp add: cbs_get_any_asn1_element_def asn1_len_read_def)
next
  case (Cons b header')
  have h: "length cbs - length header' = Suc (length (der_tag tag))" "length (der_tag tag) \<le> 2 ^ 29 + 2"
    using assms length_der_tag [of tag] by (simp_all add: parse_asn1_tag_iff Cons)
  have len: "unat len64 < 2 ^ 32" if "cbs_get_u k header' = (Some len64, r)" "k \<le> 4" for len64 k r
  proof -
    have "unat len64 < 256 ^ k" using that by (simp add: cbs_get_u_codec)
    also have "(256 :: nat) ^ k \<le> 256 ^ 4" using that(2) by (rule power_increasing) simp
    finally show ?thesis by simp
  qed
  note defs = Cons cbs_get_any_asn1_element_def asn1_len_read_def Let_def
  show ?thesis
  proof (cases "high_bit b")
    case False
    then have "unat b < 128" unfolding high_bit_iff by simp
    then show ?thesis using assms h False by (simp add: defs size_add_def add.commute)
  next
    case True
    define k where "k = unat (b AND 0x7f)"
    show ?thesis
    proof (cases "k = 0 \<or> 4 < k")
      case bad: True
      then show ?thesis using assms True h by (simp add: defs flip: k_def)
    next
      case False
      obtain x r where x: "cbs_get_u k header' = (x, r)" by fastforce
      show ?thesis
      proof (cases x)
        case None
        with x False show ?thesis using assms True by (simp add: defs flip: k_def)
      next
        case (Some len64)
        have "unat len64 < 2 ^ 32" using len [of k len64 r] x Some False by simp
        then have "size_add (size_add (unat len64) (Suc (length (der_tag tag)))) k
              = Suc (length (der_tag tag) + k + unat len64)"
          "size_add (unat len64) (size_add (Suc (length (der_tag tag))) k)
              = Suc (length (der_tag tag) + k + unat len64)"
          "size_add (Suc (length (der_tag tag))) k = Suc (length (der_tag tag) + k)"
          using h False by (simp_all add: size_add_def)
        with x Some False show ?thesis using assms True h by (simp add: defs flip: k_def) blast
      qed
    qed
  qed
qed

lemma element_no_tag: "parse_asn1_tag cbs = (None, r) \<Longrightarrow> cbs_get_any_asn1_element ber_ok cbs = (None, cbs)"
  by (simp add: cbs_get_any_asn1_element_def)

lemma elementE:
  assumes "cbs_get_any_asn1_element ber_ok cbs = (Some e, rest)"
  obtains tag header len k ber indef where "parse_asn1_tag cbs = (Some tag, header)"
    "asn1_len_read ber_ok tag header = Some (len, k, ber, indef)"
    "cbs = elem_out e @ rest" "length (elem_out e) = length (der_tag tag) + k + len"
    "e = \<lparr> elem_out = elem_out e, elem_tag = tag, elem_header_len = length (der_tag tag) + k,
           elem_ber_found = ber, elem_indefinite = indef \<rparr>"
proof -
  obtain x header where x: "parse_asn1_tag cbs = (x, header)" by fastforce
  with assms obtain tag where tag: "parse_asn1_tag cbs = (Some tag, header)"
    by (cases x) (auto simp: element_no_tag)
  with assms obtain len k ber indef where l: "asn1_len_read ber_ok tag header = Some (len, k, ber, indef)"
    by (auto simp: element_unfold [OF tag] split: option.splits)
  from assms show thesis
    using that [OF tag l] by (auto simp: element_unfold [OF tag] l reader_simps)
qed

text \<open>The record the parser returns for an element of the reference encoding.\<close>

definition elem_of :: "CBS_ASN1_TAG \<Rightarrow> bytes \<Rightarrow> asn1_element" where
  "elem_of tag contents =
     \<lparr> elem_out = der_element tag contents, elem_tag = tag,
       elem_header_len = length (der_tag tag) + length (der_length (length contents)),
       elem_ber_found = False, elem_indefinite = False \<rparr>"

lemma CBS_get_any_asn1_element_iff:
  "CBS_get_any_asn1_element cbs = (Some e, rest) \<longleftrightarrow>
     (\<exists>tag contents. valid_tag tag \<and> length contents < 2 ^ 32
        \<and> cbs = der_element tag contents @ rest \<and> e = elem_of tag contents)" (is "?L \<longleftrightarrow> ?R")
proof
  assume ?L
  then obtain tag header len k ber indef where tag: "parse_asn1_tag cbs = (Some tag, header)"
    and l: "asn1_len_read False tag header = Some (len, k, ber, indef)"
    and out: "cbs = elem_out e @ rest" "length (elem_out e) = length (der_tag tag) + k + len"
      "e = \<lparr> elem_out = elem_out e, elem_tag = tag, elem_header_len = length (der_tag tag) + k,
             elem_ber_found = ber, elem_indefinite = indef \<rparr>"
    unfolding CBS_get_any_asn1_element_def by (rule elementE)
  from l have flags: "\<not> ber" "\<not> indef" and len: "der_len_read header = Some (len, k)"
    by (auto simp: asn1_len_read_der)
  then obtain r where r: "len < 2 ^ 32" "header = der_length len @ r" "k = length (der_length len)"
    by (auto simp: der_len_read_iff)
  have t: "valid_tag tag" "cbs = der_tag tag @ header" using tag by (simp_all add: parse_asn1_tag_iff)
  define out' where "out' = elem_out e"
  have o: "take (length out') cbs = out'" "length out' = length (der_tag tag) + k + len"
    using out(1,2) by (simp_all add: out'_def)
  then have "out' = der_element tag (take len r)" "length (take len r) = len"
    using t(2) r(2,3) out(1,2) by (auto simp: der_element_def)
  moreover from this have "e = elem_of tag (take len r)"
    using out(3) r(3) flags by (simp add: elem_of_def out'_def)
  ultimately show ?R using t(1) r(1) out(1) unfolding out'_def by metis
next
  assume ?R
  then obtain tag contents where c: "valid_tag tag" "length contents < 2 ^ 32"
    "cbs = der_element tag contents @ rest" "e = elem_of tag contents" by blast
  have tag: "parse_asn1_tag cbs = (Some tag, der_length (length contents) @ contents @ rest)"
    using c by (simp add: parse_asn1_tag_iff der_element_def)
  have len: "der_len_read (der_length (length contents) @ contents @ rest)
      = Some (length contents, length (der_length (length contents)))"
    using c(2) by (auto simp: der_len_read_iff)
  have "CBS_get_bytes (length (der_element tag contents)) cbs = (Some (der_element tag contents), rest)"
    using c(3) by (simp add: reader_simps)
  then show ?L
    unfolding CBS_get_any_asn1_element_def element_unfold [OF tag] asn1_len_read_der len c(4) elem_of_def
    by (simp add: der_element_def rd_bind_def rd_return_def add.assoc)
qed


lemma skip_header_elem_of: "skip_header (elem_of tag contents) cbs = (Some contents, cbs)"
proof -
  have "CBS_skip (elem_header_len (elem_of tag contents)) (elem_out (elem_of tag contents))
      = (Some (), contents)"
    by (simp add: CBS_skip_def elem_of_def der_element_def rd_bind_def rd_return_def cbs_get_def)
  then show ?thesis by (simp add: skip_header_def)
qed

lemma elem_of_sels [simp]:
  "elem_tag (elem_of t c) = t" "elem_out (elem_of t c) = der_element t c"
  by (simp_all add: elem_of_def)

lemma get_der_element:
  assumes "valid_tag tag" "length contents < 2 ^ 32"
  shows "CBS_get_any_asn1_element (der_element tag contents @ rest) = (Some (elem_of tag contents), rest)"
  using assms unfolding CBS_get_any_asn1_element_iff by blast

lemma get_der_elementE:
  assumes "CBS_get_any_asn1_element cbs = (Some e, rest)"
  obtains tag contents where "valid_tag tag" "length contents < 2 ^ 32"
    "cbs = der_element tag contents @ rest" "e = elem_of tag contents"
  using assms unfolding CBS_get_any_asn1_element_iff by blast

lemma CBS_get_any_asn1_iff:
  "CBS_get_any_asn1 cbs = (Some (out, tag), rest) \<longleftrightarrow>
     valid_tag tag \<and> length out < 2 ^ 32 \<and> cbs = der_element tag out @ rest"
  unfolding CBS_get_any_asn1_def
  by (auto simp: rd_bind_Some_iff rd_return_iff skip_header_elem_of elim!: get_der_elementE
      intro!: exI [of _ "elem_of tag out"] get_der_element)

text \<open>The DER elements whose contents are shorter than \<open>2 ^ 32\<close> bytes, and nothing else.\<close>

interpretation der_codec: codec "\<lambda>(out, tag). der_element tag out" CBS_get_any_asn1
  "\<lambda>(out, tag). valid_tag tag \<and> length out < 2 ^ 32"
  by unfold_locales (auto simp: CBS_get_any_asn1_iff)

lemma CBS_get_asn1_iff [reader_simps]:
  "CBS_get_asn1 tag cbs = (Some out, rest) \<longleftrightarrow>
     valid_tag tag \<and> length out < 2 ^ 32 \<and> cbs = der_element tag out @ rest"
proof
  assume "CBS_get_asn1 tag cbs = (Some out, rest)"
  then show "valid_tag tag \<and> length out < 2 ^ 32 \<and> cbs = der_element tag out @ rest"
    by (auto simp: CBS_get_asn1_def cbs_get_asn1_def rd_bind_Some_iff rd_return_iff rd_fail_iff
        skip_header_elem_of split: if_splits elim!: get_der_elementE)
next
  assume "valid_tag tag \<and> length out < 2 ^ 32 \<and> cbs = der_element tag out @ rest"
  then show "CBS_get_asn1 tag cbs = (Some out, rest)"
    by (simp add: CBS_get_asn1_def cbs_get_asn1_def get_der_element rd_bind_simps skip_header_elem_of)
qed

lemma CBS_get_asn1_element_iff:
  "CBS_get_asn1_element tag cbs = (Some out, rest) \<longleftrightarrow>
     cbs = out @ rest \<and> (\<exists>contents. valid_tag tag \<and> length contents < 2 ^ 32 \<and> out = der_element tag contents)"
    (is "?L \<longleftrightarrow> ?R")
proof
  assume ?L
  then show ?R
    by (auto simp: CBS_get_asn1_element_def cbs_get_asn1_def rd_bind_Some_iff rd_return_iff rd_fail_iff
        split: if_splits elim!: get_der_elementE)
next
  assume ?R
  then show ?L
    by (auto simp: CBS_get_asn1_element_def cbs_get_asn1_def get_der_element rd_bind_simps rd_return_def)
qed

text \<open>On failure the parser of one element has not moved; with a tag mismatch it has.\<close>

lemma cbs_get_any_asn1_element_None:
  assumes "cbs_get_any_asn1_element ber_ok cbs = (None, cbs')"
  shows "cbs' = cbs"
proof -
  obtain x header where x: "parse_asn1_tag cbs = (x, header)" by fastforce
  show ?thesis
  proof (cases x)
    case None
    with x assms show ?thesis by (simp add: element_no_tag)
  next
    case (Some tag)
    with x have tag: "parse_asn1_tag cbs = (Some tag, header)" by simp
    show ?thesis
      using assms unfolding element_unfold [OF tag]
      by (auto simp: rd_bind_def rd_return_def CBS_get_bytes_None split: option.splits prod.splits)
  qed
qed

text \<open>\<open>*out_ber_found\<close> is exact: cleared if and only if the element is DER.\<close>

lemma ber_found_iff:
  "CBS_get_any_asn1_element cbs = (Some e, rest) \<longleftrightarrow>
     CBS_get_any_ber_asn1_element cbs = (Some e, rest) \<and> \<not> elem_ber_found e"
proof -
  have "cbs_get_any_asn1_element False cbs = (Some e, rest) \<longleftrightarrow>
      cbs_get_any_asn1_element True cbs = (Some e, rest) \<and> \<not> elem_ber_found e"
    if tag: "parse_asn1_tag cbs = (Some tag, header)" for tag header
    unfolding element_unfold [OF tag] asn1_len_read_ber [of tag header]
    by (auto simp: reader_simps split: option.splits)
  then show ?thesis
    unfolding CBS_get_any_asn1_element_def CBS_get_any_ber_asn1_element_def by (metis elementE)
qed

lemma indefinite_element:
  assumes "CBS_get_any_ber_asn1_element cbs = (Some e, rest)" "elem_indefinite e"
  shows "elem_ber_found e \<and> elem_tag e AND CBS_ASN1_CONSTRUCTED \<noteq> 0 \<and> valid_tag (elem_tag e)
    \<and> elem_out e = der_tag (elem_tag e) @ [0x80] \<and> elem_header_len e = length (elem_out e)
    \<and> cbs = elem_out e @ rest"
proof -
  obtain tag header len k ber where tag: "parse_asn1_tag cbs = (Some tag, header)"
    and l: "asn1_len_read True tag header = Some (len, k, ber, True)"
    and out: "cbs = elem_out e @ rest" "length (elem_out e) = length (der_tag tag) + k + len"
      "e = \<lparr> elem_out = elem_out e, elem_tag = tag, elem_header_len = length (der_tag tag) + k,
             elem_ber_found = ber, elem_indefinite = True \<rparr>"
    using assms unfolding CBS_get_any_ber_asn1_element_def
    by (auto elim!: elementE simp del: asn1_element.simps) (metis asn1_element.select_convs(5))
  from l obtain b header' where b: "header = b # header'" "high_bit b" "unat (b AND 0x7f) = 0"
      "tag AND CBS_ASN1_CONSTRUCTED \<noteq> 0" "len = 0" "k = 1" "ber"
    by (cases header) (auto simp: asn1_len_read_def Let_def split: if_splits prod.splits option.splits)
  have "b = 0x80" using of_nat_high [OF b(2)] b(3) by (simp add: unat_low_bits)
  then have c: "valid_tag tag" "cbs = (der_tag tag @ [0x80]) @ header'"
    using tag b(1) by (simp_all add: parse_asn1_tag_iff)
  have "elem_out e @ rest = (der_tag tag @ [0x80]) @ header'"
    "length (elem_out e) = length (der_tag tag @ [0x80])"
    using c(2) out(1,2) b(5,6) by simp_all
  then have "elem_out e = der_tag tag @ [0x80]" using append_eq_append_conv by metis
  moreover have "elem_tag e = tag" "elem_header_len e = length (der_tag tag) + k" "elem_ber_found e = ber"
    by (subst out(3), simp)+
  ultimately show ?thesis using c(1) b out(1) by simp
qed

section \<open>Properties\<close>

text \<open>C1: \<open>CBS_get_any_asn1\<close> is an exact parser of DER: it returns the contents \<open>out\<close>, the tag and the
  rest of the input if and only if the input is the DER encoding of that element followed by the rest,
  the tag is not universal zero and the contents are shorter than \<open>2 ^ 32\<close> bytes.\<close>
theorem CBS_get_any_asn1_exact:
  "CBS_get_any_asn1 cbs = (Some (out, tag), rest) \<longleftrightarrow>
     valid_tag tag \<and> length out < 2 ^ 32 \<and> cbs = der_element tag out @ rest"
  by (rule CBS_get_any_asn1_iff)

text \<open>A byte string has at most one reading as a sequence of DER elements: two lists of elements
  that \<open>CBS_get_any_asn1\<close> can return and that have the same encoding are equal.\<close>
theorem der_sequence_unambiguous:
  assumes "list_all (\<lambda>(out, tag). valid_tag tag \<and> length out < 2 ^ 32) xs"
    and "list_all (\<lambda>(out, tag). valid_tag tag \<and> length out < 2 ^ 32) ys"
    and "concat (map (\<lambda>(out, tag). der_element tag out) xs) = concat (map (\<lambda>(out, tag). der_element tag out) ys)"
  shows "xs = ys"
  using assms der_codec.concat_unambiguous [of xs ys]
  by (auto simp: der_element_def der_tag_def Let_def)

theorem der_sequence_unambiguous_witness:
  "[([1], 2), ([], 5)] = [([1 :: u8], 2 :: u32), ([], 5)]"
  by (rule der_sequence_unambiguous) (simp_all add: valid_tag_def)

text \<open>C2: \<open>CBS_get_any_ber_asn1_element\<close> reports \<open>*out_ber_found\<close> exactly: it succeeds with the flag
  clear if and only if the strict DER parser succeeds, with the same element.\<close>
theorem CBS_get_any_ber_asn1_element_ber_found:
  "CBS_get_any_asn1_element cbs = (Some e, rest) \<longleftrightarrow>
     CBS_get_any_ber_asn1_element cbs = (Some e, rest) \<and> \<not> elem_ber_found e"
  by (rule ber_found_iff)

end
