(* ===== verification/Asn1Values.thy ===== *)
theory Asn1Values
  imports Asn1
begin

text \<open>
  The contents of ASN.1 elements as \<open>crypto/bytestring/cbs.c\<close> reads them: INTEGER, BOOLEAN,
  OBJECT IDENTIFIER, BIT STRING and optional elements. Each reader accepts exactly the DER
  encoding of each value it can return.
\<close>

unbundle bit_operations_syntax

section \<open>Integers\<close>

definition asn1_int_val :: "bytes \<Rightarrow> int" where
  "asn1_int_val bs =
     int (be_nat bs) - (if bs \<noteq> [] \<and> high_bit (hd bs) then 256 ^ length bs else 0)"

lemma valid_asn1_integer_simps [simp]:
  "CBS_is_valid_asn1_integer [] = None"
  "CBS_is_valid_asn1_integer [a] = Some (high_bit a)"
  "CBS_is_valid_asn1_integer (a # b # r) =
     (if (a = 0 \<and> \<not> high_bit b) \<or> (a = 0xff \<and> high_bit b) then None else Some (high_bit a))"
  by (auto simp: CBS_is_valid_asn1_integer_def)

lemma asn1_int_val_snoc: "bs \<noteq> [] \<Longrightarrow> asn1_int_val (bs @ [b]) = 256 * asn1_int_val bs + uint b"
  by (simp add: asn1_int_val_def be_nat_append be_nat_Cons algebra_simps)

lemma uint_of_int_u8: "uint (of_int i :: u8) = i mod 256"
  by (simp add: uint_word_of_int)

lemma high_bit_uint: "high_bit b \<longleftrightarrow> 128 \<le> uint b"
  unfolding high_bit_iff uint_nat by linarith

lemma uint_u8_bounds: "0 \<le> uint (b :: u8) \<and> uint b < 256"
  using unsigned_less [of b, where ?'a = int] by simp

lemma asn1_int_val_single: "asn1_int_val [b] = (if high_bit b then uint b - 256 else uint b)"
  by (simp add: asn1_int_val_def be_nat_Cons)

lemma asn1_int_val_byte: "- 128 \<le> i \<Longrightarrow> i < 128 \<Longrightarrow> asn1_int_val [of_int i] = i"
proof -
  assume i: "- 128 \<le> i" "i < 128"
  have "uint (of_int i :: u8) = (if 0 \<le> i then i else i + 256)"
    unfolding uint_of_int_u8 using i mod_pos_pos_trivial [of "i + 256" 256]
    by (cases "0 \<le> i") simp_all
  then show ?thesis using i unfolding asn1_int_val_single high_bit_uint by auto
qed

lemma of_int_asn1_int_val: "of_int (asn1_int_val [b]) = b"
  by (simp add: asn1_int_val_single)

lemma asn1_int_val_range: "- 128 \<le> asn1_int_val [b] \<and> asn1_int_val [b] < 128"
  using uint_u8_bounds [of b] unfolding asn1_int_val_single high_bit_uint
  by (cases "128 \<le> uint b") (simp_all only: if_True if_False, linarith+)

lemma asn1_int_not_Nil [simp]: "asn1_int i \<noteq> []"
  by (subst asn1_int.simps) simp

lemma asn1_int_small: "- 128 \<le> i \<Longrightarrow> i < 128 \<Longrightarrow> asn1_int i = [of_int i]"
  by (subst asn1_int.simps) simp

lemma asn1_int_large: "\<not> (- 128 \<le> i \<and> i < 128) \<Longrightarrow> asn1_int i = asn1_int (i div 256) @ [of_int i]"
  by (subst asn1_int.simps) auto

lemma asn1_int_val_asn1_int [simp]: "asn1_int_val (asn1_int i) = i"
proof (induction i rule: asn1_int.induct)
  case (1 i)
  show ?case
  proof (cases "- 128 \<le> i \<and> i < 128")
    case True
    then show ?thesis by (simp add: asn1_int_small asn1_int_val_byte)
  next
    case False
    with 1 show ?thesis
      by (simp add: asn1_int_large asn1_int_val_snoc uint_of_int_u8)
  qed
qed

lemma asn1_int_val_sign:
  assumes "bs \<noteq> []"
  shows "asn1_int_val bs < 0 \<longleftrightarrow> high_bit (hd bs)"
proof -
  have "int (be_nat bs) < 256 ^ length bs"
    using be_nat_bound [of bs] by (metis of_nat_less_iff of_nat_numeral of_nat_power)
  then show ?thesis using assms by (simp add: asn1_int_val_def)
qed

lemma valid_asn1_integer_snoc:
  "2 \<le> length bs \<Longrightarrow> CBS_is_valid_asn1_integer (bs @ [c]) = CBS_is_valid_asn1_integer bs"
  by (cases bs; cases "tl bs") auto

lemma valid_asn1_integer_Some:
  "CBS_is_valid_asn1_integer bs = Some neg \<Longrightarrow> bs \<noteq> [] \<and> neg = high_bit (hd bs)"
  by (cases bs; cases "tl bs") (auto split: if_splits)

text \<open>The two-octet case decides minimality: the first nine bits are not all equal.\<close>

lemma valid_two_octets:
  "CBS_is_valid_asn1_integer [a, c] \<noteq> None \<longleftrightarrow>
     \<not> (- 128 \<le> 256 * asn1_int_val [a] + uint c \<and> 256 * asn1_int_val [a] + uint c < 128)"
proof -
  have a: "a = 0 \<longleftrightarrow> asn1_int_val [a] = 0" "a = 0xff \<longleftrightarrow> asn1_int_val [a] = - 1"
    using of_int_asn1_int_val [of a] by (auto simp: asn1_int_val_single)
  have "(s = 0 \<and> \<not> 128 \<le> u) \<or> (s = - 1 \<and> 128 \<le> u) \<longleftrightarrow> - 128 \<le> 256 * s + u \<and> 256 * s + u < 128"
    if "0 \<le> u \<and> u < 256" for s u :: int
  proof
    assume "- 128 \<le> 256 * s + u \<and> 256 * s + u < 128"
    moreover from this that have "s = 0 \<or> s = - 1" by linarith
    ultimately show "(s = 0 \<and> \<not> 128 \<le> u) \<or> (s = - 1 \<and> 128 \<le> u)" by auto
  qed (use that in auto)
  from this [OF uint_u8_bounds [of c], of "asn1_int_val [a]"] show ?thesis
    by (simp only: valid_asn1_integer_simps a high_bit_uint) auto
qed

lemma valid_asn1_int: "CBS_is_valid_asn1_integer (asn1_int i) = Some (i < 0)"
proof -
  have "CBS_is_valid_asn1_integer (asn1_int i) \<noteq> None"
  proof (induction i rule: asn1_int.induct)
    case (1 i)
    show ?case
    proof (cases "- 128 \<le> i \<and> i < 128")
      case True
      then show ?thesis by (simp add: asn1_int_small)
    next
      case False
      then have IH: "CBS_is_valid_asn1_integer (asn1_int (i div 256)) \<noteq> None" by (rule 1)
      show ?thesis
      proof (cases "- 128 \<le> i div 256 \<and> i div 256 < 128")
        case small: True
        then show ?thesis
          using False valid_two_octets [of "of_int (i div 256)" "of_int i"]
          by (simp add: asn1_int_large asn1_int_small asn1_int_val_byte uint_of_int_u8 del: valid_asn1_integer_simps)
      next
        case large: False
        have "2 \<le> length (asn1_int (i div 256))"
          unfolding asn1_int_large [OF large] using asn1_int_not_Nil [of "i div 256 div 256"]
          by (cases "asn1_int (i div 256 div 256)") auto
        then show ?thesis using IH False by (simp add: asn1_int_large valid_asn1_integer_snoc)
      qed
    qed
  qed
  then show ?thesis
    using valid_asn1_integer_Some asn1_int_val_sign [of "asn1_int i"] by fastforce
qed

lemma asn1_int_asn1_int_val:
  "CBS_is_valid_asn1_integer bs \<noteq> None \<Longrightarrow> asn1_int (asn1_int_val bs) = bs"
proof (induction bs rule: rev_induct)
  case (snoc c bs)
  show ?case
  proof (cases "bs = []")
    case True
    then show ?thesis
      using asn1_int_val_range [of c] by (simp add: asn1_int_small of_int_asn1_int_val)
  next
    case False
    let ?v = "asn1_int_val bs"
    have IH: "asn1_int ?v = bs"
    proof (cases "2 \<le> length bs")
      case True then show ?thesis using snoc by (simp add: valid_asn1_integer_snoc)
    next
      case l: False
      with False obtain a where "bs = [a]" by (cases bs; cases "tl bs") auto
      with snoc.IH show ?thesis by simp
    qed
    have "\<not> (- 128 \<le> 256 * ?v + uint c \<and> 256 * ?v + uint c < 128)"
    proof (cases "2 \<le> length bs")
      case True
      then have "\<not> (- 128 \<le> ?v \<and> ?v < 128)" using IH asn1_int_small [of ?v]
        by (metis One_nat_def Suc_1 length_Cons list.size(3) not_less_eq_eq order_refl)
      then show ?thesis using uint_u8_bounds [of c] by linarith
    next
      case l: False
      with False obtain a where a: "bs = [a]" by (cases bs; cases "tl bs") auto
      with snoc.prems show ?thesis using valid_two_octets [of a c] by simp
    qed
    moreover have "(256 * ?v + uint c) div 256 = ?v" using uint_u8_bounds [of c] by simp
    moreover have "of_int (256 * ?v + uint c) = c" by simp
    ultimately show ?thesis
      unfolding asn1_int_val_snoc [OF False] using IH asn1_int_large by metis
  qed
qed simp

text \<open>The check accepts exactly the minimal two's complement encodings.\<close>

lemma CBS_is_valid_asn1_integer_iff:
  "CBS_is_valid_asn1_integer bs = Some neg \<longleftrightarrow> (\<exists>i. bs = asn1_int i \<and> neg = (i < 0))"
proof
  assume v: "CBS_is_valid_asn1_integer bs = Some neg"
  then have "bs = asn1_int (asn1_int_val bs)" by (simp add: asn1_int_asn1_int_val)
  with v valid_asn1_int [of "asn1_int_val bs"] show "\<exists>i. bs = asn1_int i \<and> neg = (i < 0)" by auto
qed (auto simp: valid_asn1_int)


lemma length_asn1_int:
  assumes "1 \<le> n" "- (128 * 256 ^ (n - 1)) \<le> i" "i < 128 * 256 ^ (n - 1)"
  shows "length (asn1_int i) \<le> n"
  using assms
proof (induction i arbitrary: n rule: asn1_int.induct)
  case (1 i)
  show ?case
  proof (cases "- 128 \<le> i \<and> i < 128")
    case True
    then show ?thesis using 1 by (simp add: asn1_int_small)
  next
    case False
    then obtain m where m: "n = Suc m" "1 \<le> m" using 1 by (cases n; cases "n - 1") auto
    have p: "(256 :: int) ^ m = 256 * 256 ^ (m - 1)" using m(2) by (cases m) auto
    have "- (128 * 256 ^ (m - 1)) \<le> i div 256" "i div 256 < 128 * 256 ^ (m - 1)"
      using 1 m p by (simp_all add: div_int_pos_iff)
    then have "length (asn1_int (i div 256)) \<le> m" using 1 False m by blast
    then show ?thesis using False m by (simp add: asn1_int_large)
  qed
qed

lemma asn1_int_val_bounds:
  assumes "bs \<noteq> []"
  shows "- (128 * 256 ^ (length bs - 1)) \<le> asn1_int_val bs \<and> asn1_int_val bs < 128 * 256 ^ (length bs - 1)"
  using assms
proof (induction bs rule: rev_induct)
  case (snoc c bs)
  show ?case
  proof (cases "bs = []")
    case True then show ?thesis using asn1_int_val_range [of c] by simp
  next
    case False
    then have p: "(256 :: int) ^ length bs = 256 * 256 ^ (length bs - 1)" by (cases bs) auto
    from snoc False have "- (128 * 256 ^ (length bs - 1)) \<le> asn1_int_val bs"
      "asn1_int_val bs < 128 * 256 ^ (length bs - 1)" by simp_all
    then show ?thesis using p uint_u8_bounds [of c]
      unfolding asn1_int_val_snoc [OF False] length_append list.size by (simp, linarith)
  qed
qed simp

lemma asn1_uint64_loop_iff:
  "asn1_uint64_loop out data = Some v \<longleftrightarrow>
     unat v = unat out * 256 ^ length data + be_nat data"
proof (induction data arbitrary: out)
  case Nil
  then show ?case by (auto simp: word_unat_eq_iff)
next
  case (Cons b data)
  have d: "drop_bit 56 out = 0 \<longleftrightarrow> unat out < 2 ^ 56"
    unfolding word_unat_eq_iff unat_drop_bit by (auto simp: div_eq_0_iff)
  show ?case
  proof (cases "drop_bit 56 out = 0")
    case True
    then have o: "unat out < 2 ^ 56" using d by simp
    have "push_bit 8 out OR ucast b = of_nat (256 * unat out + unat b)" by (simp add: push_or_u8)
    moreover have "256 * unat out + unat b < 2 ^ 64"
      using o unat_u8_less [of b] by (simp del: unat_u8_less)
    ultimately have "unat (push_bit 8 out OR ucast b) = 256 * unat out + unat b"
      by (simp add: unat_of_nat del: of_nat_add of_nat_mult)
    then show ?thesis using True Cons by (simp add: be_nat_Cons algebra_simps)
  next
    case False
    then have "2 ^ 56 \<le> unat out" using d by simp
    then have "2 ^ 56 * 256 ^ length (b # data) \<le> unat out * 256 ^ length (b # data)" by (rule mult_right_mono) simp
    moreover have "(2 :: nat) ^ 64 \<le> 2 ^ 56 * 256 ^ length (b # data)" by simp
    moreover have "unat v < 2 ^ 64" using unsigned_less [of v, where ?'a = nat] by simp
    ultimately have "unat v \<noteq> unat out * 256 ^ length (b # data) + be_nat (b # data)" by linarith
    with False show ?thesis by simp
  qed
qed

lemma valid_tags [simp]:
  "valid_tag CBS_ASN1_BOOLEAN" "valid_tag CBS_ASN1_INTEGER" "valid_tag CBS_ASN1_OCTETSTRING"
  "valid_tag CBS_ASN1_OBJECT"
  by (simp_all add: valid_tag_def)

lemma CBS_is_unsigned_asn1_integer_iff:
  "CBS_is_unsigned_asn1_integer bs \<longleftrightarrow> (\<exists>n. bs = asn1_int (int n))"
proof
  assume "CBS_is_unsigned_asn1_integer bs"
  then obtain i where i: "bs = asn1_int i" "\<not> i < 0"
    by (auto simp: CBS_is_unsigned_asn1_integer_def CBS_is_valid_asn1_integer_iff split: option.splits)
  then show "\<exists>n. bs = asn1_int (int n)" by (intro exI [of _ "nat i"]) simp
qed (auto simp: CBS_is_unsigned_asn1_integer_def valid_asn1_int)

lemma be_nat_asn1_int: "be_nat (asn1_int (int n)) = n"
  using asn1_int_val_sign [of "asn1_int (int n)"] asn1_int_val_asn1_int [of "int n"]
  by (simp add: asn1_int_val_def split: if_splits)

lemma CBS_get_asn1_uint64_iff:
  "CBS_get_asn1_uint64 cbs = (Some v, rest) \<longleftrightarrow>
     cbs = der_element CBS_ASN1_INTEGER (asn1_int (int (unat v))) @ rest" (is "?L \<longleftrightarrow> ?R")
proof
  assume ?L
  then obtain n where n: "cbs = der_element CBS_ASN1_INTEGER (asn1_int (int n)) @ rest"
      "asn1_uint64_loop 0 (asn1_int (int n)) = Some v"
    by (auto simp: CBS_get_asn1_uint64_def reader_simps CBS_is_unsigned_asn1_integer_iff
        split: if_splits option.splits)
  then show ?R by (simp add: asn1_uint64_loop_iff be_nat_asn1_int del: of_nat_unat)
next
  assume R: ?R
  have "0 \<le> int (unat v)" "int (unat v) < 2 ^ 64" using unsigned_less [of v, where ?'a = int] by simp_all
  then have "length (asn1_int (int (unat v))) \<le> 9"
    by (intro length_asn1_int) (simp_all del: of_nat_unat)
  then have "CBS_get_asn1 CBS_ASN1_INTEGER cbs = (Some (asn1_int (int (unat v))), rest)"
    unfolding CBS_get_asn1_iff using R by simp
  moreover have "asn1_uint64_loop 0 (asn1_int (int (unat v))) = Some v"
    by (simp add: asn1_uint64_loop_iff be_nat_asn1_int del: of_nat_unat)
  moreover have "CBS_is_unsigned_asn1_integer (asn1_int (int (unat v)))"
    unfolding CBS_is_unsigned_asn1_integer_iff by blast
  ultimately show ?L
    by (simp add: CBS_get_asn1_uint64_def rd_bind_def rd_return_def del: of_nat_unat)
qed

text \<open>Sign extension to eight bytes keeps the value.\<close>

lemma be_nat_replicate_ff: "int (be_nat (replicate k 0xff)) = 256 ^ k - 1"
  by (induction k) (simp_all add: be_nat_Cons)

lemma be_nat_replicate_0: "be_nat (replicate k 0) = 0"
  by (induction k) (simp_all add: be_nat_Cons)

lemma sint_u64: "sint (v :: u64) = (if unat v < 2 ^ 63 then int (unat v) else int (unat v) - 2 ^ 64)"
proof -
  have "take_bit 64 (uint v) = uint v"
    using unsigned_less [of v, where ?'a = int] by (intro take_bit_int_eq_self) simp_all
  moreover have "bit (uint v) 63 \<longleftrightarrow> \<not> unat v < 2 ^ 63"
    using bit_msb_unat [of v] by (simp add: bit_uint_iff not_less)
  ultimately show ?thesis by (simp add: sint_uint signed_take_bit_eq_take_bit_minus)
qed

lemma sint_sign_extend:
  assumes "bs \<noteq> []" "length bs \<le> 8"
  shows "sint (CRYPTO_load_u64_be (replicate (8 - length bs) (if high_bit (hd bs) then 0xff else 0) @ bs))
    = asn1_int_val bs"
proof -
  let ?x = "replicate (8 - length bs) (if high_bit (hd bs) then 0xff else 0) @ bs"
  let ?v = "asn1_int_val bs"
  have u: "unat (CRYPTO_load_u64_be ?x) = be_nat ?x" using assms CRYPTO_loads(4) [of "replicate 4 0" ?x] by simp
  have "(256 :: int) ^ (8 - length bs) * 256 ^ length bs = 2 ^ 64"
    using assms(2) by (simp flip: power_add)
  then have x: "int (be_nat ?x) = (if high_bit (hd bs) then 2 ^ 64 else 0) + ?v"
    using assms(1) by (simp add: be_nat_append asn1_int_val_def be_nat_replicate_ff be_nat_replicate_0
        left_diff_distrib)
  have "(256 :: int) ^ (length bs - 1) \<le> 256 ^ 7" using assms(2) by (intro power_increasing) simp_all
  then have v: "- (2 ^ 63) \<le> ?v" "?v < 2 ^ 63" using asn1_int_val_bounds [OF assms(1)] by simp_all
  have "be_nat ?x < 2 ^ 63 \<longleftrightarrow> \<not> high_bit (hd bs)"
  proof -
    have "be_nat ?x < 2 ^ 63 \<longleftrightarrow> int (be_nat ?x) < 2 ^ 63" by simp
    also have "\<dots> \<longleftrightarrow> \<not> high_bit (hd bs)" unfolding x using v asn1_int_val_sign [OF assms(1)] by simp
    finally show ?thesis .
  qed
  then show ?thesis unfolding sint_u64 u x by simp
qed

lemma sint_extended_asn1_int:
  assumes "length (asn1_int i) \<le> 8"
  shows "sint (CRYPTO_load_u64_be (replicate (8 - length (asn1_int i)) (if i < 0 then 0xff else 0) @ asn1_int i)) = i"
proof -
  have "i < 0 \<longleftrightarrow> high_bit (hd (asn1_int i))" using asn1_int_val_sign [OF asn1_int_not_Nil, of i] by simp
  then show ?thesis using sint_sign_extend [OF asn1_int_not_Nil assms] by (simp only: asn1_int_val_asn1_int)
qed

lemma CBS_get_asn1_int64_iff:
  "CBS_get_asn1_int64 cbs = (Some v, rest) \<longleftrightarrow>
     cbs = der_element CBS_ASN1_INTEGER (asn1_int (sint v)) @ rest" (is "?L \<longleftrightarrow> ?R")
proof
  assume ?L
  then obtain bs r where bs: "CBS_get_asn1 CBS_ASN1_INTEGER cbs = (Some bs, r)"
    and k: "(case CBS_is_valid_asn1_integer bs of None \<Rightarrow> rd_fail | Some is_negative \<Rightarrow>
        if length bs > 8 then rd_fail
        else let sign_extend = replicate (8 - length bs) (if is_negative then 0xff else 0) @ bs
             in rd_return (CRYPTO_load_u64_be sign_extend)) r = (Some v, rest)"
    unfolding CBS_get_asn1_int64_def rd_bind_Some_iff by blast
  from k obtain neg where "CBS_is_valid_asn1_integer bs = Some neg"
    by (cases "CBS_is_valid_asn1_integer bs") (simp_all add: rd_fail_def)
  then obtain i where i: "bs = asn1_int i" by (auto simp: CBS_is_valid_asn1_integer_iff)
  have l: "length (asn1_int i) \<le> 8"
    by (rule ccontr) (use k in \<open>simp add: i valid_asn1_int rd_fail_def\<close>)
  with k have "r = rest" and v: "v = CRYPTO_load_u64_be
      (replicate (8 - length (asn1_int i)) (if i < 0 then 0xff else 0) @ asn1_int i)"
    by (auto simp: i valid_asn1_int rd_return_def)
  then show ?R using bs unfolding v sint_extended_asn1_int [OF l] CBS_get_asn1_iff i by simp
next
  assume R: ?R
  have "- (2 ^ 63) \<le> sint v" "sint v < 2 ^ 63" using sint_greater_eq [of v] sint_less [of v] by simp_all
  then have l: "length (asn1_int (sint v)) \<le> 8" by (intro length_asn1_int) simp_all
  then have "CBS_get_asn1 CBS_ASN1_INTEGER cbs = (Some (asn1_int (sint v)), rest)"
    unfolding CBS_get_asn1_iff using R by simp
  moreover have "CRYPTO_load_u64_be (replicate (8 - length (asn1_int (sint v)))
      (if sint v < 0 then 0xff else 0) @ asn1_int (sint v)) = v"
    using sint_extended_asn1_int [OF l] by (rule signed_word_eqI)
  ultimately show ?L using l
    by (simp add: CBS_get_asn1_int64_def rd_bind_def rd_return_def valid_asn1_int)
qed

lemma CBS_get_asn1_bool_iff:
  "CBS_get_asn1_bool cbs = (Some v, rest) \<longleftrightarrow>
     cbs = der_element CBS_ASN1_BOOLEAN [if v then 0xff else 0] @ rest" (is "?L \<longleftrightarrow> ?R")
proof
  assume ?L
  then obtain b where "cbs = der_element CBS_ASN1_BOOLEAN [b] @ rest" "b = 0 \<or> b = 0xff" "v = (b \<noteq> 0)"
    by (auto simp: CBS_get_asn1_bool_def reader_simps Let_def length_Suc_conv split: if_splits)
  then show ?R by auto
next
  assume ?R
  then have "CBS_get_asn1 CBS_ASN1_BOOLEAN cbs = (Some [if v then 0xff else 0], rest)"
    unfolding CBS_get_asn1_iff by simp
  then show ?L by (simp add: CBS_get_asn1_bool_def rd_bind_def rd_return_def)
qed

interpretation asn1_uint64_codec: codec "\<lambda>v. der_element CBS_ASN1_INTEGER (asn1_int (int (unat v)))"
  CBS_get_asn1_uint64 "\<lambda>v. True"
  by unfold_locales (simp_all add: CBS_get_asn1_uint64_iff)

interpretation asn1_int64_codec: codec "\<lambda>v. der_element CBS_ASN1_INTEGER (asn1_int (sint v))"
  CBS_get_asn1_int64 "\<lambda>v. True"
  by unfold_locales (simp_all add: CBS_get_asn1_int64_iff)

interpretation asn1_bool_codec: codec "\<lambda>v. der_element CBS_ASN1_BOOLEAN [if v then 0xff else 0]"
  CBS_get_asn1_bool "\<lambda>v. True"
  by unfold_locales (simp_all add: CBS_get_asn1_bool_iff)

section \<open>Object identifiers\<close>

lemma valid_asn1_oid_loop_high:
  "high_bit p \<Longrightarrow> valid_asn1_oid_loop p cbs \<longleftrightarrow>
     (\<exists>hs d rest. cbs = hs @ d # rest \<and> list_all high_bit hs \<and> \<not> high_bit d \<and> valid_asn1_oid_loop d rest)"
proof (induction cbs arbitrary: p)
  case (Cons v cbs)
  show ?case
  proof (cases "high_bit v")
    case True
    with Cons.prems have "valid_asn1_oid_loop p (v # cbs) \<longleftrightarrow> valid_asn1_oid_loop v cbs" by simp
    also have "\<dots> \<longleftrightarrow> (\<exists>hs d rest. cbs = hs @ d # rest \<and> list_all high_bit hs \<and> \<not> high_bit d
        \<and> valid_asn1_oid_loop d rest)" using True by (rule Cons.IH)
    also have "\<dots> \<longleftrightarrow> (\<exists>hs d rest. v # cbs = hs @ d # rest \<and> list_all high_bit hs \<and> \<not> high_bit d
        \<and> valid_asn1_oid_loop d rest)" (is "_ \<longleftrightarrow> (\<exists>hs d rest. ?P hs d rest)")
    proof
      assume "\<exists>hs d rest. cbs = hs @ d # rest \<and> list_all high_bit hs \<and> \<not> high_bit d \<and> valid_asn1_oid_loop d rest"
      then obtain hs d rest where "?P (v # hs) d rest" using True by auto
      then show "\<exists>hs d rest. ?P hs d rest" by blast
    next
      assume "\<exists>hs d rest. ?P hs d rest"
      then obtain hs d rest where P: "?P hs d rest" by blast
      with True obtain hs' where "hs = v # hs'" by (cases hs) auto
      with P show "\<exists>hs d rest. cbs = hs @ d # rest \<and> list_all high_bit hs \<and> \<not> high_bit d \<and> valid_asn1_oid_loop d rest"
        by auto
    qed
    finally show ?thesis .
  next
    case False
    then have "(\<exists>hs d rest. v # cbs = hs @ d # rest \<and> list_all high_bit hs \<and> \<not> high_bit d
        \<and> valid_asn1_oid_loop d rest) \<longleftrightarrow> valid_asn1_oid_loop v cbs"
      by (force simp: Cons_eq_append_conv)
    with Cons.prems show ?thesis by simp
  qed
qed simp

lemma valid_asn1_oid_loop_low: "\<not> high_bit p \<Longrightarrow> valid_asn1_oid_loop p cbs = valid_asn1_oid_loop 0 cbs"
  by (cases cbs) auto

lemma base128_octets:
  assumes "list_all high_bit hs" "hs = [] \<or> hd hs \<noteq> 0x80" "\<not> high_bit d"
  shows "base128 (128 * val128 0 hs + unat d) = hs @ [d]"
proof -
  have d: "unat d < 128" using assms(3) unfolding high_bit_iff by simp
  then show ?thesis using base128_high_val_0 [OF assms(1,2)] by (simp add: base128_def)
qed

lemma base128_split:
  obtains hs d where "base128 n = hs @ [d]" "list_all high_bit hs" "hs = [] \<or> hd hs \<noteq> 0x80"
    "\<not> high_bit d"
proof
  show "base128 n = base128_high (n div 128) @ [of_nat (n mod 128)]" by (simp add: base128_def)
  show "list_all high_bit (base128_high (n div 128))"
    "base128_high (n div 128) = [] \<or> hd (base128_high (n div 128)) \<noteq> 0x80"
    using base128_high_split [of "n div 128"] by (cases "n div 128 = 0"; auto)+
  show "\<not> high_bit (of_nat (n mod 128))" unfolding high_bit_iff by simp
qed

lemma valid_asn1_oid_loop_base128:
  "valid_asn1_oid_loop 0 (base128 n @ cbs) \<longleftrightarrow> valid_asn1_oid_loop 0 cbs"
proof -
  obtain hs d where b: "base128 n = hs @ [d]" "list_all high_bit hs" "hs = [] \<or> hd hs \<noteq> 0x80"
    "\<not> high_bit d" by (rule base128_split)
  show ?thesis
  proof (cases hs)
    case Nil
    with b show ?thesis using valid_asn1_oid_loop_low [OF b(4), of cbs] by auto
  next
    case (Cons h hs')
    have "valid_asn1_oid_loop h (hs' @ d # cbs) \<longleftrightarrow> valid_asn1_oid_loop d cbs"
      using b(2) unfolding Cons
    proof (induction hs' arbitrary: h)
      case Nil
      then show ?case using b(4) by auto
    next
      case (Cons k hs')
      from Cons.prems have "valid_asn1_oid_loop h ((k # hs') @ d # cbs) \<longleftrightarrow> valid_asn1_oid_loop k (hs' @ d # cbs)"
        by simp
      with Cons show ?case by simp
    qed
    with b Cons show ?thesis using valid_asn1_oid_loop_low [OF b(4), of cbs] by simp
  qed
qed

text \<open>The contents of an OBJECT IDENTIFIER: minimal base-128 integers of any size, at least one.\<close>

lemma valid_asn1_oid_loop_iff:
  "valid_asn1_oid_loop 0 cbs \<longleftrightarrow> (\<exists>ns. cbs = concat (map base128 ns))"
proof
  show "\<exists>ns. cbs = concat (map base128 ns)" if "valid_asn1_oid_loop 0 cbs"
    using that
  proof (induction "length cbs" arbitrary: cbs rule: less_induct)
    case less
    show ?case
    proof (cases cbs)
      case Nil
      then show ?thesis by (intro exI [of _ "[]"]) simp
    next
      case (Cons v copy)
      with less.prems have v: "v \<noteq> 0x80" "valid_asn1_oid_loop v copy" by (auto split: if_splits)
      obtain hs d rest where s: "cbs = hs @ d # rest" "list_all high_bit hs" "hs = [] \<or> hd hs \<noteq> 0x80"
        "\<not> high_bit d" "valid_asn1_oid_loop d rest"
      proof (cases "high_bit v")
        case True
        with v valid_asn1_oid_loop_high obtain hs d rest where "copy = hs @ d # rest"
          "list_all high_bit hs" "\<not> high_bit d" "valid_asn1_oid_loop d rest" by blast
        with True v(1) Cons that [of "v # hs" d rest] show ?thesis by simp
      next
        case False
        with v Cons that [of "[]" v copy] show ?thesis by simp
      qed
      then have "valid_asn1_oid_loop 0 rest" using valid_asn1_oid_loop_low by blast
      then obtain ns where ns: "rest = concat (map base128 ns)" using less.hyps [of rest] s(1) by auto
      then have "cbs = concat (map base128 ((128 * val128 0 hs + unat d) # ns))"
        using base128_octets [OF s(2,3,4)] s(1) by simp
      then show ?thesis ..
    qed
  qed
next
  assume "\<exists>ns. cbs = concat (map base128 ns)"
  then obtain ns where "cbs = concat (map base128 ns)" ..
  then show "valid_asn1_oid_loop 0 cbs"
    by (induction ns arbitrary: cbs) (simp_all add: valid_asn1_oid_loop_base128)
qed

lemma CBS_is_valid_asn1_oid_iff:
  "CBS_is_valid_asn1_oid cbs \<longleftrightarrow> (\<exists>ns. ns \<noteq> [] \<and> cbs = concat (map base128 ns))"
proof -
  have "base128 n \<noteq> []" for n by (simp add: base128_def)
  then have "cbs = concat (map base128 ns) \<Longrightarrow> cbs = [] \<longleftrightarrow> ns = []" for ns by (cases ns) auto
  then show ?thesis
    unfolding CBS_is_valid_asn1_oid_def valid_asn1_oid_loop_iff by auto
qed

section \<open>Bit strings\<close>

lemma CBS_is_valid_asn1_bitstring_Cons:
  "CBS_is_valid_asn1_bitstring (u # bs) \<longleftrightarrow>
     unat u \<le> 7 \<and> (u = 0 \<or> bs \<noteq> [] \<and> (\<forall>i < unat u. \<not> bit (last bs) i))"
proof -
  have m: "b AND (push_bit k 1 - 1) = 0 \<longleftrightarrow> (\<forall>i < k. \<not> bit b i)" if "k \<le> 7" for b :: u8 and k
  proof -
    have "(push_bit k 1 - 1 :: u8) = mask k" by (simp add: mask_eq_exp_minus_1 push_bit_eq_mult)
    then have "b AND (push_bit k 1 - 1) = take_bit k b" by (simp add: take_bit_eq_mask)
    then show ?thesis using that by (auto simp: bit_eq_iff bit_simps)
  qed
  have "u > 7 \<longleftrightarrow> \<not> unat u \<le> 7" by (simp add: word_less_nat_alt not_le)
  then show ?thesis
    by (cases bs rule: rev_cases)
      (auto simp: CBS_is_valid_asn1_bitstring_def CBS_get_last_u8_def m simp del: push_bit_of_1)
qed

text \<open>The bits of a bit string in order, first octet first and most significant bit first.\<close>

definition bitstring_bits :: "bytes \<Rightarrow> bool list" where
  "bitstring_bits bs = concat (map (\<lambda>b. map (\<lambda>i. bit b (7 - i)) [0..<8]) bs)"

lemma length_bitstring_bits [simp]: "length (bitstring_bits bs) = 8 * length bs"
  by (induction bs) (simp_all add: bitstring_bits_def)

lemma nth_bitstring_bits:
  "i < 8 * length bs \<Longrightarrow> bitstring_bits bs ! i \<longleftrightarrow> bit (bs ! (i div 8)) (7 - i mod 8)"
proof (induction bs arbitrary: i)
  case (Cons b bs)
  have s: "bitstring_bits (b # bs) = map (\<lambda>i. bit b (7 - i)) [0..<8] @ bitstring_bits bs"
    by (simp add: bitstring_bits_def)
  show ?case
  proof (cases "i < 8")
    case True
    then show ?thesis unfolding s by (simp add: nth_append)
  next
    case False
    then obtain j where j: "i = 8 + j" by (metis le_add_diff_inverse not_less)
    then show ?thesis unfolding s using Cons by (simp add: nth_append div_add_self1)
  qed
qed simp

lemma CBS_asn1_bitstring_has_bit_iff:
  "CBS_asn1_bitstring_has_bit (u # bs) n \<longleftrightarrow>
     CBS_is_valid_asn1_bitstring (u # bs) \<and> unat n < 8 * length bs - unat u
       \<and> bitstring_bits bs ! unat n"
proof (cases "CBS_is_valid_asn1_bitstring (u # bs)")
  case True
  have q: "unat (drop_bit 3 n + 1) = Suc (unat n div 8)"
  proof -
    have "unat (drop_bit 3 n) = unat n div 8" by (simp only: unat_drop_bit) simp
    moreover have "unat n div 8 < 2 ^ 29" using unsigned_less [of n, where ?'a = nat] by simp
    ultimately show ?thesis by (simp add: unat_word_ariths)
  qed
  have "n AND 7 = take_bit 3 n" by (simp add: take_bit_eq_mask mask_eq_exp_minus_1)
  then have r: "unat (n AND 7) = unat n mod 8" by (simp only: unat_take_bit) simp
  have r': "unat (7 - (n AND 7)) = 7 - unat n mod 8" by (simp add: unat_sub_if' r)
  have "CBS_asn1_bitstring_has_bit (u # bs) n \<longleftrightarrow>
      unat n < 8 * length bs \<and> bit (bs ! (unat n div 8)) (7 - unat n mod 8)"
    using True by (simp add: CBS_asn1_bitstring_has_bit_def Let_def q r' push_bit_eq_mult and_exp_eq_0_iff_not_bit) auto
  also have "\<dots> \<longleftrightarrow> unat n < 8 * length bs - unat u \<and> bitstring_bits bs ! unat n"
  proof (cases "unat n < 8 * length bs - unat u")
    case inside: True
    then have "unat n < 8 * length bs" by simp
    with inside show ?thesis by (simp add: nth_bitstring_bits)
  next
    case outside: False
    have "\<not> bit (bs ! (unat n div 8)) (7 - unat n mod 8)" if n: "unat n < 8 * length bs"
    proof -
      have u: "unat u \<le> 7" "\<forall>i < unat u. \<not> bit (last bs) i"
        using True n outside unfolding CBS_is_valid_asn1_bitstring_Cons by auto
      have q: "unat n div 8 = length bs - 1" using outside n u(1) by linarith
      have "7 - unat n mod 8 < unat u"
        using outside n u(1) div_mult_mod_eq [of "unat n" 8] mod_less_divisor [of 8 "unat n"] unfolding q
        by linarith
      moreover note q
      moreover have "bs \<noteq> []" using n by auto
      ultimately show ?thesis using u(2) by (simp add: last_conv_nth)
    qed
    with outside show ?thesis by auto
  qed
  finally show ?thesis using True by simp
qed (simp add: CBS_asn1_bitstring_has_bit_def)

section \<open>Optional elements\<close>

lemma CBS_peek_asn1_tag_iff:
  "CBS_peek_asn1_tag cbs tag \<longleftrightarrow> valid_tag tag \<and> prefix (der_tag tag) cbs"
proof -
  have "CBS_peek_asn1_tag cbs tag \<longleftrightarrow> (\<exists>rest. parse_asn1_tag cbs = (Some tag, rest))"
    by (simp add: CBS_peek_asn1_tag_def) (metis fst_conv prod.collapse)
  then show ?thesis by (auto simp: parse_asn1_tag_iff prefix_def)
qed

lemma CBS_get_optional_asn1_iff:
  "CBS_get_optional_asn1 tag cbs = (Some c, rest) \<longleftrightarrow>
     (case c of None \<Rightarrow> \<not> CBS_peek_asn1_tag cbs tag \<and> rest = cbs
      | Some out \<Rightarrow> valid_tag tag \<and> length out < 2 ^ 32 \<and> cbs = der_element tag out @ rest)"
proof -
  have "CBS_peek_asn1_tag (der_element tag out @ r) tag" if "valid_tag tag" for out r
    using that by (simp add: CBS_peek_asn1_tag_iff der_element_def)
  then show ?thesis
    by (cases c) (auto simp: CBS_get_optional_asn1_def reader_simps)
qed

lemma read_whole_iff: "read_whole m child cbs = (Some x, cbs') \<longleftrightarrow> m child = (Some x, []) \<and> cbs' = cbs"
  by (auto simp: read_whole_def rd_return_def rd_fail_def split: prod.splits option.splits)

lemma optional_bind:
  "rd_bind (CBS_get_optional_asn1 tag) f cbs =
     (if CBS_peek_asn1_tag cbs tag then rd_bind (CBS_get_asn1 tag) (\<lambda>out. f (Some out)) cbs
      else f None cbs)"
  by (auto simp: rd_bind_def CBS_get_optional_asn1_def rd_return_def split: option.splits prod.splits)

lemma CBS_get_optional_asn1_uint64_iff:
  "CBS_get_optional_asn1_uint64 tag dflt cbs = (Some v, rest) \<longleftrightarrow>
     (if CBS_peek_asn1_tag cbs tag
      then cbs = der_element tag (der_element CBS_ASN1_INTEGER (asn1_int (int (unat v)))) @ rest
             \<and> length (der_element CBS_ASN1_INTEGER (asn1_int (int (unat v)))) < 2 ^ 32
      else v = dflt \<and> rest = cbs)"
proof (cases "CBS_peek_asn1_tag cbs tag")
  case True
  let ?child = "der_element CBS_ASN1_INTEGER (asn1_int (int (unat v)))"
  have "CBS_get_optional_asn1_uint64 tag dflt cbs = (Some v, rest) \<longleftrightarrow>
      (\<exists>out. CBS_get_asn1 tag cbs = (Some out, rest) \<and> CBS_get_asn1_uint64 out = (Some v, []))"
    using True by (auto simp: CBS_get_optional_asn1_uint64_def optional_bind rd_bind_Some_iff read_whole_iff)
  also have "\<dots> \<longleftrightarrow> CBS_get_asn1 tag cbs = (Some ?child, rest)"
    unfolding CBS_get_asn1_uint64_iff by (metis append_Nil2)
  also have "\<dots> \<longleftrightarrow> valid_tag tag \<and> length ?child < 2 ^ 32 \<and> cbs = der_element tag ?child @ rest"
    by (rule CBS_get_asn1_iff)
  finally show ?thesis using True unfolding CBS_peek_asn1_tag_iff by argo
next
  case False
  then show ?thesis by (auto simp: CBS_get_optional_asn1_uint64_def optional_bind rd_return_iff)
qed

section \<open>Properties\<close>

text \<open>C3: \<open>CBS_get_asn1_int64\<close> returns \<open>v\<close> if and only if the input starts with the DER INTEGER whose
  contents are the shortest two's complement encoding of the signed value of \<open>v\<close>.\<close>
theorem CBS_get_asn1_int64_exact:
  "CBS_get_asn1_int64 cbs = (Some v, rest) \<longleftrightarrow>
     cbs = der_element CBS_ASN1_INTEGER (asn1_int (sint v)) @ rest"
  by (rule CBS_get_asn1_int64_iff)

text \<open>\<open>CBS_get_asn1_uint64\<close> returns \<open>v\<close> if and only if the input starts with the DER INTEGER of the
  unsigned value of \<open>v\<close>.\<close>
theorem CBS_get_asn1_uint64_exact:
  "CBS_get_asn1_uint64 cbs = (Some v, rest) \<longleftrightarrow>
     cbs = der_element CBS_ASN1_INTEGER (asn1_int (int (unat v))) @ rest"
  by (rule CBS_get_asn1_uint64_iff)

text \<open>C4: \<open>CBS_is_valid_asn1_oid\<close> accepts exactly the non-empty sequences of minimally encoded
  base-128 integers.\<close>
theorem CBS_is_valid_asn1_oid_exact:
  "CBS_is_valid_asn1_oid cbs \<longleftrightarrow> (\<exists>ns. ns \<noteq> [] \<and> cbs = concat (map base128 ns))"
  by (rule CBS_is_valid_asn1_oid_iff)

text \<open>C5: \<open>CBS_asn1_bitstring_has_bit\<close> on contents with \<open>u\<close> unused bits is true of \<open>n\<close> if and only if the
  contents are a valid BIT STRING with more than \<open>n\<close> bits and bit \<open>n\<close>, counted from the most significant bit
  of the first octet, is set.\<close>
theorem CBS_asn1_bitstring_has_bit_exact:
  "CBS_asn1_bitstring_has_bit (u # bs) n \<longleftrightarrow>
     CBS_is_valid_asn1_bitstring (u # bs) \<and> unat n < 8 * length bs - unat u
       \<and> bitstring_bits bs ! unat n"
  by (rule CBS_asn1_bitstring_has_bit_iff)

end
