(* ===== verification/Stack.thy ===== *)
theory Stack
  imports Mem
begin

text \<open>
  \<open>crypto/stack/stack.c\<close>, the growable array of pointers. A \<open>void *\<close> is a \<open>'p option\<close> with
  \<open>None\<close> for \<open>NULL\<close>, so a \<open>'p option list\<close> is the \<open>data\<close> array with all of its
  \<open>num_alloc\<close> slots. A comparison function pointer is a value of \<open>'c\<close>, which the parameter
  \<open>call_cmp_func\<close> interprets; the free, copy and delete callbacks are parameters too. The pointer
  \<open>sk\<close> itself may be \<open>NULL\<close>, so the operations take and return an optional record.
\<close>

section \<open>Definitions\<close>

record ('p, 'c) stack_st =
  st_num :: nat
  st_data :: "'p option list"
  st_sorted :: bool
  st_num_alloc :: nat
  st_comp :: "'c option"

type_synonym ('p, 'c) OPENSSL_STACK = "('p, 'c) stack_st option"
type_synonym ('p, 'c) call_cmp_func = "'c \<Rightarrow> 'p option \<Rightarrow> 'p option \<Rightarrow> int"

abbreviation (input) kMinSize :: nat where "kMinSize \<equiv> 4"
abbreviation (input) sizeof_STACK :: nat where "sizeof_STACK \<equiv> 40"
abbreviation (input) sizeof_ptr :: nat where "sizeof_ptr \<equiv> 8"

definition OPENSSL_sk_new :: "malloc \<Rightarrow> 'c option \<Rightarrow> ('p, 'c) OPENSSL_STACK" where
  "OPENSSL_sk_new malloc_ok cmp_fn =
     (case OPENSSL_zalloc malloc_ok sizeof_STACK of None \<Rightarrow> None | Some _ \<Rightarrow>
      case OPENSSL_calloc malloc_ok kMinSize sizeof_ptr of None \<Rightarrow> None | Some _ \<Rightarrow>
        Some \<lparr> st_num = 0, st_data = replicate kMinSize None, st_sorted = False,
               st_num_alloc = kMinSize, st_comp = cmp_fn \<rparr>)"

definition OPENSSL_sk_new_null :: "malloc \<Rightarrow> ('p, 'c) OPENSSL_STACK" where
  "OPENSSL_sk_new_null malloc_ok = OPENSSL_sk_new malloc_ok None"

definition OPENSSL_sk_num :: "('p, 'c) OPENSSL_STACK \<Rightarrow> nat" where
  "OPENSSL_sk_num sk = (case sk of None \<Rightarrow> 0 | Some s \<Rightarrow> st_num s)"

definition OPENSSL_sk_zero :: "('p, 'c) OPENSSL_STACK \<Rightarrow> ('p, 'c) OPENSSL_STACK" where
  "OPENSSL_sk_zero sk =
     (case sk of None \<Rightarrow> sk | Some s \<Rightarrow>
      if st_num s = 0 then sk
      else Some (s\<lparr> st_data := replicate (st_num s) None @ drop (st_num s) (st_data s),
                    st_num := 0, st_sorted := False \<rparr>))"

definition OPENSSL_sk_value :: "('p, 'c) OPENSSL_STACK \<Rightarrow> nat \<Rightarrow> 'p option" where
  "OPENSSL_sk_value sk i =
     (case sk of None \<Rightarrow> None | Some s \<Rightarrow> if i \<ge> st_num s then None else st_data s ! i)"

definition OPENSSL_sk_set ::
    "('p, 'c) OPENSSL_STACK \<Rightarrow> nat \<Rightarrow> 'p option \<Rightarrow> 'p option \<times> ('p, 'c) OPENSSL_STACK" where
  "OPENSSL_sk_set sk i value =
     (case sk of None \<Rightarrow> (None, sk) | Some s \<Rightarrow>
      if i \<ge> st_num s then (None, sk)
      else (value, Some (s\<lparr> st_data := (st_data s)[i := value] \<rparr>)))"

text \<open>\<open>OPENSSL_sk_pop_free_ex\<close> frees the stack; the result is the pointers passed to
  \<open>call_free_func\<close>, in order.\<close>

definition OPENSSL_sk_pop_free_ex :: "('p, 'c) OPENSSL_STACK \<Rightarrow> 'p list" where
  "OPENSSL_sk_pop_free_ex sk =
     (case sk of None \<Rightarrow> [] | Some s \<Rightarrow> List.map_filter id (take (st_num s) (st_data s)))"

text \<open>\<open>memmove\<close> of \<open>n\<close> elements inside an array, from index \<open>src\<close> to index \<open>dst\<close>.\<close>

definition memmove :: "nat \<Rightarrow> nat \<Rightarrow> nat \<Rightarrow> 'a list \<Rightarrow> 'a list" where
  "memmove dst src n xs = take dst xs @ take n (drop src xs) @ drop (dst + n) xs"

text \<open>
  The growth step of \<open>OPENSSL_sk_insert\<close>: the new record, or \<open>None\<close> for the early
  \<open>return 0\<close>. \<open>fill\<close> is what \<open>malloc\<close> left in the new slots.
\<close>

definition sk_grow :: "malloc \<Rightarrow> 'p option \<Rightarrow> ('p, 'c) stack_st \<Rightarrow> ('p, 'c) stack_st option" where
  "sk_grow malloc_ok fill s =
     (if st_num_alloc s \<le> st_num s + 1 then
        let new_alloc = size_mul (st_num_alloc s) 2;
            alloc_size = size_mul new_alloc sizeof_ptr;
            overflowed = (new_alloc < st_num_alloc s \<or> alloc_size div sizeof_ptr \<noteq> new_alloc);
            new_alloc = (if overflowed then size_add (st_num_alloc s) 1 else new_alloc);
            alloc_size = size_mul new_alloc sizeof_ptr
        in if new_alloc < st_num_alloc s \<or> alloc_size div sizeof_ptr \<noteq> new_alloc then None
           else case OPENSSL_realloc malloc_ok fill (st_data s) sizeof_ptr new_alloc of
             None \<Rightarrow> None
           | Some data \<Rightarrow> Some (s\<lparr> st_data := data, st_num_alloc := new_alloc \<rparr>)
      else Some s)"

definition OPENSSL_sk_insert ::
    "malloc \<Rightarrow> 'p option \<Rightarrow> ('p, 'c) OPENSSL_STACK \<Rightarrow> 'p option \<Rightarrow> nat \<Rightarrow> nat \<times> ('p, 'c) OPENSSL_STACK" where
  "OPENSSL_sk_insert malloc_ok fill sk p wher =
     (case sk of None \<Rightarrow> (0, sk) | Some s \<Rightarrow>
      if st_num s \<ge> INT_MAX then (0, sk)
      else case sk_grow malloc_ok fill s of None \<Rightarrow> (0, sk) | Some s \<Rightarrow>
        let data = (if wher \<ge> st_num s then (st_data s)[st_num s := p]
                    else (memmove (wher + 1) wher (st_num s - wher) (st_data s))[wher := p])
        in (st_num s + 1,
            Some (s\<lparr> st_data := data, st_num := st_num s + 1, st_sorted := False \<rparr>)))"

definition OPENSSL_sk_delete ::
    "('p, 'c) OPENSSL_STACK \<Rightarrow> nat \<Rightarrow> 'p option \<times> ('p, 'c) OPENSSL_STACK" where
  "OPENSSL_sk_delete sk wher =
     (case sk of None \<Rightarrow> (None, sk) | Some s \<Rightarrow>
      if wher \<ge> st_num s then (None, sk)
      else let ret = st_data s ! wher;
               data = (if wher \<noteq> st_num s - 1
                       then memmove wher (wher + 1) (st_num s - wher - 1) (st_data s)
                       else st_data s)
           in (ret, Some (s\<lparr> st_data := data, st_num := st_num s - 1 \<rparr>)))"

text \<open>The index of the first element that satisfies the test, as the linear loops compute it.\<close>

fun find_index_loop :: "('a \<Rightarrow> bool) \<Rightarrow> nat \<Rightarrow> 'a list \<Rightarrow> nat option" where
  "find_index_loop P i [] = None"
| "find_index_loop P i (x # xs) = (if P x then Some i else find_index_loop P (i + 1) xs)"

definition OPENSSL_sk_delete_ptr ::
    "('p, 'c) OPENSSL_STACK \<Rightarrow> 'p option \<Rightarrow> 'p option \<times> ('p, 'c) OPENSSL_STACK" where
  "OPENSSL_sk_delete_ptr sk p =
     (case sk of None \<Rightarrow> (None, sk) | Some s \<Rightarrow>
      case find_index_loop (\<lambda>q. q = p) 0 (take (st_num s) (st_data s)) of
        None \<Rightarrow> (None, sk) | Some i \<Rightarrow> OPENSSL_sk_delete sk i)"

text \<open>\<open>n\<close> is the number of iterations left: \<open>i\<close> counts up to \<open>sk->num\<close>.\<close>

fun sk_delete_if_loop ::
    "('p option \<Rightarrow> bool) \<Rightarrow> nat \<Rightarrow> nat \<Rightarrow> nat \<Rightarrow> 'p option list \<Rightarrow> nat \<times> 'p option list" where
  "sk_delete_if_loop func 0 i new_num data = (new_num, data)"
| "sk_delete_if_loop func (Suc n) i new_num data =
     (if \<not> func (data ! i)
      then sk_delete_if_loop func n (i + 1) (new_num + 1) (data[new_num := data ! i])
      else sk_delete_if_loop func n (i + 1) new_num data)"

definition OPENSSL_sk_delete_if ::
    "('p, 'c) OPENSSL_STACK \<Rightarrow> ('p option \<Rightarrow> bool) \<Rightarrow> ('p, 'c) OPENSSL_STACK" where
  "OPENSSL_sk_delete_if sk func =
     (case sk of None \<Rightarrow> sk | Some s \<Rightarrow>
      case sk_delete_if_loop func (st_num s) 0 0 (st_data s) of
        (new_num, data) \<Rightarrow> Some (s\<lparr> st_data := data, st_num := new_num \<rparr>))"

definition OPENSSL_sk_is_sorted :: "('p, 'c) OPENSSL_STACK \<Rightarrow> bool" where
  "OPENSSL_sk_is_sorted sk \<longleftrightarrow>
     (case sk of None \<Rightarrow> True | Some s \<Rightarrow> st_sorted s \<or> (st_comp s \<noteq> None \<and> st_num s < 2))"

text \<open>The binary search of \<open>OPENSSL_sk_find\<close>; \<open>cmp x\<close> is the comparison of \<open>p\<close> with \<open>x\<close>.\<close>

function sk_bsearch :: "('a \<Rightarrow> int) \<Rightarrow> 'a list \<Rightarrow> nat \<Rightarrow> nat \<Rightarrow> nat option" where
  "sk_bsearch cmp data lo hi =
     (if lo < hi then
        let mid = lo + (hi - lo - 1) div 2; r = cmp (data ! mid)
        in if r > 0 then sk_bsearch cmp data (mid + 1) hi
           else if r < 0 then sk_bsearch cmp data lo mid
           else if hi - lo = 1 then Some mid
           else sk_bsearch cmp data lo (mid + 1)
      else None)"
  by auto
termination by (relation "measure (\<lambda>(cmp, data, lo, hi). hi - lo)") auto

declare sk_bsearch.simps [simp del]

definition OPENSSL_sk_find ::
    "('p, 'c) call_cmp_func \<Rightarrow> ('p, 'c) OPENSSL_STACK \<Rightarrow> 'p option \<Rightarrow> nat option" where
  "OPENSSL_sk_find call_cmp_func sk p =
     (case sk of None \<Rightarrow> None | Some s \<Rightarrow>
      case st_comp s of
        None \<Rightarrow> find_index_loop (\<lambda>q. q = p) 0 (take (st_num s) (st_data s))
      | Some cmp_fn \<Rightarrow>
          if p = None then None
          else if \<not> OPENSSL_sk_is_sorted sk
          then find_index_loop (\<lambda>q. call_cmp_func cmp_fn p q = 0) 0 (take (st_num s) (st_data s))
          else sk_bsearch (call_cmp_func cmp_fn p) (st_data s) 0 (st_num s))"

definition OPENSSL_sk_shift :: "('p, 'c) OPENSSL_STACK \<Rightarrow> 'p option \<times> ('p, 'c) OPENSSL_STACK" where
  "OPENSSL_sk_shift sk =
     (case sk of None \<Rightarrow> (None, sk) | Some s \<Rightarrow>
      if st_num s = 0 then (None, sk) else OPENSSL_sk_delete sk 0)"

text \<open>\<open>OPENSSL_sk_push\<close> reads \<open>sk->num\<close> first, so \<open>sk\<close> must not be \<open>NULL\<close>.\<close>

definition OPENSSL_sk_push ::
    "malloc \<Rightarrow> 'p option \<Rightarrow> ('p, 'c) stack_st \<Rightarrow> 'p option \<Rightarrow> nat \<times> ('p, 'c) OPENSSL_STACK" where
  "OPENSSL_sk_push malloc_ok fill s p = OPENSSL_sk_insert malloc_ok fill (Some s) p (st_num s)"

definition OPENSSL_sk_pop :: "('p, 'c) OPENSSL_STACK \<Rightarrow> 'p option \<times> ('p, 'c) OPENSSL_STACK" where
  "OPENSSL_sk_pop sk =
     (case sk of None \<Rightarrow> (None, sk) | Some s \<Rightarrow>
      if st_num s = 0 then (None, sk) else OPENSSL_sk_delete sk (st_num s - 1))"

definition OPENSSL_sk_dup :: "malloc \<Rightarrow> ('p, 'c) OPENSSL_STACK \<Rightarrow> ('p, 'c) OPENSSL_STACK" where
  "OPENSSL_sk_dup malloc_ok sk =
     (case sk of None \<Rightarrow> None | Some s \<Rightarrow>
      case OPENSSL_zalloc malloc_ok sizeof_STACK of None \<Rightarrow> None | Some _ \<Rightarrow>
        let sz = size_mul sizeof_ptr (st_num_alloc s)
        in if sz = 0 \<or> \<not> OPENSSL_malloc malloc_ok sz then None
           else Some \<lparr> st_num = st_num s, st_data = st_data s, st_sorted = st_sorted s,
                       st_num_alloc = st_num_alloc s, st_comp = st_comp s \<rparr>)"

definition parent_idx :: "nat \<Rightarrow> nat" where
  "parent_idx idx = (idx - 1) div 2"

definition left_idx :: "nat \<Rightarrow> nat" where
  "left_idx idx = 2 * idx + 1"

definition swap :: "'a list \<Rightarrow> nat \<Rightarrow> nat \<Rightarrow> 'a list" where
  "swap xs i j = xs[i := xs ! j, j := xs ! i]"

text \<open>The child that \<open>down_heap\<close> swaps with, or \<open>i\<close> itself.\<close>

definition heap_next :: "('a \<Rightarrow> 'a \<Rightarrow> int) \<Rightarrow> nat \<Rightarrow> nat \<Rightarrow> 'a list \<Rightarrow> nat" where
  "heap_next cmp i n data =
     (let left = left_idx i;
          next = (if cmp (data ! i) (data ! left) < 0 then left else i);
          right = left + 1
      in if right < n \<and> cmp (data ! next) (data ! right) < 0 then right else next)"

function down_heap :: "('a \<Rightarrow> 'a \<Rightarrow> int) \<Rightarrow> nat \<Rightarrow> nat \<Rightarrow> 'a list \<Rightarrow> 'a list" where
  "down_heap cmp i n data =
     (if left_idx i \<ge> n then data
      else let next = heap_next cmp i n data
           in if i = next then data else down_heap cmp next n (swap data i next))"
  by auto
termination
  by (relation "measure (\<lambda>(cmp, i, n, data). n - i)")
    (auto simp: heap_next_def left_idx_def Let_def split: if_splits)

declare down_heap.simps [simp del]

text \<open>The two loops of \<open>OPENSSL_sk_sort\<close>; the first ends when \<open>i\<close> wraps below zero.\<close>

fun build_heap_loop :: "('a \<Rightarrow> 'a \<Rightarrow> int) \<Rightarrow> nat \<Rightarrow> nat \<Rightarrow> 'a list \<Rightarrow> 'a list" where
  "build_heap_loop cmp 0 n data = down_heap cmp 0 n data"
| "build_heap_loop cmp (Suc i) n data = build_heap_loop cmp i n (down_heap cmp (Suc i) n data)"

fun extract_max_loop :: "('a \<Rightarrow> 'a \<Rightarrow> int) \<Rightarrow> nat \<Rightarrow> 'a list \<Rightarrow> 'a list" where
  "extract_max_loop cmp 0 data = data"
| "extract_max_loop cmp (Suc i) data =
     extract_max_loop cmp i (down_heap cmp 0 (Suc i) (swap data 0 (Suc i)))"

definition heap_sort :: "('a \<Rightarrow> 'a \<Rightarrow> int) \<Rightarrow> nat \<Rightarrow> 'a list \<Rightarrow> 'a list" where
  "heap_sort cmp n data =
     (if n \<ge> 2 then extract_max_loop cmp (n - 1) (build_heap_loop cmp (parent_idx (n - 1)) n data)
      else data)"

definition OPENSSL_sk_sort ::
    "('p, 'c) call_cmp_func \<Rightarrow> ('p, 'c) OPENSSL_STACK \<Rightarrow> ('p, 'c) OPENSSL_STACK" where
  "OPENSSL_sk_sort call_cmp_func sk =
     (case sk of None \<Rightarrow> sk | Some s \<Rightarrow>
      case st_comp s of None \<Rightarrow> sk | Some cmp_fn \<Rightarrow>
        if st_sorted s then sk
        else Some (s\<lparr> st_data := heap_sort (call_cmp_func cmp_fn) (st_num s) (st_data s),
                      st_sorted := True \<rparr>))"

definition OPENSSL_sk_set_cmp_func ::
    "('p, 'c) stack_st \<Rightarrow> 'c option \<Rightarrow> 'c option \<times> ('p, 'c) OPENSSL_STACK" where
  "OPENSSL_sk_set_cmp_func s cmp_fn =
     (let old = st_comp s;
          s = (if st_comp s \<noteq> cmp_fn then s\<lparr> st_sorted := False \<rparr> else s)
      in (old, Some (s\<lparr> st_comp := cmp_fn \<rparr>)))"

text \<open>
  The copy loop of \<open>OPENSSL_sk_deep_copy\<close> over the elements not yet copied; \<open>done\<close> are the
  copies made so far. A failing copy frees those and the new stack: \<open>Inl\<close> has the pointers
  passed to \<open>call_free_func\<close>.
\<close>

fun deep_copy_loop ::
    "('p \<Rightarrow> 'p option) \<Rightarrow> 'p option list \<Rightarrow> 'p option list \<Rightarrow> 'p list + 'p option list" where
  "deep_copy_loop copy_func done [] = Inr done"
| "deep_copy_loop copy_func done (None # todo) = deep_copy_loop copy_func (done @ [None]) todo"
| "deep_copy_loop copy_func done (Some p # todo) =
     (case copy_func p of
        None \<Rightarrow> Inl (List.map_filter id done)
      | Some q \<Rightarrow> deep_copy_loop copy_func (done @ [Some q]) todo)"

definition OPENSSL_sk_deep_copy ::
    "malloc \<Rightarrow> ('p \<Rightarrow> 'p option) \<Rightarrow> ('p, 'c) OPENSSL_STACK \<Rightarrow> 'p list \<times> ('p, 'c) OPENSSL_STACK" where
  "OPENSSL_sk_deep_copy malloc_ok copy_func sk =
     (case OPENSSL_sk_dup malloc_ok sk of None \<Rightarrow> ([], None) | Some ret \<Rightarrow>
      case deep_copy_loop copy_func [] (take (st_num ret) (st_data ret)) of
        Inl freed \<Rightarrow> (freed, None)
      | Inr copies \<Rightarrow> ([], Some (ret\<lparr> st_data := copies @ drop (st_num ret) (st_data ret) \<rparr>)))"

section \<open>The comparison contract\<close>

text \<open>
  What \<open>stack.h\<close> asks of a comparison function: the sign tells less, equal or greater, so the
  comparisons form a total preorder.
\<close>

locale cmp_order =
  fixes cmp :: "'a \<Rightarrow> 'a \<Rightarrow> int"
  assumes cmp_swap: "sgn (cmp b a) = - sgn (cmp a b)"
    and cmp_trans: "cmp a b \<le> 0 \<Longrightarrow> cmp b c \<le> 0 \<Longrightarrow> cmp a c \<le> 0"
begin

definition le :: "'a \<Rightarrow> 'a \<Rightarrow> bool" where
  "le a b \<longleftrightarrow> cmp a b \<le> 0"

lemma cmp_less_iff: "cmp a b < 0 \<longleftrightarrow> cmp b a > 0"
  using cmp_swap [of b a] by (auto simp: sgn_if split: if_splits)

lemma not_less_le: "\<not> cmp a b < 0 \<Longrightarrow> le b a"
  unfolding le_def cmp_less_iff [of a b] by simp

lemma less_le: "cmp a b < 0 \<Longrightarrow> le a b"
  by (simp add: le_def)

lemma le_refl [simp]: "le a a"
  using cmp_swap [of a a] by (auto simp: le_def sgn_if split: if_splits)

lemma le_trans: "le a b \<Longrightarrow> le b c \<Longrightarrow> le a c"
  unfolding le_def by (rule cmp_trans)

lemma le_total: "le a b \<or> le b a"
  using not_less_le less_le by blast

text \<open>
  \<open>heap_from k n xs\<close>: every parent at index \<open>k\<close> or above is at least its children among the first
  \<open>n\<close> elements. \<open>heap_except\<close> leaves out the children of \<open>i\<close>, which are only bounded by
  the parent of \<open>i\<close>.
\<close>

definition heap_from :: "nat \<Rightarrow> nat \<Rightarrow> 'a list \<Rightarrow> bool" where
  "heap_from k n xs \<longleftrightarrow> (\<forall>c. 0 < c \<and> c < n \<and> k \<le> parent_idx c \<longrightarrow> le (xs ! c) (xs ! parent_idx c))"

definition heap_except :: "nat \<Rightarrow> nat \<Rightarrow> nat \<Rightarrow> 'a list \<Rightarrow> bool" where
  "heap_except i k n xs \<longleftrightarrow>
     (\<forall>c. 0 < c \<and> c < n \<and> k \<le> parent_idx c \<and> parent_idx c \<noteq> i \<longrightarrow> le (xs ! c) (xs ! parent_idx c)) \<and>
     (\<forall>c. 0 < c \<and> c < n \<and> parent_idx c = i \<and> 0 < i \<and> k \<le> parent_idx i \<longrightarrow> le (xs ! c) (xs ! parent_idx i))"

lemma parent_cases: "0 < c \<Longrightarrow> parent_idx c = i \<longleftrightarrow> c = left_idx i \<or> c = left_idx i + 1"
  by (auto simp: parent_idx_def left_idx_def)

lemma parent_less: "0 < c \<Longrightarrow> parent_idx c < c"
  by (auto simp: parent_idx_def)

lemma heap_next_cases:
  assumes "left_idx i < n" "heap_next cmp i n xs \<noteq> i"
  shows "heap_next cmp i n xs < n" "parent_idx (heap_next cmp i n xs) = i" "i < heap_next cmp i n xs"
    "le (xs ! i) (xs ! heap_next cmp i n xs)"
  using assms unfolding heap_next_def
  by (auto simp: Let_def parent_idx_def left_idx_def split: if_splits intro: less_le le_trans)

lemma heap_next_max:
  assumes "0 < c" "c < n" "parent_idx c = i"
  shows "le (xs ! c) (xs ! heap_next cmp i n xs)"
  using assms(2,3) unfolding heap_next_def parent_cases [OF assms(1)]
  by (auto simp: Let_def left_idx_def intro: less_le not_less_le le_trans)

lemma nth_swap:
  assumes "i < length xs" "j < length xs"
  shows "swap xs i j ! k = (if k = j then xs ! i else if k = i then xs ! j else xs ! k)"
  using assms by (auto simp: swap_def nth_list_update)

lemma heap_except_swap:
  assumes ex: "heap_except i k n xs" and "n \<le> length xs" "k \<le> i" "left_idx i < n"
    and nxt: "nx = heap_next cmp i n xs" "nx \<noteq> i"
  shows "heap_except nx k n (swap xs i nx)"
proof -
  note nx = heap_next_cases [OF assms(4), of xs, folded nxt(1), OF nxt(2)]
  have len: "i < length xs" "nx < length xs" using nx assms(2) by auto
  have sw: "swap xs i nx ! c = (if c = nx then xs ! i else if c = i then xs ! nx else xs ! c)" for c
    using len by (rule nth_swap)
  have "le (swap xs i nx ! c) (swap xs i nx ! parent_idx c)"
    if c: "0 < c" "c < n" "k \<le> parent_idx c" "parent_idx c \<noteq> nx" for c
  proof -
    consider "parent_idx c = i" | "c = i" | "parent_idx c \<noteq> i" "c \<noteq> i" by blast
    then show ?thesis
    proof cases
      case 1
      have "le (xs ! c) (xs ! nx)" using heap_next_max [OF c(1,2) 1, of xs] by (simp add: nxt(1))
      then show ?thesis unfolding sw using 1 nx(3,4) parent_less [OF c(1)] by auto
    next
      case 2
      have "le (xs ! nx) (xs ! parent_idx i)"
        using ex nx(1,2,3) c 2 unfolding heap_except_def by auto
      then show ?thesis using 2 c parent_less [OF c(1)] nx(3) by (simp add: sw)
    next
      case 3
      have "c \<noteq> nx" using nx(2) 3(1) by blast
      then show ?thesis using ex c 3 unfolding heap_except_def by (simp add: sw)
    qed
  qed
  moreover have "le (swap xs i nx ! c) (swap xs i nx ! parent_idx nx)"
    if c: "0 < c" "c < n" "parent_idx c = nx" for c
  proof -
    have "nx < c" using parent_less [OF c(1)] c(3) by simp
    moreover have "le (xs ! c) (xs ! nx)" using ex c assms(3) nx(3) unfolding heap_except_def by auto
    ultimately show ?thesis using nx(2,3) by (simp add: sw)
  qed
  ultimately show ?thesis unfolding heap_except_def by blast
qed

lemma down_heap_from:
  assumes "heap_except i k n xs" "i < n" "n \<le> length xs" "k \<le> i"
  shows "heap_from k n (down_heap cmp i n xs)"
  using assms
proof (induction "n - i" arbitrary: i xs rule: less_induct)
  case less
  let ?nx = "heap_next cmp i n xs"
  show ?case
  proof (cases "left_idx i \<ge> n")
    case True
    then have "parent_idx c \<noteq> i" if "0 < c" "c < n" for c
      using that parent_cases [OF that(1)] by auto
    with less.prems(1) True show ?thesis
      by (subst down_heap.simps) (auto simp: heap_from_def heap_except_def)
  next
    case left: False
    show ?thesis
    proof (cases "?nx = i")
      case True
      then have "le (xs ! c) (xs ! i)" if "0 < c" "c < n" "parent_idx c = i" for c
        using heap_next_max [OF that] by metis
      then have "heap_from k n xs"
        using less.prems(1) unfolding heap_from_def heap_except_def by metis
      then show ?thesis using left True by (subst down_heap.simps) simp
    next
      case False
      have l: "left_idx i < n" using left by simp
      note nx = heap_next_cases [OF l False]
      have "heap_except ?nx k n (swap xs i ?nx)"
        using less.prems l False by (intro heap_except_swap) auto
      then have "heap_from k n (down_heap cmp ?nx n (swap xs i ?nx))"
        using less.prems nx by (intro less.hyps) (auto simp: swap_def)
      then show ?thesis using left False by (subst down_heap.simps) (simp add: Let_def)
    qed
  qed
qed

end

text \<open>Whatever the comparison does, only the elements below \<open>n\<close> move, and none is lost.\<close>

lemma length_swap [simp]: "length (swap xs i j) = length xs"
  by (simp add: swap_def)

lemma mset_sk_swap: "i < length xs \<Longrightarrow> j < length xs \<Longrightarrow> mset (swap xs i j) = mset xs"
  unfolding swap_def by (rule mset_swap)

lemma drop_swap: "i < n \<Longrightarrow> j < n \<Longrightarrow> drop n (swap xs i j) = drop n xs"
  by (simp add: swap_def)

lemma heap_next_less: "i < n \<Longrightarrow> left_idx i < n \<Longrightarrow> heap_next cmp i n xs < n"
  by (simp add: heap_next_def Let_def)

lemma heap_next_greater: "heap_next cmp i n xs \<noteq> i \<Longrightarrow> i < heap_next cmp i n xs"
  by (auto simp: heap_next_def left_idx_def Let_def split: if_splits)

lemma down_heap_perm:
  assumes "i < n" "n \<le> length xs"
  shows "length (down_heap cmp i n xs) = length xs \<and> mset (down_heap cmp i n xs) = mset xs
    \<and> drop n (down_heap cmp i n xs) = drop n xs"
  using assms
proof (induction cmp i n xs rule: down_heap.induct)
  case (1 cmp i n xs)
  let ?nx = "heap_next cmp i n xs"
  show ?case
  proof (cases "left_idx i \<ge> n \<or> ?nx = i")
    case True
    then show ?thesis by (subst (1 2 3) down_heap.simps) (auto simp: Let_def)
  next
    case False
    have nx: "?nx < n" using 1 False by (simp add: heap_next_less)
    have d: "down_heap cmp i n xs = down_heap cmp ?nx n (swap xs i ?nx)"
      using False by (subst down_heap.simps) (auto simp: Let_def)
    have "length (down_heap cmp ?nx n (swap xs i ?nx)) = length (swap xs i ?nx) \<and>
        mset (down_heap cmp ?nx n (swap xs i ?nx)) = mset (swap xs i ?nx) \<and>
        drop n (down_heap cmp ?nx n (swap xs i ?nx)) = drop n (swap xs i ?nx)"
      using False nx 1(3) by (intro 1(1)) auto
    then show ?thesis unfolding d using 1(2,3) nx by (simp add: mset_sk_swap drop_swap)
  qed
qed

lemma mset_take_eq: "mset xs = mset ys \<Longrightarrow> drop n xs = drop n ys \<Longrightarrow> mset (take n xs) = mset (take n ys)"
  by (metis add_right_cancel append_take_drop_id mset_append)

lemma build_heap_loop_perm:
  assumes "i < n" "n \<le> length xs"
  shows "length (build_heap_loop cmp i n xs) = length xs \<and> mset (build_heap_loop cmp i n xs) = mset xs
    \<and> drop n (build_heap_loop cmp i n xs) = drop n xs"
  using assms
proof (induction cmp i n xs rule: build_heap_loop.induct)
  case (1 cmp n data)
  then show ?case using down_heap_perm [of 0 n data cmp] by simp
next
  case (2 cmp i n data)
  then show ?case using down_heap_perm [of "Suc i" n data cmp] by simp
qed

lemma extract_max_loop_perm:
  assumes "i < length xs"
  shows "length (extract_max_loop cmp i xs) = length xs \<and> mset (extract_max_loop cmp i xs) = mset xs
    \<and> drop (Suc i) (extract_max_loop cmp i xs) = drop (Suc i) xs"
  using assms
proof (induction cmp i xs rule: extract_max_loop.induct)
  case (2 cmp i data)
  let ?d = "down_heap cmp 0 (Suc i) (swap data 0 (Suc i))"
  have "data \<noteq> []" using 2(2) by auto
  then have d: "length ?d = length data" "mset ?d = mset data" "drop (Suc i) ?d = drop (Suc i) (swap data 0 (Suc i))"
    using down_heap_perm [of 0 "Suc i" "swap data 0 (Suc i)" cmp] mset_sk_swap [of 0 data "Suc i"] 2(2)
    by simp_all
  have "drop (Suc (Suc i)) ?d = drop 1 (drop (Suc i) ?d)" by simp
  also have "\<dots> = drop (Suc (Suc i)) data" unfolding d(3) by (simp add: drop_swap)
  finally have t: "drop (Suc (Suc i)) ?d = drop (Suc (Suc i)) data" .
  have "length (extract_max_loop cmp i ?d) = length ?d \<and> mset (extract_max_loop cmp i ?d) = mset ?d
      \<and> drop (Suc i) (extract_max_loop cmp i ?d) = drop (Suc i) ?d" using 2 d by simp
  moreover from this have "drop (Suc (Suc i)) (extract_max_loop cmp i ?d) = drop (Suc (Suc i)) ?d"
    by (metis drop_Suc drop_drop tl_drop)
  ultimately show ?case using d t by simp
qed simp

context cmp_order begin

lemma build_heap_loop_heap:
  assumes "heap_from (Suc i) n xs" "i < n" "n \<le> length xs"
  shows "heap_from 0 n (build_heap_loop cmp i n xs)"
  using assms
proof (induction i arbitrary: xs)
  case 0
  then have "heap_except 0 0 n xs" unfolding heap_from_def heap_except_def by auto
  with 0 show ?case by (simp add: down_heap_from)
next
  case (Suc i)
  have "heap_except (Suc i) (Suc i) n xs"
    using Suc.prems(1) parent_less [of "Suc i"] unfolding heap_from_def heap_except_def by force
  then have "heap_from (Suc i) n (down_heap cmp (Suc i) n xs)" using Suc.prems by (intro down_heap_from) auto
  moreover have "length (down_heap cmp (Suc i) n xs) = length xs"
    using down_heap_perm [of "Suc i" n xs cmp] Suc.prems by simp
  ultimately show ?case using Suc by simp
qed

lemma heap_root_max: "heap_from 0 n xs \<Longrightarrow> c < n \<Longrightarrow> le (xs ! c) (xs ! 0)"
proof (induction c rule: less_induct)
  case (less c)
  show ?case
  proof (cases "c = 0")
    case False
    then have p: "parent_idx c < c" by (simp add: parent_less)
    then have "le (xs ! parent_idx c) (xs ! 0)" using less by simp
    moreover have "le (xs ! c) (xs ! parent_idx c)" using less.prems False unfolding heap_from_def by simp
    ultimately show ?thesis using le_trans by blast
  qed simp
qed

text \<open>
  The invariant of the second loop: the first \<open>Suc i\<close> elements are a heap, none of them is above
  any later element, and the later ones are in order.
\<close>

lemma extract_max_loop_sorted:
  assumes "heap_from 0 (Suc i) xs" "i < n" "n \<le> length xs"
    and "sorted_wrt le (drop (Suc i) (take n xs))"
    and "\<forall>x \<in> set (take (Suc i) xs). \<forall>y \<in> set (drop (Suc i) (take n xs)). le x y"
  shows "sorted_wrt le (take n (extract_max_loop cmp i xs))"
  using assms
proof (induction i arbitrary: xs)
  case 0
  then obtain x ys where "take n xs = x # ys" by (cases "take n xs") auto
  moreover have "take (Suc 0) xs = [x]" using calculation 0 by (cases xs; cases n) auto
  ultimately show ?case using 0 by simp
next
  case (Suc i)
  let ?s = "swap xs 0 (Suc i)" and ?d = "down_heap cmp 0 (Suc i) (swap xs 0 (Suc i))"
  have len: "Suc i < length xs" "0 < length xs" using Suc.prems by auto
  have d: "length ?d = length xs" "mset ?d = mset ?s" "drop (Suc i) ?d = drop (Suc i) ?s"
    using down_heap_perm [of 0 "Suc i" ?s cmp] len by simp_all
  have ds: "drop (Suc i) ?s = xs ! 0 # drop (Suc (Suc i)) xs"
    using len by (simp add: Cons_nth_drop_Suc [symmetric] swap_def)
  have later: "drop (Suc i) (take n ?d) = xs ! 0 # drop (Suc (Suc i)) (take n xs)"
    using d(3) ds Suc.prems(2) by (simp add: drop_take) (simp add: take_Cons' drop_take Suc_diff_Suc)
  have root: "xs ! 0 \<in> set (take (Suc (Suc i)) xs)" using len by (auto simp: in_set_conv_nth intro!: exI [of _ 0])
  have max: "le x (xs ! 0)" if "x \<in> set (take (Suc (Suc i)) xs)" for x
    using that heap_root_max [OF Suc.prems(1)] len by (auto simp: in_set_conv_nth)
  have sub: "set (take (Suc i) ?d) \<subseteq> set (take (Suc (Suc i)) xs)"
  proof -
    have "mset (take (Suc i) ?d) = mset (take (Suc i) ?s)" using d(2,3) by (rule mset_take_eq)
    then have "set (take (Suc i) ?d) = set (take (Suc i) ?s)" by (metis set_mset_mset)
    also have "\<dots> \<subseteq> set (take (Suc (Suc i)) xs)"
    proof
      fix x assume "x \<in> set (take (Suc i) ?s)"
      then obtain j where "j < Suc i" "x = ?s ! j" using len by (auto simp: in_set_conv_nth)
      then have "x \<in> (!) xs ` {0..<Suc (Suc i)}" using len by (auto simp: nth_swap)
      then show "x \<in> set (take (Suc (Suc i)) xs)" using len nth_image [of "Suc (Suc i)" xs] by simp
    qed
    finally show ?thesis .
  qed
  have "heap_from 0 (Suc i) ?d"
  proof (rule down_heap_from)
    show "heap_except 0 0 (Suc i) ?s"
      using Suc.prems(1) len parent_less unfolding heap_except_def heap_from_def
      by (auto simp: nth_swap) (metis less_SucI less_antisym not_less_eq)+
  qed (use len in auto)
  moreover have "sorted_wrt le (drop (Suc i) (take n ?d))"
    using later root Suc.prems(4,5) by simp
  moreover have "\<forall>x \<in> set (take (Suc i) ?d). \<forall>y \<in> set (drop (Suc i) (take n ?d)). le x y"
    using later sub max Suc.prems(5) by auto
  ultimately have "sorted_wrt le (take n (extract_max_loop cmp i ?d))"
    using Suc.prems(2,3) d(1) by (intro Suc.IH) auto
  then show ?case by simp
qed

lemma heap_sort_sorted:
  assumes "n \<le> length xs"
  shows "sorted_wrt le (take n (heap_sort cmp n xs))"
proof (cases "n \<ge> 2")
  case True
  let ?p = "parent_idx (n - 1)"
  have p: "?p < n" using True by (simp add: parent_idx_def)
  have "heap_from (Suc ?p) n xs" using True unfolding heap_from_def by (auto simp: parent_idx_def)
  then have h: "heap_from 0 n (build_heap_loop cmp ?p n xs)" using p assms by (rule build_heap_loop_heap)
  have "length (build_heap_loop cmp ?p n xs) = length xs" using build_heap_loop_perm [OF p assms] by simp
  then show ?thesis
    using h True assms extract_max_loop_sorted [of "n - 1" "build_heap_loop cmp ?p n xs" n]
    by (simp add: heap_sort_def)
next
  case False
  then have "length (take n xs) \<le> 1" by simp
  then show ?thesis using False by (cases "take n xs") (auto simp: heap_sort_def)
qed

end

lemma heap_sort_perm:
  assumes "n \<le> length xs"
  shows "length (heap_sort cmp n xs) = length xs \<and> mset (take n (heap_sort cmp n xs)) = mset (take n xs)
    \<and> drop n (heap_sort cmp n xs) = drop n xs"
proof (cases "n \<ge> 2")
  case True
  let ?b = "build_heap_loop cmp (parent_idx (n - 1)) n xs"
  have "parent_idx (n - 1) < n" using True by (simp add: parent_idx_def)
  then have b: "length ?b = length xs" "mset ?b = mset xs" "drop n ?b = drop n xs"
    using build_heap_loop_perm assms by blast+
  have "n - 1 < length ?b" "Suc (n - 1) = n" using True assms b(1) by simp_all
  then have e: "length (extract_max_loop cmp (n - 1) ?b) = length xs"
      "mset (extract_max_loop cmp (n - 1) ?b) = mset xs" "drop n (extract_max_loop cmp (n - 1) ?b) = drop n xs"
    using extract_max_loop_perm [of "n - 1" ?b cmp] b by simp_all
  then show ?thesis using True mset_take_eq [OF e(2,3)] by (simp add: heap_sort_def)
qed (simp add: heap_sort_def)

section \<open>Searching\<close>

lemma find_index_loop_Some:
  "find_index_loop P i xs = Some k \<longleftrightarrow>
     i \<le> k \<and> k - i < length xs \<and> P (xs ! (k - i)) \<and> (\<forall>j < k - i. \<not> P (xs ! j))"
proof (induction xs arbitrary: i)
  case (Cons x xs)
  show ?case
  proof (cases "P x")
    case True
    have "k - i = 0" if "\<forall>j < k - i. \<not> P ((x # xs) ! j)" using that True by (cases "k - i") auto
    then show ?thesis using True by auto
  next
    case False
    have "i \<le> k \<and> k - i < length (x # xs) \<and> P ((x # xs) ! (k - i)) \<and> (\<forall>j < k - i. \<not> P ((x # xs) ! j))
      \<longleftrightarrow> i + 1 \<le> k \<and> k - (i + 1) < length xs \<and> P (xs ! (k - (i + 1))) \<and> (\<forall>j < k - (i + 1). \<not> P (xs ! j))"
    proof (cases "i + 1 \<le> k")
      case True
      then obtain m where m: "k = i + Suc m" by (metis add_Suc_right le_iff_add plus_1_eq_Suc add.commute add.left_commute)
      show ?thesis using False by (simp add: m All_less_Suc2)
    next
      case le: False
      then show ?thesis using False by auto
    qed
    with False Cons show ?thesis by simp
  qed
qed simp

lemma find_index_loop_None: "find_index_loop P i xs = None \<longleftrightarrow> (\<forall>x \<in> set xs. \<not> P x)"
  by (induction xs arbitrary: i) auto

context cmp_order begin

lemma le_abs: "le = (\<lambda>a b. cmp a b \<le> 0)"
  by (simp add: fun_eq_iff le_def)

lemma cmp_greater_mono: "le x y \<Longrightarrow> cmp p y > 0 \<Longrightarrow> cmp p x > 0"
  using cmp_trans [of p x y] by (fastforce simp: le_def)

lemma cmp_less_mono: "le x y \<Longrightarrow> cmp p x < 0 \<Longrightarrow> cmp p y < 0"
  using cmp_trans [of x y p] cmp_less_iff [of p x] cmp_less_iff [of p y] not_less_le [of p y]
  by (fastforce simp: le_def)

lemma sk_bsearch_spec:
  assumes "\<forall>i j. i \<le> j \<and> j < n \<longrightarrow> le (xs ! i) (xs ! j)" "lo \<le> hi" "hi \<le> n"
    and "\<forall>j < lo. cmp p (xs ! j) > 0"
    and "\<forall>j < n. cmp p (xs ! j) = 0 \<longrightarrow> (\<exists>k < hi. cmp p (xs ! k) = 0)"
  shows "case sk_bsearch (cmp p) xs lo hi of
      None \<Rightarrow> \<forall>j < n. cmp p (xs ! j) \<noteq> 0
    | Some i \<Rightarrow> i < n \<and> cmp p (xs ! i) = 0 \<and> (\<forall>j < i. cmp p (xs ! j) \<noteq> 0)"
  using assms
proof (induction "hi - lo" arbitrary: lo hi rule: less_induct)
  case less
  define mid where "mid = lo + (hi - lo - 1) div 2"
  note step = sk_bsearch.simps [of "cmp p" xs lo hi, folded mid_def, unfolded Let_def]
  show ?case
  proof (cases "lo < hi")
    case False
    then have "\<forall>k < hi. cmp p (xs ! k) \<noteq> 0" using less.prems(4) by (metis less_irrefl not_less order_less_le_trans)
    then show ?thesis using False less.prems(5) by (subst step) auto
  next
    case True
    then have mid: "lo \<le> mid" "mid < hi" by (auto simp: mid_def)
    consider "cmp p (xs ! mid) > 0" | "cmp p (xs ! mid) < 0" | "cmp p (xs ! mid) = 0" by linarith
    then show ?thesis
    proof cases
      case 1
      have "cmp p (xs ! j) > 0" if "j < mid + 1" for j
      proof -
        have "le (xs ! j) (xs ! mid)" using less.prems(1,3) mid that by auto
        then show ?thesis using 1 by (rule cmp_greater_mono)
      qed
      then show ?thesis using less.hyps [of hi "mid + 1"] less.prems mid 1 True by (subst step) auto
    next
      case 2
      have "cmp p (xs ! j) < 0" if "mid \<le> j" "j < n" for j
      proof -
        have "le (xs ! mid) (xs ! j)" using less.prems(1) that by auto
        then show ?thesis using 2 by (rule cmp_less_mono)
      qed
      then have "\<forall>j < n. cmp p (xs ! j) = 0 \<longrightarrow> (\<exists>k < mid. cmp p (xs ! k) = 0)"
        by (metis less_irrefl not_le)
      then show ?thesis using less.hyps [of mid lo] less.prems mid 2 True by (subst step) auto
    next
      case 3
      show ?thesis
      proof (cases "hi - lo = 1")
        case one: True
        then have "mid = lo" by (simp add: mid_def)
        then show ?thesis using less.prems 3 one True mid by (subst step) force
      next
        case False
        then have "mid + 1 < hi" using True by (simp add: mid_def)
        moreover have "\<forall>j < n. cmp p (xs ! j) = 0 \<longrightarrow> (\<exists>k < mid + 1. cmp p (xs ! k) = 0)" using 3 by auto
        ultimately show ?thesis using less.hyps [of "mid + 1" lo] less.prems mid 3 True False by (subst step) auto
      qed
    qed
  qed
qed

text \<open>On a sorted array the binary search finds what the linear search finds.\<close>

lemma sk_bsearch_linear:
  assumes "sorted_wrt le (take n xs)" "n \<le> length xs"
  shows "sk_bsearch (cmp p) xs 0 n = find_index_loop (\<lambda>q. cmp p q = 0) 0 (take n xs)"
proof -
  have "le (xs ! i) (xs ! j)" if "i \<le> j" "j < n" for i j
    using assms that sorted_wrt_nth_less [of le "take n xs" i j] by (cases "i = j") auto
  then have spec: "case sk_bsearch (cmp p) xs 0 n of
      None \<Rightarrow> \<forall>j < n. cmp p (xs ! j) \<noteq> 0
    | Some i \<Rightarrow> i < n \<and> cmp p (xs ! i) = 0 \<and> (\<forall>j < i. cmp p (xs ! j) \<noteq> 0)"
    by (intro sk_bsearch_spec) auto
  show ?thesis
  proof (cases "sk_bsearch (cmp p) xs 0 n")
    case None
    with spec have "find_index_loop (\<lambda>q. cmp p q = 0) 0 (take n xs) = None"
      unfolding find_index_loop_None using assms(2) by (auto simp: in_set_conv_nth)
    with None show ?thesis by simp
  next
    case (Some i)
    with spec have "find_index_loop (\<lambda>q. cmp p q = 0) 0 (take n xs) = Some i"
      unfolding find_index_loop_Some using assms(2) by auto
    with Some show ?thesis by simp
  qed
qed

end

section \<open>The stack as a list\<close>

definition sk_list :: "('p, 'c) OPENSSL_STACK \<Rightarrow> 'p option list" where
  "sk_list sk = (case sk of None \<Rightarrow> [] | Some s \<Rightarrow> take (st_num s) (st_data s))"

definition sk_inv :: "('p, 'c) stack_st \<Rightarrow> bool" where
  "sk_inv s \<longleftrightarrow> st_num s \<le> st_num_alloc s \<and> length (st_data s) = st_num_alloc s \<and> 1 \<le> st_num_alloc s
     \<and> st_num_alloc s < 2 ^ 64 \<and> st_num s \<le> INT_MAX"

lemma sk_list_Some [simp]: "sk_list (Some s) = take (st_num s) (st_data s)"
  by (simp add: sk_list_def)

lemma sk_grow_inv:
  assumes "sk_inv s" "sk_grow malloc_ok fill s = Some t"
  shows "sk_inv t \<and> st_num t < st_num_alloc t \<and> st_num t = st_num s \<and> st_sorted t = st_sorted s
    \<and> st_comp t = st_comp s \<and> take (st_num t) (st_data t) = take (st_num s) (st_data s)"
proof (cases "st_num_alloc s \<le> st_num s + 1")
  case False
  then show ?thesis using assms by (auto simp: sk_grow_def)
next
  case True
  let ?n = "st_num_alloc s"
  have big: "?n < new" if "new = size_mul ?n 2 \<and> \<not> new < ?n \<or> new = size_add ?n 1 \<and> \<not> new < ?n" for new
  proof -
    have "?n < 2 ^ 64" "1 \<le> ?n" using assms(1) by (auto simp: sk_inv_def)
    with that show ?thesis
      by (cases "2 * ?n < 2 ^ 64") (auto simp: size_mul_def size_add_def mod_if le_mod_geq split: if_splits)
  qed
  have lt: "size_mul ?n 2 < 2 ^ 64" "size_add ?n 1 < 2 ^ 64" by (simp_all add: size_mul_def size_add_def)
  from True assms(2) obtain new where new: "new = size_mul ?n 2 \<and> \<not> new < ?n \<or> new = size_add ?n 1 \<and> \<not> new < ?n"
      and t: "t = s\<lparr> st_data := take new (st_data s) @ replicate (new - length (st_data s)) fill, st_num_alloc := new \<rparr>"
    by (auto simp: sk_grow_def OPENSSL_realloc_def Let_def split: if_splits)
  have "new < 2 ^ 64" using new lt by auto
  then show ?thesis using big [OF new] assms(1) t by (auto simp: sk_inv_def)
qed

lemma memmove_insert:
  assumes "wher < n" "n < length xs"
  shows "take (Suc n) ((memmove (wher + 1) wher (n - wher) xs)[wher := p]) = take wher xs @ p # take (n - wher) (drop wher xs)"
    and "length (memmove (wher + 1) wher (n - wher) xs) = length xs"
proof -
  have t: "take (wher + 1) xs = take wher xs @ [xs ! wher]" using assms by (simp add: take_Suc_conv_app_nth)
  show "take (Suc n) ((memmove (wher + 1) wher (n - wher) xs)[wher := p]) = take wher xs @ p # take (n - wher) (drop wher xs)"
    unfolding memmove_def t using assms by (simp add: list_update_append Suc_diff_le)
  show "length (memmove (wher + 1) wher (n - wher) xs) = length xs"
    using assms by (simp add: memmove_def)
qed

lemma memmove_delete:
  assumes "wher < n" "n \<le> length xs"
  shows "take (n - 1) (memmove wher (wher + 1) (n - wher - 1) xs) = take wher xs @ take (n - wher - 1) (drop (wher + 1) xs)"
    and "length (memmove wher (wher + 1) (n - wher - 1) xs) = length xs"
  using assms by (simp_all add: memmove_def)

definition list_insert :: "nat \<Rightarrow> 'a \<Rightarrow> 'a list \<Rightarrow> 'a list" where
  "list_insert i x xs = take i xs @ x # drop i xs"

definition list_delete :: "nat \<Rightarrow> 'a list \<Rightarrow> 'a list" where
  "list_delete i xs = take i xs @ drop (Suc i) xs"

text \<open>A successful insertion inserts, at the end when the index is past it; a failed one changes nothing.\<close>

lemma OPENSSL_sk_insert_spec:
  assumes "sk_inv s" "OPENSSL_sk_insert malloc_ok fill (Some s) p wher = (r, sk)"
  shows "r = 0 \<and> sk = Some s \<or>
    (\<exists>t. sk = Some t \<and> sk_inv t \<and> r = st_num s + 1 \<and> st_num t = r \<and> \<not> st_sorted t \<and> st_comp t = st_comp s
       \<and> sk_list sk = list_insert wher p (sk_list (Some s)))"
proof (cases "INT_MAX \<le> st_num s \<or> sk_grow malloc_ok fill s = None")
  case True
  then show ?thesis using assms(2) by (auto simp: OPENSSL_sk_insert_def split: if_splits)
next
  case False
  then obtain g where g: "sk_grow malloc_ok fill s = Some g" "\<not> INT_MAX \<le> st_num s" by auto
  note gi = sk_grow_inv [OF assms(1) g(1)]
  have gl: "st_num g < length (st_data g)" using gi by (simp add: sk_inv_def)
  have dat: "take (Suc (st_num g)) ((st_data g)[st_num g := p]) = take (st_num g) (st_data g) @ [p]"
    using gl by (simp add: take_Suc_conv_app_nth)
  show ?thesis
  proof (cases "st_num g \<le> wher")
    case True
    then show ?thesis
      using assms(2) g gi dat by (auto simp: OPENSSL_sk_insert_def Let_def sk_inv_def list_insert_def)
  next
    case lt: False
    have d: "take wher (take (st_num s) (st_data s)) = take wher (st_data g)"
      "drop wher (take (st_num s) (st_data s)) = take (st_num g - wher) (drop wher (st_data g))"
    proof -
      have e: "take (st_num s) (st_data s) = take (st_num g) (st_data g)" using gi by metis
      show "take wher (take (st_num s) (st_data s)) = take wher (st_data g)"
        "drop wher (take (st_num s) (st_data s)) = take (st_num g - wher) (drop wher (st_data g))"
        unfolding e using lt by (simp_all add: drop_take)
    qed
    show ?thesis
      using assms(2) g gi lt gl memmove_insert(1) [of wher "st_num g" "st_data g" p]
        memmove_insert(2) [of wher "st_num g" "st_data g"] d
      by (auto simp: OPENSSL_sk_insert_def Let_def sk_inv_def list_insert_def)
  qed
qed

lemma OPENSSL_sk_delete_spec:
  assumes "sk_inv s" "wher < st_num s"
  shows "\<exists>t. OPENSSL_sk_delete (Some s) wher = (sk_list (Some s) ! wher, Some t) \<and> sk_inv t
    \<and> sk_list (Some t) = list_delete wher (sk_list (Some s)) \<and> st_sorted t = st_sorted s \<and> st_comp t = st_comp s"
proof -
  have n: "wher < st_num s" "st_num s \<le> length (st_data s)" using assms by (auto simp: sk_inv_def)
  show ?thesis
    using assms memmove_delete [OF n]
    by (auto simp: OPENSSL_sk_delete_def Let_def sk_inv_def list_delete_def drop_take min_def)
qed

lemma sk_delete_if_loop_spec:
  assumes "new_num \<le> i" "i + n \<le> length data"
  shows "\<exists>m data'. sk_delete_if_loop func n i new_num data = (m, data') \<and> length data' = length data
    \<and> m \<le> i + n \<and> take m data' = take new_num data @ filter (\<lambda>p. \<not> func p) (take n (drop i data))"
  using assms
proof (induction n arbitrary: i new_num data)
  case (Suc n)
  have d: "take (Suc n) (drop i data) = data ! i # take n (drop (i + 1) data)"
    using Suc.prems by (simp add: Cons_nth_drop_Suc [symmetric])
  show ?case
  proof (cases "func (data ! i)")
    case True
    then show ?thesis using Suc.IH [of new_num "i + 1" data] Suc.prems d by auto
  next
    case False
    let ?data = "data[new_num := data ! i]"
    have "drop (i + 1) ?data = drop (i + 1) data" using Suc.prems by simp
    moreover have "take (new_num + 1) ?data = take new_num data @ [data ! i]"
      using Suc.prems by (simp add: take_Suc_conv_app_nth)
    ultimately show ?thesis using False Suc.IH [of "new_num + 1" "i + 1" ?data] Suc.prems d by auto
  qed
qed simp

lemma OPENSSL_sk_delete_if_spec:
  assumes "sk_inv s"
  shows "\<exists>t. OPENSSL_sk_delete_if (Some s) func = Some t \<and> sk_inv t
    \<and> sk_list (Some t) = filter (\<lambda>p. \<not> func p) (sk_list (Some s)) \<and> st_sorted t = st_sorted s \<and> st_comp t = st_comp s"
  using assms sk_delete_if_loop_spec [of 0 0 "st_num s" "st_data s" func]
  by (auto simp: OPENSSL_sk_delete_if_def sk_inv_def)

lemma OPENSSL_sk_sort_spec:
  assumes "sk_inv s" "st_comp s = Some c" "\<not> st_sorted s"
  shows "\<exists>t. OPENSSL_sk_sort call_cmp_func (Some s) = Some t \<and> sk_inv t \<and> st_sorted t \<and> st_comp t = Some c
    \<and> mset (sk_list (Some t)) = mset (sk_list (Some s))
    \<and> (cmp_order (call_cmp_func c) \<longrightarrow> sorted_wrt (\<lambda>a b. call_cmp_func c a b \<le> 0) (sk_list (Some t)))"
proof -
  have n: "st_num s \<le> length (st_data s)" using assms(1) by (simp add: sk_inv_def)
  have "sorted_wrt (\<lambda>a b. call_cmp_func c a b \<le> 0) (take (st_num s) (heap_sort (call_cmp_func c) (st_num s) (st_data s)))"
    if ord: "cmp_order (call_cmp_func c)"
    using cmp_order.heap_sort_sorted [OF ord n] unfolding cmp_order.le_def [OF ord] .
  then show ?thesis
    using assms heap_sort_perm [OF n, of "call_cmp_func c"] by (auto simp: OPENSSL_sk_sort_def sk_inv_def)
qed

section \<open>Reachable stacks\<close>

text \<open>A copy function whose copies compare as the originals do, null pointers being left as they are.\<close>

definition copy_keeps_order :: "('p, 'c) call_cmp_func \<Rightarrow> ('p \<Rightarrow> 'p option) \<Rightarrow> bool" where
  "copy_keeps_order call_cmp_func f \<longleftrightarrow>
     (\<forall>c a b. (a = None \<or> Option.bind a f \<noteq> None) \<longrightarrow> (b = None \<or> Option.bind b f \<noteq> None) \<longrightarrow>
        call_cmp_func c (Option.bind a f) (Option.bind b f) = call_cmp_func c a b)"

text \<open>
  The stacks a program can build with the operations of the component. The parameter \<open>sets\<close>
  tells whether it puts arbitrary elements in place of others: by \<open>OPENSSL_sk_set\<close>, or by
  \<open>OPENSSL_sk_deep_copy\<close> with a copy function that changes how the elements compare.
\<close>

inductive sk_reach :: "('p, 'c) call_cmp_func \<Rightarrow> bool \<Rightarrow> ('p, 'c) stack_st \<Rightarrow> bool"
  for call_cmp_func :: "('p, 'c) call_cmp_func" and sets :: bool where
  reach_new: "OPENSSL_sk_new malloc_ok c = Some s \<Longrightarrow> sk_reach call_cmp_func sets s"
| reach_zero: "sk_reach call_cmp_func sets s \<Longrightarrow> OPENSSL_sk_zero (Some s) = Some t \<Longrightarrow> sk_reach call_cmp_func sets t"
| reach_set: "sk_reach call_cmp_func sets s \<Longrightarrow> sets \<Longrightarrow> OPENSSL_sk_set (Some s) i v = (r, Some t) \<Longrightarrow>
    sk_reach call_cmp_func sets t"
| reach_insert: "sk_reach call_cmp_func sets s \<Longrightarrow> OPENSSL_sk_insert malloc_ok fill (Some s) p wher = (n, Some t) \<Longrightarrow>
    sk_reach call_cmp_func sets t"
| reach_delete: "sk_reach call_cmp_func sets s \<Longrightarrow> OPENSSL_sk_delete (Some s) wher = (r, Some t) \<Longrightarrow>
    sk_reach call_cmp_func sets t"
| reach_delete_if: "sk_reach call_cmp_func sets s \<Longrightarrow> OPENSSL_sk_delete_if (Some s) func = Some t \<Longrightarrow>
    sk_reach call_cmp_func sets t"
| reach_dup: "sk_reach call_cmp_func sets s \<Longrightarrow> OPENSSL_sk_dup malloc_ok (Some s) = Some t \<Longrightarrow>
    sk_reach call_cmp_func sets t"
| reach_deep_copy: "sk_reach call_cmp_func sets s \<Longrightarrow> sets \<or> copy_keeps_order call_cmp_func copy_func \<Longrightarrow>
    OPENSSL_sk_deep_copy malloc_ok copy_func (Some s) = (freed, Some t) \<Longrightarrow> sk_reach call_cmp_func sets t"
| reach_sort: "sk_reach call_cmp_func sets s \<Longrightarrow> OPENSSL_sk_sort call_cmp_func (Some s) = Some t \<Longrightarrow>
    sk_reach call_cmp_func sets t"
| reach_set_cmp: "sk_reach call_cmp_func sets s \<Longrightarrow> OPENSSL_sk_set_cmp_func s c = (old, Some t) \<Longrightarrow>
    sk_reach call_cmp_func sets t"

text \<open>What \<open>sorted\<close> claims: the elements are in ascending order, for the current comparison.\<close>

definition sk_sorted_ok :: "('p, 'c) call_cmp_func \<Rightarrow> ('p, 'c) stack_st \<Rightarrow> bool" where
  "sk_sorted_ok call_cmp_func s \<longleftrightarrow>
     (st_sorted s \<longrightarrow> (\<exists>c. st_comp s = Some c
        \<and> sorted_wrt (\<lambda>a b. call_cmp_func c a b \<le> 0) (take (st_num s) (st_data s))))"

lemma sk_inv_simple_ops:
  "OPENSSL_sk_new malloc_ok c = Some t \<Longrightarrow> sk_inv t \<and> \<not> st_sorted t"
  "sk_inv s \<Longrightarrow> OPENSSL_sk_zero (Some s) = Some t \<Longrightarrow>
     sk_inv t \<and> st_num t = 0 \<and> (st_sorted t \<longrightarrow> t = s) \<and> st_comp t = st_comp s"
  "sk_inv s \<Longrightarrow> OPENSSL_sk_set (Some s) i v = (r, Some t) \<Longrightarrow> sk_inv t"
  "OPENSSL_sk_dup malloc_ok (Some s) = Some t \<Longrightarrow> t = s"
  "sk_inv s \<Longrightarrow> OPENSSL_sk_set_cmp_func s c = (old, Some t) \<Longrightarrow>
     sk_inv t \<and> (st_sorted t \<longrightarrow> t = s)"
  by (auto simp: OPENSSL_sk_new_def OPENSSL_sk_zero_def OPENSSL_sk_set_def OPENSSL_sk_dup_def
      OPENSSL_sk_set_cmp_func_def sk_inv_def Let_def split: option.splits if_splits)

lemma deep_copy_loop_Inr:
  "deep_copy_loop f acc xs = Inr ys \<Longrightarrow>
     ys = acc @ map (\<lambda>p. Option.bind p f) xs \<and> (\<forall>p\<in>set xs. p = None \<or> Option.bind p f \<noteq> None)"
  by (induction f acc xs arbitrary: ys rule: deep_copy_loop.induct) (auto split: option.splits)

lemma OPENSSL_sk_deep_copy_cases:
  assumes "sk_inv s" "OPENSSL_sk_deep_copy malloc_ok f (Some s) = (freed, Some t)"
  shows "sk_inv t \<and> st_sorted t = st_sorted s \<and> st_comp t = st_comp s
    \<and> sk_list (Some t) = map (\<lambda>p. Option.bind p f) (sk_list (Some s))
    \<and> (\<forall>p\<in>set (sk_list (Some s)). p = None \<or> Option.bind p f \<noteq> None)"
proof -
  have dup: "OPENSSL_sk_dup malloc_ok (Some s) = Some s"
    using assms(2) sk_inv_simple_ops(4) [of malloc_ok s] by (auto simp: OPENSSL_sk_deep_copy_def split: option.splits)
  obtain ys where ys: "deep_copy_loop f [] (take (st_num s) (st_data s)) = Inr ys" "t = s\<lparr> st_data := ys @ drop (st_num s) (st_data s) \<rparr>"
    using assms(2) dup by (auto simp: OPENSSL_sk_deep_copy_def split: sum.splits)
  show ?thesis using deep_copy_loop_Inr [OF ys(1)] assms(1) ys(2) by (auto simp: sk_inv_def)
qed

lemma OPENSSL_sk_delete_cases:
  assumes "sk_inv s" "OPENSSL_sk_delete (Some s) wher = (r, Some t)"
  shows "t = s \<or> wher < st_num s \<and> sk_inv t \<and> sk_list (Some t) = list_delete wher (sk_list (Some s))
    \<and> st_sorted t = st_sorted s \<and> st_comp t = st_comp s"
proof (cases "wher < st_num s")
  case True
  with assms OPENSSL_sk_delete_spec [OF assms(1) True] show ?thesis by auto
qed (use assms in \<open>auto simp: OPENSSL_sk_delete_def\<close>)

lemma OPENSSL_sk_sort_cases:
  assumes "sk_inv s" "OPENSSL_sk_sort call_cmp_func (Some s) = Some t"
  shows "t = s \<or> (\<exists>c. sk_inv t \<and> st_sorted t \<and> st_comp t = Some c \<and> st_comp s = Some c
    \<and> mset (sk_list (Some t)) = mset (sk_list (Some s))
    \<and> (cmp_order (call_cmp_func c) \<longrightarrow> sorted_wrt (\<lambda>a b. call_cmp_func c a b \<le> 0) (sk_list (Some t))))"
proof (cases "st_comp s = None \<or> st_sorted s")
  case False
  then obtain c where "st_comp s = Some c" "\<not> st_sorted s" by auto
  with assms(2) OPENSSL_sk_sort_spec [OF assms(1) this, of call_cmp_func] show ?thesis by auto
qed (use assms in \<open>auto simp: OPENSSL_sk_sort_def split: option.splits\<close>)

lemma sk_reach_inv: "sk_reach call_cmp_func sets s \<Longrightarrow> sk_inv s"
proof (induction rule: sk_reach.induct)
  case (reach_insert s malloc_ok fill p wher n t)
  then show ?case using OPENSSL_sk_insert_spec by blast
next
  case (reach_delete s wher r t)
  then show ?case using OPENSSL_sk_delete_cases by blast
next
  case (reach_delete_if s func t)
  then show ?case using OPENSSL_sk_delete_if_spec [of s func] by auto
next
  case (reach_deep_copy s copy_func malloc_ok freed t)
  then show ?case using OPENSSL_sk_deep_copy_cases by blast
next
  case (reach_sort s t)
  then show ?case using OPENSSL_sk_sort_cases by blast
qed (use sk_inv_simple_ops in blast)+

lemma sorted_wrt_list_delete: "sorted_wrt P xs \<Longrightarrow> sorted_wrt P (list_delete i xs)"
proof -
  have "sorted_wrt P (take i xs @ drop i xs) \<Longrightarrow> sorted_wrt P (take i xs @ drop (Suc i) xs)"
    unfolding sorted_wrt_append by (metis drop_Suc in_set_dropD sorted_wrt_drop tl_drop drop_drop plus_1_eq_Suc)
  then show "sorted_wrt P xs \<Longrightarrow> sorted_wrt P (list_delete i xs)" by (simp add: list_delete_def)
qed

lemma sk_sorted_okI:
  assumes "sk_sorted_ok call_cmp_func s" "st_sorted t \<Longrightarrow> st_sorted s" "st_comp t = st_comp s"
    and "\<And>P. sorted_wrt P (sk_list (Some s)) \<Longrightarrow> sorted_wrt P (sk_list (Some t))"
  shows "sk_sorted_ok call_cmp_func t"
  using assms by (auto simp: sk_sorted_ok_def)

lemma sk_reach_sorted:
  assumes "sk_reach call_cmp_func False s" "\<And>c. cmp_order (call_cmp_func c)"
  shows "sk_sorted_ok call_cmp_func s"
  using assms(1)
proof (induction s rule: sk_reach.induct)
  case (reach_insert s malloc_ok fill p wher n t)
  from OPENSSL_sk_insert_spec [OF sk_reach_inv [OF reach_insert.hyps(1)] reach_insert.hyps(2)]
  have "t = s \<or> \<not> st_sorted t" by auto
  with reach_insert.IH show ?case by (auto simp: sk_sorted_ok_def)
next
  case (reach_delete s wher r t)
  from OPENSSL_sk_delete_cases [OF sk_reach_inv [OF reach_delete.hyps(1)] reach_delete.hyps(2)] show ?case
  proof (elim disjE conjE)
    assume t: "sk_list (Some t) = list_delete wher (sk_list (Some s))" "st_sorted t = st_sorted s"
      "st_comp t = st_comp s"
    show ?thesis by (rule sk_sorted_okI [OF reach_delete.IH]) (simp_all only: t sorted_wrt_list_delete)
  qed (use reach_delete.IH in simp)
next
  case (reach_delete_if s func t)
  from OPENSSL_sk_delete_if_spec [OF sk_reach_inv [OF reach_delete_if.hyps(1)], of func] reach_delete_if.hyps(2)
  have t: "sk_list (Some t) = filter (\<lambda>p. \<not> func p) (sk_list (Some s))" "st_sorted t = st_sorted s"
      "st_comp t = st_comp s" by auto
  show ?case by (rule sk_sorted_okI [OF reach_delete_if.IH]) (simp_all only: t sorted_wrt_filter)
next
  case (reach_deep_copy s copy_func malloc_ok freed t)
  note t = OPENSSL_sk_deep_copy_cases [OF sk_reach_inv [OF reach_deep_copy.hyps(1)] reach_deep_copy.hyps(3)]
  have "sorted_wrt (\<lambda>a b. call_cmp_func c a b \<le> 0) (sk_list (Some t))"
    if "sorted_wrt (\<lambda>a b. call_cmp_func c a b \<le> 0) (sk_list (Some s))" for c
  proof -
    have "call_cmp_func c (Option.bind a copy_func) (Option.bind b copy_func) = call_cmp_func c a b"
      if "a \<in> set (sk_list (Some s))" "b \<in> set (sk_list (Some s))" for a b
    proof -
      have "copy_keeps_order call_cmp_func copy_func" using reach_deep_copy.hyps(2) by simp
      moreover have "p = None \<or> Option.bind p copy_func \<noteq> None" if "p \<in> set (sk_list (Some s))" for p using t that by (simp only:)
      ultimately show ?thesis using that unfolding copy_keeps_order_def by (simp only:)
    qed
    then have "sorted_wrt (\<lambda>a b. call_cmp_func c (Option.bind a copy_func) (Option.bind b copy_func) \<le> 0) (sk_list (Some s))"
      by (intro sorted_wrt_mono_rel [OF _ that]) (simp only:)
    moreover have "sk_list (Some t) = map (\<lambda>p. Option.bind p copy_func) (sk_list (Some s))" using t by blast
    ultimately show ?thesis by (simp only: sorted_wrt_map)
  qed
  then show ?case using reach_deep_copy.IH t by (auto simp: sk_sorted_ok_def)
next
  case (reach_sort s t)
  from OPENSSL_sk_sort_cases [OF sk_reach_inv [OF reach_sort.hyps(1)] reach_sort.hyps(2)] show ?case
    using reach_sort.IH assms(2) by (auto simp: sk_sorted_ok_def)
next
  case (reach_zero s t)
  have "\<not> st_sorted t \<or> t = s"
    using sk_inv_simple_ops(2) [OF sk_reach_inv [OF reach_zero.hyps(1)] reach_zero.hyps(2)] by blast
  then show ?case using reach_zero.IH unfolding sk_sorted_ok_def by blast
next
  case (reach_new malloc_ok c s)
  then show ?case using sk_inv_simple_ops(1) by (auto simp: sk_sorted_ok_def)
next
  case (reach_dup s malloc_ok t)
  then show ?case using sk_inv_simple_ops(4) by blast
next
  case (reach_set_cmp s c old t)
  then show ?case using sk_inv_simple_ops(5) [OF sk_reach_inv [OF reach_set_cmp.hyps(1)] reach_set_cmp.hyps(2)]
    by (auto simp: sk_sorted_ok_def)
qed simp

lemma OPENSSL_sk_find_linear:
  assumes "sk_reach call_cmp_func False s" "\<And>c. cmp_order (call_cmp_func c)" "st_comp s = Some c"
  shows "OPENSSL_sk_find call_cmp_func (Some s) (Some p) =
    find_index_loop (\<lambda>q. call_cmp_func c (Some p) q = 0) 0 (sk_list (Some s))"
proof (cases "OPENSSL_sk_is_sorted (Some s)")
  case False
  then show ?thesis using assms(3) by (simp add: OPENSSL_sk_find_def)
next
  case True
  have n: "st_num s \<le> length (st_data s)" using sk_reach_inv [OF assms(1)] by (simp add: sk_inv_def)
  have ord: "cmp_order (call_cmp_func c)" by (rule assms(2))
  have "sorted_wrt (\<lambda>a b. call_cmp_func c a b \<le> 0) (take (st_num s) (st_data s))"
  proof (cases "st_sorted s")
    case True
    then show ?thesis
      using sk_reach_sorted [OF assms(1,2)] assms(3) by (simp add: sk_sorted_ok_def)
  next
    case False
    with True have "length (take (st_num s) (st_data s)) \<le> 1" by (auto simp: OPENSSL_sk_is_sorted_def min_def)
    then show ?thesis by (cases "take (st_num s) (st_data s)") auto
  qed
  then show ?thesis
    using True assms(3) n cmp_order.sk_bsearch_linear [OF ord, unfolded cmp_order.le_abs [OF ord]]
    by (simp add: OPENSSL_sk_find_def)
qed

text \<open>A comparison of integers behind pointers, with null below every value.\<close>

definition int_cmp :: "unit \<Rightarrow> int option \<Rightarrow> int option \<Rightarrow> int" where
  "int_cmp c a b = (case (a, b) of (Some x, Some y) \<Rightarrow> x - y | (None, None) \<Rightarrow> 0 | (None, _) \<Rightarrow> - 1 | _ \<Rightarrow> 1)"

section \<open>Properties\<close>

text \<open>C9: Every stack that the operations can build, \<open>OPENSSL_sk_set\<close> included, has \<open>num\<close> elements within its
  \<open>num_alloc\<close> slots and at most \<open>INT_MAX\<close> elements, as \<open>sk_num\<close> promises.\<close>
theorem OPENSSL_sk_invariant:
  assumes "sk_reach call_cmp_func sets s"
  shows "st_num s \<le> st_num_alloc s \<and> length (st_data s) = st_num_alloc s \<and> OPENSSL_sk_num (Some s) \<le> INT_MAX"
  using sk_reach_inv [OF assms] by (simp add: sk_inv_def OPENSSL_sk_num_def)

theorem OPENSSL_sk_invariant_witness:
  "OPENSSL_sk_num (Some \<lparr> st_num = 0, st_data = replicate 4 (None :: int option), st_sorted = False,
     st_num_alloc = 4, st_comp = Some () \<rparr>) \<le> INT_MAX"
proof -
  have "OPENSSL_sk_new (\<lambda>_. True) (Some ()) = Some \<lparr> st_num = 0, st_data = replicate 4 (None :: int option),
      st_sorted = False, st_num_alloc = 4, st_comp = Some () \<rparr>"
    by (simp add: OPENSSL_sk_new_def OPENSSL_zalloc_def OPENSSL_calloc_def OPENSSL_malloc_def size_add_def size_mul_def)
  then have "sk_reach int_cmp False \<lparr> st_num = 0, st_data = replicate 4 None, st_sorted = False,
      st_num_alloc = 4, st_comp = Some () \<rparr>" by (rule reach_new)
  from OPENSSL_sk_invariant [OF this] show ?thesis by blast
qed

text \<open>C10: \<open>OPENSSL_sk_insert\<close> either fails, returns zero and leaves the stack alone, or returns the new length,
  inserts the pointer at the index (at the end when the index is past it), keeps the other elements in order and
  clears the \<open>sorted\<close> flag.\<close>
theorem OPENSSL_sk_insert_refines:
  assumes "sk_inv s" "OPENSSL_sk_insert malloc_ok fill (Some s) p wher = (r, sk)"
  shows "r = 0 \<and> sk = Some s \<or>
    (\<exists>t. sk = Some t \<and> sk_inv t \<and> r = st_num s + 1 \<and> st_num t = r \<and> \<not> st_sorted t \<and> st_comp t = st_comp s
       \<and> sk_list sk = take wher (sk_list (Some s)) @ p # drop wher (sk_list (Some s)))"
  using OPENSSL_sk_insert_spec [OF assms] by (simp add: list_insert_def)

theorem OPENSSL_sk_insert_refines_witness:
  "\<exists>t :: (int, unit) stack_st. st_num t = 2 \<and> \<not> st_sorted t \<and> sk_list (Some t) = [Some 7, Some 5]"
proof -
  let ?s = "\<lparr> st_num = 1, st_data = [Some 5, None, None, None], st_sorted = True,
      st_num_alloc = 4, st_comp = Some () \<rparr> :: (int, unit) stack_st"
  obtain r sk where run: "OPENSSL_sk_insert (\<lambda>_. True) None (Some ?s) (Some 7) 0 = (r, sk)" by fastforce
  then have "r = 2" by (simp add: OPENSSL_sk_insert_def sk_grow_def Let_def)
  with OPENSSL_sk_insert_refines [OF _ run] show ?thesis by (auto simp: sk_inv_def)
qed

lemma sk_bsearch_all_less:
  "(\<And>j. lo \<le> j \<Longrightarrow> j < hi \<Longrightarrow> 0 < cmp (data ! j)) \<Longrightarrow> sk_bsearch cmp data lo hi = None"
proof (induction cmp data lo hi rule: sk_bsearch.induct)
  case (1 cmp data lo hi)
  show ?case
  proof (cases "lo < hi")
    case True
    let ?m = "lo + (hi - lo - 1) div 2"
    have m: "lo \<le> ?m" "?m < hi" using True by linarith+
    have "0 < cmp (data ! ?m)" using "1.prems" m by blast
    moreover from this have "sk_bsearch cmp data (?m + 1) hi = None" using "1.IH"(1) [OF True refl refl] "1.prems" m by simp
    ultimately show ?thesis by (subst sk_bsearch.simps) (simp add: Let_def)
  qed (simp add: sk_bsearch.simps)
qed

text \<open>C11: \<open>OPENSSL_sk_set\<close> keeps the \<open>sorted\<close> flag whatever it stores. In every stack marked as sorted, a pointer that compares
  greater than all the elements, stored at any index below the middle one, is an element that \<open>OPENSSL_sk_find\<close> misses.\<close>
theorem OPENSSL_sk_set_stale_sorted:
  assumes "sk_inv s" "st_sorted s" "st_comp s = Some c" "i < (st_num s - 1) div 2"
    and "\<forall>q \<in> set (sk_list (Some s)). call_cmp_func c (Some p) q > 0"
  shows "\<exists>t. OPENSSL_sk_set (Some s) i (Some p) = (Some p, Some t) \<and> OPENSSL_sk_is_sorted (Some t)
    \<and> OPENSSL_sk_value (Some t) i = Some p \<and> OPENSSL_sk_find call_cmp_func (Some t) (Some p) = None"
proof -
  let ?t = "s\<lparr> st_data := (st_data s)[i := Some p] \<rparr>" and ?m = "(st_num s - 1) div 2"
  have n: "i < st_num s" "st_num s \<le> length (st_data s)" "0 < st_num s" "?m < st_num s" using assms(1,4) by (auto simp: sk_inv_def)
  have above: "0 < call_cmp_func c (Some p) ((st_data s)[i := Some p] ! j)" if "?m \<le> j" "j < st_num s" for j
  proof -
    have "st_data s ! j \<in> set (sk_list (Some s))" using that(2) n(2) by (auto simp: in_set_conv_nth)
    then show ?thesis using assms(4,5) that n(2) by simp
  qed
  have "sk_bsearch (call_cmp_func c (Some p)) ((st_data s)[i := Some p]) (?m + 1) (st_num s) = None"
    by (rule sk_bsearch_all_less) (use above in simp)
  then have "sk_bsearch (call_cmp_func c (Some p)) ((st_data s)[i := Some p]) 0 (st_num s) = None"
    using above [of ?m] n by (subst sk_bsearch.simps) (simp add: Let_def)
  then show ?thesis
    using assms(2,3) n by (auto simp: OPENSSL_sk_set_def OPENSSL_sk_is_sorted_def OPENSSL_sk_value_def OPENSSL_sk_find_def)
qed

theorem OPENSSL_sk_set_stale_sorted_witness:
  "OPENSSL_sk_find int_cmp (snd (OPENSSL_sk_set (Some \<lparr> st_num = 3, st_data = [Some 1, Some 2, Some 3, None],
       st_sorted = True, st_num_alloc = 4, st_comp = Some () \<rparr>) 0 (Some 9))) (Some 9) = None"
proof -
  let ?s = "\<lparr> st_num = 3, st_data = [Some 1, Some 2, Some 3, None], st_sorted = True, st_num_alloc = 4,
      st_comp = Some () \<rparr> :: (int, unit) stack_st"
  have "sk_inv ?s" "0 < (st_num ?s - 1) div 2" "\<forall>q \<in> set (sk_list (Some ?s)). int_cmp () (Some 9) q > 0"
    by (auto simp: sk_inv_def sk_list_def int_cmp_def numeral_3_eq_3)
  with OPENSSL_sk_set_stale_sorted [of ?s "()" 0 int_cmp 9] show ?thesis by auto
qed

lemma int_cmp_order: "cmp_order (int_cmp c)"
proof
  show "sgn (int_cmp c b a) = - sgn (int_cmp c a b)" for a b
    by (auto simp: int_cmp_def sgn_if split: option.splits)
  show "int_cmp c a d \<le> 0" if "int_cmp c a b \<le> 0" "int_cmp c b d \<le> 0" for a b d
    using that by (auto simp: int_cmp_def split: option.splits)
qed

text \<open>C12: \<open>OPENSSL_sk_sort\<close>, the in-place heap sort, on a stack not known to be sorted leaves a permutation of its
  elements in ascending order and sets the flag, for every comparison function that is a total preorder.\<close>
theorem OPENSSL_sk_sort_sorts:
  assumes "sk_inv s" "st_comp s = Some c" "\<not> st_sorted s" "cmp_order (call_cmp_func c)"
  shows "\<exists>t. OPENSSL_sk_sort call_cmp_func (Some s) = Some t \<and> sk_inv t \<and> st_sorted t
    \<and> mset (sk_list (Some t)) = mset (sk_list (Some s))
    \<and> sorted_wrt (\<lambda>a b. call_cmp_func c a b \<le> 0) (sk_list (Some t))"
  using OPENSSL_sk_sort_spec [OF assms(1-3), of call_cmp_func] assms(4) by blast

theorem OPENSSL_sk_sort_sorts_witness:
  "\<exists>t. OPENSSL_sk_sort int_cmp (Some \<lparr> st_num = 3, st_data = [Some 3, Some 1, Some 2, None],
       st_sorted = False, st_num_alloc = 4, st_comp = Some () \<rparr>) = Some t
     \<and> mset (sk_list (Some t)) = {# Some 3, Some 1, Some 2 #}"
proof -
  let ?s = "\<lparr> st_num = 3, st_data = [Some 3, Some 1, Some 2, None], st_sorted = False, st_num_alloc = 4,
      st_comp = Some () \<rparr> :: (int, unit) stack_st"
  have "sk_inv ?s" by (simp add: sk_inv_def)
  from OPENSSL_sk_sort_sorts [OF this _ _ int_cmp_order] show ?thesis
    by (fastforce simp: sk_list_def numeral_3_eq_3)
qed

text \<open>C13: In every stack built without \<open>OPENSSL_sk_set\<close>, and without a deep copy that changes how the elements compare,
  \<open>OPENSSL_sk_find\<close> returns the index of the first element that compares equal, or fails when there is none: on a stack that is
  marked sorted the binary search finds what the linear search of an unsorted stack finds.\<close>
theorem OPENSSL_sk_find_first:
  assumes "sk_reach call_cmp_func False s" "\<forall>c. cmp_order (call_cmp_func c)" "st_comp s = Some c"
  shows "OPENSSL_sk_find call_cmp_func (Some s) (Some p) =
    find_index_loop (\<lambda>q. call_cmp_func c (Some p) q = 0) 0 (sk_list (Some s))"
  by (rule OPENSSL_sk_find_linear [OF assms(1) _ assms(3)]) (use assms(2) in blast)

theorem OPENSSL_sk_find_first_witness:
  "\<exists>s. OPENSSL_sk_new (\<lambda>_. True) (Some ()) = Some s \<and> OPENSSL_sk_find int_cmp (Some s) (Some 7) = None"
proof -
  obtain s :: "(int, unit) stack_st" where s: "OPENSSL_sk_new (\<lambda>_. True) (Some ()) = Some s" "st_comp s = Some ()" "st_num s = 0"
    by (simp add: OPENSSL_sk_new_def OPENSSL_zalloc_def OPENSSL_calloc_def OPENSSL_malloc_def size_add_def size_mul_def)
  from OPENSSL_sk_find_first [OF reach_new [OF s(1)] _ s(2), of int_cmp] int_cmp_order s show ?thesis
    by (simp add: sk_list_def)
qed

end
