(* ===== verification/Lhash.thy ===== *)
theory Lhash
  imports Mem
begin

text \<open>
  \<open>crypto/lhash/lhash.c\<close>, the chained hash table, and the keys of the object tables of
  \<open>crypto/obj/obj.c\<close> that it holds. A chain is the list of its items; the pointer to a
  pointer that \<open>get_next_ptr_and_hash\<close> returns is the index of the bucket and the position in
  its chain, the chain's length standing for the final \<open>NULL\<close>. \<open>hash\<close> and \<open>cmp\<close>
  are the callbacks applied to the stored function pointers. A callback of \<open>lh_doall_arg\<close> is a
  function on a state of its own; one that changes the table it iterates over is not modelled.
\<close>

section \<open>Definitions\<close>

record 'd lhash_item =
  item_data :: 'd
  item_hash :: u32

record 'd lhash =
  num_items :: nat
  buckets :: "'d lhash_item list list"
  num_buckets :: nat
  callback_depth :: nat

abbreviation (input) kMinNumBuckets :: nat where "kMinNumBuckets \<equiv> 16"
abbreviation (input) kMaxAverageChainLength :: nat where "kMaxAverageChainLength \<equiv> 2"
abbreviation (input) kMinAverageChainLength :: nat where "kMinAverageChainLength \<equiv> 1"
abbreviation (input) UINT_MAX :: nat where "UINT_MAX \<equiv> 2 ^ 32 - 1"
abbreviation (input) sizeof_LHASH :: nat where "sizeof_LHASH \<equiv> 48"
abbreviation (input) sizeof_LHASH_ITEM :: nat where "sizeof_LHASH_ITEM \<equiv> 24"

definition OPENSSL_lh_new :: "malloc \<Rightarrow> 'd lhash option" where
  "OPENSSL_lh_new malloc_ok =
     (case OPENSSL_zalloc malloc_ok sizeof_LHASH of None \<Rightarrow> None | Some _ \<Rightarrow>
      case OPENSSL_calloc malloc_ok kMinNumBuckets 8 of None \<Rightarrow> None | Some _ \<Rightarrow>
        Some \<lparr> num_items = 0, buckets = replicate kMinNumBuckets [],
               num_buckets = kMinNumBuckets, callback_depth = 0 \<rparr>)"

definition OPENSSL_lh_num_items :: "'d lhash \<Rightarrow> nat" where
  "OPENSSL_lh_num_items lh = num_items lh"

text \<open>The walk along a chain to the first item that matches, or to its end.\<close>

fun chain_walk :: "('d \<Rightarrow> bool) \<Rightarrow> 'd lhash_item list \<Rightarrow> nat" where
  "chain_walk match [] = 0"
| "chain_walk match (cur # chain) = (if match (item_data cur) then 0 else Suc (chain_walk match chain))"

definition get_next_ptr_and_hash ::
    "('d \<Rightarrow> u32) \<Rightarrow> ('d \<Rightarrow> 'd \<Rightarrow> int) \<Rightarrow> 'd lhash \<Rightarrow> 'd \<Rightarrow> u32 \<times> nat \<times> nat" where
  "get_next_ptr_and_hash hash cmp lh data =
     (let h = hash data; b = unat h mod num_buckets lh
      in (h, b, chain_walk (\<lambda>cur. cmp cur data = 0) (buckets lh ! b)))"

definition get_next_ptr_by_key ::
    "'d lhash \<Rightarrow> 'k \<Rightarrow> u32 \<Rightarrow> ('k \<Rightarrow> 'd \<Rightarrow> int) \<Rightarrow> nat \<times> nat" where
  "get_next_ptr_by_key lh key key_hash cmp_key =
     (let b = unat key_hash mod num_buckets lh
      in (b, chain_walk (\<lambda>cur. cmp_key key cur = 0) (buckets lh ! b)))"

text \<open>Reading \<open>*next_ptr\<close>.\<close>

definition deref :: "'d lhash \<Rightarrow> nat \<Rightarrow> nat \<Rightarrow> 'd lhash_item option" where
  "deref lh b i = (if i < length (buckets lh ! b) then Some (buckets lh ! b ! i) else None)"

definition OPENSSL_lh_retrieve ::
    "('d \<Rightarrow> u32) \<Rightarrow> ('d \<Rightarrow> 'd \<Rightarrow> int) \<Rightarrow> 'd lhash \<Rightarrow> 'd \<Rightarrow> 'd option" where
  "OPENSSL_lh_retrieve hash cmp lh data =
     (case get_next_ptr_and_hash hash cmp lh data of (_, b, i) \<Rightarrow>
        map_option item_data (deref lh b i))"

definition OPENSSL_lh_retrieve_key ::
    "'d lhash \<Rightarrow> 'k \<Rightarrow> u32 \<Rightarrow> ('k \<Rightarrow> 'd \<Rightarrow> int) \<Rightarrow> 'd option" where
  "OPENSSL_lh_retrieve_key lh key key_hash cmp_key =
     (case get_next_ptr_by_key lh key key_hash cmp_key of (b, i) \<Rightarrow>
        map_option item_data (deref lh b i))"

text \<open>Moving one item to the front of its new chain.\<close>

definition rebucket_item ::
    "nat \<Rightarrow> 'd lhash_item list list \<Rightarrow> 'd lhash_item \<Rightarrow> 'd lhash_item list list" where
  "rebucket_item new_num_buckets new_buckets cur =
     (let new_bucket = unat (item_hash cur) mod new_num_buckets
      in new_buckets[new_bucket := cur # new_buckets ! new_bucket])"

definition lh_rebucket :: "malloc \<Rightarrow> 'd lhash \<Rightarrow> nat \<Rightarrow> 'd lhash" where
  "lh_rebucket malloc_ok lh new_num_buckets =
     (let alloc_size = size_mul 8 new_num_buckets
      in if alloc_size div 8 \<noteq> new_num_buckets then lh
         else if \<not> OPENSSL_malloc malloc_ok alloc_size then lh
         else lh\<lparr> buckets := foldl (foldl (rebucket_item new_num_buckets))
                               (replicate new_num_buckets []) (buckets lh),
                  num_buckets := new_num_buckets \<rparr>)"

definition lh_maybe_resize :: "malloc \<Rightarrow> 'd lhash \<Rightarrow> 'd lhash" where
  "lh_maybe_resize malloc_ok lh =
     (if callback_depth lh > 0 then lh
      else let avg_chain_length = num_items lh div num_buckets lh
           in if avg_chain_length > kMaxAverageChainLength then
                let new_num_buckets = size_mul (num_buckets lh) 2
                in if new_num_buckets > num_buckets lh
                   then lh_rebucket malloc_ok lh new_num_buckets else lh
              else if avg_chain_length < kMinAverageChainLength \<and> num_buckets lh > kMinNumBuckets then
                let new_num_buckets = num_buckets lh div 2;
                    new_num_buckets = (if new_num_buckets < kMinNumBuckets then kMinNumBuckets
                                       else new_num_buckets)
                in lh_rebucket malloc_ok lh new_num_buckets
              else lh)"

text \<open>The result is the return value, \<open>*old_data\<close> and the table.\<close>

definition OPENSSL_lh_insert ::
    "malloc \<Rightarrow> ('d \<Rightarrow> u32) \<Rightarrow> ('d \<Rightarrow> 'd \<Rightarrow> int) \<Rightarrow> 'd lhash \<Rightarrow> 'd \<Rightarrow> bool \<times> 'd option \<times> 'd lhash" where
  "OPENSSL_lh_insert malloc_ok hash cmp lh data =
     (case get_next_ptr_and_hash hash cmp lh data of (h, b, i) \<Rightarrow>
      case deref lh b i of
        Some item \<Rightarrow>
          (True, Some (item_data item),
           lh\<lparr> buckets := (buckets lh)[b := (buckets lh ! b)[i := item\<lparr> item_data := data \<rparr>]] \<rparr>)
      | None \<Rightarrow>
          if \<not> OPENSSL_malloc malloc_ok sizeof_LHASH_ITEM then (False, None, lh)
          else (True, None, lh_maybe_resize malloc_ok
                 (lh\<lparr> buckets := (buckets lh)[b := buckets lh ! b @ [\<lparr> item_data = data, item_hash = h \<rparr>]],
                      num_items := size_add (num_items lh) 1 \<rparr>)))"

definition OPENSSL_lh_delete ::
    "malloc \<Rightarrow> ('d \<Rightarrow> u32) \<Rightarrow> ('d \<Rightarrow> 'd \<Rightarrow> int) \<Rightarrow> 'd lhash \<Rightarrow> 'd \<Rightarrow> 'd option \<times> 'd lhash" where
  "OPENSSL_lh_delete malloc_ok hash cmp lh data =
     (case get_next_ptr_and_hash hash cmp lh data of (_, b, i) \<Rightarrow>
      case deref lh b i of
        None \<Rightarrow> (None, lh)
      | Some item \<Rightarrow>
          (Some (item_data item), lh_maybe_resize malloc_ok
             (lh\<lparr> buckets := (buckets lh)[b := take i (buckets lh ! b) @ drop (Suc i) (buckets lh ! b)],
                  num_items := num_items lh - 1 \<rparr>)))"

text \<open>\<open>func\<close> maps the data of an item and the callback's state to its next state.\<close>

definition OPENSSL_lh_doall_arg ::
    "malloc \<Rightarrow> ('d \<Rightarrow> 's \<Rightarrow> 's) \<Rightarrow> 'd lhash option \<Rightarrow> 's \<Rightarrow> 's \<times> 'd lhash option" where
  "OPENSSL_lh_doall_arg malloc_ok func lh arg =
     (case lh of None \<Rightarrow> (arg, None) | Some lh \<Rightarrow>
      let lh = (if callback_depth lh < UINT_MAX then lh\<lparr> callback_depth := callback_depth lh + 1 \<rparr> else lh);
          arg = foldl (foldl (\<lambda>arg cur. func (item_data cur) arg)) arg (buckets lh);
          lh = (if callback_depth lh < UINT_MAX then lh\<lparr> callback_depth := callback_depth lh - 1 \<rparr> else lh)
      in (arg, Some (lh_maybe_resize malloc_ok lh)))"

text \<open>
  An \<open>ASN1_OBJECT\<close>, with null names as \<open>None\<close>; \<open>length\<close> is the length of the data, and null data is empty. The
  callbacks of the tables by NID and by encoding.
\<close>

record asn1_object =
  obj_sn :: "bytes option"
  obj_ln :: "bytes option"
  obj_nid :: int
  obj_data :: bytes
  obj_flags :: u32

definition hash_nid :: "asn1_object \<Rightarrow> u32" where
  "hash_nid obj = of_int (obj_nid obj)"

text \<open>NIDs are small and not negative, so the difference is one of \<open>int\<close>s without overflow.\<close>

definition cmp_nid :: "asn1_object \<Rightarrow> asn1_object \<Rightarrow> int" where
  "cmp_nid a b = obj_nid a - obj_nid b"

definition hash_data :: "asn1_object \<Rightarrow> u32" where
  "hash_data obj = OPENSSL_hash32 (obj_data obj)"

definition OBJ_cmp :: "asn1_object \<Rightarrow> asn1_object \<Rightarrow> int" where
  "OBJ_cmp a b =
     (if length (obj_data a) < length (obj_data b) then - 1
      else if length (obj_data a) > length (obj_data b) then 1
      else memcmp (obj_data a) (obj_data b))"

section \<open>Items as a multiset\<close>

definition lh_mset :: "'d lhash \<Rightarrow> 'd lhash_item multiset" where
  "lh_mset lh = mset (concat (buckets lh))"

lemma mset_concat_update:
  "i < length xss \<Longrightarrow> mset (concat (xss[i := ys])) + mset (xss ! i) = mset (concat xss) + mset ys"
proof (induction xss arbitrary: i)
  case (Cons xs xss)
  show ?case
  proof (cases i)
    case (Suc j)
    with Cons show ?thesis by (simp add: ac_simps)
  qed (simp add: ac_simps)
qed simp

lemma chain_walk_props:
  shows "chain_walk match chain \<le> length chain"
    and "chain_walk match chain < length chain \<Longrightarrow> match (item_data (chain ! chain_walk match chain))"
    and "j < chain_walk match chain \<Longrightarrow> \<not> match (item_data (chain ! j))"
  by (induction chain arbitrary: j) (auto simp: less_Suc_eq_0_disj split: if_splits)

lemma chain_walk_end: "chain_walk match chain = length chain \<longleftrightarrow> (\<forall>it \<in> set chain. \<not> match (item_data it))"
  by (induction chain) auto

section \<open>The callback contract\<close>

text \<open>
  What \<open>lhash.h\<close> asks of the callbacks: comparing equal is an equivalence, and equal elements
  have equal hashes.
\<close>

locale lhash_callbacks =
  fixes hash :: "'d \<Rightarrow> u32" and cmp :: "'d \<Rightarrow> 'd \<Rightarrow> int"
  assumes cmp_refl: "cmp a a = 0"
    and cmp_sym: "cmp a b = 0 \<Longrightarrow> cmp b a = 0"
    and cmp_trans: "cmp a b = 0 \<Longrightarrow> cmp b c = 0 \<Longrightarrow> cmp a c = 0"
    and hash_cmp: "cmp a b = 0 \<Longrightarrow> hash a = hash b"
begin

text \<open>
  The table's invariant: every item is in the chain of its cached hash, which is the hash of its
  data; no two items are equal; \<open>num_items\<close> counts them; there are at least
  \<open>kMinNumBuckets\<close> chains.
\<close>

definition placed :: "nat \<Rightarrow> 'd lhash_item list list \<Rightarrow> bool" where
  "placed nb bs \<longleftrightarrow> length bs = nb \<and>
     (\<forall>i < nb. \<forall>it \<in> set (bs ! i). item_hash it = hash (item_data it) \<and> unat (hash (item_data it)) mod nb = i)"

definition unique :: "'d lhash_item multiset \<Rightarrow> bool" where
  "unique M \<longleftrightarrow> (\<forall>it \<in># M. \<forall>it' \<in># M - {#it#}. cmp (item_data it') (item_data it) \<noteq> 0)"

definition lh_inv :: "'d lhash \<Rightarrow> bool" where
  "lh_inv lh \<longleftrightarrow> placed (num_buckets lh) (buckets lh) \<and> kMinNumBuckets \<le> num_buckets lh
     \<and> num_buckets lh < 2 ^ 64 \<and> num_items lh = size (lh_mset lh) \<and> unique (lh_mset lh)"

lemma cmp_eq_iff: "cmp a b = 0 \<Longrightarrow> cmp a c = 0 \<longleftrightarrow> cmp b c = 0"
  using cmp_sym cmp_trans by blast

lemma cmp_eq_iff2: "cmp a b = 0 \<Longrightarrow> cmp c a = 0 \<longleftrightarrow> cmp c b = 0"
  using cmp_sym cmp_trans by blast

lemma uniqueD:
  assumes "unique M" "it \<in># M" "it' \<in># M" "cmp (item_data it) (item_data it') = 0"
  shows "it = it'"
proof (rule ccontr)
  assume "it \<noteq> it'"
  then have "it \<in># M - {#it'#}" using assms(2) by (simp add: in_diff_count)
  with assms show False unfolding unique_def by blast
qed

lemma retrieve_iff:
  assumes "lh_inv lh"
  shows "OPENSSL_lh_retrieve hash cmp lh d = Some x \<longleftrightarrow>
    (\<exists>it \<in># lh_mset lh. item_data it = x \<and> cmp x d = 0)"
proof -
  let ?b = "unat (hash d) mod num_buckets lh" and ?m = "\<lambda>cur. cmp cur d = 0"
  let ?c = "buckets lh ! ?b"
  have nb: "?b < num_buckets lh" "length (buckets lh) = num_buckets lh"
    using assms by (auto simp: lh_inv_def placed_def)
  have ret: "OPENSSL_lh_retrieve hash cmp lh d =
      (if chain_walk ?m ?c < length ?c then Some (item_data (?c ! chain_walk ?m ?c)) else None)"
    by (simp add: OPENSSL_lh_retrieve_def get_next_ptr_and_hash_def Let_def deref_def)
  have inb: "it \<in> set ?c" if it: "it \<in># lh_mset lh" "cmp (item_data it) d = 0" for it
  proof -
    obtain c where "c \<in> set (buckets lh)" "it \<in> set c" using it(1) by (auto simp: lh_mset_def)
    then obtain i where i: "i < num_buckets lh" "it \<in> set (buckets lh ! i)"
      using nb(2) by (metis in_set_conv_nth)
    then have "unat (hash (item_data it)) mod num_buckets lh = i"
      using assms by (auto simp: lh_inv_def placed_def)
    with hash_cmp [OF it(2)] i show ?thesis by simp
  qed
  have sub: "it \<in># lh_mset lh" if "it \<in> set ?c" for it using that nb by (auto simp: lh_mset_def)
  show ?thesis
  proof (cases "chain_walk ?m ?c < length ?c")
    case True
    let ?it = "?c ! chain_walk ?m ?c"
    have it: "?it \<in># lh_mset lh" "cmp (item_data ?it) d = 0"
      using True sub chain_walk_props(2) [of ?m ?c] by auto
    have "item_data ?it = x \<longleftrightarrow> (\<exists>it \<in># lh_mset lh. item_data it = x \<and> cmp x d = 0)"
    proof
      assume "\<exists>it \<in># lh_mset lh. item_data it = x \<and> cmp x d = 0"
      then obtain it' where it': "it' \<in># lh_mset lh" "item_data it' = x" "cmp x d = 0" by blast
      then have "cmp (item_data ?it) (item_data it') = 0" using it(2) cmp_sym cmp_trans by blast
      with uniqueD [OF _ it(1) it'(1)] assms it'(2) show "item_data ?it = x" by (auto simp: lh_inv_def)
    qed (use it in auto)
    then show ?thesis using True by (simp add: ret)
  next
    case False
    then have "\<forall>it \<in> set ?c. \<not> ?m (item_data it)"
      using chain_walk_end [of ?m ?c] chain_walk_props(1) [of ?m ?c] by auto
    then show ?thesis using False inb by (auto simp: ret)
  qed
qed


lemma rebucket_item_placed:
  assumes "placed nb bs" "0 < nb" "item_hash it = hash (item_data it)"
  shows "placed nb (rebucket_item nb bs it)" "mset (concat (rebucket_item nb bs it)) = add_mset it (mset (concat bs))"
proof -
  let ?b = "unat (item_hash it) mod nb"
  have b: "?b < length bs" using assms(1,2) by (simp add: placed_def)
  show "placed nb (rebucket_item nb bs it)"
    using assms b by (auto simp: placed_def rebucket_item_def Let_def nth_list_update)
  show "mset (concat (rebucket_item nb bs it)) = add_mset it (mset (concat bs))"
    using mset_concat_update [OF b, of "it # bs ! ?b"] by (simp add: rebucket_item_def Let_def)
qed

lemma rebucket_placed:
  assumes "0 < nb" "placed nb bs" "\<forall>it \<in> set its. item_hash it = hash (item_data it)"
  shows "placed nb (foldl (rebucket_item nb) bs its)
    \<and> mset (concat (foldl (rebucket_item nb) bs its)) = mset its + mset (concat bs)"
  using assms(2,3)
proof (induction its arbitrary: bs)
  case (Cons it its)
  then show ?case using rebucket_item_placed [of nb bs it] assms(1) by simp
qed simp

lemma foldl_foldl_concat: "foldl (foldl f) a xss = foldl f a (concat xss)"
  by (induction xss arbitrary: a) simp_all

lemma hash_of_items:
  assumes "placed nb bs" "it \<in># mset (concat bs)"
  shows "item_hash it = hash (item_data it)"
proof -
  obtain c where "c \<in> set bs" "it \<in> set c" using assms(2) by auto
  then obtain i where "i < length bs" "it \<in> set (bs ! i)" by (metis in_set_conv_nth)
  then show ?thesis using assms(1) by (auto simp: placed_def)
qed

lemma lh_rebucket_inv:
  assumes "lh_inv lh" "kMinNumBuckets \<le> nb" "nb < 2 ^ 64"
  shows "lh_inv (lh_rebucket malloc_ok lh nb) \<and> lh_mset (lh_rebucket malloc_ok lh nb) = lh_mset lh
    \<and> num_items (lh_rebucket malloc_ok lh nb) = num_items lh"
proof -
  let ?bs = "foldl (rebucket_item nb) (replicate nb []) (concat (buckets lh))"
  have nb: "0 < nb" using assms(2) by simp
  have "placed nb (replicate nb [])" by (simp add: placed_def)
  moreover have "\<forall>it \<in> set (concat (buckets lh)). item_hash it = hash (item_data it)"
    using hash_of_items [of "num_buckets lh" "buckets lh"] assms(1) by (simp add: lh_inv_def)
  ultimately have "placed nb ?bs \<and> mset (concat ?bs) = mset (concat (buckets lh)) + mset (concat (replicate nb ([] :: 'd lhash_item list)))"
    using rebucket_placed [OF nb] by blast
  then have "placed nb ?bs" "mset (concat ?bs) = mset (concat (buckets lh))" by simp_all
  moreover from this have "size (mset (concat ?bs)) = size (mset (concat (buckets lh)))" by simp
  ultimately show ?thesis
    using assms by (auto simp: lh_rebucket_def Let_def foldl_foldl_concat lh_inv_def lh_mset_def
        simp del: size_mset mset_concat)
qed

lemma lh_maybe_resize_inv:
  assumes "lh_inv lh"
  shows "lh_inv (lh_maybe_resize malloc_ok lh) \<and> lh_mset (lh_maybe_resize malloc_ok lh) = lh_mset lh
    \<and> num_items (lh_maybe_resize malloc_ok lh) = num_items lh"
proof -
  have "size_mul (num_buckets lh) 2 < 2 ^ 64" by (simp add: size_mul_def)
  moreover have "num_buckets lh div 2 < 2 ^ 64" "kMinNumBuckets \<le> num_buckets lh" using assms by (auto simp: lh_inv_def)
  ultimately show ?thesis
    using assms lh_rebucket_inv [OF assms, of _ malloc_ok] unfolding lh_maybe_resize_def Let_def
    by (simp add: size_mul_def)
qed

lemma placed_update:
  assumes "placed nb bs" "b < nb" "\<forall>it \<in> set c. item_hash it = hash (item_data it) \<and> unat (hash (item_data it)) mod nb = b"
  shows "placed nb (bs[b := c])"
  using assms by (auto simp: placed_def nth_list_update)

lemma retrieve_None:
  assumes "lh_inv lh"
  shows "OPENSSL_lh_retrieve hash cmp lh d = None \<longleftrightarrow> (\<forall>it \<in># lh_mset lh. cmp (item_data it) d \<noteq> 0)"
  using retrieve_iff [OF assms, of d] by (metis not_None_eq)

lemma unique_add:
  assumes "unique M" "\<forall>it' \<in># M. cmp (item_data it') (item_data it) \<noteq> 0"
  shows "unique (add_mset it M)"
  unfolding unique_def
proof (intro ballI)
  fix x y assume x: "x \<in># add_mset it M" and y: "y \<in># add_mset it M - {#x#}"
  show "cmp (item_data y) (item_data x) \<noteq> 0"
  proof (cases "x = it")
    case True
    with y assms(2) show ?thesis by simp
  next
    case False
    with x y consider "x \<in># M" "y = it" | "x \<in># M" "y \<in># M - {#x#}"
      by (auto simp: add_mset_remove_trivial_If split: if_splits)
    then show ?thesis
    proof cases
      case 1
      then show ?thesis using assms(2) cmp_sym by blast
    next
      case 2
      then show ?thesis using assms(1) by (auto simp: unique_def)
    qed
  qed
qed

lemma unique_remove:
  assumes "unique (add_mset it M)"
  shows "unique M" "\<forall>it' \<in># M. cmp (item_data it') (item_data it) \<noteq> 0"
proof -
  show "\<forall>it' \<in># M. cmp (item_data it') (item_data it) \<noteq> 0" using assms by (auto simp: unique_def)
  show "unique M" unfolding unique_def
  proof (intro ballI)
    fix x y assume "x \<in># M" "y \<in># M - {#x#}"
    then have "x \<in># add_mset it M" "y \<in># add_mset it M - {#x#}"
      by (auto dest: in_diffD simp: add_mset_remove_trivial_If)
    then show "cmp (item_data y) (item_data x) \<noteq> 0" using assms by (auto simp: unique_def)
  qed
qed

lemma retrieve_eqI: "(\<And>x. r = Some x \<longleftrightarrow> q = Some x) \<Longrightarrow> r = (q :: 'x option)"
  by (cases r; cases q) auto

text \<open>Looking up in a multiset with one more item.\<close>

lemma retrieve_add:
  assumes "lh_inv lh" "lh_mset lh = add_mset it M"
  shows "OPENSSL_lh_retrieve hash cmp lh e = Some x \<longleftrightarrow>
    (if cmp (item_data it) e = 0 then x = item_data it else (\<exists>it' \<in># M. item_data it' = x \<and> cmp x e = 0))"
proof -
  have u: "\<forall>it' \<in># M. cmp (item_data it') (item_data it) \<noteq> 0"
    using assms unique_remove(2) [of it M] by (simp add: lh_inv_def)
  show ?thesis
  proof (cases "cmp (item_data it) e = 0")
    case True
    have "cmp (item_data it') e \<noteq> 0" if "it' \<in># M" for it'
      using u that True cmp_trans [of "item_data it'" e "item_data it"] cmp_sym [OF True] by blast
    with True show ?thesis unfolding retrieve_iff [OF assms(1)] assms(2) by auto
  next
    case False
    then show ?thesis unfolding retrieve_iff [OF assms(1)] assms(2) by auto
  qed
qed

lemma found_item:
  assumes "lh_inv lh" "get_next_ptr_and_hash hash cmp lh d = (h, b, i)"
  shows "h = hash d" "b = unat (hash d) mod num_buckets lh" "b < length (buckets lh)"
    "case deref lh b i of
       Some item \<Rightarrow> i < length (buckets lh ! b) \<and> item = buckets lh ! b ! i \<and> cmp (item_data item) d = 0
         \<and> OPENSSL_lh_retrieve hash cmp lh d = Some (item_data item)
     | None \<Rightarrow> OPENSSL_lh_retrieve hash cmp lh d = None"
  using assms chain_walk_props(2) [of "\<lambda>cur. cmp cur d = 0"]
  by (auto simp: get_next_ptr_and_hash_def Let_def lh_inv_def placed_def deref_def OPENSSL_lh_retrieve_def
      split: option.splits if_splits)

lemma mset_cancel:
  "A + add_mset y R = B + R \<Longrightarrow> A = B - {#y#}"
  "A + add_mset y R = B + add_mset x R \<Longrightarrow> y \<in># B \<Longrightarrow> A = add_mset x (B - {#y#})"
proof -
  assume "A + add_mset y R = B + R"
  then have "add_mset y A + R = B + R" by simp
  then have "add_mset y A = B" by (rule add_right_imp_eq)
  then show "A = B - {#y#}" by auto
next
  assume "A + add_mset y R = B + add_mset x R" and y: "y \<in># B"
  then have "add_mset y A + R = add_mset x B + R" by simp
  then have "add_mset y A = add_mset x B" by (rule add_right_imp_eq)
  also have "\<dots> = add_mset y (add_mset x (B - {#y#}))" using y by (simp add: add_mset_commute [of y x])
  finally show "A = add_mset x (B - {#y#})" by simp
qed

lemma mset_bucket_update:
  assumes "b < length bs" "i < length (bs ! b)"
  shows "mset (concat (bs[b := (bs ! b)[i := x]])) = add_mset x (mset (concat bs) - {#bs ! b ! i#})"
    and "mset (concat (bs[b := take i (bs ! b) @ drop (Suc i) (bs ! b)])) = mset (concat bs) - {#bs ! b ! i#}"
    and "bs ! b ! i \<in># mset (concat bs)"
proof -
  let ?R = "mset (take i (bs ! b)) + mset (drop (Suc i) (bs ! b))"
  show m: "bs ! b ! i \<in># mset (concat bs)" using assms by (auto intro!: bexI [of _ "bs ! b"])
  have c: "mset (bs ! b) = add_mset (bs ! b ! i) ?R"
    by (subst id_take_nth_drop [OF assms(2)]) simp
  have u: "mset ((bs ! b)[i := x]) = add_mset x ?R"
    using assms(2) by (simp add: upd_conv_take_nth_drop)
  show "mset (concat (bs[b := take i (bs ! b) @ drop (Suc i) (bs ! b)])) = mset (concat bs) - {#bs ! b ! i#}"
    using mset_concat_update [OF assms(1), of "take i (bs ! b) @ drop (Suc i) (bs ! b)"]
    unfolding c mset_append by (rule mset_cancel(1))
  show "mset (concat (bs[b := (bs ! b)[i := x]])) = add_mset x (mset (concat bs) - {#bs ! b ! i#})"
    using mset_concat_update [OF assms(1), of "(bs ! b)[i := x]"] m
    unfolding c u by (rule mset_cancel(2))
qed

lemma lh_inv_cong:
  assumes "lh_inv lh" "placed (num_buckets lh) bs" "unique (mset (concat bs))" "n = size (mset (concat bs))"
  shows "lh_inv (lh\<lparr> buckets := bs, num_items := n \<rparr>)"
  using assms by (simp add: lh_inv_def lh_mset_def)

lemma bucket_items:
  assumes "lh_inv lh" "b < length (buckets lh)" "it \<in> set (buckets lh ! b)"
  shows "item_hash it = hash (item_data it) \<and> unat (hash (item_data it)) mod num_buckets lh = b"
  using assms by (auto simp: lh_inv_def placed_def)

lemma OPENSSL_lh_insert_new:
  assumes inv: "lh_inv lh" and ptr: "get_next_ptr_and_hash hash cmp lh d = (h, b, i)" "deref lh b i = None"
    and n: "num_items lh + 1 < 2 ^ 64"
  defines "lh1 \<equiv> lh\<lparr> buckets := (buckets lh)[b := buckets lh ! b @ [\<lparr> item_data = d, item_hash = h \<rparr>]],
      num_items := size_add (num_items lh) 1 \<rparr>"
  shows "lh_inv lh1 \<and> lh_mset lh1 = add_mset \<lparr> item_data = d, item_hash = h \<rparr> (lh_mset lh)"
proof -
  let ?it = "\<lparr> item_data = d, item_hash = h \<rparr>"
  note f = found_item [OF inv ptr(1)]
  have none: "\<forall>it \<in># lh_mset lh. cmp (item_data it) d \<noteq> 0"
    using f(4) ptr(2) retrieve_None [OF inv, of d] by simp
  have m: "mset (concat ((buckets lh)[b := buckets lh ! b @ [?it]])) = add_mset ?it (mset (concat (buckets lh)))"
    using mset_concat_update [OF f(3), of "buckets lh ! b @ [?it]"] by simp
  have "placed (num_buckets lh) ((buckets lh)[b := buckets lh ! b @ [?it]])"
    using inv f bucket_items [OF inv f(3)] by (intro placed_update) (auto simp: lh_inv_def placed_def)
  moreover have "unique (mset (concat ((buckets lh)[b := buckets lh ! b @ [?it]])))"
    unfolding m using inv none by (intro unique_add) (auto simp: lh_inv_def lh_mset_def)
  moreover have "size_add (num_items lh) 1 = size (mset (concat ((buckets lh)[b := buckets lh ! b @ [?it]])))"
    unfolding m using inv n by (simp add: size_simps lh_inv_def lh_mset_def)
  ultimately have "lh_inv lh1" unfolding lh1_def by (rule lh_inv_cong [OF inv])
  then show ?thesis using m by (simp add: lh1_def lh_mset_def)
qed

lemma OPENSSL_lh_insert_replace:
  assumes inv: "lh_inv lh" and ptr: "get_next_ptr_and_hash hash cmp lh d = (h, b, i)" "deref lh b i = Some item"
  defines "lh1 \<equiv> lh\<lparr> buckets := (buckets lh)[b := (buckets lh ! b)[i := item\<lparr> item_data := d \<rparr>]] \<rparr>"
  shows "lh_inv lh1 \<and> lh_mset lh1 = add_mset (item\<lparr> item_data := d \<rparr>) (lh_mset lh - {#item#})
    \<and> lh_mset lh = add_mset item (lh_mset lh - {#item#}) \<and> cmp (item_data item) d = 0"
proof -
  let ?bs = "(buckets lh)[b := (buckets lh ! b)[i := item\<lparr> item_data := d \<rparr>]]"
  note f = found_item [OF inv ptr(1)]
  have it: "i < length (buckets lh ! b)" "item = buckets lh ! b ! i" "cmp (item_data item) d = 0"
    using f(4) unfolding ptr(2) option.case by blast+
  note m = mset_bucket_update [OF f(3) it(1), folded it(2)]
  have M: "mset (concat (buckets lh)) = add_mset item (mset (concat (buckets lh)) - {#item#})"
    using m(3) by (simp only: insert_DiffM)
  have item: "item \<in> set (buckets lh ! b)" using it by simp
  have "set ((buckets lh ! b)[i := item\<lparr> item_data := d \<rparr>]) \<subseteq> insert (item\<lparr> item_data := d \<rparr>) (set (buckets lh ! b))"
    by (rule set_update_subset_insert)
  moreover have "item_hash item = hash d" using bucket_items [OF inv f(3) item] hash_cmp [OF it(3)] by simp
  ultimately have "placed (num_buckets lh) ?bs"
    using inv f(1-3) bucket_items [OF inv f(3)] by (intro placed_update) (auto simp: lh_inv_def placed_def)
  moreover have "unique (mset (concat ?bs))"
  proof -
    have "unique (add_mset item (mset (concat (buckets lh)) - {#item#}))"
      using inv unfolding M [symmetric] lh_inv_def lh_mset_def by blast
    from unique_remove [OF this] show ?thesis unfolding m(1) using cmp_eq_iff2 [OF it(3)] by (intro unique_add) auto
  qed
  moreover have "size (mset (concat ?bs)) = size (mset (concat (buckets lh)))"
    unfolding m(1) by (subst (2) M) (simp only: size_add_mset)
  ultimately have "lh_inv lh1" using inv unfolding lh1_def lh_inv_def lh_mset_def by simp
  then show ?thesis using m(1) M it(3) by (simp add: lh1_def lh_mset_def)
qed

lemma OPENSSL_lh_insert_spec:
  assumes inv: "lh_inv lh" and n: "num_items lh + 1 < 2 ^ 64"
    and run: "OPENSSL_lh_insert malloc_ok hash cmp lh d = (ok, old, lh')"
  shows "lh_inv lh' \<and> (if ok
    then old = OPENSSL_lh_retrieve hash cmp lh d
      \<and> (\<forall>e. OPENSSL_lh_retrieve hash cmp lh' e = (if cmp d e = 0 then Some d else OPENSSL_lh_retrieve hash cmp lh e))
      \<and> num_items lh' = (if old = None then num_items lh + 1 else num_items lh)
    else lh' = lh \<and> old = None)"
proof -
  obtain h b i where ptr: "get_next_ptr_and_hash hash cmp lh d = (h, b, i)" by (metis prod_cases3)
  note f = found_item [OF inv ptr]
  show ?thesis
  proof (cases "deref lh b i")
    case None
    let ?lh1 = "lh\<lparr> buckets := (buckets lh)[b := buckets lh ! b @ [\<lparr> item_data = d, item_hash = h \<rparr>]],
      num_items := size_add (num_items lh) 1 \<rparr>"
    show ?thesis
    proof (cases "OPENSSL_malloc malloc_ok sizeof_LHASH_ITEM")
      case False
      then show ?thesis using run inv ptr None by (simp add: OPENSSL_lh_insert_def)
    next
      case True
      note l = OPENSSL_lh_insert_new [OF inv ptr None n]
      have res: "ok" "old = None" "lh' = lh_maybe_resize malloc_ok ?lh1"
        using run True ptr None by (simp_all add: OPENSSL_lh_insert_def)
      have inv': "lh_inv lh'" and M': "lh_mset lh' = add_mset \<lparr> item_data = d, item_hash = h \<rparr> (lh_mset lh)"
        and n': "num_items lh' = size_add (num_items lh) 1"
        using lh_maybe_resize_inv [of ?lh1 malloc_ok] l unfolding res(3) by simp_all
      have "OPENSSL_lh_retrieve hash cmp lh' e = (if cmp d e = 0 then Some d else OPENSSL_lh_retrieve hash cmp lh e)" for e
        by (rule retrieve_eqI) (auto simp: retrieve_add [OF inv' M'] retrieve_iff [OF inv])
      then show ?thesis using inv' n' res f(4) None n by (simp add: size_simps)
    qed
  next
    case (Some item)
    let ?M = "lh_mset lh - {#item#}"
    note l = OPENSSL_lh_insert_replace [OF inv ptr Some]
    have res: "ok" "old = Some (item_data item)"
        "lh' = lh\<lparr> buckets := (buckets lh)[b := (buckets lh ! b)[i := item\<lparr> item_data := d \<rparr>]] \<rparr>"
      using run ptr Some by (simp_all add: OPENSSL_lh_insert_def)
    have inv': "lh_inv lh'" and M': "lh_mset lh' = add_mset (item\<lparr> item_data := d \<rparr>) ?M"
      and M: "lh_mset lh = add_mset item ?M" and c: "cmp (item_data item) d = 0"
      using l unfolding res(3) by simp_all
    have "OPENSSL_lh_retrieve hash cmp lh' e = (if cmp d e = 0 then Some d else OPENSSL_lh_retrieve hash cmp lh e)" for e
    proof (rule retrieve_eqI)
      fix x
      have "cmp (item_data item) e = 0 \<longleftrightarrow> cmp d e = 0" by (rule cmp_eq_iff [OF c])
      then show "OPENSSL_lh_retrieve hash cmp lh' e = Some x \<longleftrightarrow>
          (if cmp d e = 0 then Some d else OPENSSL_lh_retrieve hash cmp lh e) = Some x"
        using retrieve_add [OF inv' M', of e x] retrieve_add [OF inv M, of e x] by auto
    qed
    then show ?thesis using inv' res f(4) Some by simp
  qed
qed

lemma OPENSSL_lh_delete_spec:
  assumes inv: "lh_inv lh" and run: "OPENSSL_lh_delete malloc_ok hash cmp lh d = (ret, lh')"
  shows "lh_inv lh' \<and> ret = OPENSSL_lh_retrieve hash cmp lh d
    \<and> (\<forall>e. OPENSSL_lh_retrieve hash cmp lh' e = (if cmp d e = 0 then None else OPENSSL_lh_retrieve hash cmp lh e))
    \<and> num_items lh' = (if ret = None then num_items lh else num_items lh - 1)"
proof -
  obtain h b i where ptr: "get_next_ptr_and_hash hash cmp lh d = (h, b, i)" by (metis prod_cases3)
  note f = found_item [OF inv ptr]
  show ?thesis
  proof (cases "deref lh b i")
    case None
    have "OPENSSL_lh_retrieve hash cmp lh e = None" if "cmp d e = 0" for e
      using f(4) None cmp_eq_iff2 [OF that] by (simp add: retrieve_None [OF inv])
    then show ?thesis using run inv ptr None f(4) by (auto simp: OPENSSL_lh_delete_def)
  next
    case (Some item)
    let ?bs = "(buckets lh)[b := take i (buckets lh ! b) @ drop (Suc i) (buckets lh ! b)]"
    let ?lh1 = "lh\<lparr> buckets := ?bs, num_items := num_items lh - 1 \<rparr>"
    have it: "i < length (buckets lh ! b)" "item = buckets lh ! b ! i" "cmp (item_data item) d = 0"
      "OPENSSL_lh_retrieve hash cmp lh d = Some (item_data item)"
      using f(4) unfolding Some option.case by blast+
    note m = mset_bucket_update(2,3) [OF f(3) it(1), folded it(2)]
    have M: "lh_mset lh = add_mset item (mset (concat (buckets lh)) - {#item#})"
      unfolding lh_mset_def using m(2) by (simp only: insert_DiffM)
    have u: "unique (mset (concat ?bs))" "\<forall>it' \<in># mset (concat ?bs). cmp (item_data it') (item_data item) \<noteq> 0"
      using inv unique_remove [of item "mset (concat (buckets lh)) - {#item#}"] M unfolding m(1) lh_inv_def by simp_all
    have "placed (num_buckets lh) ?bs"
      using inv f bucket_items [OF inv f(3)]
      by (intro placed_update) (auto simp: lh_inv_def placed_def dest: in_set_takeD in_set_dropD)
    moreover have "num_items lh - 1 = size (mset (concat ?bs))"
      using inv M unfolding m(1) lh_inv_def by (simp only: size_add_mset)
    ultimately have i1: "lh_inv ?lh1" using lh_inv_cong [OF inv _ u(1)] by blast
    have res: "ret = Some (item_data item)" "lh' = lh_maybe_resize malloc_ok ?lh1"
      using run ptr Some by (simp_all add: OPENSSL_lh_delete_def)
    have inv': "lh_inv lh'" and M': "lh_mset lh' = mset (concat ?bs)" and n': "num_items lh' = num_items lh - 1"
      using lh_maybe_resize_inv [OF i1, of malloc_ok] unfolding res(2) by (simp_all add: lh_mset_def)
    have "OPENSSL_lh_retrieve hash cmp lh' e = (if cmp d e = 0 then None else OPENSSL_lh_retrieve hash cmp lh e)" for e
    proof (rule retrieve_eqI)
      fix x
      have ce: "cmp (item_data item) e = 0 \<longleftrightarrow> cmp d e = 0" by (rule cmp_eq_iff [OF it(3)])
      have "cmp (item_data it') e \<noteq> 0" if "it' \<in># mset (concat ?bs)" "cmp d e = 0" for it'
        using u(2) that ce cmp_trans [of "item_data it'" e "item_data item"] cmp_sym by blast
      then show "OPENSSL_lh_retrieve hash cmp lh' e = Some x \<longleftrightarrow>
          (if cmp d e = 0 then None else OPENSSL_lh_retrieve hash cmp lh e) = Some x"
        using retrieve_add [OF inv M, of e x] ce unfolding retrieve_iff [OF inv'] M' m(1) by auto
    qed
    then show ?thesis using inv' n' res it(4) by simp
  qed
qed

end

section \<open>Reachable tables\<close>

text \<open>
  The tables built with the operations. Each item is an allocation of its own, so the count stays
  below \<open>2 ^ 64\<close>. The state of the callback does not matter to the table, so it is trivial here.
\<close>

inductive lh_reach :: "('d \<Rightarrow> u32) \<Rightarrow> ('d \<Rightarrow> 'd \<Rightarrow> int) \<Rightarrow> 'd lhash \<Rightarrow> bool"
  for hash :: "'d \<Rightarrow> u32" and cmp :: "'d \<Rightarrow> 'd \<Rightarrow> int" where
  reach_new: "OPENSSL_lh_new malloc_ok = Some lh \<Longrightarrow> lh_reach hash cmp lh"
| reach_insert: "lh_reach hash cmp lh \<Longrightarrow> num_items lh + 1 < 2 ^ 64 \<Longrightarrow>
    OPENSSL_lh_insert malloc_ok hash cmp lh d = (ok, old, lh') \<Longrightarrow> lh_reach hash cmp lh'"
| reach_delete: "lh_reach hash cmp lh \<Longrightarrow> OPENSSL_lh_delete malloc_ok hash cmp lh d = (ret, lh') \<Longrightarrow>
    lh_reach hash cmp lh'"
| reach_doall: "lh_reach hash cmp lh \<Longrightarrow> OPENSSL_lh_doall_arg malloc_ok func (Some lh) () = (arg', Some lh') \<Longrightarrow>
    lh_reach hash cmp lh'"

context lhash_callbacks begin

lemma lh_inv_depth: "lh_inv (lh\<lparr> callback_depth := k \<rparr>) = lh_inv lh"
  by (simp add: lh_inv_def lh_mset_def)

lemma OPENSSL_lh_doall_arg_spec:
  assumes "lh_inv lh" "OPENSSL_lh_doall_arg malloc_ok func (Some lh) arg = (arg', Some lh')"
  shows "lh_inv lh' \<and> lh_mset lh' = lh_mset lh \<and> num_items lh' = num_items lh
    \<and> arg' = foldl (\<lambda>arg cur. func (item_data cur) arg) arg (concat (buckets lh))"
proof -
  obtain k where k: "lh' = lh_maybe_resize malloc_ok (lh\<lparr> callback_depth := k \<rparr>)"
    and a: "arg' = foldl (\<lambda>arg cur. func (item_data cur) arg) arg (concat (buckets lh))"
  proof (cases "callback_depth lh < UINT_MAX")
    case True
    with assms(2) that [of "callback_depth lh"] that [of "callback_depth lh + 1"] show ?thesis
      by (auto simp: OPENSSL_lh_doall_arg_def Let_def foldl_foldl_concat split: if_splits)
  next
    case False
    with assms(2) that [of "callback_depth lh"] show ?thesis
      by (simp add: OPENSSL_lh_doall_arg_def Let_def foldl_foldl_concat)
  qed
  have "lh_inv (lh\<lparr> callback_depth := k \<rparr>)" using assms(1) by (simp add: lh_inv_depth)
  from lh_maybe_resize_inv [OF this, of malloc_ok] show ?thesis using a by (simp add: k lh_mset_def)
qed

lemma lh_reach_inv: "lh_reach hash cmp lh \<Longrightarrow> lh_inv lh"
proof (induction rule: lh_reach.induct)
  case (reach_new malloc_ok lh)
  then show ?case
    by (auto simp: OPENSSL_lh_new_def lh_inv_def placed_def lh_mset_def unique_def split: option.splits)
next
  case (reach_insert lh malloc_ok d ok old lh')
  then show ?case using OPENSSL_lh_insert_spec by blast
next
  case (reach_delete lh malloc_ok d ret lh')
  then show ?case using OPENSSL_lh_delete_spec by blast
next
  case (reach_doall lh malloc_ok func arg' lh')
  then show ?case using OPENSSL_lh_doall_arg_spec [OF reach_doall.IH reach_doall.hyps(2)] by blast
qed

end

section \<open>The object tables\<close>

lemma memcmp_eq_0: "length a = length b \<Longrightarrow> memcmp a b = 0 \<longleftrightarrow> a = b"
  by (induction a b rule: list_induct2) auto

lemma OBJ_cmp_eq_0: "OBJ_cmp a b = 0 \<longleftrightarrow> obj_data a = obj_data b"
  by (auto simp: OBJ_cmp_def memcmp_eq_0)

interpretation by_nid: lhash_callbacks hash_nid cmp_nid
  by unfold_locales (auto simp: hash_nid_def cmp_nid_def)

interpretation by_data: lhash_callbacks hash_data OBJ_cmp
  by unfold_locales (auto simp: OBJ_cmp_eq_0 hash_data_def)

section \<open>Properties\<close>

text \<open>C6: With callbacks that keep the contract of \<open>lhash.h\<close>, \<open>OPENSSL_lh_insert\<close> on a reachable table is the
  update of a map: on success it returns the element it replaces, every later lookup of an equal element finds the
  new one and every other lookup is as before, through replacement, growth and shrinking of the bucket array; on
  allocation failure the table is unchanged.\<close>
theorem OPENSSL_lh_insert_refines:
  assumes "lhash_callbacks hash cmp" "lh_reach hash cmp lh" "num_items lh + 1 < 2 ^ 64"
    and "OPENSSL_lh_insert malloc_ok hash cmp lh d = (ok, old, lh')"
  shows "if ok then old = OPENSSL_lh_retrieve hash cmp lh d
      \<and> (\<forall>e. OPENSSL_lh_retrieve hash cmp lh' e = (if cmp d e = 0 then Some d else OPENSSL_lh_retrieve hash cmp lh e))
      \<and> OPENSSL_lh_num_items lh' = (if old = None then OPENSSL_lh_num_items lh + 1 else OPENSSL_lh_num_items lh)
    else lh' = lh \<and> old = None"
  using lhash_callbacks.OPENSSL_lh_insert_spec [OF assms(1) lhash_callbacks.lh_reach_inv [OF assms(1,2)] assms(3,4)]
  by (simp add: OPENSSL_lh_num_items_def)

abbreviation (input) nid_object :: "int \<Rightarrow> bytes \<Rightarrow> asn1_object" where
  "nid_object n data \<equiv> \<lparr> obj_sn = None, obj_ln = None, obj_nid = n, obj_data = data, obj_flags = 0 \<rparr>"

definition empty_lhash :: "'d lhash" where
  "empty_lhash = \<lparr> num_items = 0, buckets = replicate 16 [], num_buckets = 16, callback_depth = 0 \<rparr>"

lemma empty_lhash_reach: "lh_reach hash cmp empty_lhash"
proof (rule reach_new)
  show "OPENSSL_lh_new (\<lambda>_. True) = Some empty_lhash"
    by (simp add: OPENSSL_lh_new_def empty_lhash_def OPENSSL_zalloc_def OPENSSL_calloc_def OPENSSL_malloc_def
        size_add_def size_mul_def)
qed

theorem OPENSSL_lh_insert_refines_witness:
  "\<exists>lh'. OPENSSL_lh_retrieve hash_nid cmp_nid lh' (nid_object 7 [])
     = Some (nid_object 7 [1])"
proof -
  let ?d = "(nid_object 7 [1])"
  obtain ok old lh' where run: "OPENSSL_lh_insert (\<lambda>_. True) hash_nid cmp_nid empty_lhash ?d = (ok, old, lh')"
    by (metis prod_cases3)
  have "num_items empty_lhash + 1 < 2 ^ 64" by (simp add: empty_lhash_def)
  note ins = OPENSSL_lh_insert_refines [OF by_nid.lhash_callbacks_axioms empty_lhash_reach this run]
  have ok using run by (auto simp: OPENSSL_lh_insert_def OPENSSL_malloc_def size_add_def split: prod.splits option.splits)
  with ins have "OPENSSL_lh_retrieve hash_nid cmp_nid lh' (nid_object 7 []) = Some ?d"
    by (simp add: cmp_nid_def)
  then show ?thesis by blast
qed

text \<open>C7: \<open>OPENSSL_lh_delete\<close> on a reachable table returns what a lookup of the element would return and removes
  exactly the elements equal to it.\<close>
theorem OPENSSL_lh_delete_refines:
  assumes "lhash_callbacks hash cmp" "lh_reach hash cmp lh"
    and "OPENSSL_lh_delete malloc_ok hash cmp lh d = (ret, lh')"
  shows "ret = OPENSSL_lh_retrieve hash cmp lh d
    \<and> (\<forall>e. OPENSSL_lh_retrieve hash cmp lh' e = (if cmp d e = 0 then None else OPENSSL_lh_retrieve hash cmp lh e))
    \<and> OPENSSL_lh_num_items lh' = (if ret = None then OPENSSL_lh_num_items lh else OPENSSL_lh_num_items lh - 1)"
  using lhash_callbacks.OPENSSL_lh_delete_spec [OF assms(1) lhash_callbacks.lh_reach_inv [OF assms(1,2)] assms(3)]
  by (simp add: OPENSSL_lh_num_items_def)

theorem OPENSSL_lh_delete_refines_witness:
  "fst (OPENSSL_lh_delete (\<lambda>_. True) hash_data OBJ_cmp empty_lhash (nid_object 7 [1]))
    = OPENSSL_lh_retrieve hash_data OBJ_cmp empty_lhash (nid_object 7 [1])"
  using OPENSSL_lh_delete_refines [OF by_data.lhash_callbacks_axioms empty_lhash_reach prod.collapse [symmetric]] by blast

text \<open>C8: \<open>OPENSSL_lh_doall_arg\<close> with a callback that leaves the table alone calls it exactly once for each
  element, and every lookup afterwards is as before.\<close>
theorem OPENSSL_lh_doall_arg_visits:
  assumes "lhash_callbacks hash cmp" "lh_reach hash cmp lh"
    and "OPENSSL_lh_doall_arg malloc_ok (\<lambda>d visited. visited @ [d]) (Some lh) [] = (visited, Some lh')"
  shows "length visited = OPENSSL_lh_num_items lh
    \<and> (\<forall>x. x \<in> set visited \<longleftrightarrow> OPENSSL_lh_retrieve hash cmp lh x = Some x)
    \<and> (\<forall>e. OPENSSL_lh_retrieve hash cmp lh' e = OPENSSL_lh_retrieve hash cmp lh e)"
proof -
  note inv = lhash_callbacks.lh_reach_inv [OF assms(1,2)]
  note spec = lhash_callbacks.OPENSSL_lh_doall_arg_spec [OF assms(1) inv assms(3)]
  have "foldl (\<lambda>v cur. v @ [item_data cur]) acc xs = acc @ map item_data xs" for acc and xs :: "'a lhash_item list"
    by (induction xs arbitrary: acc) simp_all
  with spec have v: "visited = map item_data (concat (buckets lh))" by simp
  have "OPENSSL_lh_retrieve hash cmp lh' e = OPENSSL_lh_retrieve hash cmp lh e" for e
    using lhash_callbacks.retrieve_iff [OF assms(1)] inv spec
    by (intro lhash_callbacks.retrieve_eqI [OF assms(1)]) simp
  moreover have "x \<in> set visited \<longleftrightarrow> OPENSSL_lh_retrieve hash cmp lh x = Some x" for x
    unfolding lhash_callbacks.retrieve_iff [OF assms(1) inv] v
    using lhash_callbacks.cmp_refl [OF assms(1)] by (auto simp: lh_mset_def)
  moreover have "length visited = num_items lh"
    using inv v unfolding lhash_callbacks.lh_inv_def [OF assms(1)] lh_mset_def by simp
  ultimately show ?thesis by (simp add: OPENSSL_lh_num_items_def)
qed

theorem OPENSSL_lh_doall_arg_visits_witness:
  "\<exists>visited lh'. OPENSSL_lh_doall_arg (\<lambda>_. True) (\<lambda>d v. v @ [d]) (Some empty_lhash) [] = (visited, Some lh')
     \<and> length (visited :: asn1_object list) = 0"
proof -
  obtain visited lh' where run: "OPENSSL_lh_doall_arg (\<lambda>_. True) (\<lambda>d v. v @ [d])
      (Some (empty_lhash :: asn1_object lhash)) [] = (visited, Some lh')"
    by (simp add: OPENSSL_lh_doall_arg_def Let_def)
  from OPENSSL_lh_doall_arg_visits [OF by_data.lhash_callbacks_axioms empty_lhash_reach run] run show ?thesis
    by (auto simp: OPENSSL_lh_num_items_def empty_lhash_def)
qed

end
