(* ===== verification/Cbb.thy ===== *)
theory Cbb
  imports Asn1Values Stack
begin

text \<open>
  \<open>crypto/bytestring/cbb.c\<close>, the byte builder. A tree of \<open>CBB\<close> objects has one buffer and,
  since a parent flushes its child before it is written again, at most one open child per level:
  the state is the buffer and the list of the open children, outermost first. A \<open>CBB *\<close> is a
  level \<open>h\<close>, zero for the root; a level with no open child at it is a \<open>CBB\<close> whose
  \<open>base\<close> was cleared when its parent was flushed. A pointer into the buffer is an index.
  An operation returns the C return value and the new state.
\<close>

unbundle bit_operations_syntax

section \<open>State\<close>

record cbb_buffer =
  bb_buf :: bytes
  bb_len :: nat
  bb_cap :: nat
  bb_can_resize :: bool
  bb_error :: bool

record cbb_child =
  ch_offset :: nat
  ch_pending_len_len :: nat
  ch_pending_is_asn1 :: bool

record CBB =
  cbb_base :: cbb_buffer
  cbb_children :: "cbb_child list"

text \<open>The allocator, and the value of the bytes it leaves uninitialised.\<close>

record cbb_env =
  env_malloc :: malloc
  env_fill :: u8

type_synonym cbb_op = "CBB \<Rightarrow> bool \<times> CBB"

text \<open>\<open>if (!f(cbb)) return 0; return g(cbb);\<close>\<close>

definition cbb_then :: "cbb_op \<Rightarrow> cbb_op \<Rightarrow> cbb_op" where
  "cbb_then f g cbb = (case f cbb of (False, cbb') \<Rightarrow> (False, cbb') | (True, cbb') \<Rightarrow> g cbb')"

section \<open>The buffer\<close>

definition cbb_init :: "bytes \<Rightarrow> nat \<Rightarrow> bool \<Rightarrow> CBB" where
  "cbb_init buf cap can_resize =
     \<lparr> cbb_base = \<lparr> bb_buf = buf, bb_len = 0, bb_cap = cap, bb_can_resize = can_resize,
                     bb_error = False \<rparr>, cbb_children = [] \<rparr>"

definition CBB_init :: "cbb_env \<Rightarrow> nat \<Rightarrow> CBB option" where
  "CBB_init env initial_capacity =
     (if initial_capacity > 0 \<and> \<not> OPENSSL_malloc (env_malloc env) initial_capacity then None
      else Some (cbb_init (replicate initial_capacity (env_fill env)) initial_capacity True))"

definition CBB_init_fixed :: "bytes \<Rightarrow> CBB" where
  "CBB_init_fixed buf = cbb_init buf (length buf) False"

definition cbb_buffer_reserve :: "cbb_env \<Rightarrow> nat \<Rightarrow> cbb_buffer \<Rightarrow> bool \<times> cbb_buffer" where
  "cbb_buffer_reserve env len base =
     (let newlen = size_add (bb_len base) len
      in if newlen < bb_len base then (False, base\<lparr> bb_error := True \<rparr>)
         else if newlen > bb_cap base then
           if \<not> bb_can_resize base then (False, base\<lparr> bb_error := True \<rparr>)
           else let newcap = size_mul (bb_cap base) 2;
                    newcap = (if newcap < bb_cap base \<or> newcap < newlen then newlen else newcap)
                in case OPENSSL_realloc (env_malloc env) (env_fill env) (bb_buf base) 1 newcap of
                     None \<Rightarrow> (False, base\<lparr> bb_error := True \<rparr>)
                   | Some newbuf \<Rightarrow> (True, base\<lparr> bb_buf := newbuf, bb_cap := newcap \<rparr>)
         else (True, base))"

definition cbb_buffer_add :: "cbb_env \<Rightarrow> nat \<Rightarrow> cbb_buffer \<Rightarrow> bool \<times> cbb_buffer" where
  "cbb_buffer_add env len base =
     (case cbb_buffer_reserve env len base of
        (False, base') \<Rightarrow> (False, base')
      | (True, base') \<Rightarrow> (True, base'\<lparr> bb_len := size_add (bb_len base') len \<rparr>))"

definition buf_write :: "nat \<Rightarrow> bytes \<Rightarrow> bytes \<Rightarrow> bytes" where
  "buf_write pos data buf = take pos buf @ data @ drop (pos + length data) buf"

text \<open>
  \<open>for (size_t i = n - 1; i < n; i--) { buf[pos + i] = v; v >>= 8; }\<close>, with the final
  \<open>v\<close>.
\<close>

fun write_be :: "nat \<Rightarrow> nat \<Rightarrow> u64 \<Rightarrow> bytes \<Rightarrow> u64 \<times> bytes" where
  "write_be pos 0 v buf = (v, buf)"
| "write_be pos (Suc i) v buf = write_be pos i (drop_bit 8 v) (buf[pos + i := ucast v])"

section \<open>Flushing\<close>

definition cbb_on_error :: "nat \<Rightarrow> CBB \<Rightarrow> CBB" where
  "cbb_on_error h cbb =
     cbb\<lparr> cbb_base := (cbb_base cbb)\<lparr> bb_error := True \<rparr>, cbb_children := take h (cbb_children cbb) \<rparr>"

text \<open>The choice of the length form: \<open>len_len\<close> and \<open>initial_length_byte\<close>.\<close>

definition asn1_len_len :: "nat \<Rightarrow> (nat \<times> u8) option" where
  "asn1_len_len len =
     (if len > 0xfffffffe then None
      else if len > 0xffffff then Some (5, 0x80 OR 4)
      else if len > 0xffff then Some (4, 0x80 OR 3)
      else if len > 0xff then Some (3, 0x80 OR 2)
      else if len > 0x7f then Some (2, 0x80 OR 1)
      else Some (1, of_nat len))"

text \<open>
  The body of \<open>CBB_flush\<close> after its recursive call: writing out the prefix of \<open>child\<close>,
  the open child of level \<open>h\<close>.
\<close>

definition cbb_flush_child :: "cbb_env \<Rightarrow> nat \<Rightarrow> cbb_child \<Rightarrow> cbb_op" where
  "cbb_flush_child env h child cbb =
     (let base = cbb_base cbb;
          child_start = size_add (ch_offset child) (ch_pending_len_len child);
          err = (\<lambda>base. (False, cbb_on_error h (cbb\<lparr> cbb_base := base \<rparr>)));
          finish = (\<lambda>base offset pending_len_len len.
            case write_be offset pending_len_len (of_nat len) (bb_buf base) of (v, buf) \<Rightarrow>
              if v \<noteq> 0 then err (base\<lparr> bb_buf := buf \<rparr>)
              else (True, cbb\<lparr> cbb_base := base\<lparr> bb_buf := buf \<rparr>, cbb_children := take h (cbb_children cbb) \<rparr>))
      in if child_start < ch_offset child \<or> bb_len base < child_start then err base
         else let len = bb_len base - child_start in
           if ch_pending_is_asn1 child then
             case asn1_len_len len of
               None \<Rightarrow> err base
             | Some (len_len, initial_length_byte) \<Rightarrow>
                 if len_len \<noteq> 1 then
                   case cbb_buffer_add env (len_len - 1) base of
                     (False, base) \<Rightarrow> err base
                   | (True, base) \<Rightarrow>
                       let buf = buf_write (child_start + (len_len - 1))
                                   (take len (drop child_start (bb_buf base))) (bb_buf base);
                           buf = buf[ch_offset child := initial_length_byte]
                       in finish (base\<lparr> bb_buf := buf \<rparr>) (ch_offset child + 1) (len_len - 1) len
                 else finish (base\<lparr> bb_buf := (bb_buf base)[ch_offset child := initial_length_byte] \<rparr>)
                        (ch_offset child + 1) 0 0
           else finish base (ch_offset child) (ch_pending_len_len child) len)"

function CBB_flush :: "cbb_env \<Rightarrow> nat \<Rightarrow> cbb_op" where
  "CBB_flush env h cbb =
     (if h > length (cbb_children cbb) \<or> bb_error (cbb_base cbb) then (False, cbb)
      else if h = length (cbb_children cbb) then (True, cbb)
      else let child = cbb_children cbb ! h
           in case CBB_flush env (h + 1) cbb of
                (False, cbb') \<Rightarrow> (False, cbb_on_error h cbb')
              | (True, cbb') \<Rightarrow> cbb_flush_child env h child cbb')"
  by auto
termination by (relation "measure (\<lambda>(env, h, cbb). length (cbb_children cbb) - h)") auto

declare CBB_flush.simps [simp del]

text \<open>\<open>CBB_finish\<close> with both out-parameters given: the contents.\<close>

definition CBB_finish :: "cbb_env \<Rightarrow> nat \<Rightarrow> CBB \<Rightarrow> bytes option" where
  "CBB_finish env h cbb =
     (if h \<noteq> 0 then None
      else case CBB_flush env 0 cbb of
        (False, _) \<Rightarrow> None
      | (True, cbb') \<Rightarrow> Some (take (bb_len (cbb_base cbb')) (bb_buf (cbb_base cbb'))))"

text \<open>\<open>CBB_data\<close> as an index, and \<open>CBB_len\<close>.\<close>

definition CBB_data :: "nat \<Rightarrow> CBB \<Rightarrow> nat" where
  "CBB_data h cbb =
     (if h > 0 then let child = cbb_children cbb ! (h - 1) in ch_offset child + ch_pending_len_len child
      else 0)"

definition CBB_len :: "nat \<Rightarrow> CBB \<Rightarrow> nat" where
  "CBB_len h cbb =
     (if h > 0 then let child = cbb_children cbb ! (h - 1)
        in bb_len (cbb_base cbb) - ch_offset child - ch_pending_len_len child
      else bb_len (cbb_base cbb))"

section \<open>Writing\<close>

text \<open>The index of the new space, \<open>None\<close> when the call fails.\<close>

definition CBB_add_space :: "cbb_env \<Rightarrow> nat \<Rightarrow> nat \<Rightarrow> CBB \<Rightarrow> nat option \<times> CBB" where
  "CBB_add_space env h len cbb =
     (case CBB_flush env h cbb of
        (False, cbb) \<Rightarrow> (None, cbb)
      | (True, cbb) \<Rightarrow>
          case cbb_buffer_add env len (cbb_base cbb) of
            (False, base) \<Rightarrow> (None, cbb\<lparr> cbb_base := base \<rparr>)
          | (True, base) \<Rightarrow> (Some (bb_len (cbb_base cbb)), cbb\<lparr> cbb_base := base \<rparr>))"

definition CBB_add_bytes :: "cbb_env \<Rightarrow> nat \<Rightarrow> bytes \<Rightarrow> cbb_op" where
  "CBB_add_bytes env h data cbb =
     (case CBB_add_space env h (length data) cbb of
        (None, cbb) \<Rightarrow> (False, cbb)
      | (Some out, cbb) \<Rightarrow>
          (True, cbb\<lparr> cbb_base := (cbb_base cbb)\<lparr> bb_buf := buf_write out data (bb_buf (cbb_base cbb)) \<rparr> \<rparr>))"

definition CBB_add_zeros :: "cbb_env \<Rightarrow> nat \<Rightarrow> nat \<Rightarrow> cbb_op" where
  "CBB_add_zeros env h len cbb =
     (case CBB_add_space env h len cbb of
        (None, cbb) \<Rightarrow> (False, cbb)
      | (Some out, cbb) \<Rightarrow>
          (True, cbb\<lparr> cbb_base := (cbb_base cbb)
             \<lparr> bb_buf := buf_write out (replicate len 0) (bb_buf (cbb_base cbb)) \<rparr> \<rparr>))"

definition CBB_reserve :: "cbb_env \<Rightarrow> nat \<Rightarrow> nat \<Rightarrow> CBB \<Rightarrow> nat option \<times> CBB" where
  "CBB_reserve env h len cbb =
     (case CBB_flush env h cbb of
        (False, cbb) \<Rightarrow> (None, cbb)
      | (True, cbb) \<Rightarrow>
          case cbb_buffer_reserve env len (cbb_base cbb) of
            (False, base) \<Rightarrow> (None, cbb\<lparr> cbb_base := base \<rparr>)
          | (True, base) \<Rightarrow> (Some (bb_len base), cbb\<lparr> cbb_base := base \<rparr>))"

definition CBB_did_write :: "nat \<Rightarrow> nat \<Rightarrow> cbb_op" where
  "CBB_did_write h len cbb =
     (let base = cbb_base cbb; newlen = size_add (bb_len base) len
      in if h < length (cbb_children cbb) \<or> newlen < bb_len base \<or> newlen > bb_cap base then (False, cbb)
         else (True, cbb\<lparr> cbb_base := base\<lparr> bb_len := newlen \<rparr> \<rparr>))"

definition cbb_add_u :: "cbb_env \<Rightarrow> nat \<Rightarrow> u64 \<Rightarrow> nat \<Rightarrow> cbb_op" where
  "cbb_add_u env h v len_len cbb =
     (case CBB_add_space env h len_len cbb of
        (None, cbb) \<Rightarrow> (False, cbb)
      | (Some pos, cbb) \<Rightarrow>
          (case write_be pos len_len v (bb_buf (cbb_base cbb)) of (v, buf) \<Rightarrow>
             let cbb = cbb\<lparr> cbb_base := (cbb_base cbb)\<lparr> bb_buf := buf \<rparr> \<rparr>
             in if v \<noteq> 0 then (False, cbb_on_error h cbb) else (True, cbb)))"

definition CBB_add_u8 :: "cbb_env \<Rightarrow> nat \<Rightarrow> u8 \<Rightarrow> cbb_op" where
  "CBB_add_u8 env h value = cbb_add_u env h (ucast value) 1"

definition CBB_add_u16 :: "cbb_env \<Rightarrow> nat \<Rightarrow> u16 \<Rightarrow> cbb_op" where
  "CBB_add_u16 env h value = cbb_add_u env h (ucast value) 2"

definition CBB_add_u16le :: "cbb_env \<Rightarrow> nat \<Rightarrow> u16 \<Rightarrow> cbb_op" where
  "CBB_add_u16le env h value = CBB_add_u16 env h (CRYPTO_bswap2 value)"

definition CBB_add_u24 :: "cbb_env \<Rightarrow> nat \<Rightarrow> u32 \<Rightarrow> cbb_op" where
  "CBB_add_u24 env h value = cbb_add_u env h (ucast value) 3"

definition CBB_add_u32 :: "cbb_env \<Rightarrow> nat \<Rightarrow> u32 \<Rightarrow> cbb_op" where
  "CBB_add_u32 env h value = cbb_add_u env h (ucast value) 4"

definition CBB_add_u32le :: "cbb_env \<Rightarrow> nat \<Rightarrow> u32 \<Rightarrow> cbb_op" where
  "CBB_add_u32le env h value = CBB_add_u32 env h (CRYPTO_bswap4 value)"

definition CBB_add_u64 :: "cbb_env \<Rightarrow> nat \<Rightarrow> u64 \<Rightarrow> cbb_op" where
  "CBB_add_u64 env h value = cbb_add_u env h value 8"

definition CBB_add_u64le :: "cbb_env \<Rightarrow> nat \<Rightarrow> u64 \<Rightarrow> cbb_op" where
  "CBB_add_u64le env h value = CBB_add_u64 env h (CRYPTO_bswap8 value)"

section \<open>Children\<close>

text \<open>The new child is level \<open>h + 1\<close>.\<close>

definition cbb_add_child :: "cbb_env \<Rightarrow> nat \<Rightarrow> nat \<Rightarrow> bool \<Rightarrow> cbb_op" where
  "cbb_add_child env h len_len is_asn1 cbb =
     (let offset = bb_len (cbb_base cbb)
      in case cbb_buffer_add env len_len (cbb_base cbb) of
           (False, base) \<Rightarrow> (False, cbb\<lparr> cbb_base := base \<rparr>)
         | (True, base) \<Rightarrow>
             (True, cbb\<lparr> cbb_base := base\<lparr> bb_buf := buf_write offset (replicate len_len 0) (bb_buf base) \<rparr>,
                        cbb_children := take h (cbb_children cbb)
                          @ [\<lparr> ch_offset = offset, ch_pending_len_len = len_len, ch_pending_is_asn1 = is_asn1 \<rparr>] \<rparr>))"

definition cbb_add_length_prefixed :: "cbb_env \<Rightarrow> nat \<Rightarrow> nat \<Rightarrow> cbb_op" where
  "cbb_add_length_prefixed env h len_len =
     cbb_then (CBB_flush env h) (cbb_add_child env h len_len False)"

definition CBB_add_u8_length_prefixed :: "cbb_env \<Rightarrow> nat \<Rightarrow> cbb_op" where
  "CBB_add_u8_length_prefixed env h = cbb_add_length_prefixed env h 1"

definition CBB_add_u16_length_prefixed :: "cbb_env \<Rightarrow> nat \<Rightarrow> cbb_op" where
  "CBB_add_u16_length_prefixed env h = cbb_add_length_prefixed env h 2"

definition CBB_add_u24_length_prefixed :: "cbb_env \<Rightarrow> nat \<Rightarrow> cbb_op" where
  "CBB_add_u24_length_prefixed env h = cbb_add_length_prefixed env h 3"

text \<open>The two loops of \<open>add_base128_integer\<close>: counting the groups, and writing them.\<close>

function base128_groups :: "u64 \<Rightarrow> nat" where
  "base128_groups copy = (if copy > 0 then Suc (base128_groups (drop_bit 7 copy)) else 0)"
  by auto
termination
proof (relation "measure unat")
  fix copy :: u64 assume "0 < copy"
  then have "0 < unat copy" by (simp add: word_less_nat_alt)
  then show "(drop_bit 7 copy, copy) \<in> measure unat" by (simp add: unat_drop_bit)
qed simp

declare base128_groups.simps [simp del]

fun add_base128_loop :: "cbb_env \<Rightarrow> nat \<Rightarrow> u64 \<Rightarrow> nat \<Rightarrow> cbb_op" where
  "add_base128_loop env h v 0 = (\<lambda>cbb. (True, cbb))"
| "add_base128_loop env h v (Suc i) =
     (let byte = ucast (drop_bit (7 * i) v) AND 0x7f;
          byte = (if i \<noteq> 0 then byte OR 0x80 else byte)
      in cbb_then (CBB_add_u8 env h byte) (add_base128_loop env h v i))"

definition add_base128_integer :: "cbb_env \<Rightarrow> nat \<Rightarrow> u64 \<Rightarrow> cbb_op" where
  "add_base128_integer env h v =
     (let len_len = base128_groups v; len_len = (if len_len = 0 then 1 else len_len)
      in add_base128_loop env h v len_len)"

definition CBB_add_asn1 :: "cbb_env \<Rightarrow> nat \<Rightarrow> CBS_ASN1_TAG \<Rightarrow> cbb_op" where
  "CBB_add_asn1 env h tag =
     (let tag_bits = ucast (drop_bit CBS_ASN1_TAG_SHIFT tag) AND 0xe0 :: u8;
          tag_number = tag AND CBS_ASN1_TAG_NUMBER_MASK
      in cbb_then (CBB_flush env h)
           (cbb_then
              (if tag_number \<ge> 0x1f
               then cbb_then (CBB_add_u8 env h (tag_bits OR 0x1f)) (add_base128_integer env h (ucast tag_number))
               else CBB_add_u8 env h (tag_bits OR ucast tag_number))
              (cbb_add_child env h 1 True)))"

text \<open>
  The code detaches the child of \<open>cbb\<close>. The children below it are gone with it in the model; in C their objects would still lead to
  the buffer, but a client may not use a child after its parent has been written to.
\<close>

definition CBB_discard_child :: "nat \<Rightarrow> CBB \<Rightarrow> CBB" where
  "CBB_discard_child h cbb =
     (if h \<ge> length (cbb_children cbb) then cbb
      else cbb\<lparr> cbb_base := (cbb_base cbb)\<lparr> bb_len := ch_offset (cbb_children cbb ! h) \<rparr>,
                cbb_children := take h (cbb_children cbb) \<rparr>)"

section \<open>ASN.1 values\<close>

text \<open>\<open>goto err\<close>: any failure puts \<open>cbb\<close> into the error state.\<close>

definition or_error :: "nat \<Rightarrow> cbb_op \<Rightarrow> cbb_op" where
  "or_error h f cbb = (case f cbb of (True, cbb') \<Rightarrow> (True, cbb') | (False, cbb') \<Rightarrow> (False, cbb_on_error h cbb'))"

text \<open>The loop over the bytes of the value, most significant first.\<close>

fun add_uint64_loop :: "cbb_env \<Rightarrow> nat \<Rightarrow> bool \<Rightarrow> bytes \<Rightarrow> cbb_op" where
  "add_uint64_loop env h started [] = (if \<not> started then CBB_add_u8 env h 0 else (\<lambda>cbb. (True, cbb)))"
| "add_uint64_loop env h started (byte # rest) =
     (if \<not> started then
        if byte = 0 then add_uint64_loop env h False rest
        else cbb_then (if byte AND 0x80 \<noteq> 0 then CBB_add_u8 env h 0 else (\<lambda>cbb. (True, cbb)))
               (cbb_then (CBB_add_u8 env h byte) (add_uint64_loop env h True rest))
      else cbb_then (CBB_add_u8 env h byte) (add_uint64_loop env h True rest))"

definition uint64_bytes :: "u64 \<Rightarrow> bytes" where
  "uint64_bytes value = map (\<lambda>i. ucast (drop_bit (8 * (7 - i)) value AND 0xff)) [0..<8]"

text \<open>A failing \<open>CBB_flush\<close> has entered the error state itself.\<close>

definition CBB_add_asn1_uint64_with_tag :: "cbb_env \<Rightarrow> nat \<Rightarrow> u64 \<Rightarrow> CBS_ASN1_TAG \<Rightarrow> cbb_op" where
  "CBB_add_asn1_uint64_with_tag env h value tag =
     cbb_then
       (or_error h (cbb_then (CBB_add_asn1 env h tag) (add_uint64_loop env (h + 1) False (uint64_bytes value))))
       (CBB_flush env h)"

definition CBB_add_asn1_uint64 :: "cbb_env \<Rightarrow> nat \<Rightarrow> u64 \<Rightarrow> cbb_op" where
  "CBB_add_asn1_uint64 env h value = CBB_add_asn1_uint64_with_tag env h value CBS_ASN1_INTEGER"

text \<open>The last index of the bytes that are needed, skipping sign-extension bytes.\<close>

fun int64_start :: "bytes \<Rightarrow> nat \<Rightarrow> nat" where
  "int64_start data 0 = 0"
| "int64_start data (Suc n) =
     (if data ! Suc n = 0xff \<and> data ! n AND 0x80 \<noteq> 0 then int64_start data n else Suc n)"

fun add_all_u8 :: "cbb_env \<Rightarrow> nat \<Rightarrow> bytes \<Rightarrow> cbb_op" where
  "add_all_u8 env h [] = (\<lambda>cbb. (True, cbb))"
| "add_all_u8 env h (b # bs) = cbb_then (CBB_add_u8 env h b) (add_all_u8 env h bs)"

definition CBB_add_asn1_int64_with_tag :: "cbb_env \<Rightarrow> nat \<Rightarrow> u64 \<Rightarrow> CBS_ASN1_TAG \<Rightarrow> cbb_op" where
  "CBB_add_asn1_int64_with_tag env h value tag =
     (if sint value \<ge> 0 then CBB_add_asn1_uint64_with_tag env h value tag
      else let data = mem_store 8 value; start = int64_start data 7
           in cbb_then
                (or_error h (cbb_then (CBB_add_asn1 env h tag)
                   (add_all_u8 env (h + 1) (rev (take (start + 1) data)))))
                (CBB_flush env h))"

definition CBB_add_asn1_int64 :: "cbb_env \<Rightarrow> nat \<Rightarrow> u64 \<Rightarrow> cbb_op" where
  "CBB_add_asn1_int64 env h value = CBB_add_asn1_int64_with_tag env h value CBS_ASN1_INTEGER"

definition CBB_add_asn1_octet_string :: "cbb_env \<Rightarrow> nat \<Rightarrow> bytes \<Rightarrow> cbb_op" where
  "CBB_add_asn1_octet_string env h data =
     or_error h (cbb_then (CBB_add_asn1 env h CBS_ASN1_OCTETSTRING)
       (cbb_then (CBB_add_bytes env (h + 1) data) (CBB_flush env h)))"

definition CBB_add_asn1_bool :: "cbb_env \<Rightarrow> nat \<Rightarrow> bool \<Rightarrow> cbb_op" where
  "CBB_add_asn1_bool env h value =
     or_error h (cbb_then (CBB_add_asn1 env h CBS_ASN1_BOOLEAN)
       (cbb_then (CBB_add_u8 env (h + 1) (if value then 0xff else 0)) (CBB_flush env h)))"

section \<open>Object identifiers from text\<close>

definition parse_dotted_decimal :: "u64 reader" where
  "parse_dotted_decimal =
     rd_bind CBS_get_u64_decimal (\<lambda>out cbs.
       case CBS_get_u8 cbs of
         (None, cbs) \<Rightarrow> (Some out, cbs)
       | (Some dot, cbs) \<Rightarrow> (if dot = 46 \<and> length cbs > 0 then Some out else None, cbs))"

text \<open>The loop over the remaining components; the input shrinks with each.\<close>

function oid_text_loop :: "cbb_env \<Rightarrow> nat \<Rightarrow> CBS \<Rightarrow> cbb_op" where
  "oid_text_loop env h cbs cbb =
     (if length cbs > 0 then
        case parse_dotted_decimal cbs of
          (None, _) \<Rightarrow> (False, cbb)
        | (Some a, cbs') \<Rightarrow>
            if length cbs' < length cbs then
              (case add_base128_integer env h a cbb of
                 (False, cbb) \<Rightarrow> (False, cbb) | (True, cbb) \<Rightarrow> oid_text_loop env h cbs' cbb)
            else (False, cbb)
      else (True, cbb))"
  by auto
termination by (relation "measure (\<lambda>(env, h, cbs, cbb). length cbs)") auto

declare oid_text_loop.simps [simp del]

definition CBB_add_asn1_oid_from_text :: "cbb_env \<Rightarrow> nat \<Rightarrow> bytes \<Rightarrow> cbb_op" where
  "CBB_add_asn1_oid_from_text env h text =
     cbb_then (CBB_flush env h) (\<lambda>cbb.
       case parse_dotted_decimal text of
         (None, _) \<Rightarrow> (False, cbb)
       | (Some a, cbs) \<Rightarrow>
           case parse_dotted_decimal cbs of
             (None, _) \<Rightarrow> (False, cbb)
           | (Some b, cbs) \<Rightarrow>
               if a > 2 \<or> (a < 2 \<and> b > 39) \<or> b > UINT64_MAX - 80 then (False, cbb)
               else cbb_then (add_base128_integer env h (40 * a + b)) (oid_text_loop env h cbs) cbb)"

section \<open>SET OF\<close>

definition compare_set_of_element :: "CBS \<Rightarrow> CBS \<Rightarrow> int" where
  "compare_set_of_element a b =
     (let a_len = length a; b_len = length b; min_len = (if a_len < b_len then a_len else b_len);
          ret = memcmp (take min_len a) (take min_len b)
      in if ret \<noteq> 0 then ret else if a_len = b_len then 0 else if a_len < b_len then - 1 else 1)"

text \<open>The loop that counts the elements and the one that collects them; \<open>None\<close> when one does not parse.\<close>

function set_of_children :: "CBS \<Rightarrow> CBS list option" where
  "set_of_children cbs =
     (if length cbs \<noteq> 0 then
        case CBS_get_any_asn1_element cbs of
          (None, _) \<Rightarrow> None
        | (Some e, cbs') \<Rightarrow>
            if length cbs' < length cbs then map_option (\<lambda>es. elem_out e # es) (set_of_children cbs') else None
      else Some [])"
  by auto
termination by (relation "measure length") auto

declare set_of_children.simps [simp del]

text \<open>\<open>qsort\<close> is the C library's: any function that sorts by the comparison.\<close>

definition CBB_flush_asn1_set_of ::
    "cbb_env \<Rightarrow> ((CBS \<Rightarrow> CBS \<Rightarrow> int) \<Rightarrow> CBS list \<Rightarrow> CBS list) \<Rightarrow> nat \<Rightarrow> cbb_op" where
  "CBB_flush_asn1_set_of env qsort h =
     cbb_then (CBB_flush env h) (\<lambda>cbb.
       let contents = take (CBB_len h cbb) (drop (CBB_data h cbb) (bb_buf (cbb_base cbb)))
       in case set_of_children contents of
            None \<Rightarrow> (False, cbb)
          | Some children \<Rightarrow>
              if length children < 2 then (True, cbb)
              else if OPENSSL_memdup (env_malloc env) contents = None
                \<or> OPENSSL_calloc (env_malloc env) (length children) 16 = None then (False, cbb)
              else (True, cbb\<lparr> cbb_base := (cbb_base cbb)\<lparr> bb_buf :=
                     buf_write (CBB_data h cbb) (concat (qsort compare_set_of_element children))
                       (bb_buf (cbb_base cbb)) \<rparr> \<rparr>))"

end
