(* ===== verification/CbbTree.thy ===== *)
theory CbbTree
  imports Cbb
begin

text \<open>
  What the builder of \<open>cbb.c\<close> promises, as an abstract state: the bytes finished so far and the
  open children, each with the bytes it has. \<open>cbb_rep\<close> relates a \<open>CBB\<close> to such a tree and
  \<open>cbb_implements\<close> says that an operation of the code is an operation on trees: on success the new
  state represents the new tree, and a failure means that there is no such tree or no memory for it. Shown here
  for the buffer, \<open>CBB_flush\<close> (every pending length is written in its place, contents moved along where
  the DER length needs more octets), the fixed-width writers, base-128 integers, tags and children.
\<close>

unbundle bit_operations_syntax

section \<open>The builder as a tree of pending encodings\<close>

text \<open>
  The abstract state of a builder: the finished bytes of the root and the open children, innermost
  first, each with the way its length will be written and the bytes it has so far.
\<close>

datatype prefix_kind = Length_Prefix nat | Asn1_Length

type_synonym cbb_tree = "bytes \<times> (prefix_kind \<times> bytes) list"

primrec pending_len :: "prefix_kind \<Rightarrow> nat" where
  "pending_len (Length_Prefix n) = n"
| "pending_len Asn1_Length = 1"

primrec encode_child :: "prefix_kind \<Rightarrow> bytes \<Rightarrow> bytes option" where
  "encode_child (Length_Prefix n) xs =
     (if length xs < 256 ^ n then Some (nat_be n (length xs) @ xs) else None)"
| "encode_child Asn1_Length xs =
     (if length xs < 2 ^ 32 - 1 then Some (der_length (length xs) @ xs) else None)"

fun tree_append :: "bytes \<Rightarrow> cbb_tree \<Rightarrow> cbb_tree" where
  "tree_append data (root, []) = (root @ data, [])"
| "tree_append data (root, (k, xs) # cs) = (root, (k, xs @ data) # cs)"

definition tree_open :: "prefix_kind \<Rightarrow> cbb_tree \<Rightarrow> cbb_tree" where
  "tree_open k t = (fst t, (k, []) # snd t)"

fun tree_close1 :: "cbb_tree \<Rightarrow> cbb_tree option" where
  "tree_close1 (root, []) = None"
| "tree_close1 (root, (k, xs) # cs) = map_option (\<lambda>e. tree_append e (root, cs)) (encode_child k xs)"

fun tree_close :: "nat \<Rightarrow> cbb_tree \<Rightarrow> cbb_tree option" where
  "tree_close 0 t = Some t"
| "tree_close (Suc n) t = Option.bind (tree_close n t) tree_close1"

definition tree_flush :: "nat \<Rightarrow> cbb_tree \<Rightarrow> cbb_tree option" where
  "tree_flush h t = (if h \<le> length (snd t) then tree_close (length (snd t) - h) t else None)"

text \<open>What the buffer and the child list hold for a tree.\<close>

fun tree_bytes :: "bytes \<Rightarrow> (prefix_kind \<times> bytes) list \<Rightarrow> bytes" where
  "tree_bytes root [] = root"
| "tree_bytes root ((k, xs) # cs) = tree_bytes root cs @ replicate (pending_len k) 0 @ xs"

fun tree_children :: "bytes \<Rightarrow> (prefix_kind \<times> bytes) list \<Rightarrow> cbb_child list" where
  "tree_children root [] = []"
| "tree_children root ((k, xs) # cs) =
     tree_children root cs @
       [\<lparr> ch_offset = length (tree_bytes root cs), ch_pending_len_len = pending_len k,
          ch_pending_is_asn1 = (k = Asn1_Length) \<rparr>]"

abbreviation tree_size :: "cbb_tree \<Rightarrow> nat" where
  "tree_size t \<equiv> length (tree_bytes (fst t) (snd t))"

definition buffer_holds :: "cbb_buffer \<Rightarrow> bytes \<Rightarrow> bool" where
  "buffer_holds base xs \<longleftrightarrow> \<not> bb_error base \<and> length (bb_buf base) = bb_cap base \<and> bb_cap base < 2 ^ 64
     \<and> bb_len base = length xs \<and> (\<exists>spare. bb_buf base = xs @ spare)"

definition cbb_rep :: "CBB \<Rightarrow> cbb_tree \<Rightarrow> bool" where
  "cbb_rep cbb t \<longleftrightarrow> buffer_holds (cbb_base cbb) (tree_bytes (fst t) (snd t))
     \<and> cbb_children cbb = tree_children (fst t) (snd t)"

text \<open>A buffer with room for \<open>n\<close> bytes: they fit, or it can grow and the allocator does not fail.\<close>

definition cbb_room :: "cbb_env \<Rightarrow> cbb_buffer \<Rightarrow> nat \<Rightarrow> bool" where
  "cbb_room env base n \<longleftrightarrow> n \<le> bb_cap base
     \<or> bb_can_resize base \<and> bb_cap base \<le> 2 ^ 62 \<and> n \<le> 2 ^ 61 \<and> (\<forall>k. env_malloc env k)"

subsection \<open>Buffers\<close>

lemma cbb_room_mono: "cbb_room env base n \<Longrightarrow> m \<le> n \<Longrightarrow> cbb_room env base m"
  by (auto simp: cbb_room_def)

lemma buffer_holds_same [simp]: "buffer_holds (base\<lparr> bb_buf := bb_buf base \<rparr>) xs = buffer_holds base xs"
  by (simp add: buffer_holds_def)

lemma buffer_holdsD:
  assumes "buffer_holds base xs"
  shows "length (bb_buf base) = bb_cap base" "bb_cap base < 2 ^ 64" "bb_len base = length xs"
    "length xs \<le> bb_cap base" "\<not> bb_error base" "take (length xs) (bb_buf base) = xs"
  using assms by (auto simp: buffer_holds_def)

lemma buffer_holdsI:
  assumes "length (bb_buf base) = bb_cap base" "bb_cap base < 2 ^ 64" "bb_len base = length xs" "\<not> bb_error base"
    "take (length xs) (bb_buf base) = xs"
  shows "buffer_holds base xs"
  using assms append_take_drop_id [of "length xs" "bb_buf base", symmetric] by (auto simp: buffer_holds_def)

text \<open>The new capacity of a growing buffer.\<close>

lemma grown_capacity:
  assumes "cap < newlen" "newlen < 2 ^ 64"
    and "newcap = (if size_mul cap 2 < cap \<or> size_mul cap 2 < newlen then newlen else size_mul cap 2)"
  shows "newlen \<le> newcap \<and> newcap < 2 ^ 64 \<and> newcap \<le> 2 * newlen"
proof -
  have "size_mul cap 2 \<le> cap * 2" unfolding size_mul_def by (rule mod_less_eq_dividend)
  moreover have "size_mul cap 2 < 2 ^ 64" by (simp add: size_mul_def)
  ultimately show ?thesis using assms by auto
qed

lemma OPENSSL_malloc_all:
  assumes "\<And>k. malloc_ok k" "n < 2 ^ 63"
  shows "OPENSSL_malloc malloc_ok n"
  using assms by (simp add: OPENSSL_malloc_def size_add_small)

lemma cbb_buffer_reserve_cases:
  assumes "buffer_holds base xs" "n < 2 ^ 64" "cbb_buffer_reserve env n base = (ok, base')"
  shows "if ok then buffer_holds base' xs \<and> length xs + n \<le> bb_cap base' \<and> (\<forall>k. cbb_room env base k \<longrightarrow> cbb_room env base' k)
      else \<not> cbb_room env base (length xs + n) \<and> bb_error base'"
proof -
  note b = buffer_holdsD [OF assms(1)]
  have ovf: "size_add (length xs) n < length xs \<longleftrightarrow> 2 ^ 64 \<le> length xs + n"
    by (rule size_add_overflow_iff) (use b assms(2) in auto)
  let ?new = "length xs + n"
  let ?cap = "if size_mul (bb_cap base) 2 < bb_cap base \<or> size_mul (bb_cap base) 2 < ?new then ?new else size_mul (bb_cap base) 2"
  consider "2 ^ 64 \<le> ?new" | "?new < 2 ^ 64" "?new \<le> bb_cap base" | "?new < 2 ^ 64" "bb_cap base < ?new" "\<not> bb_can_resize base"
    | "?new < 2 ^ 64" "bb_cap base < ?new" "bb_can_resize base" by linarith
  then show ?thesis
  proof cases
    case 1
    then show ?thesis using assms b ovf by (auto simp: cbb_buffer_reserve_def Let_def cbb_room_def)
  next
    case 2
    then show ?thesis using assms b ovf by (auto simp: cbb_buffer_reserve_def Let_def cbb_room_def size_add_small)
  next
    case 3
    then show ?thesis using assms b ovf by (auto simp: cbb_buffer_reserve_def Let_def cbb_room_def size_add_small)
  next
    case 4
    have g: "?new \<le> ?cap" "?cap < 2 ^ 64" "?cap \<le> 2 * ?new" using grown_capacity [OF 4(2,1) refl] by auto
    define newcap where "newcap = ?cap"
    define grown where "grown = base\<lparr> bb_buf := take newcap (bb_buf base) @ replicate (newcap - length (bb_buf base)) (env_fill env),
      bb_cap := newcap \<rparr>"
    have "cbb_buffer_reserve env n base = (if OPENSSL_malloc (env_malloc env) newcap then (True, grown) else (False, base\<lparr> bb_error := True \<rparr>))"
      using 4 b(3)
      by (simp add: cbb_buffer_reserve_def Let_def OPENSSL_realloc_def size_add_small newcap_def grown_def)
    then have run: "(ok, base') = (if OPENSSL_malloc (env_malloc env) newcap then (True, grown) else (False, base\<lparr> bb_error := True \<rparr>))"
      using assms(3) by simp
    have g: "?new \<le> newcap" "newcap < 2 ^ 64" "newcap \<le> 2 * ?new" using g by (simp_all only: newcap_def)
    show ?thesis
    proof (cases "OPENSSL_malloc (env_malloc env) newcap")
      case True
      have "buffer_holds grown xs" using g b 4(2) by (intro buffer_holdsI) (auto simp: grown_def min_def)
      moreover have "cbb_room env grown k" if "cbb_room env base k" for k
        using that 4 g by (auto simp: grown_def cbb_room_def)
      ultimately show ?thesis using True g(1) run by (simp add: grown_def)
    next
      case False
      moreover have "newcap < 2 ^ 63" if "?new \<le> 2 ^ 61" using g(3) that by simp
      ultimately show ?thesis using run 4(2) OPENSSL_malloc_all [of "env_malloc env" newcap] by (auto simp: cbb_room_def)
    qed
  qed
qed

lemma cbb_buffer_add_cases:
  assumes "buffer_holds base xs" "n < 2 ^ 64" "cbb_buffer_add env n base = (ok, base')"
  shows "if ok then (\<exists>new. length new = n \<and> buffer_holds base' (xs @ new)) \<and> (\<forall>k. cbb_room env base k \<longrightarrow> cbb_room env base' k)
      else \<not> cbb_room env base (length xs + n) \<and> bb_error base'"
proof -
  obtain ok' base1 where r: "cbb_buffer_reserve env n base = (ok', base1)" by fastforce
  note c = cbb_buffer_reserve_cases [OF assms(1,2) r]
  show ?thesis
  proof (cases ok')
    case False
    then show ?thesis using c assms(3) r by (simp add: cbb_buffer_add_def)
  next
    case True
    then have h: "buffer_holds base1 xs" "length xs + n \<le> bb_cap base1" and room: "\<forall>k. cbb_room env base k \<longrightarrow> cbb_room env base1 k"
      using c by auto
    note b = buffer_holdsD [OF h(1)]
    have base': "ok" "base' = base1\<lparr> bb_len := length xs + n \<rparr>"
      using assms(3) r True h b by (auto simp: cbb_buffer_add_def size_add_small)
    let ?new = "take n (drop (length xs) (bb_buf base1))"
    have "buffer_holds base' (xs @ ?new)" "length ?new = n"
      using b h(2) by (auto simp: base' take_add intro!: buffer_holdsI)
    moreover have "cbb_room env base' k = cbb_room env base1 k" for k by (simp add: base' cbb_room_def)
    ultimately show ?thesis using base'(1) room by (metis (full_types))
  qed
qed


lemma write_be_eq:
  assumes "length P = n"
  shows "write_be (length A) n v (A @ P @ B) = (drop_bit (8 * n) v, A @ nat_be n (unat v) @ B)"
  using assms
proof (induction n arbitrary: v P B)
  case (Suc n)
  then obtain P' p where P: "P = P' @ [p]" "length P' = n" by (cases P rule: rev_cases) auto
  have "(A @ P @ B)[length A + n := ucast v] = A @ P' @ (ucast v # B)" using P by (simp add: list_update_append)
  moreover have "nat_be (Suc n) (unat v) = nat_be n (unat v div 256) @ [ucast v]" by (simp add: nat_be_def)
  moreover have "drop_bit (8 * n) (drop_bit 8 v) = drop_bit (8 * Suc n) v" by (simp add: ac_simps)
  moreover note Suc.IH [OF P(2), of "drop_bit 8 v" "ucast v # B"]
  ultimately show ?case by (simp add: unat_drop_bit)
qed (simp add: nat_be_def)

lemma drop_bit_eq_0_iff: "drop_bit (8 * n) (v :: u64) = 0 \<longleftrightarrow> unat v < 256 ^ n"
proof -
  have "drop_bit (8 * n) v = 0 \<longleftrightarrow> unat v div 2 ^ (8 * n) = 0" by (simp add: word_unat_eq_iff unat_drop_bit)
  then show ?thesis by (simp add: div_eq_0_iff power_mult)
qed

lemma buf_write_at: "length P = length data \<Longrightarrow> buf_write (length A) data (A @ P @ B) = A @ data @ B"
  by (simp add: buf_write_def)

text \<open>Replacing the bytes in use by as many others.\<close>

lemma buffer_holds_write:
  assumes "buffer_holds base xs" "length ys = length xs"
  shows "buffer_holds (base\<lparr> bb_buf := ys @ drop (length xs) (bb_buf base) \<rparr>) ys"
  using assms buffer_holdsD [OF assms(1)] by (auto intro!: buffer_holdsI)

lemma buffer_holds_bufE:
  assumes "buffer_holds base xs"
  obtains spare where "bb_buf base = xs @ spare"
  using assms by (auto simp: buffer_holds_def)

lemma buffer_holds_update:
  assumes "buffer_holds base xs" "bb_buf base = xs @ spare" "length ys = length xs"
  shows "buffer_holds (base\<lparr> bb_buf := ys @ spare \<rparr>) ys"
  using buffer_holds_write [OF assms(1,3)] by (simp add: assms(2))

subsection \<open>Trees\<close>

lemma tree_append_bytes [simp]:
  "tree_bytes (fst (tree_append data t)) (snd (tree_append data t)) = tree_bytes (fst t) (snd t) @ data"
  "tree_children (fst (tree_append data t)) (snd (tree_append data t)) = tree_children (fst t) (snd t)"
  "length (snd (tree_append data t)) = length (snd t)"
  by (cases "(data, t)" rule: tree_append.cases; simp)+

lemma length_tree_children [simp]: "length (tree_children root cs) = length cs"
  by (induction root cs rule: tree_bytes.induct) auto

lemma cbb_repD:
  assumes "cbb_rep cbb t"
  shows "buffer_holds (cbb_base cbb) (tree_bytes (fst t) (snd t))" "cbb_children cbb = tree_children (fst t) (snd t)"
    "length (cbb_children cbb) = length (snd t)"
  using assms by (auto simp: cbb_rep_def)

lemma asn1_len_len_Some_iff:
  "asn1_len_len len = Some (n, b) \<longleftrightarrow>
     len < 2 ^ 32 - 1 \<and> der_length len = b # (if n = 1 then [] else nat_be (n - 1) len) \<and> n = length (der_length len)"
proof -
  have o: "octets len = 1" if "len < 256" using that by (simp add: octets.simps)
  have o2: "octets len = 2" if "256 \<le> len" "len < 256 ^ 2" using that by (intro octets_eqI) auto
  have o3: "octets len = 3" if "256 ^ 2 \<le> len" "len < 256 ^ 3" using that by (intro octets_eqI) auto
  have o4: "octets len = 4" if "256 ^ 3 \<le> len" "len < 256 ^ 4" using that by (intro octets_eqI) auto
  consider "len < 128" | "128 \<le> len" "len < 256" | "256 \<le> len" "len < 256 ^ 2" | "256 ^ 2 \<le> len" "len < 256 ^ 3"
    | "256 ^ 3 \<le> len" "len < 256 ^ 4 - 1" | "256 ^ 4 - 1 \<le> len" by linarith
  then show ?thesis by cases (auto simp: asn1_len_len_def der_length_def o o2 o3 o4)
qed

lemma asn1_len_len_None_iff: "asn1_len_len len = None \<longleftrightarrow> 2 ^ 32 - 1 \<le> len"
  by (auto simp: asn1_len_len_def)

lemma length_der_length: "1 \<le> length (der_length n)"
  by (simp add: der_length_def)

text \<open>
  One step of \<open>CBB_flush\<close> on the bytes: the placeholder of the innermost child is replaced by its
  length, with the contents moved along where the length needs more than one octet.
\<close>

lemma flush_length_prefix:
  assumes "buffer_holds base (F @ replicate n 0 @ xs)"
    and "write_be (length F) n (of_nat (length xs)) (bb_buf base) = (v, buf)"
  shows "v = 0 \<longleftrightarrow> length xs < 256 ^ n" "buffer_holds (base\<lparr> bb_buf := buf \<rparr>) (F @ nat_be n (length xs) @ xs)"
proof -
  obtain spare where spare: "bb_buf base = (F @ replicate n 0 @ xs) @ spare" using assms(1) by (rule buffer_holds_bufE)
  have "length xs < 2 ^ 64" using buffer_holdsD [OF assms(1)] by simp
  then have u: "unat (of_nat (length xs) :: u64) = length xs" by (simp add: unat_of_nat)
  have "write_be (length F) n (of_nat (length xs)) (bb_buf base) =
      (drop_bit (8 * n) (of_nat (length xs)), F @ nat_be n (length xs) @ xs @ spare)"
    using write_be_eq [of "replicate n 0" n F "of_nat (length xs)" "xs @ spare"] u spare by simp
  then have w: "v = drop_bit (8 * n) (of_nat (length xs))" "buf = (F @ nat_be n (length xs) @ xs) @ spare"
    using assms(2) by auto
  show "v = 0 \<longleftrightarrow> length xs < 256 ^ n" using u by (simp only: w drop_bit_eq_0_iff)
  show "buffer_holds (base\<lparr> bb_buf := buf \<rparr>) (F @ nat_be n (length xs) @ xs)"
    unfolding w(2) by (rule buffer_holds_update [OF assms(1) spare]) simp
qed

lemma flush_asn1_short:
  assumes "buffer_holds base (F @ [0] @ xs)"
  shows "buffer_holds (base\<lparr> bb_buf := (bb_buf base)[length F := b] \<rparr>) (F @ [b] @ xs)"
proof -
  obtain spare where spare: "bb_buf base = (F @ [0] @ xs) @ spare" using assms by (rule buffer_holds_bufE)
  then have "(bb_buf base)[length F := b] = (F @ [b] @ xs) @ spare" by simp
  then show ?thesis using buffer_holds_update [OF assms spare, of "F @ [b] @ xs"] by simp
qed

lemma flush_asn1_long:
  assumes "buffer_holds base (F @ [0] @ xs @ new)" "length new = k"
    and "buf = (buf_write (length F + 1 + k) (take (length xs) (drop (length F + 1) (bb_buf base))) (bb_buf base))[length F := b]"
    and "write_be (length F + 1) k (of_nat (length xs)) buf = (v, buf')"
  shows "v = 0 \<longleftrightarrow> length xs < 256 ^ k" "buffer_holds (base\<lparr> bb_buf := buf' \<rparr>) (F @ [b] @ nat_be k (length xs) @ xs)"
proof -
  obtain spare where spare: "bb_buf base = (F @ [0] @ xs @ new) @ spare" using assms(1) by (rule buffer_holds_bufE)
  have "length xs < 2 ^ 64" using buffer_holdsD [OF assms(1)] by simp
  then have u: "unat (of_nat (length xs) :: u64) = length xs" by (simp add: unat_of_nat)
  let ?P = "take k (xs @ new)"
  have P: "length ?P = k" using assms(2) by simp
  have "bb_buf base = (F @ [0] @ ?P) @ drop k (xs @ new) @ spare"
    using spare by (metis append.assoc append_take_drop_id)
  moreover have "length (F @ [0] @ ?P) = length F + 1 + k" "length (drop k (xs @ new)) = length xs" using assms(2) by auto
  ultimately have "buf_write (length F + 1 + k) xs (bb_buf base) = (F @ [0] @ ?P) @ xs @ spare"
    by (metis buf_write_at)
  moreover have "take (length xs) (drop (length F + 1) (bb_buf base)) = xs" using spare by simp
  ultimately have buf: "buf = (F @ [b]) @ ?P @ xs @ spare" using assms(3) by simp
  have "write_be (length F + 1) k (of_nat (length xs)) buf =
      (drop_bit (8 * k) (of_nat (length xs)), (F @ [b]) @ nat_be k (length xs) @ xs @ spare)"
    using write_be_eq [OF P, of "F @ [b]" "of_nat (length xs)" "xs @ spare"] u buf by simp
  then have w: "v = drop_bit (8 * k) (of_nat (length xs))" "buf' = (F @ [b] @ nat_be k (length xs) @ xs) @ spare"
    using assms(4) by auto
  show "v = 0 \<longleftrightarrow> length xs < 256 ^ k" using u by (simp only: w drop_bit_eq_0_iff)
  show "buffer_holds (base\<lparr> bb_buf := buf' \<rparr>) (F @ [b] @ nat_be k (length xs) @ xs)"
    unfolding w(2) by (rule buffer_holds_update [OF assms(1) spare]) (simp add: assms(2))
qed

text \<open>
  The outcome of an operation against the tree it should produce: on success the state represents
  that tree, and a failure means that there is no such tree or no room for it.
\<close>

definition cbb_outcome :: "cbb_env \<Rightarrow> CBB \<Rightarrow> cbb_tree option \<Rightarrow> bool \<times> CBB \<Rightarrow> bool" where
  "cbb_outcome env cbb t r \<longleftrightarrow>
     (if fst r then (\<exists>u. t = Some u \<and> cbb_rep (snd r) u)
        \<and> (\<forall>n. cbb_room env (cbb_base cbb) n \<longrightarrow> cbb_room env (cbb_base (snd r)) n)
      else \<forall>u. t = Some u \<longrightarrow> \<not> cbb_room env (cbb_base cbb) (tree_size u))"

lemma cbb_outcome_TrueI:
  assumes "t = Some u" "cbb_rep cbb' u" "\<And>n. cbb_room env (cbb_base cbb) n \<Longrightarrow> cbb_room env (cbb_base cbb') n"
  shows "cbb_outcome env cbb t (True, cbb')"
  using assms by (simp add: cbb_outcome_def)

lemma cbb_outcome_FalseI:
  assumes "\<And>u. t = Some u \<Longrightarrow> \<not> cbb_room env (cbb_base cbb) (tree_size u)"
  shows "cbb_outcome env cbb t (False, cbb')"
  using assms by (auto simp: cbb_outcome_def)

lemma cbb_room_buf [simp]: "cbb_room env (base\<lparr> bb_buf := buf \<rparr>) n = cbb_room env base n"
  by (simp add: cbb_room_def)

text \<open>The tail of \<open>CBB_flush\<close>, once the length octets are written into \<open>buf\<close>.\<close>

lemma flush_finish:
  assumes "cbb_rep cbb (root, (k, xs) # cs)" "h = length cs"
    and "buffer_holds (base\<lparr> bb_buf := buf \<rparr>) (tree_bytes root cs @ e)" "encode_child k xs = Some e"
    and "\<And>n. cbb_room env (cbb_base cbb) n \<Longrightarrow> cbb_room env base n"
  shows "cbb_outcome env cbb (tree_close1 (root, (k, xs) # cs))
    (True, cbb\<lparr> cbb_base := base\<lparr> bb_buf := buf \<rparr>, cbb_children := take h (cbb_children cbb) \<rparr>)"
proof (rule cbb_outcome_TrueI)
  show "tree_close1 (root, (k, xs) # cs) = Some (tree_append e (root, cs))" using assms(4) by simp
  show "cbb_rep (cbb\<lparr> cbb_base := base\<lparr> bb_buf := buf \<rparr>, cbb_children := take h (cbb_children cbb) \<rparr>) (tree_append e (root, cs))"
    using assms(1-3) by (simp add: cbb_rep_def)
qed (use assms(5) in simp)

lemma flush_child_start:
  assumes "cbb_rep cbb (root, (k, xs) # cs)"
  shows "size_add (length (tree_bytes root cs)) (pending_len k) = length (tree_bytes root cs) + pending_len k"
    "bb_len (cbb_base cbb) = length (tree_bytes root cs) + pending_len k + length xs"
  using buffer_holdsD [OF cbb_repD(1) [OF assms]] by (simp_all add: size_add_small)

lemma flush_child_prefix:
  assumes "cbb_rep cbb (root, (Length_Prefix n, xs) # cs)" "h = length cs" "child = cbb_children cbb ! h"
  shows "cbb_outcome env cbb (tree_close1 (root, (Length_Prefix n, xs) # cs)) (cbb_flush_child env h child cbb)"
proof -
  let ?F = "tree_bytes root cs"
  note start = flush_child_start [OF assms(1), simplified]
  have child: "child = \<lparr> ch_offset = length ?F, ch_pending_len_len = n, ch_pending_is_asn1 = False \<rparr>"
    using assms cbb_repD(2) [OF assms(1)] by (simp add: nth_append)
  obtain v buf where w: "write_be (length ?F) n (of_nat (length xs)) (bb_buf (cbb_base cbb)) = (v, buf)" by fastforce
  have holds: "buffer_holds (cbb_base cbb) (?F @ replicate n 0 @ xs)" using cbb_repD(1) [OF assms(1)] by simp
  note f = flush_length_prefix [OF holds w]
  have run: "cbb_flush_child env h child cbb = (if v \<noteq> 0 then (False, cbb_on_error h (cbb\<lparr> cbb_base := (cbb_base cbb)\<lparr> bb_buf := buf \<rparr> \<rparr>))
      else (True, cbb\<lparr> cbb_base := (cbb_base cbb)\<lparr> bb_buf := buf \<rparr>, cbb_children := take h (cbb_children cbb) \<rparr>))"
    by (simp add: cbb_flush_child_def child start w Let_def)
  show ?thesis
  proof (cases "v = 0")
    case True
    then show ?thesis unfolding run using f by (auto intro!: flush_finish [OF assms(1,2)] simp del: tree_close1.simps)
  next
    case False
    then show ?thesis unfolding run using f by (auto intro!: cbb_outcome_FalseI)
  qed
qed

lemma flush_child_asn1:
  assumes "cbb_rep cbb (root, (Asn1_Length, xs) # cs)" "h = length cs" "child = cbb_children cbb ! h"
  shows "cbb_outcome env cbb (tree_close1 (root, (Asn1_Length, xs) # cs)) (cbb_flush_child env h child cbb)"
proof (cases "asn1_len_len (length xs)")
  case None
  note start = flush_child_start [OF assms(1), simplified]
  have child: "child = \<lparr> ch_offset = length (tree_bytes root cs), ch_pending_len_len = 1, ch_pending_is_asn1 = True \<rparr>"
    using assms cbb_repD(2) [OF assms(1)] by (simp add: nth_append)
  have "tree_close1 (root, (Asn1_Length, xs) # cs) = None" using None by (simp add: asn1_len_len_None_iff)
  then show ?thesis by (simp add: cbb_flush_child_def child start None Let_def cbb_outcome_def)
next
  case (Some nb)
  obtain n b where nb: "nb = (n, b)" by fastforce
  let ?F = "tree_bytes root cs"
  note start = flush_child_start [OF assms(1), simplified]
  have child: "child = \<lparr> ch_offset = length ?F, ch_pending_len_len = 1, ch_pending_is_asn1 = True \<rparr>"
    using assms cbb_repD(2) [OF assms(1)] by (simp add: nth_append)
  have len: "length xs < 2 ^ 32 - 1" "der_length (length xs) = b # (if n = 1 then [] else nat_be (n - 1) (length xs))"
    using Some unfolding nb asn1_len_len_Some_iff by blast+
  have holds: "buffer_holds (cbb_base cbb) (?F @ [0] @ xs)" using cbb_repD(1) [OF assms(1)] by simp
  have enc: "encode_child Asn1_Length xs = Some (der_length (length xs) @ xs)" using len(1) by simp
  show ?thesis
  proof (cases "n = 1")
    case True
    have run: "cbb_flush_child env h child cbb = (True, cbb\<lparr> cbb_base := (cbb_base cbb)
        \<lparr> bb_buf := (bb_buf (cbb_base cbb))[length ?F := b] \<rparr>, cbb_children := take h (cbb_children cbb) \<rparr>)"
      by (simp add: cbb_flush_child_def child start Some nb True Let_def)
    show ?thesis unfolding run
      using flush_asn1_short [OF holds, of b] len(2) True by (intro flush_finish [OF assms(1,2) _ enc]) auto
  next
    case False
    obtain m where m: "n = Suc m" "m \<noteq> 0" "m < 2 ^ 64"
      using Some nb False by (cases n) (auto simp: asn1_len_len_def split: if_splits)
    obtain ok base where add: "cbb_buffer_add env m (cbb_base cbb) = (ok, base)" by fastforce
    have e: "der_length (length xs) = b # nat_be m (length xs)" using len(2) m by simp
    then have small: "length xs < 256 ^ m" using octets_bounds [of "length xs"]
      by (auto simp: der_length_def m(2) split: if_splits dest: arg_cong [where f = length])
    note c = cbb_buffer_add_cases [OF holds m(3) add]
    let ?buf = "(buf_write (length ?F + 1 + m) (take (length xs) (drop (length ?F + 1) (bb_buf base))) (bb_buf base))[length ?F := b]"
    obtain v buf where w: "write_be (length ?F + 1) m (of_nat (length xs)) ?buf = (v, buf)" by fastforce
    show ?thesis
    proof (cases ok)
      case True
      then obtain new where new: "length new = m" "buffer_holds base (?F @ [0] @ xs @ new)"
        and room: "\<forall>m. cbb_room env (cbb_base cbb) m \<longrightarrow> cbb_room env base m" using c by auto
      note f = flush_asn1_long [OF new(2,1) refl w]
      have "v = 0" using f(1) small by simp
      then have "cbb_flush_child env h child cbb = (True, cbb\<lparr> cbb_base := base\<lparr> bb_buf := buf \<rparr>, cbb_children := take h (cbb_children cbb) \<rparr>)"
        using w True by (simp add: cbb_flush_child_def child start Some nb m add Let_def)
      then show ?thesis using f(2) e room by (simp del: tree_close1.simps) (intro flush_finish [OF assms(1,2) _ enc]; simp)
    next
      case False
      then have "cbb_flush_child env h child cbb = (False, cbb_on_error h (cbb\<lparr> cbb_base := base \<rparr>))"
        by (simp add: cbb_flush_child_def child start Some nb m add Let_def)
      moreover have "tree_close1 (root, (Asn1_Length, xs) # cs) = Some (tree_append (der_length (length xs) @ xs) (root, cs))"
        using enc by simp
      ultimately show ?thesis
        using False c e tree_append_bytes(1) [of "der_length (length xs) @ xs" "(root, cs)"]
        by (auto simp: cbb_outcome_def algebra_simps simp del: tree_close1.simps)
    qed
  qed
qed

text \<open>Both kinds together, and the recursion over the open children.\<close>

lemma cbb_flush_child_outcome:
  assumes "cbb_rep cbb t" "Suc h = length (snd t)" "child = cbb_children cbb ! h"
  shows "cbb_outcome env cbb (tree_close1 t) (cbb_flush_child env h child cbb)"
  using assms flush_child_prefix flush_child_asn1 by (cases t rule: tree_close1.cases; cases "fst (hd (snd t))") auto

lemma encode_child_size: "encode_child k xs = Some e \<Longrightarrow> pending_len k + length xs \<le> length e"
  using length_der_length [of "length xs"] by (cases k) (auto split: if_splits)

lemma tree_close1_size: "tree_close1 t = Some u \<Longrightarrow> tree_size t \<le> tree_size u"
  by (cases t rule: tree_close1.cases) (auto dest: encode_child_size)

lemma tree_close_size: "tree_close n t = Some u \<Longrightarrow> tree_size t \<le> tree_size u"
  by (induction n arbitrary: u) (auto simp: bind_eq_Some_conv dest!: tree_close1_size intro: order.trans)

lemma tree_close1_len: "tree_close1 t = Some u \<Longrightarrow> length (snd t) = Suc (length (snd u))"
  by (cases t rule: tree_close1.cases) auto

lemma tree_close_len: "tree_close n t = Some u \<Longrightarrow> length (snd t) = n + length (snd u)"
  by (induction n arbitrary: u) (auto simp: bind_eq_Some_conv dest!: tree_close1_len)

lemma tree_close1_children:
  "tree_close1 t = Some u \<Longrightarrow> tree_children (fst u) (snd u) = take (length (snd u)) (tree_children (fst t) (snd t))"
  by (cases t rule: tree_close1.cases) auto

lemma tree_close_children:
  "tree_close n t = Some u \<Longrightarrow> tree_children (fst u) (snd u) = take (length (snd u)) (tree_children (fst t) (snd t))"
proof (induction n arbitrary: u)
  case (Suc n)
  then obtain v where v: "tree_close n t = Some v" "tree_close1 v = Some u" by (auto simp: bind_eq_Some_conv)
  show ?case using tree_close1_children [OF v(2)] tree_close1_len [OF v(2)] Suc.IH [OF v(1)] by simp
qed simp

lemma CBB_flush_close:
  assumes "cbb_rep cbb t" "h + n = length (snd t)"
  shows "cbb_outcome env cbb (tree_close n t) (CBB_flush env h cbb)"
  using assms(2)
proof (induction n arbitrary: h)
  case 0
  then show ?case
    using assms(1) cbb_repD [OF assms(1)] by (subst CBB_flush.simps) (simp add: cbb_outcome_def buffer_holds_def)
next
  case (Suc n)
  have c: "length (cbb_children cbb) = length (snd t)" "\<not> bb_error (cbb_base cbb)"
    using cbb_repD [OF assms(1)] by (auto simp: buffer_holds_def)
  obtain ok cbb1 where r: "CBB_flush env (h + 1) cbb = (ok, cbb1)" by fastforce
  have IH: "cbb_outcome env cbb (tree_close n t) (ok, cbb1)" using Suc.IH [of "h + 1"] Suc.prems r by simp
  show ?case
  proof (cases ok)
    case True
    then obtain u where u: "tree_close n t = Some u" "cbb_rep cbb1 u"
      and room: "\<forall>m. cbb_room env (cbb_base cbb) m \<longrightarrow> cbb_room env (cbb_base cbb1) m"
      using IH by (auto simp: cbb_outcome_def)
    have "Suc h = length (snd u)" using tree_close_len [OF u(1)] Suc.prems by simp
    moreover have "cbb_children cbb1 ! h = cbb_children cbb ! h"
      using tree_close_children [OF u(1)] cbb_repD(2) [OF u(2)] cbb_repD(2) [OF assms(1)] \<open>Suc h = length (snd u)\<close>
      by simp
    ultimately have "cbb_outcome env cbb1 (tree_close1 u) (cbb_flush_child env h (cbb_children cbb ! h) cbb1)"
      using cbb_flush_child_outcome [OF u(2)] by metis
    moreover have "CBB_flush env h cbb = cbb_flush_child env h (cbb_children cbb ! h) cbb1"
      using c Suc.prems r True by (subst CBB_flush.simps) simp
    ultimately show ?thesis using u(1) room by (auto simp: cbb_outcome_def)
  next
    case False
    then have "CBB_flush env h cbb = (False, cbb_on_error h cbb1)"
      using c Suc.prems r by (subst CBB_flush.simps) simp
    moreover have "\<not> cbb_room env (cbb_base cbb) (tree_size v)" if "tree_close n t = Some u" "tree_close1 u = Some v" for u v
      using IH False that tree_close1_size [OF that(2)] by (auto simp: cbb_outcome_def dest: cbb_room_mono)
    ultimately show ?thesis by (auto simp: cbb_outcome_def bind_eq_Some_conv)
  qed
qed

lemma CBB_flush_outcome:
  assumes "cbb_rep cbb t"
  shows "cbb_outcome env cbb (tree_flush h t) (CBB_flush env h cbb)"
proof (cases "h \<le> length (snd t)")
  case True
  then show ?thesis using CBB_flush_close [OF assms, of h "length (snd t) - h"] by (simp add: tree_flush_def)
next
  case False
  then show ?thesis using cbb_repD(3) [OF assms]
    by (subst CBB_flush.simps) (simp add: tree_flush_def cbb_outcome_def)
qed

section \<open>Operations as tree operations\<close>

definition cbb_implements :: "cbb_env \<Rightarrow> cbb_op \<Rightarrow> (cbb_tree \<Rightarrow> cbb_tree option) \<Rightarrow> bool" where
  "cbb_implements env f F \<longleftrightarrow>
     (\<forall>t u. F t = Some u \<longrightarrow> tree_size t \<le> tree_size u) \<and> (\<forall>cbb t. cbb_rep cbb t \<longrightarrow> cbb_outcome env cbb (F t) (f cbb))"

lemma cbb_implementsI:
  assumes "\<And>t u. F t = Some u \<Longrightarrow> tree_size t \<le> tree_size u" "\<And>cbb t. cbb_rep cbb t \<Longrightarrow> cbb_outcome env cbb (F t) (f cbb)"
  shows "cbb_implements env f F"
  using assms by (simp add: cbb_implements_def)

lemma cbb_implementsD:
  assumes "cbb_implements env f F"
  shows "F t = Some u \<Longrightarrow> tree_size t \<le> tree_size u" "cbb_rep cbb t \<Longrightarrow> cbb_outcome env cbb (F t) (f cbb)"
  using assms unfolding cbb_implements_def by blast+

lemma tree_flush_size: "tree_flush h t = Some u \<Longrightarrow> tree_size t \<le> tree_size u"
  unfolding tree_flush_def by (auto dest!: tree_close_size split: if_splits)

lemma cbb_implements_CBB_flush: "cbb_implements env (CBB_flush env h) (tree_flush h)"
  by (rule cbb_implementsI) (fact tree_flush_size, fact CBB_flush_outcome)

lemma cbb_outcome_then:
  assumes "cbb_outcome env cbb t (f cbb)" "\<And>u. t = Some u \<Longrightarrow> cbb_rep (snd (f cbb)) u \<Longrightarrow> cbb_outcome env (snd (f cbb)) (G u) (g (snd (f cbb)))"
    and "\<And>u v. G u = Some v \<Longrightarrow> tree_size u \<le> tree_size v"
  shows "cbb_outcome env cbb (Option.bind t G) (cbb_then f g cbb)"
proof (cases "fst (f cbb)")
  case True
  then obtain u where u: "t = Some u" "cbb_rep (snd (f cbb)) u" 
    and room: "\<forall>m. cbb_room env (cbb_base cbb) m \<longrightarrow> cbb_room env (cbb_base (snd (f cbb))) m"
    using assms(1) by (auto simp: cbb_outcome_def)
  have "cbb_then f g cbb = g (snd (f cbb))" using True by (cases "f cbb") (simp add: cbb_then_def)
  with assms(2) [OF u] room show ?thesis by (auto simp: cbb_outcome_def u(1))
next
  case False
  then have "cbb_then f g cbb = (False, snd (f cbb))" by (cases "f cbb") (simp add: cbb_then_def)
  moreover have "\<not> cbb_room env (cbb_base cbb) (tree_size v)" if "t = Some u" "G u = Some v" for u v
    using assms(1) False that assms(3) [OF that(2)] by (auto simp: cbb_outcome_def dest: cbb_room_mono)
  ultimately show ?thesis by (auto simp: cbb_outcome_def bind_eq_Some_conv)
qed

lemma cbb_implements_then:
  assumes f: "cbb_implements env f F" and g: "cbb_implements env g G"
  shows "cbb_implements env (cbb_then f g) (\<lambda>t. Option.bind (F t) G)"
proof (rule cbb_implementsI)
  fix t u assume "Option.bind (F t) G = Some u"
  then obtain v where "F t = Some v" "G v = Some u" by (auto simp: bind_eq_Some_conv)
  then show "tree_size t \<le> tree_size u" using cbb_implementsD(1) [OF f] cbb_implementsD(1) [OF g] by (meson order.trans)
next
  fix cbb t assume "cbb_rep cbb t"
  then show "cbb_outcome env cbb (Option.bind (F t) G) (cbb_then f g cbb)"
    by (intro cbb_outcome_then cbb_implementsD [OF f] cbb_implementsD [OF g])
qed

lemma cbb_implements_skip: "cbb_implements env (\<lambda>cbb. (True, cbb)) Some"
  by (rule cbb_implementsI) (auto simp: cbb_outcome_def)

text \<open>Appending to the \<open>CBB\<close> of level \<open>h\<close>, and opening a child of it.\<close>

definition tree_add :: "nat \<Rightarrow> bytes \<Rightarrow> cbb_tree \<Rightarrow> cbb_tree option" where
  "tree_add h data t = map_option (tree_append data) (tree_flush h t)"

definition tree_add_child :: "nat \<Rightarrow> prefix_kind \<Rightarrow> cbb_tree \<Rightarrow> cbb_tree option" where
  "tree_add_child h k t = map_option (tree_open k) (tree_flush h t)"

lemma CBB_add_space_cases:
  assumes "cbb_rep cbb t" "n < 2 ^ 64" "CBB_add_space env h n cbb = (r, cbb')"
  shows "case r of None \<Rightarrow> (\<forall>u. tree_flush h t = Some u \<longrightarrow> \<not> cbb_room env (cbb_base cbb) (tree_size u + n))
    | Some out \<Rightarrow> \<exists>u new spare. tree_flush h t = Some u \<and> length new = n \<and> out = tree_size u
        \<and> bb_buf (cbb_base cbb') = tree_bytes (fst u) (snd u) @ new @ spare
        \<and> (\<forall>data. length data = n \<longrightarrow> cbb_rep (cbb'\<lparr> cbb_base := (cbb_base cbb')
              \<lparr> bb_buf := tree_bytes (fst u) (snd u) @ data @ spare \<rparr> \<rparr>) (tree_append data u))
        \<and> (\<forall>m. cbb_room env (cbb_base cbb) m \<longrightarrow> cbb_room env (cbb_base cbb') m)"
proof -
  obtain ok cbb1 where f: "CBB_flush env h cbb = (ok, cbb1)" by fastforce
  have out: "cbb_outcome env cbb (tree_flush h t) (ok, cbb1)" using CBB_flush_outcome [OF assms(1), of env h] f by simp
  show ?thesis
  proof (cases ok)
    case False
    then have "r = None" using assms(3) f by (simp add: CBB_add_space_def)
    moreover have "\<not> cbb_room env (cbb_base cbb) (tree_size u + n)" if "tree_flush h t = Some u" for u
      using out False that cbb_room_mono [of env "cbb_base cbb" "tree_size u + n" "tree_size u"] by (simp add: cbb_outcome_def) blast
    ultimately show ?thesis by simp
  next
    case True
    then obtain u where u: "tree_flush h t = Some u" "cbb_rep cbb1 u"
      and room: "\<forall>m. cbb_room env (cbb_base cbb) m \<longrightarrow> cbb_room env (cbb_base cbb1) m"
      using out by (auto simp: cbb_outcome_def)
    let ?F = "tree_bytes (fst u) (snd u)"
    obtain ok2 base where a: "cbb_buffer_add env n (cbb_base cbb1) = (ok2, base)" by fastforce
    note c = cbb_buffer_add_cases [OF cbb_repD(1) [OF u(2)] assms(2) a]
    show ?thesis
    proof (cases ok2)
      case False
      then have "r = None" using assms(3) f True a by (simp add: CBB_add_space_def)
      then show ?thesis using False c u(1) room by auto
    next
      case ok2: True
      then obtain new where new: "length new = n" "buffer_holds base (?F @ new)"
        and room2: "\<forall>m. cbb_room env (cbb_base cbb1) m \<longrightarrow> cbb_room env base m" using c by auto
      obtain spare where spare: "bb_buf base = (?F @ new) @ spare" using new(2) by (rule buffer_holds_bufE)
      have r: "r = Some (tree_size u)" "cbb' = cbb1\<lparr> cbb_base := base \<rparr>"
        using assms(3) f True a ok2 buffer_holdsD(3) [OF cbb_repD(1) [OF u(2)]] by (auto simp: CBB_add_space_def)
      have "cbb_rep (cbb'\<lparr> cbb_base := (cbb_base cbb')\<lparr> bb_buf := ?F @ data @ spare \<rparr> \<rparr>) (tree_append data u)"
        if "length data = n" for data
        using buffer_holds_update [OF new(2) spare, of "?F @ data"] that new(1) cbb_repD(2) [OF u(2)]
        by (simp add: cbb_rep_def r)
      then show ?thesis using r u(1) new(1) spare room room2 by auto
    qed
  qed
qed

text \<open>
  Every operation that gets space and then fills it with the bytes \<open>data\<close>: the filling is given
  by what it does to the buffer at the index of the space.
\<close>

lemma cbb_implements_fill:
  assumes "length data < 2 ^ 64"
    and "\<And>cbb. f cbb = (case CBB_add_space env h (length data) cbb of (None, cbb') \<Rightarrow> (False, cbb')
          | (Some out, cbb') \<Rightarrow> g out cbb')"
    and "\<And>A P B cbb'. length P = length data \<Longrightarrow> bb_buf (cbb_base cbb') = A @ P @ B
          \<Longrightarrow> g (length A) cbb' = (True, cbb'\<lparr> cbb_base := (cbb_base cbb')\<lparr> bb_buf := A @ data @ B \<rparr> \<rparr>)"
  shows "cbb_implements env f (tree_add h data)"
proof (rule cbb_implementsI)
  fix t u assume "tree_add h data t = Some u"
  then show "tree_size t \<le> tree_size u" by (auto simp: tree_add_def dest!: tree_flush_size)
next
  fix cbb t assume rep: "cbb_rep cbb t"
  obtain r cbb' where a: "CBB_add_space env h (length data) cbb = (r, cbb')" by fastforce
  note c = CBB_add_space_cases [OF rep assms(1) a]
  show "cbb_outcome env cbb (tree_add h data t) (f cbb)"
  proof (cases r)
    case None
    then have "f cbb = (False, cbb')" using assms(2) a by simp
    moreover have "\<not> cbb_room env (cbb_base cbb) (tree_size v)" if "tree_add h data t = Some v" for v
      using that c None by (auto simp: tree_add_def simp del: split_paired_All)
    ultimately show ?thesis by (simp add: cbb_outcome_def)
  next
    case (Some out)
    then obtain u new spare where u: "tree_flush h t = Some u" "length new = length data" "out = tree_size u"
      "bb_buf (cbb_base cbb') = tree_bytes (fst u) (snd u) @ new @ spare"
      and rep': "cbb_rep (cbb'\<lparr> cbb_base := (cbb_base cbb')\<lparr> bb_buf := tree_bytes (fst u) (snd u) @ data @ spare \<rparr> \<rparr>) (tree_append data u)"
      and room: "\<forall>m. cbb_room env (cbb_base cbb) m \<longrightarrow> cbb_room env (cbb_base cbb') m" using c by auto
    have "f cbb = (True, cbb'\<lparr> cbb_base := (cbb_base cbb')\<lparr> bb_buf := tree_bytes (fst u) (snd u) @ data @ spare \<rparr> \<rparr>)"
      using assms(2) a Some assms(3) [OF u(2,4)] u(3) by simp
    then show ?thesis using u(1) rep' room by (auto simp: cbb_outcome_def tree_add_def)
  qed
qed

lemma cbb_implements_CBB_add_bytes:
  "length data < 2 ^ 64 \<Longrightarrow> cbb_implements env (CBB_add_bytes env h data) (tree_add h data)"
  by (rule cbb_implements_fill [where g = "\<lambda>out cbb. (True, cbb\<lparr> cbb_base := (cbb_base cbb)
        \<lparr> bb_buf := buf_write out data (bb_buf (cbb_base cbb)) \<rparr> \<rparr>)"])
    (simp_all add: CBB_add_bytes_def buf_write_at)

lemma cbb_implements_CBB_add_zeros:
  "n < 2 ^ 64 \<Longrightarrow> cbb_implements env (CBB_add_zeros env h n) (tree_add h (replicate n 0))"
  by (rule cbb_implements_fill [where g = "\<lambda>out cbb. (True, cbb\<lparr> cbb_base := (cbb_base cbb)
        \<lparr> bb_buf := buf_write out (replicate n 0) (bb_buf (cbb_base cbb)) \<rparr> \<rparr>)"])
    (simp_all add: CBB_add_zeros_def buf_write_at)

text \<open>A fixed-width integer; a value that does not fit is an error.\<close>

lemma cbb_implements_add_u:
  assumes "unat v < 256 ^ n" "n < 2 ^ 64"
  shows "cbb_implements env (cbb_add_u env h v n) (tree_add h (nat_be n (unat v)))"
proof (rule cbb_implements_fill)
  show "length (nat_be n (unat v)) < 2 ^ 64" using assms(2) by simp
  show "cbb_add_u env h v n cbb = (case CBB_add_space env h (length (nat_be n (unat v))) cbb of (None, cbb') \<Rightarrow> (False, cbb')
      | (Some pos, cbb') \<Rightarrow> (case write_be pos n v (bb_buf (cbb_base cbb')) of (v, buf) \<Rightarrow>
             let cbb = cbb'\<lparr> cbb_base := (cbb_base cbb')\<lparr> bb_buf := buf \<rparr> \<rparr>
             in if v \<noteq> 0 then (False, cbb_on_error h cbb) else (True, cbb)))" for cbb
    by (simp add: cbb_add_u_def)
  fix A P B :: bytes and cbb' :: CBB
  assume P: "length P = length (nat_be n (unat v))" "bb_buf (cbb_base cbb') = A @ P @ B"
  have "write_be (length A) n v (A @ P @ B) = (drop_bit (8 * n) v, A @ nat_be n (unat v) @ B)"
    by (rule write_be_eq) (use P in simp)
  then show "(case write_be (length A) n v (bb_buf (cbb_base cbb')) of (v, buf) \<Rightarrow>
             let cbb = cbb'\<lparr> cbb_base := (cbb_base cbb')\<lparr> bb_buf := buf \<rparr> \<rparr>
             in if v \<noteq> 0 then (False, cbb_on_error h cbb) else (True, cbb))
      = (True, cbb'\<lparr> cbb_base := (cbb_base cbb')\<lparr> bb_buf := A @ nat_be n (unat v) @ B \<rparr> \<rparr>)"
    using P(2) assms(1) drop_bit_eq_0_iff [of n v] by simp
qed

lemma tree_flush_len: "tree_flush h t = Some u \<Longrightarrow> length (snd u) = h"
  unfolding tree_flush_def by (auto dest!: tree_close_len split: if_splits)

lemma tree_flush_flushed: "length (snd t) = h \<Longrightarrow> tree_flush h t = Some t"
  by (simp add: tree_flush_def)

lemma tree_add_len: "tree_add h data t = Some u \<Longrightarrow> length (snd u) = h"
  by (auto simp: tree_add_def dest!: tree_flush_len)

lemma tree_append_append [simp]: "tree_append b (tree_append a t) = tree_append (a @ b) t"
  by (cases "(a, t)" rule: tree_append.cases) auto

lemma tree_append_Nil [simp]: "tree_append [] t = t"
  by (cases t rule: tree_close1.cases) auto

lemma tree_add_flush [simp]: "Option.bind (tree_flush h t) (tree_add h data) = tree_add h data t"
  by (cases "tree_flush h t") (auto simp: tree_add_def tree_flush_flushed [OF tree_flush_len])

lemma tree_add_add [simp]: "Option.bind (tree_add h a t) (tree_add h b) = tree_add h (a @ b) t"
proof (cases "tree_flush h t")
  case (Some u)
  then have "tree_flush h (tree_append a u) = Some (tree_append a u)"
    using tree_flush_len [OF Some] by (intro tree_flush_flushed) simp
  then show ?thesis using Some by (simp add: tree_add_def)
qed (simp add: tree_add_def)

lemma cbb_implements_CBB_add_u8: "cbb_implements env (CBB_add_u8 env h b) (tree_add h [b])"
proof -
  have u: "unat (ucast b :: u64) = unat b" by (rule unat_ucast_up) simp
  have "nat_be 1 (unat b) = [b]" by (simp add: nat_be_def)
  then show ?thesis
    using cbb_implements_add_u [of "ucast b" 1 env h] by (simp only: CBB_add_u8_def u) simp
qed

lemma cbb_implements_seq:
  assumes "cbb_implements env f (tree_add h a)" "cbb_implements env g (tree_add h b)"
  shows "cbb_implements env (cbb_then f g) (tree_add h (a @ b))"
  using cbb_implements_then [OF assms] by simp

lemma cbb_implements_after_flush:
  assumes "cbb_implements env g (tree_add h b)"
  shows "cbb_implements env (cbb_then (CBB_flush env h) g) (tree_add h b)"
  using cbb_implements_then [OF cbb_implements_CBB_flush [of env h] assms] by simp

subsection \<open>Base-128 integers and tags\<close>

definition base128_group :: "nat \<Rightarrow> nat \<Rightarrow> u8" where
  "base128_group n i = of_nat ((if i \<noteq> 0 then 128 else 0) + n div 128 ^ i mod 128)"

lemma base128_high_groups:
  "base128_high (unat v) = map (\<lambda>i. of_nat (128 + unat v div 128 ^ i mod 128)) (rev [0..<base128_groups v])"
proof (induction v rule: base128_groups.induct)
  case (1 v)
  show ?case
  proof (cases "v = 0")
    case True
    then show ?thesis by (simp add: base128_groups.simps)
  next
    case False
    then have "0 < v" "unat v \<noteq> 0" by (simp_all add: word_neq_0_conv unat_eq_zero)
    let ?g = "base128_groups (drop_bit 7 v)"
    have "map (\<lambda>i. of_nat (128 + unat v div 128 ^ i mod 128) :: u8) (rev [0..<Suc ?g]) =
        map (\<lambda>i. of_nat (128 + unat v div 128 div 128 ^ i mod 128)) (rev [0..<?g]) @ [of_nat (128 + unat v mod 128)]"
      by (simp add: upt_conv_Cons map_Suc_upt [symmetric] rev_map div_mult2_eq del: upt_Suc)
    moreover have "base128_groups v = Suc ?g" using \<open>0 < v\<close> by (subst base128_groups.simps) simp
    moreover note 1 [OF \<open>0 < v\<close>]
    ultimately show ?thesis using \<open>unat v \<noteq> 0\<close> by (subst base128_high.simps) (simp add: unat_drop_bit)
  qed
qed

lemma base128_groups_bytes:
  "map (base128_group (unat v)) (rev [0..<(if base128_groups v = 0 then 1 else base128_groups v)]) = base128 (unat v)"
proof -
  let ?g = "base128_groups (drop_bit 7 v)"
  have g: "(if base128_groups v = 0 then 1 else base128_groups v) = Suc ?g"
  proof (cases "0 < v")
    case False
    then have "v = 0" by (simp add: word_gt_0)
    then show ?thesis by (simp add: base128_groups.simps)
  qed (simp add: base128_groups.simps [of v])
  have "map (base128_group (unat v)) (rev [0..<Suc ?g]) =
      map (\<lambda>i. of_nat (128 + unat v div 128 div 128 ^ i mod 128)) (rev [0..<?g]) @ [of_nat (unat v mod 128)]"
    by (simp add: upt_conv_Cons map_Suc_upt [symmetric] rev_map div_mult2_eq base128_group_def del: upt_Suc)
  then show ?thesis using base128_high_groups [of "drop_bit 7 v"] by (simp add: g base128_def unat_drop_bit del: upt_Suc)
qed

lemma base128_byte:
  fixes v :: u64 and i :: nat
  defines "byte \<equiv> ucast (drop_bit (7 * i) v) AND 0x7f :: u8"
  shows "(if i \<noteq> 0 then byte OR 0x80 else byte) = base128_group (unat v) i"
proof -
  have "unat (ucast (drop_bit (7 * i) v) :: u8) mod 128 = unat v div 128 ^ i mod 128"
    by (simp add: unat_drop_bit power_mult mod_mod_cancel unsigned_ucast_eq take_bit_eq_mod)
  then have b: "unat byte = unat v div 128 ^ i mod 128" by (simp add: byte_def unat_low_bits)
  have "byte AND 0x80 = 0" using high_bit_iff [of byte] mod_less_divisor [of 128 "unat v div 128 ^ i"] unfolding b by linarith
  then have "byte OR 0x80 = byte + 0x80" by (simp add: disjunctive_add_eq_or)
  moreover have "byte = of_nat (unat v div 128 ^ i mod 128)" by (simp flip: b)
  ultimately show ?thesis by (simp add: base128_group_def)
qed

lemma cbb_implements_base128_loop:
  "cbb_implements env (add_base128_loop env h v (Suc n)) (tree_add h (map (base128_group (unat v)) (rev [0..<Suc n])))"
proof (induction n)
  case 0
  have "cbb_implements env (cbb_then (CBB_add_u8 env h (base128_group (unat v) 0)) (\<lambda>cbb. (True, cbb)))
      (tree_add h [base128_group (unat v) 0])"
    using cbb_implements_then [OF cbb_implements_CBB_add_u8 cbb_implements_skip] by simp
  then show ?case using base128_byte [of 0 v] by simp
next
  case (Suc n)
  show ?case using cbb_implements_seq [OF cbb_implements_CBB_add_u8 Suc, of "base128_group (unat v) (Suc n)"]
    by (simp only: add_base128_loop.simps Let_def base128_byte) simp
qed

lemma cbb_implements_base128: "cbb_implements env (add_base128_integer env h v) (tree_add h (base128 (unat v)))"
proof -
  obtain n where n: "(if base128_groups v = 0 then 1 else base128_groups v) = Suc n" by (cases "base128_groups v") auto
  show ?thesis
    using cbb_implements_base128_loop [of env h v n] base128_groups_bytes [of v]
    by (simp only: add_base128_integer_def Let_def n)
qed

lemma CBB_add_asn1_octet:
  fixes tag :: u32
  shows "ucast (drop_bit 24 tag) AND 0xe0 = (of_nat (unat tag div 2 ^ 29 * 32) :: u8)"
    "unat (tag AND CBS_ASN1_TAG_NUMBER_MASK) = unat tag mod 2 ^ 29"
proof -
  let ?b = "ucast (drop_bit 24 tag) :: u8"
  have "?b AND 0xe0 = push_bit 5 (drop_bit 5 ?b)"
    by (rule word_eq_upt) (simp add: bit_simps upt_conv_Cons)
  then have "unat (?b AND 0xe0) = unat ?b div 32 * 32 mod 256"
    by (simp add: unat_drop_bit push_bit_eq_mult unat_word_ariths)
  moreover have "unat ?b = unat tag div 2 ^ 24"
    using unsigned_less [of tag, where ?'a = nat]
    by (simp add: unsigned_ucast_eq unat_drop_bit take_bit_eq_mod less_mult_imp_div_less)
  moreover have "unat tag div 2 ^ 24 div 32 = unat tag div 2 ^ 29" by (simp flip: div_mult2_eq)
  moreover have "unat tag div 2 ^ 29 < 8"
    using unsigned_less [of tag, where ?'a = nat] by (simp add: less_mult_imp_div_less)
  ultimately have "unat (?b AND 0xe0) = unat tag div 2 ^ 29 * 32" by simp
  then show "?b AND 0xe0 = of_nat (unat tag div 2 ^ 29 * 32)" by (metis of_nat_unat ucast_id)
  have "tag AND CBS_ASN1_TAG_NUMBER_MASK = take_bit 29 tag" by (simp add: take_bit_eq_mask mask_eq_exp_minus_1)
  then show "unat (tag AND CBS_ASN1_TAG_NUMBER_MASK) = unat tag mod 2 ^ 29" by (simp only: unat_take_bit)
qed

lemma tag_or_number:
  assumes "k < 32"
  shows "(ucast (drop_bit 24 (tag :: u32)) AND 0xe0) OR (of_nat k :: u8) = of_nat (unat tag div 2 ^ 29 * 32) + of_nat k"
proof -
  have "(of_nat k :: u8) = take_bit 5 (of_nat k)" using assms by (simp add: word_unat_eq_iff unat_take_bit)
  moreover have "(ucast (drop_bit 24 tag) AND 0xe0) AND take_bit 5 (of_nat k :: u8) = 0"
    by (rule word_eq_upt) (simp add: bit_simps upt_conv_Cons)
  ultimately have "(ucast (drop_bit 24 tag) AND 0xe0) OR (of_nat k :: u8) = (ucast (drop_bit 24 tag) AND 0xe0) + of_nat k"
    by (metis disjunctive_add_eq_or)
  then show ?thesis by (simp only: CBB_add_asn1_octet)
qed

subsection \<open>Children\<close>

lemma cbb_implements_add_child:
  assumes f: "cbb_implements env f F" and "\<And>t u. F t = Some u \<Longrightarrow> length (snd u) = h"
    and k: "n = pending_len k" "der = (k = Asn1_Length)" "n < 2 ^ 64"
  shows "cbb_implements env (cbb_then f (cbb_add_child env h n der)) (\<lambda>t. map_option (tree_open k) (F t))"
proof (rule cbb_implementsI)
  fix t u assume "map_option (tree_open k) (F t) = Some u"
  then show "tree_size t \<le> tree_size u" using cbb_implementsD(1) [OF f, of t] by (auto simp: tree_open_def)
next
  fix cbb t assume rep: "cbb_rep cbb t"
  have "cbb_outcome env cbb (Option.bind (F t) (\<lambda>u. Some (tree_open k u))) (cbb_then f (cbb_add_child env h n der) cbb)"
  proof (rule cbb_outcome_then)
    show "cbb_outcome env cbb (F t) (f cbb)" using cbb_implementsD(2) [OF f rep] .
    show "tree_size u \<le> tree_size v" if "Some (tree_open k u) = Some v" for u v using that by (auto simp: tree_open_def)
    fix u assume u: "F t = Some u" "cbb_rep (snd (f cbb)) u"
    let ?cbb = "snd (f cbb)" and ?F = "tree_bytes (fst u) (snd u)"
    obtain ok base where a: "cbb_buffer_add env n (cbb_base ?cbb) = (ok, base)" by fastforce
    note c = cbb_buffer_add_cases [OF cbb_repD(1) [OF u(2)] k(3) a]
    show "cbb_outcome env ?cbb (Some (tree_open k u)) (cbb_add_child env h n der ?cbb)"
    proof (cases ok)
      case False
      then show ?thesis using c a k(1) by (simp add: cbb_add_child_def cbb_outcome_def tree_open_def)
    next
      case True
      then obtain new where new: "length new = n" "buffer_holds base (?F @ new)"
        and room: "\<forall>m. cbb_room env (cbb_base ?cbb) m \<longrightarrow> cbb_room env base m" using c by auto
      obtain spare where spare: "bb_buf base = (?F @ new) @ spare" using new(2) by (rule buffer_holds_bufE)
      have w: "buf_write (length ?F) (replicate n 0) (bb_buf base) = (?F @ replicate n 0) @ spare"
        using spare new(1) buf_write_at [of new "replicate n 0" ?F spare] by simp
      have "buffer_holds (base\<lparr> bb_buf := (?F @ replicate n 0) @ spare \<rparr>) (?F @ replicate n 0)"
        by (rule buffer_holds_update [OF new(2) spare]) (simp add: new(1))
      moreover have "bb_len (cbb_base ?cbb) = length ?F" using cbb_repD(1) [OF u(2)] by (simp add: buffer_holds_def)
      moreover have "take h (cbb_children ?cbb) = tree_children (fst u) (snd u)"
        using cbb_repD(2) [OF u(2)] assms(2) [OF u(1)] by simp
      ultimately show ?thesis
        using True a room k w by (simp add: cbb_add_child_def cbb_outcome_def tree_open_def cbb_rep_def)
    qed
  qed
  then show "cbb_outcome env cbb (map_option (tree_open k) (F t)) (cbb_then f (cbb_add_child env h n der) cbb)"
    by (simp add: map_conv_bind_option comp_def)
qed

lemma cbb_implements_add_length_prefixed:
  assumes "n < 2 ^ 64"
  shows "cbb_implements env (cbb_add_length_prefixed env h n) (tree_add_child h (Length_Prefix n))"
  using cbb_implements_add_child [OF cbb_implements_CBB_flush tree_flush_len, where n = n and k = "Length_Prefix n" and der = False] assms
  by (simp add: cbb_add_length_prefixed_def tree_add_child_def [abs_def])

definition tree_add_asn1 :: "nat \<Rightarrow> CBS_ASN1_TAG \<Rightarrow> cbb_tree \<Rightarrow> cbb_tree option" where
  "tree_add_asn1 h tag t = map_option (tree_open Asn1_Length) (tree_add h (der_tag tag) t)"

lemma cbb_then_assoc: "cbb_then f (cbb_then g k) = cbb_then (cbb_then f g) k"
  by (rule ext) (simp add: cbb_then_def split: prod.splits bool.splits)

lemma cbb_implements_add_tag:
  "cbb_implements env
     (if tag AND CBS_ASN1_TAG_NUMBER_MASK \<ge> 0x1f
      then cbb_then (CBB_add_u8 env h (ucast (drop_bit CBS_ASN1_TAG_SHIFT tag) AND 0xe0 OR 0x1f))
             (add_base128_integer env h (ucast (tag AND CBS_ASN1_TAG_NUMBER_MASK)))
      else CBB_add_u8 env h (ucast (drop_bit CBS_ASN1_TAG_SHIFT tag) AND 0xe0 OR ucast (tag AND CBS_ASN1_TAG_NUMBER_MASK)))
     (tree_add h (der_tag tag))" (is "cbb_implements env (if ?high then ?f else ?g) _")
proof -
  let ?n = "unat tag mod 2 ^ 29" and ?num = "tag AND CBS_ASN1_TAG_NUMBER_MASK"
  have n: "unat ?num = ?n" by (rule CBB_add_asn1_octet)
  then have high: "?high \<longleftrightarrow> \<not> ?n < 31" by (simp add: word_le_nat_alt not_less)
  show ?thesis
  proof (cases ?high)
    case True
    have "unat (ucast ?num :: u64) = ?n" using unat_ucast_up [of ?num, where ?'b = 64] n by simp
    then have "cbb_implements env ?f (tree_add h ([of_nat (unat tag div 2 ^ 29 * 32) + 31] @ base128 ?n))"
      using cbb_implements_seq [OF cbb_implements_CBB_add_u8 cbb_implements_base128 [of env h "ucast ?num"]]
        tag_or_number [of 31 tag] by simp
    then show ?thesis using True high by (simp add: der_tag_def Let_def)
  next
    case False
    then have "?n < 31" using high by simp
    moreover have "ucast ?num = (of_nat ?n :: u8)" using n by (metis of_nat_unat)
    ultimately show ?thesis
      using cbb_implements_CBB_add_u8 [of env h] tag_or_number [of ?n tag] False by (simp add: der_tag_def Let_def)
  qed
qed

lemma cbb_implements_CBB_add_asn1: "cbb_implements env (CBB_add_asn1 env h tag) (tree_add_asn1 h tag)"
  using cbb_implements_add_child [OF cbb_implements_after_flush [OF cbb_implements_add_tag] tree_add_len, where n = 1 and k = Asn1_Length and der = True]
  by (simp add: CBB_add_asn1_def Let_def cbb_then_assoc tree_add_asn1_def [abs_def])

end
