(* ===== verification/CbbValues.thy ===== *)
theory CbbValues
  imports CbbTree
begin

text \<open>
  The value writers of \<open>cbb.c\<close>: \<open>CBB_add_asn1_uint64\<close>, \<open>CBB_add_asn1_int64\<close>, octet
  strings, booleans and object identifiers from text append exactly the DER element of their value.
\<close>

unbundle bit_operations_syntax

subsection \<open>Whole elements\<close>

lemma cbb_implements_or_error: "cbb_implements env f F \<Longrightarrow> cbb_implements env (or_error h f) F"
  unfolding cbb_implements_def cbb_outcome_def or_error_def by (fastforce split: prod.splits bool.splits)

definition tree_add_element :: "nat \<Rightarrow> CBS_ASN1_TAG \<Rightarrow> bytes \<Rightarrow> cbb_tree \<Rightarrow> cbb_tree option" where
  "tree_add_element h tag contents t =
     (if length contents < 2 ^ 32 - 1 then tree_add h (der_element tag contents) t else None)"

lemma tree_element:
  "Option.bind (Option.bind (tree_add_asn1 h tag t) (tree_add (h + 1) contents)) (tree_flush h)
    = tree_add_element h tag contents t"
proof (cases "tree_flush h t")
  case (Some u)
  let ?u = "tree_append (der_tag tag) u"
  have len: "length (snd u) = h" using Some by (rule tree_flush_len)
  have "tree_flush (h + 1) (tree_open Asn1_Length ?u) = Some (tree_open Asn1_Length ?u)"
    using len by (intro tree_flush_flushed) (simp add: tree_open_def)
  moreover have "tree_append contents (tree_open Asn1_Length ?u) = (fst ?u, (Asn1_Length, contents) # snd ?u)"
    by (simp add: tree_open_def)
  moreover have "tree_flush h (fst ?u, (Asn1_Length, contents) # snd ?u) =
      tree_close1 (fst ?u, (Asn1_Length, contents) # snd ?u)"
    using len by (simp add: tree_flush_def)
  ultimately show ?thesis
    using Some by (simp add: tree_add_asn1_def tree_add_def tree_add_element_def der_element_def)
qed (simp_all add: tree_add_asn1_def tree_add_def tree_add_element_def)

lemma cbb_implements_element:
  assumes "cbb_implements env g (tree_add (h + 1) contents)"
  shows "cbb_implements env (cbb_then (or_error h (cbb_then (CBB_add_asn1 env h tag) g)) (CBB_flush env h))
      (tree_add_element h tag contents)"
    "cbb_implements env (or_error h (cbb_then (CBB_add_asn1 env h tag) (cbb_then g (CBB_flush env h))))
      (tree_add_element h tag contents)"
proof -
  have i: "cbb_implements env (cbb_then (CBB_add_asn1 env h tag) g)
      (\<lambda>t. Option.bind (tree_add_asn1 h tag t) (tree_add (h + 1) contents))"
    by (rule cbb_implements_then [OF cbb_implements_CBB_add_asn1 assms])
  show "cbb_implements env (cbb_then (or_error h (cbb_then (CBB_add_asn1 env h tag) g)) (CBB_flush env h))
      (tree_add_element h tag contents)"
    using cbb_implements_then [OF cbb_implements_or_error [OF i, of h] cbb_implements_CBB_flush [of env h]] by (simp only: tree_element)
  show "cbb_implements env (or_error h (cbb_then (CBB_add_asn1 env h tag) (cbb_then g (CBB_flush env h))))
      (tree_add_element h tag contents)"
    using cbb_implements_or_error [OF cbb_implements_then [OF i cbb_implements_CBB_flush [of env h]], of h]
    by (simp only: tree_element cbb_then_assoc)
qed

lemma cbb_implements_octet_string:
  "length data < 2 ^ 64 \<Longrightarrow> cbb_implements env (CBB_add_asn1_octet_string env h data) (tree_add_element h CBS_ASN1_OCTETSTRING data)"
  unfolding CBB_add_asn1_octet_string_def by (intro cbb_implements_element cbb_implements_CBB_add_bytes)

lemma cbb_implements_bool:
  "cbb_implements env (CBB_add_asn1_bool env h b) (tree_add_element h CBS_ASN1_BOOLEAN [if b then 0xff else 0])"
  unfolding CBB_add_asn1_bool_def by (intro cbb_implements_element cbb_implements_CBB_add_u8)

subsection \<open>Integers\<close>

text \<open>What the loop of \<open>CBB_add_asn1_uint64_with_tag\<close> writes.\<close>

fun unsigned_octets :: "bytes \<Rightarrow> bytes" where
  "unsigned_octets [] = [0]"
| "unsigned_octets (b # bs) = (if b = 0 then unsigned_octets bs else if b AND 0x80 \<noteq> 0 then 0 # b # bs else b # bs)"

lemma unsigned_octets_int: "unsigned_octets bs = asn1_int (int (be_nat bs))"
proof -
  have "CBS_is_valid_asn1_integer (unsigned_octets bs) \<noteq> None \<and> asn1_int_val (unsigned_octets bs) = int (be_nat bs)"
  proof (induction bs)
    case (Cons b bs)
    show ?case using Cons by (cases bs) (auto simp: asn1_int_val_def be_nat_Cons)
  qed (simp add: asn1_int_val_def be_nat_Cons)
  then show ?thesis using asn1_int_asn1_int_val by metis
qed

lemma cbb_implements_all_u8: "bs \<noteq> [] \<Longrightarrow> cbb_implements env (add_all_u8 env h bs) (tree_add h bs)"
proof (induction bs)
  case (Cons b bs)
  have last: "cbb_implements env (cbb_then (CBB_add_u8 env h b) (\<lambda>cbb. (True, cbb))) (tree_add h [b])"
    using cbb_implements_then [OF cbb_implements_CBB_add_u8 cbb_implements_skip] by simp
  show ?case
  proof (cases bs)
    case Nil
    then show ?thesis using last by simp
  next
    case (Cons c cs)
    then show ?thesis using Cons.IH cbb_implements_seq [OF cbb_implements_CBB_add_u8 Cons.IH, of b] by simp
  qed
qed simp

lemma add_uint64_started: "add_uint64_loop env h True bs = add_all_u8 env h bs"
  by (induction bs) simp_all

lemma cbb_implements_uint64_loop: "cbb_implements env (add_uint64_loop env h False bs) (tree_add h (unsigned_octets bs))"
proof (induction bs)
  case Nil
  then show ?case by (simp add: cbb_implements_CBB_add_u8)
next
  case (Cons b bs)
  have e: "cbb_then (\<lambda>cbb. (True, cbb)) f = f" for f by (rule ext) (simp add: cbb_then_def)
  show ?case
    using Cons cbb_implements_all_u8 [of "0 # b # bs" env h] cbb_implements_all_u8 [of "b # bs" env h]
    by (auto simp: add_uint64_started e)
qed

lemma nat_le_numeral: "nat_le (numeral k) v = of_nat v # nat_le (pred_numeral k) (v div 256)"
  by (subst numeral_eq_Suc) simp

lemma uint64_bytes_eq: "uint64_bytes v = nat_be 8 (unat v)"
proof -
  have "ucast (drop_bit (8 * k) v AND 0xff) = (of_nat (unat v div 256 ^ k) :: u8)" for k
  proof -
    have "drop_bit (8 * k) v AND 0xff = take_bit 8 (drop_bit (8 * k) v)" by (simp add: take_bit_eq_mask mask_eq_exp_minus_1)
    then have "unat (drop_bit (8 * k) v AND 0xff) = unat v div 256 ^ k mod 256"
      by (simp only: unat_take_bit unat_drop_bit) (simp add: power_mult)
    then show ?thesis by (simp add: word_unat_eq_iff unsigned_ucast_eq take_bit_eq_mod)
  qed
  then have "uint64_bytes v = map (\<lambda>i. of_nat (unat v div 256 ^ (7 - i))) [0..<8]" by (simp only: uint64_bytes_def)
  then show ?thesis by (simp add: nat_be_def nat_le_numeral upt_conv_Cons flip: div_mult2_eq)
qed

lemma cbb_implements_uint64:
  "cbb_implements env (CBB_add_asn1_uint64_with_tag env h v tag) (tree_add_element h tag (asn1_int (int (unat v))))"
proof -
  have "unat v < 256 ^ 8" using unsigned_less [of v, where ?'a = nat] by simp
  then have "unsigned_octets (uint64_bytes v) = asn1_int (int (unat v))"
    by (simp add: unsigned_octets_int uint64_bytes_eq)
  then show ?thesis
    unfolding CBB_add_asn1_uint64_with_tag_def
    using cbb_implements_element(1) [OF cbb_implements_uint64_loop [of env "h + 1" "uint64_bytes v"], of tag] by simp
qed

lemma asn1_int_val_drop_ff:
  assumes "high_bit b"
  shows "asn1_int_val (0xff # b # bs) = asn1_int_val (b # bs)"
  using assms by (simp add: asn1_int_val_def be_nat_Cons)

text \<open>Dropping sign-extension bytes keeps the value and makes the encoding minimal.\<close>

lemma int64_start_octets:
  assumes "n < length data" "high_bit (data ! n)"
  defines "s \<equiv> int64_start data n"
  shows "s \<le> n \<and> CBS_is_valid_asn1_integer (rev (take (Suc s) data)) \<noteq> None
    \<and> asn1_int_val (rev (take (Suc s) data)) = asn1_int_val (rev (take (Suc n) data))"
  using assms(1,2) unfolding s_def
proof (induction n)
  case 0
  then show ?case by (simp add: take_Suc_conv_app_nth)
next
  case (Suc n)
  have two: "rev (take (Suc (Suc n)) data) = data ! Suc n # data ! n # rev (take n data)"
    "rev (take (Suc n) data) = data ! n # rev (take n data)"
    using Suc.prems(1) by (simp_all add: take_Suc_conv_app_nth)
  show ?case
  proof (cases "data ! Suc n = 0xff \<and> high_bit (data ! n)")
    case True
    then show ?thesis using Suc.IH Suc.prems(1) asn1_int_val_drop_ff two by simp
  next
    case False
    then show ?thesis using Suc.prems(2) two by auto
  qed
qed

lemma int64_octets:
  assumes "sint (v :: u64) < 0"
  shows "rev (take (int64_start (mem_store 8 v) 7 + 1) (mem_store 8 v)) = asn1_int (sint v)"
proof -
  let ?data = "mem_store 8 v"
  have be: "rev ?data = nat_be 8 (unat v)" by (simp add: mem_store_nat_le nat_be_def)
  have "unat v < 256 ^ 8" using unsigned_less [of v, where ?'a = nat] by simp
  then have val: "be_nat (rev ?data) = unat v" by (simp add: be)
  have neg: "2 ^ 63 \<le> unat v" "sint v = int (unat v) - 2 ^ 64" using assms sint_u64 [of v] by (auto split: if_splits)
  have top: "?data \<noteq> []" "hd (rev ?data) = ?data ! 7" "hd (rev ?data) = of_nat (unat v div 256 ^ 7)"
    unfolding be by (simp_all add: mem_store_nat_le nat_le_numeral nat_be_def flip: div_mult2_eq)
  have "high_bit (hd (rev ?data))"
    unfolding top(3) high_bit_iff using neg(1) \<open>unat v < 256 ^ 8\<close> by (simp add: div_less_iff_less_mult less_eq_div_iff_mult_less_eq)
  then have h: "high_bit (?data ! 7)" and val': "asn1_int_val (rev ?data) = sint v"
    using top val neg(2) by (simp_all add: asn1_int_val_def)
  let ?r = "rev (take (Suc (int64_start ?data 7)) ?data)"
  have "7 < length ?data" by simp
  then have "CBS_is_valid_asn1_integer ?r \<noteq> None" "asn1_int_val ?r = asn1_int_val (rev (take (Suc 7) ?data))"
    using int64_start_octets [OF _ h] by blast+
  moreover have "take (Suc 7) ?data = ?data" by simp
  ultimately have "?r = asn1_int (sint v)" using asn1_int_asn1_int_val [of ?r] val' by simp
  then show ?thesis by simp
qed

lemma cbb_implements_int64:
  "cbb_implements env (CBB_add_asn1_int64_with_tag env h v tag) (tree_add_element h tag (asn1_int (sint v)))"
proof (cases "sint v \<ge> 0")
  case True
  have "int (unat v) < 2 ^ 64" using unsigned_less [of v, where ?'a = int] by simp
  moreover have "sint v = int (unat v) - 2 ^ 64" if "\<not> unat v < 2 ^ 63" using that by (simp only: sint_u64 if_False)
  ultimately have "unat v < 2 ^ 63" using True by linarith
  then have "sint v = int (unat v)" by (simp only: sint_u64 if_True)
  then show ?thesis using True cbb_implements_uint64 [of env h v tag] by (simp add: CBB_add_asn1_int64_with_tag_def)
next
  case False
  then show ?thesis
    using cbb_implements_element(1) [OF cbb_implements_all_u8 [of "asn1_int (sint v)" env "h + 1"], of tag]
    by (simp add: CBB_add_asn1_int64_with_tag_def Let_def int64_octets [simplified])
qed

subsection \<open>Object identifiers from text\<close>

text \<open>The dotted decimal form of a list of components.\<close>

fun dotted :: "nat list \<Rightarrow> bytes" where
  "dotted [] = []"
| "dotted [n] = decimal n"
| "dotted (n # m # ns) = decimal n @ 46 # dotted (m # ns)"

lemma decimal_not_Nil [simp]: "decimal n \<noteq> []"
  by (subst decimal.simps) simp

lemma dotted_not_Nil [simp]: "dotted ns = [] \<longleftrightarrow> ns = []"
  by (cases ns rule: dotted.cases) auto

lemma parse_dotted_decimal_iff:
  "parse_dotted_decimal cbs = (Some v, rest) \<longleftrightarrow>
     cbs = decimal (unat v) \<and> rest = [] \<or> cbs = decimal (unat v) @ 46 # rest \<and> rest \<noteq> []"
proof -
  have dot: "digits_end (46 # r)" "digits_end []" for r by (simp_all add: digits_end_def OPENSSL_isdigit_def)
  have "(case CBS_get_u8 c of (None, cbs) \<Rightarrow> (Some x, cbs)
        | (Some dot, cbs) \<Rightarrow> (if dot = 46 \<and> length cbs > 0 then Some x else None, cbs)) = (Some v, rest)
      \<longleftrightarrow> x = v \<and> (c = [] \<and> rest = [] \<or> c = 46 # rest \<and> rest \<noteq> [])" for c :: bytes and x :: u64
    by (cases c) auto
  then show ?thesis
    unfolding parse_dotted_decimal_def rd_bind_Some_iff CBS_get_u64_decimal_iff by (auto simp: dot)
qed

lemma unat_of_nat_u64: "n < 2 ^ 64 \<Longrightarrow> unat (of_nat n :: u64) = n"
  by (simp add: unat_of_nat)

lemma parse_dotted:
  assumes "\<forall>n\<in>set (n # ns). n < 2 ^ 64"
  shows "parse_dotted_decimal (dotted (n # ns)) = (Some (of_nat n), dotted ns)"
  using assms by (cases ns) (auto simp: parse_dotted_decimal_iff unat_of_nat_u64)

lemma parse_dottedE:
  assumes "parse_dotted_decimal cbs = (Some v, dotted ns)"
  shows "cbs = dotted (unat v # ns)"
  using assms unfolding parse_dotted_decimal_iff by (cases ns) auto

definition u64_components :: "nat list \<Rightarrow> bool" where
  "u64_components ns \<longleftrightarrow> (\<forall>n\<in>set ns. n < 2 ^ 64)"

lemma u64_components_simps [simp]:
  "u64_components []" "u64_components (n # ns) \<longleftrightarrow> n < 2 ^ 64 \<and> u64_components ns"
  by (auto simp: u64_components_def)

lemma parse_dotted_step:
  "u64_components (n # ns) \<Longrightarrow> parse_dotted_decimal (dotted (n # ns)) = (Some (of_nat n), dotted ns)"
  by (rule parse_dotted) (auto simp: u64_components_def)

lemma oid_text_loop_ok:
  assumes "u64_components ns" "cbb_rep cbb t" "length (snd t) = h"
  shows "cbb_outcome env cbb (Some (tree_append (concat (map base128 ns)) t)) (oid_text_loop env h (dotted ns) cbb)"
  using assms
proof (induction ns arbitrary: cbb t)
  case Nil
  then show ?case by (subst oid_text_loop.simps) (simp add: cbb_outcome_def)
next
  case (Cons n ns)
  obtain ok cbb' where a: "add_base128_integer env h (of_nat n) cbb = (ok, cbb')" by fastforce
  have u: "unat (of_nat n :: u64) = n" using Cons.prems(1) by (simp add: unat_of_nat_u64)
  have out: "cbb_outcome env cbb (Some (tree_append (base128 n) t)) (ok, cbb')"
    using cbb_implementsD(2) [OF cbb_implements_base128 Cons.prems(2), of env h "of_nat n"] Cons.prems(3) a u
    by (simp add: tree_add_def tree_flush_flushed)
  have shorter: "length (dotted ns) < length (dotted (n # ns))" by (cases ns) auto
  have run: "oid_text_loop env h (dotted (n # ns)) cbb = (if ok then oid_text_loop env h (dotted ns) cbb' else (False, cbb'))"
    using parse_dotted_step [OF Cons.prems(1)] a shorter by (subst oid_text_loop.simps) auto
  show ?case
  proof (cases ok)
    case True
    then have "cbb_rep cbb' (tree_append (base128 n) t)"
      and room: "\<forall>m. cbb_room env (cbb_base cbb) m \<longrightarrow> cbb_room env (cbb_base cbb') m" using out by (auto simp: cbb_outcome_def)
    with Cons.IH [of cbb' "tree_append (base128 n) t"] Cons.prems
    have "cbb_outcome env cbb' (Some (tree_append (concat (map base128 (n # ns))) t)) (oid_text_loop env h (dotted ns) cbb')"
      by simp
    then show ?thesis unfolding run using True room by (auto simp: cbb_outcome_def)
  next
    case False
    then show ?thesis unfolding run using out
      by (auto simp: cbb_outcome_def dest: cbb_room_mono [where m = "tree_size t + length (base128 n)"])
  qed
qed

lemma oid_text_loop_bad: "fst (oid_text_loop env h cbs cbb) \<Longrightarrow> \<exists>ns. u64_components ns \<and> cbs = dotted ns"
proof (induction env h cbs cbb rule: oid_text_loop.induct)
  case (1 env h cbs cbb)
  show ?case
  proof (cases "cbs = []")
    case True
    then show ?thesis by (intro exI [of _ "[]"]) simp
  next
    case False
    obtain r cbs' where p: "parse_dotted_decimal cbs = (r, cbs')" by fastforce
    note run = "1.prems" [unfolded oid_text_loop.simps [of env h cbs cbb]]
    then obtain a where r: "r = Some a" and len: "length cbs' < length cbs"
      using False p by (cases r) (auto split: if_splits)
    obtain ok cbb' where add: "add_base128_integer env h a cbb = (ok, cbb')" by fastforce
    have ok and "fst (oid_text_loop env h cbs' cbb')" using run False p r len add by (cases ok; simp)+
    then obtain ns where "u64_components ns" "cbs' = dotted ns"
      using "1.IH" [OF _ p [symmetric] r len add [symmetric]] False by auto
    with p r have "parse_dotted_decimal cbs = (Some a, dotted ns)" "u64_components ns" by simp_all
    moreover have "unat a < 2 ^ 64" using unsigned_less [of a, where ?'a = nat] by simp
    ultimately show ?thesis using parse_dottedE [of cbs a ns] by (intro exI [of _ "unat a # ns"]) simp
  qed
qed

text \<open>Components that make an object identifier, and its contents octets, X.690 8.19.\<close>

fun valid_oid :: "nat list \<Rightarrow> bool" where
  "valid_oid (a # b # ns) \<longleftrightarrow> a \<le> 2 \<and> (a < 2 \<longrightarrow> b \<le> 39) \<and> b \<le> 2 ^ 64 - 1 - 80 \<and> u64_components ns"
| "valid_oid _ \<longleftrightarrow> False"

fun oid_octets :: "nat list \<Rightarrow> bytes" where
  "oid_octets (a # b # ns) = base128 (40 * a + b) @ concat (map base128 ns)"
| "oid_octets _ = []"

lemma oid_guard:
  "(a > 2 \<or> (a < 2 \<and> b > 39) \<or> b > UINT64_MAX - 80) \<longleftrightarrow> \<not> valid_oid [unat (a :: u64), unat (b :: u64)]"
  by (simp add: word_less_nat_alt not_le)

lemma oid_first:
  assumes "valid_oid [a, b]"
  shows "unat (40 * of_nat a + of_nat b :: u64) = 40 * a + b"
proof -
  have "40 * a + b < 2 ^ 64" using assms by simp
  then have "unat (of_nat (40 * a + b) :: u64) = 40 * a + b" by (rule unat_of_nat_u64)
  then show ?thesis by simp
qed

lemma valid_oid_cases:
  assumes "valid_oid ns"
  obtains a b ms where "ns = a # b # ms" "valid_oid [a, b]" "u64_components ns" "u64_components ms"
proof (cases ns rule: valid_oid.cases)
  case (1 a b ms)
  then show ?thesis using assms by (intro that [OF 1]) auto
qed (use assms in auto)

lemma oid_components_outcome:
  assumes "valid_oid (a # b # ms)" "cbb_rep cbb u" "length (snd u) = h"
  shows "cbb_outcome env cbb (Some (tree_append (oid_octets (a # b # ms)) u))
    (cbb_then (add_base128_integer env h (40 * of_nat a + of_nat b)) (oid_text_loop env h (dotted ms)) cbb)"
proof -
  let ?w = "40 * of_nat a + of_nat b :: u64"
  define G where "G v = (if length (snd v) = h then Some (tree_append (concat (map base128 ms)) v) else None)" for v :: cbb_tree
  have w: "unat ?w = 40 * a + b" by (rule oid_first) (use assms(1) in simp)
  have "cbb_outcome env cbb (Option.bind (Some (tree_append (base128 (40 * a + b)) u)) G)
      (cbb_then (add_base128_integer env h ?w) (oid_text_loop env h (dotted ms)) cbb)"
  proof (rule cbb_outcome_then)
    show "cbb_outcome env cbb (Some (tree_append (base128 (40 * a + b)) u)) (add_base128_integer env h ?w cbb)"
      using cbb_implementsD(2) [OF cbb_implements_base128 assms(2), of env h ?w] assms(3) w
      by (simp add: tree_add_def tree_flush_flushed)
    show "tree_size v \<le> tree_size v'" if "G v = Some v'" for v v' using that by (auto simp: G_def split: if_splits)
    fix v assume "Some (tree_append (base128 (40 * a + b)) u) = Some v"
      and "cbb_rep (snd (add_base128_integer env h ?w cbb)) v"
    then show "cbb_outcome env (snd (add_base128_integer env h ?w cbb)) (G v)
        (oid_text_loop env h (dotted ms) (snd (add_base128_integer env h ?w cbb)))"
      using oid_text_loop_ok [of ms _ v h env] assms(1,3) by (auto simp: G_def)
  qed
  then show ?thesis using assms(3) by (simp add: G_def)
qed

lemma CBB_add_asn1_oid_from_text_ok:
  assumes "valid_oid ns"
  shows "cbb_implements env (CBB_add_asn1_oid_from_text env h (dotted ns)) (tree_add h (oid_octets ns))"
proof (rule cbb_implementsI)
  fix t u assume "tree_add h (oid_octets ns) t = Some u"
  then show "tree_size t \<le> tree_size u" by (auto simp: tree_add_def dest!: tree_flush_size)
next
  fix cbb t assume rep: "cbb_rep cbb t"
  obtain a b ms where ns: "ns = a # b # ms" and ab: "valid_oid [a, b]" and u64: "u64_components ns"
    using assms by (rule valid_oid_cases)
  have u: "unat (of_nat a :: u64) = a" "unat (of_nat b :: u64) = b" using u64 ns by (simp_all add: unat_of_nat_u64)
  have guard: "\<not> ((of_nat a :: u64) > 2 \<or> ((of_nat a :: u64) < 2 \<and> (of_nat b :: u64) > 39) \<or> (of_nat b :: u64) > UINT64_MAX - 80)"
    unfolding oid_guard u using ab by simp
  have parse: "parse_dotted_decimal (dotted ns) = (Some (of_nat a), dotted (b # ms))"
    "parse_dotted_decimal (dotted (b # ms)) = (Some (of_nat b), dotted ms)"
    using u64 by (simp_all only: ns parse_dotted_step u64_components_simps)
  define G where "G u = (if length (snd u) = h then Some (tree_append (oid_octets ns) u) else None)" for u :: cbb_tree
  have run: "CBB_add_asn1_oid_from_text env h (dotted ns) = cbb_then (CBB_flush env h)
      (cbb_then (add_base128_integer env h (40 * of_nat a + of_nat b)) (oid_text_loop env h (dotted ms)))"
    by (simp only: CBB_add_asn1_oid_from_text_def parse prod.case option.case Eq_FalseI [OF guard] if_False)
  have "cbb_outcome env cbb (Option.bind (tree_flush h t) G) (CBB_add_asn1_oid_from_text env h (dotted ns) cbb)"
    unfolding run
  proof (rule cbb_outcome_then)
    show "cbb_outcome env cbb (tree_flush h t) (CBB_flush env h cbb)" using rep by (rule CBB_flush_outcome)
    show "tree_size u \<le> tree_size v" if "G u = Some v" for u v using that by (auto simp: G_def split: if_splits)
    fix u assume "tree_flush h t = Some u" and rep': "cbb_rep (snd (CBB_flush env h cbb)) u"
    then have len: "length (snd u) = h" by (simp add: tree_flush_len)
    from oid_components_outcome [OF assms [unfolded ns] rep' len]
    show "cbb_outcome env (snd (CBB_flush env h cbb)) (G u)
      (cbb_then (add_base128_integer env h (40 * of_nat a + of_nat b)) (oid_text_loop env h (dotted ms)) (snd (CBB_flush env h cbb)))"
      using len by (simp add: G_def ns)
  qed
  moreover have "Option.bind (tree_flush h t) G = tree_add h (oid_octets ns) t"
    by (cases "tree_flush h t") (auto simp: tree_add_def G_def tree_flush_len)
  ultimately show "cbb_outcome env cbb (tree_add h (oid_octets ns) t) (CBB_add_asn1_oid_from_text env h (dotted ns) cbb)"
    by simp
qed

lemma cbb_then_TrueD: "fst (cbb_then f g cbb) \<Longrightarrow> fst (f cbb) \<and> fst (g (snd (f cbb)))"
  by (cases "f cbb") (auto simp: cbb_then_def split: bool.splits)

lemma CBB_add_asn1_oid_from_text_bad:
  assumes "fst (CBB_add_asn1_oid_from_text env h text cbb)"
  shows "\<exists>ns. valid_oid ns \<and> text = dotted ns"
proof -
  let ?cbb = "snd (CBB_flush env h cbb)"
  note run = cbb_then_TrueD [OF assms [unfolded CBB_add_asn1_oid_from_text_def], THEN conjunct2]
  obtain r1 cbs1 where p1: "parse_dotted_decimal text = (r1, cbs1)" by fastforce
  obtain r2 cbs2 where p2: "parse_dotted_decimal cbs1 = (r2, cbs2)" by fastforce
  from run p1 p2 obtain a b where r: "r1 = Some a" "r2 = Some b" by (cases r1; cases r2; simp)
  have g: "\<not> (a > 2 \<or> (a < 2 \<and> b > 39) \<or> b > UINT64_MAX - 80)"
    and loop: "fst (cbb_then (add_base128_integer env h (40 * a + b)) (oid_text_loop env h cbs2) ?cbb)"
    using run by (simp_all add: p1 p2 r split: if_splits)
  from cbb_then_TrueD [OF loop] oid_text_loop_bad obtain ns where ns: "u64_components ns" "cbs2 = dotted ns" by blast
  then have "text = dotted (unat a # unat b # ns)"
    using parse_dottedE [of cbs1 b ns] parse_dottedE [of "text" a "unat b # ns"] p1 p2 r by simp
  moreover have "valid_oid (unat a # unat b # ns)" using g ns(1) unfolding oid_guard by simp
  ultimately show ?thesis by blast
qed

end
