(* ===== verification/CbbState.thy ===== *)
theory CbbState
  imports CbbValues
begin

text \<open>
  \<open>CBB_flush_asn1_set_of\<close> with the C library's \<open>qsort\<close> as a parameter (the locale \<open>c_qsort\<close>),
  \<open>CBB_finish\<close>, the error state, and the operations that set it whenever they fail.
\<close>

unbundle bit_operations_syntax

subsection \<open>SET OF\<close>

lemma compare_set_of_element_simps [simp]:
  "compare_set_of_element [] [] = 0" "compare_set_of_element [] (b # bs) = - 1" "compare_set_of_element (a # as) [] = 1"
  "compare_set_of_element (a # as) (b # bs) = (if a = b then compare_set_of_element as bs else if a < b then - 1 else 1)"
  by (simp_all add: compare_set_of_element_def Let_def min_def)

lemma compare_set_of_element_eq_0: "compare_set_of_element a b = 0 \<longleftrightarrow> a = b"
  by (induction a b rule: list_induct2') auto

interpretation set_of_order: cmp_order compare_set_of_element
proof
  show "sgn (compare_set_of_element b a) = - sgn (compare_set_of_element a b)" for a b
    by (induction a b rule: list_induct2') auto
  show "compare_set_of_element a c \<le> 0" if "compare_set_of_element a b \<le> 0" "compare_set_of_element b c \<le> 0" for a b c
    using that
  proof (induction a arbitrary: b c)
    case Nil
    then show ?case by (cases c) auto
  next
    case (Cons x a)
    then obtain y b' where "b = y # b'" by (cases b) auto
    moreover from this Cons.prems obtain z c' where "c = z # c'" by (cases c) auto
    ultimately show ?case using Cons by (auto split: if_splits)
  qed
qed

text \<open>The contract of the C library's \<open>qsort\<close>, kept by the heap sort of \<open>stack.c\<close>.\<close>

lemma sorted_wrt_unique:
  assumes "\<And>a b. R a b \<Longrightarrow> R b a \<Longrightarrow> a = b"
  shows "sorted_wrt R xs \<Longrightarrow> sorted_wrt R ys \<Longrightarrow> mset xs = mset ys \<Longrightarrow> xs = ys"
proof (induction xs arbitrary: ys)
  case (Cons x xs)
  then obtain y ys' where ys: "ys = y # ys'" by (cases ys) auto
  have "x \<in> set ys" "y \<in> set (x # xs)" using Cons.prems(3) ys by (metis list.set_intros(1) mset_eq_setD)+
  then have "x = y" using Cons.prems(1,2) assms [of x y] by (auto simp: ys)
  then show ?case using Cons ys by simp
qed simp

locale c_qsort =
  fixes qsort :: "('a \<Rightarrow> 'a \<Rightarrow> int) \<Rightarrow> 'a list \<Rightarrow> 'a list"
  assumes qsort_perm: "mset (qsort cmp xs) = mset xs"
    and qsort_sorted: "cmp_order cmp \<Longrightarrow> sorted_wrt (\<lambda>a b. cmp a b \<le> 0) (qsort cmp xs)"
begin

text \<open>Where equal elements are identical, the result depends on the elements only.\<close>

lemma qsort_canonical:
  assumes "cmp_order cmp" "\<And>a b. cmp a b = 0 \<Longrightarrow> a = b" "mset xs = mset ys"
  shows "qsort cmp xs = qsort cmp ys"
proof (rule sorted_wrt_unique)
  show "a = b" if "cmp a b \<le> 0" "cmp b a \<le> 0" for a b
    using that assms(2) cmp_order.cmp_less_iff [OF assms(1), of a b] by fastforce
qed (use assms(1,3) qsort_perm qsort_sorted in simp_all)

end

interpretation heap_qsort: c_qsort "\<lambda>cmp xs. heap_sort cmp (length xs) xs"
proof
  show "mset (heap_sort cmp (length xs) xs) = mset xs" for cmp :: "'a \<Rightarrow> 'a \<Rightarrow> int" and xs
    using heap_sort_perm [of "length xs" xs cmp] by (metis order.refl take_all)
  show "sorted_wrt (\<lambda>a b. cmp a b \<le> 0) (heap_sort cmp (length xs) xs)" if "cmp_order cmp"
    for cmp :: "'a \<Rightarrow> 'a \<Rightarrow> int" and xs
    using cmp_order.heap_sort_sorted [OF that, of "length xs" xs] heap_sort_perm [of "length xs" xs cmp]
      cmp_order.le_abs [OF that] by simp
qed

definition is_der_element :: "bytes \<Rightarrow> bool" where
  "is_der_element e \<longleftrightarrow> (\<exists>tag contents. valid_tag tag \<and> length contents < 2 ^ 32 \<and> e = der_element tag contents)"

lemma is_der_element_pos: "is_der_element e \<Longrightarrow> 0 < length e"
  by (auto simp: is_der_element_def der_element_def der_length_def)

lemma get_is_der_element:
  "is_der_element e \<Longrightarrow> \<exists>x. CBS_get_any_asn1_element (e @ rest) = (Some x, rest) \<and> elem_out x = e"
  unfolding is_der_element_def using get_der_element by fastforce

lemma set_of_children_concat: "list_all is_der_element es \<Longrightarrow> set_of_children (concat es) = Some es"
proof (induction es)
  case (Cons e es)
  then obtain x where "CBS_get_any_asn1_element (e @ concat es) = (Some x, concat es)" "elem_out x = e"
    using get_is_der_element by auto
  then show ?case using Cons is_der_element_pos [of e] by (subst set_of_children.simps) auto
qed (simp add: set_of_children.simps)

lemma set_of_children_Some: "set_of_children cbs = Some es \<Longrightarrow> cbs = concat es \<and> list_all is_der_element es"
proof (induction cbs arbitrary: es rule: set_of_children.induct)
  case (1 cbs)
  show ?case
  proof (cases "cbs = []")
    case True
    then show ?thesis using 1 by (simp add: set_of_children.simps)
  next
    case False
    obtain r cbs' where g: "CBS_get_any_asn1_element cbs = (r, cbs')" by fastforce
    note run = "1.prems" [unfolded set_of_children.simps [of cbs]]
    then obtain e es' where r: "r = Some e" "length cbs' < length cbs" "set_of_children cbs' = Some es'" "es = elem_out e # es'"
      using False g by (cases r) (auto split: if_splits)
    then have "cbs' = concat es' \<and> list_all is_der_element es'" using "1.IH" [OF _ g [symmetric]] False by auto
    moreover obtain tag contents where "valid_tag tag" "length contents < 2 ^ 32" "cbs = der_element tag contents @ cbs'" "e = elem_of tag contents"
      using g r(1) by (auto elim: get_der_elementE)
    moreover from this have "is_der_element (elem_out e)" unfolding is_der_element_def by auto
    ultimately show ?thesis using r(4) by simp
  qed
qed

text \<open>The contents of the innermost \<open>CBB\<close>, and replacing them.\<close>

fun tree_top :: "cbb_tree \<Rightarrow> bytes" where
  "tree_top (root, []) = root"
| "tree_top (root, (k, xs) # cs) = xs"

fun tree_set_top :: "bytes \<Rightarrow> cbb_tree \<Rightarrow> cbb_tree" where
  "tree_set_top data (root, []) = (data, [])"
| "tree_set_top data (root, (k, xs) # cs) = (root, (k, data) # cs)"

lemma cbb_contents:
  assumes "cbb_rep cbb t" "length (snd t) = h"
  obtains A spare where "bb_buf (cbb_base cbb) = A @ tree_top t @ spare" "CBB_data h cbb = length A" "CBB_len h cbb = length (tree_top t)"
    "\<And>data. length data = length (tree_top t) \<Longrightarrow>
       cbb_rep (cbb\<lparr> cbb_base := (cbb_base cbb)\<lparr> bb_buf := A @ data @ spare \<rparr> \<rparr>) (tree_set_top data t)"
proof -
  obtain spare where spare: "bb_buf (cbb_base cbb) = tree_bytes (fst t) (snd t) @ spare"
    using cbb_repD(1) [OF assms(1)] by (rule buffer_holds_bufE)
  note upd = buffer_holds_update [OF cbb_repD(1) [OF assms(1)] spare]
  show ?thesis
  proof (cases t rule: tree_top.cases)
    case (1 root)
    then show ?thesis
      using that [of "[]" spare] spare assms cbb_repD [OF assms(1)] upd
      by (auto simp: CBB_data_def CBB_len_def cbb_rep_def buffer_holds_def)
  next
    case (2 root k xs cs)
    let ?A = "tree_bytes root cs @ replicate (pending_len k) 0"
    have "cbb_children cbb ! (h - 1) = \<lparr> ch_offset = length (tree_bytes root cs), ch_pending_len_len = pending_len k,
        ch_pending_is_asn1 = (k = Asn1_Length) \<rparr>"
      using cbb_repD(2) [OF assms(1)] 2 assms(2) by (auto simp: nth_append)
    moreover have "h > 0" using assms(2) 2 by auto
    moreover have "bb_len (cbb_base cbb) = length ?A + length xs" using cbb_repD(1) [OF assms(1)] 2 by (simp add: buffer_holds_def)
    ultimately have "CBB_data h cbb = length ?A" "CBB_len h cbb = length xs" by (simp_all add: CBB_data_def CBB_len_def Let_def)
    moreover have "cbb_rep (cbb\<lparr> cbb_base := (cbb_base cbb)\<lparr> bb_buf := ?A @ data @ spare \<rparr> \<rparr>) (root, (k, data) # cs)"
      if "length data = length xs" for data
      using upd [of "?A @ data"] that 2 cbb_repD(2) [OF assms(1)] by (simp add: cbb_rep_def)
    ultimately show ?thesis using that [of ?A spare] spare 2 by simp
  qed
qed

lemma CBB_flush_asn1_set_of_True:
  assumes "cbb_rep cbb t" "\<And>es. mset (qsort compare_set_of_element es) = mset es"
    and "CBB_flush_asn1_set_of env qsort h cbb = (True, cbb')"
  shows "\<exists>u es. tree_flush h t = Some u \<and> tree_top u = concat es \<and> list_all is_der_element es
    \<and> cbb_rep cbb' (tree_set_top (concat (if length es < 2 then es else qsort compare_set_of_element es)) u)"
proof -
  obtain ok cbb1 where f: "CBB_flush env h cbb = (ok, cbb1)" by fastforce
  then have ok using assms(3) by (cases ok) (auto simp: CBB_flush_asn1_set_of_def cbb_then_def)
  then obtain u where u: "tree_flush h t = Some u" "cbb_rep cbb1 u"
    using CBB_flush_outcome [OF assms(1), of env h] f by (auto simp: cbb_outcome_def)
  obtain A spare where buf: "bb_buf (cbb_base cbb1) = A @ tree_top u @ spare" and pos: "CBB_data h cbb1 = length A" "CBB_len h cbb1 = length (tree_top u)"
    and upd: "\<And>data. length data = length (tree_top u) \<Longrightarrow>
       cbb_rep (cbb1\<lparr> cbb_base := (cbb_base cbb1)\<lparr> bb_buf := A @ data @ spare \<rparr> \<rparr>) (tree_set_top data u)"
    using cbb_contents [OF u(2) tree_flush_len [OF u(1)]] by metis
  have c: "take (CBB_len h cbb1) (drop (CBB_data h cbb1) (bb_buf (cbb_base cbb1))) = tree_top u" by (simp add: buf pos)
  note run = assms(3) [unfolded CBB_flush_asn1_set_of_def cbb_then_def f]
  then obtain es where es: "set_of_children (tree_top u) = Some es"
    using \<open>ok\<close> by (cases "set_of_children (tree_top u)") (auto simp: c Let_def)
  have top: "tree_top u = concat es" "list_all is_der_element es" using set_of_children_Some [OF es] by auto
  show ?thesis
  proof (cases "length es < 2")
    case True
    then have "cbb' = cbb1" using run \<open>ok\<close> es by (simp add: c Let_def)
    moreover have "tree_set_top (tree_top u) u = u" by (cases u rule: tree_top.cases) auto
    ultimately show ?thesis using u top True by (intro exI [of _ u] exI [of _ es]) simp
  next
    case False
    let ?q = "qsort compare_set_of_element es"
    have len: "length (concat ?q) = length (tree_top u)"
      unfolding top(1) length_concat using assms(2) [of es] by (metis mset_map sum_mset_sum_list)
    have "cbb' = cbb1\<lparr> cbb_base := (cbb_base cbb1)\<lparr> bb_buf := buf_write (CBB_data h cbb1) (concat ?q) (bb_buf (cbb_base cbb1)) \<rparr> \<rparr>"
      using run \<open>ok\<close> es False by (auto simp: c Let_def split: if_splits)
    then have "cbb' = cbb1\<lparr> cbb_base := (cbb_base cbb1)\<lparr> bb_buf := A @ concat ?q @ spare \<rparr> \<rparr>"
      using buf_write_at [of "tree_top u" "concat ?q" A spare] len buf pos(1) by simp
    then show ?thesis using upd [OF len] u(1) top False by (intro exI [of _ u] exI [of _ es]) simp
  qed
qed

section \<open>Complete buffers\<close>

lemma CBB_finish_rep:
  assumes "cbb_rep cbb t"
  shows "CBB_finish env 0 cbb = Some out \<Longrightarrow> tree_flush 0 t = Some (out, [])"
    and "tree_flush 0 t = Some (out, []) \<Longrightarrow> cbb_room env (cbb_base cbb) (length out) \<Longrightarrow> CBB_finish env 0 cbb = Some out"
proof -
  obtain ok cbb1 where f: "CBB_flush env 0 cbb = (ok, cbb1)" by fastforce
  have o: "cbb_outcome env cbb (tree_flush 0 t) (ok, cbb1)" using CBB_flush_outcome [OF assms, of env 0] f by simp
  have fin: "take (bb_len (cbb_base cbb1)) (bb_buf (cbb_base cbb1)) = fst u \<and> u = (fst u, [])"
    if "cbb_rep cbb1 u" "tree_flush 0 t = Some u" for u
    using that tree_flush_len [OF that(2)] buffer_holdsD [OF cbb_repD(1) [OF that(1)]] by (cases u) auto
  show "tree_flush 0 t = Some (out, [])" if "CBB_finish env 0 cbb = Some out"
    using that o f fin by (cases ok) (auto simp: CBB_finish_def cbb_outcome_def)
  show "CBB_finish env 0 cbb = Some out" if "tree_flush 0 t = Some (out, [])" "cbb_room env (cbb_base cbb) (length out)"
    using that o f fin by (cases ok) (fastforce simp: CBB_finish_def cbb_outcome_def)+
qed

lemma CBB_init_rep: "CBB_init env n = Some cbb \<Longrightarrow> cbb_rep cbb ([], []) \<and> bb_can_resize (cbb_base cbb) \<and> bb_cap (cbb_base cbb) = n"
proof -
  assume run: "CBB_init env n = Some cbb"
  have "n < 2 ^ 64"
  proof (rule ccontr)
    assume n: "\<not> n < 2 ^ 64"
    have "size_add n 8 < 2 ^ 64" by (simp add: size_add_def)
    then have "size_add n 8 < n" using n by linarith
    then show False using run n by (simp add: CBB_init_def OPENSSL_malloc_def)
  qed
  then show ?thesis using run by (auto simp: CBB_init_def cbb_init_def cbb_rep_def buffer_holds_def split: if_splits)
qed

lemma CBB_init_fixed_rep: "length buf < 2 ^ 64 \<Longrightarrow> cbb_rep (CBB_init_fixed buf) ([], [])"
  by (simp add: CBB_init_fixed_def cbb_init_def cbb_rep_def buffer_holds_def)

text \<open>A \<open>CBB\<close> that an operation has left in the error state.\<close>

abbreviation (input) cbb_failed :: "CBB \<Rightarrow> bool" where "cbb_failed cbb \<equiv> bb_error (cbb_base cbb)"

lemma CBB_flush_failed [simp]: "cbb_failed cbb \<Longrightarrow> CBB_flush env h cbb = (False, cbb)"
  by (simp add: CBB_flush.simps)

lemma cbb_on_error_failed [simp]: "cbb_failed (cbb_on_error h cbb)"
  by (simp add: cbb_on_error_def)

lemma cbb_flush_child_fails:
  "cbb_flush_child env h child cbb = (False, cbb') \<Longrightarrow> cbb_failed cbb'"
  by (auto simp: cbb_flush_child_def Let_def split: if_splits option.splits prod.splits bool.splits)

lemma CBB_flush_fails: "CBB_flush env h cbb = (False, cbb') \<Longrightarrow> h \<le> length (cbb_children cbb) \<Longrightarrow> cbb_failed cbb'"
  by (subst (asm) CBB_flush.simps) (auto simp: Let_def split: if_splits prod.splits bool.splits dest: cbb_flush_child_fails)

lemma cbb_buffer_reserve_fails: "cbb_buffer_reserve env n base = (False, base') \<Longrightarrow> bb_error base'"
  by (auto simp: cbb_buffer_reserve_def Let_def split: if_splits option.splits)

lemma cbb_buffer_add_fails: "cbb_buffer_add env n base = (False, base') \<Longrightarrow> bb_error base'"
  by (auto simp: cbb_buffer_add_def split: prod.splits bool.splits dest: cbb_buffer_reserve_fails)

declare split_paired_Ex [simp del] split_paired_All [simp del]

section \<open>Errors\<close>

text \<open>
  An operation on the \<open>CBB\<close> of level \<open>h\<close> that locks the builder when it fails: it fails on a
  builder in the error state, and otherwise a failure sets the error state, unless the \<open>CBB\<close> was
  already closed.
\<close>

definition cbb_locks :: "nat \<Rightarrow> cbb_op \<Rightarrow> bool" where
  "cbb_locks h f \<longleftrightarrow> (\<forall>cbb. (cbb_failed cbb \<longrightarrow> \<not> fst (f cbb) \<and> cbb_failed (snd (f cbb)))
     \<and> (if fst (f cbb) then h \<le> length (cbb_children (snd (f cbb))) \<and> h \<le> length (cbb_children cbb)
        else cbb_failed (snd (f cbb)) \<or> length (cbb_children cbb) < h \<and> snd (f cbb) = cbb))"

lemma cbb_locksI:
  assumes "\<And>cbb. cbb_failed cbb \<Longrightarrow> \<not> fst (f cbb) \<and> cbb_failed (snd (f cbb))"
    and "\<And>cbb cbb'. f cbb = (True, cbb') \<Longrightarrow> h \<le> length (cbb_children cbb') \<and> h \<le> length (cbb_children cbb)"
    and "\<And>cbb cbb'. f cbb = (False, cbb') \<Longrightarrow> cbb_failed cbb' \<or> length (cbb_children cbb) < h \<and> cbb' = cbb"
  shows "cbb_locks h f"
  unfolding cbb_locks_def using assms by (metis (full_types) prod.collapse)

lemma cbb_locksD:
  assumes "cbb_locks h f"
  shows "cbb_failed cbb \<Longrightarrow> \<not> fst (f cbb) \<and> cbb_failed (snd (f cbb))"
    and "f cbb = (True, cbb') \<Longrightarrow> h \<le> length (cbb_children cbb') \<and> h \<le> length (cbb_children cbb)"
    and "f cbb = (False, cbb') \<Longrightarrow> cbb_failed cbb' \<or> length (cbb_children cbb) < h \<and> cbb' = cbb"
  using assms [unfolded cbb_locks_def, THEN spec, of cbb] by simp_all

lemma cbb_then_cases:
  assumes "cbb_then f g cbb = (ok, cbb')"
  obtains cbb1 where "f cbb = (True, cbb1)" "g cbb1 = (ok, cbb')" | "f cbb = (False, cbb')" "\<not> ok"
  using assms by (cases "f cbb"; cases "fst (f cbb)") (auto simp: cbb_then_def)

lemma CBB_flush_True_len:
  "CBB_flush env h cbb = (True, cbb') \<Longrightarrow> length (cbb_children cbb') = h \<and> h \<le> length (cbb_children cbb)"
proof (induction env h cbb arbitrary: cbb' rule: CBB_flush.induct)
  case (1 env h cbb)
  have "length (cbb_children c') = min h (length (cbb_children c))" if "cbb_flush_child env h child c = (True, c')" for child c c'
    using that by (auto simp: cbb_flush_child_def Let_def split: if_splits option.splits prod.splits bool.splits)
  note child = this
  show ?case
  proof (cases "h < length (cbb_children cbb) \<and> \<not> cbb_failed cbb")
    case False
    then show ?thesis using "1.prems" by (subst (asm) CBB_flush.simps) (auto split: if_splits)
  next
    case True
    obtain ok cbb1 where f: "CBB_flush env (h + 1) cbb = (ok, cbb1)" by fastforce
    note run = "1.prems" [unfolded CBB_flush.simps [of env h]]
    have ok and last: "cbb_flush_child env h (cbb_children cbb ! h) cbb1 = (True, cbb')"
      using run True f by (cases ok; simp add: Let_def)+
    then have "length (cbb_children cbb1) = h + 1" using "1.IH" [of _ cbb1] True f by simp
    then show ?thesis using child [OF last] True by simp
  qed
qed

lemma cbb_locks_CBB_flush: "cbb_locks h (CBB_flush env h)"
proof (rule cbb_locksI)
  show "cbb_failed cbb' \<or> length (cbb_children cbb) < h \<and> cbb' = cbb" if "CBB_flush env h cbb = (False, cbb')" for cbb cbb'
  proof (cases "h \<le> length (cbb_children cbb)")
    case False
    then show ?thesis using that by (subst (asm) CBB_flush.simps) auto
  qed (use CBB_flush_fails that in blast)
qed (use CBB_flush_True_len in force)+

lemma cbb_locks_then:
  assumes f: "cbb_locks h f" and g: "cbb_locks h' g"
    and h': "\<And>cbb cbb'. f cbb = (True, cbb') \<Longrightarrow> h' \<le> length (cbb_children cbb')" "h \<le> h'"
  shows "cbb_locks h (cbb_then f g)"
proof (rule cbb_locksI)
  show "\<not> fst (cbb_then f g cbb) \<and> cbb_failed (snd (cbb_then f g cbb))" if "cbb_failed cbb" for cbb
    using cbb_locksD(1) [OF f that] by (cases "f cbb") (auto simp: cbb_then_def)
next
  fix cbb cbb' assume "cbb_then f g cbb = (True, cbb')"
  then show "h \<le> length (cbb_children cbb') \<and> h \<le> length (cbb_children cbb)"
    using cbb_locksD(2) [OF f] cbb_locksD(2) [OF g] h'(2) by (elim cbb_then_cases) (meson order.trans, simp)
next
  fix cbb cbb' assume "cbb_then f g cbb = (False, cbb')"
  then show "cbb_failed cbb' \<or> length (cbb_children cbb) < h \<and> cbb' = cbb"
    using cbb_locksD(3) [OF f] cbb_locksD(3) [OF g] h'(1) by (fastforce elim!: cbb_then_cases)
qed

lemma cbb_locks_seq: "cbb_locks h f \<Longrightarrow> cbb_locks h g \<Longrightarrow> cbb_locks h (cbb_then f g)"
  using cbb_locksD(2) by (blast intro: cbb_locks_then)

lemma cbb_locks_add_space:
  assumes "\<And>cbb. f cbb = (case CBB_add_space env h n cbb of (None, cbb') \<Rightarrow> (False, cbb') | (Some out, cbb') \<Rightarrow> g out cbb')"
    and "\<And>out cbb. fst (g out cbb) \<longrightarrow> length (cbb_children (snd (g out cbb))) = length (cbb_children cbb)"
    and "\<And>out cbb. \<not> fst (g out cbb) \<longrightarrow> cbb_failed (snd (g out cbb))"
  shows "cbb_locks h f"
proof -
  define a where "a cbb = (case cbb_buffer_add env n (cbb_base cbb) of (False, base) \<Rightarrow> (False, cbb\<lparr> cbb_base := base \<rparr>)
      | (True, base) \<Rightarrow> g (bb_len (cbb_base cbb)) (cbb\<lparr> cbb_base := base \<rparr>))" for cbb
  have f: "f cbb = cbb_then (CBB_flush env h) a cbb" for cbb
    unfolding assms(1) CBB_add_space_def cbb_then_def a_def by (auto split: prod.splits bool.splits)
  have a: "(if fst (a cbb) then length (cbb_children (snd (a cbb))) = length (cbb_children cbb) else cbb_failed (snd (a cbb)))" for cbb
    using assms(2,3) cbb_buffer_add_fails unfolding a_def by (auto split: prod.splits bool.splits)
  note l = cbb_locks_CBB_flush [of h env]
  show ?thesis
  proof (rule cbb_locksI)
    show "\<not> fst (f cbb) \<and> cbb_failed (snd (f cbb))" if "cbb_failed cbb" for cbb
      using that by (simp add: f cbb_then_def)
  next
    fix cbb cbb' assume "f cbb = (True, cbb')"
    then show "h \<le> length (cbb_children cbb') \<and> h \<le> length (cbb_children cbb)"
      unfolding f using cbb_locksD(2) [OF l] a by (elim cbb_then_cases) (metis fst_conv snd_conv, simp)
  next
    fix cbb cbb' assume "f cbb = (False, cbb')"
    then show "cbb_failed cbb' \<or> length (cbb_children cbb) < h \<and> cbb' = cbb"
      unfolding f using cbb_locksD(3) [OF l] a by (elim cbb_then_cases) (metis fst_conv snd_conv, blast)
  qed
qed

lemma cbb_locks_writes:
  "cbb_locks h (CBB_add_bytes env h data)" "cbb_locks h (CBB_add_zeros env h n)" "cbb_locks h (cbb_add_u env h v n)"
  by (rule cbb_locks_add_space, simp add: CBB_add_bytes_def CBB_add_zeros_def cbb_add_u_def,
      auto simp: Let_def cbb_on_error_def split: prod.splits)+

lemma cbb_locks_add_u8: "cbb_locks h (CBB_add_u8 env h b)"
  by (simp add: CBB_add_u8_def cbb_locks_writes)

lemma cbb_locks_base128: "cbb_locks h (add_base128_integer env h v)"
proof -
  have "cbb_locks h (add_base128_loop env h v (Suc n))" for n
  proof (induction n)
    case 0
    have "cbb_then f (\<lambda>cbb. (True, cbb)) = f" for f by (rule ext) (simp add: cbb_then_def split: prod.splits bool.splits)
    then show ?case by (simp add: cbb_locks_add_u8 Let_def)
  next
    case (Suc n)
    then show ?case by (subst add_base128_loop.simps) (simp add: cbb_locks_add_u8 cbb_locks_seq Let_def del: add_base128_loop.simps)
  qed
  then show ?thesis by (cases "base128_groups v") (auto simp: add_base128_integer_def Let_def simp del: add_base128_loop.simps)
qed

lemma cbb_add_child_cases:
  assumes "cbb_add_child env h n b cbb = (ok, cbb')"
  shows "if ok then cbb_children cbb' = take h (cbb_children cbb) @ [last (cbb_children cbb')] else cbb_failed cbb'"
  using assms by (auto simp: cbb_add_child_def Let_def split: prod.splits bool.splits dest: cbb_buffer_add_fails)

lemma cbb_locks_child:
  assumes f: "cbb_locks h f"
  shows "cbb_locks h (cbb_then f (cbb_add_child env h n b))"
    and "cbb_then f (cbb_add_child env h n b) cbb = (True, cbb') \<Longrightarrow> Suc h \<le> length (cbb_children cbb')"
proof -
  show len: "Suc h \<le> length (cbb_children cbb')" if "cbb_then f (cbb_add_child env h n b) cbb = (True, cbb')" for cbb cbb'
    using that
  proof (elim cbb_then_cases)
    fix c assume "f cbb = (True, c)" "cbb_add_child env h n b c = (True, cbb')"
    then show ?thesis using cbb_locksD(2) [OF f] cbb_add_child_cases [of env h n b c True cbb'] 
      by (metis (full_types) length_append_singleton length_take min.absorb2 order.refl)
  qed simp
  show "cbb_locks h (cbb_then f (cbb_add_child env h n b))"
  proof (rule cbb_locksI)
    show "\<not> fst (cbb_then f (cbb_add_child env h n b) cbb) \<and> cbb_failed (snd (cbb_then f (cbb_add_child env h n b) cbb))"
      if "cbb_failed cbb" for cbb
      using cbb_locksD(1) [OF f that] by (cases "f cbb") (auto simp: cbb_then_def)
  next
    fix cbb cbb' assume t: "cbb_then f (cbb_add_child env h n b) cbb = (True, cbb')"
    then show "h \<le> length (cbb_children cbb') \<and> h \<le> length (cbb_children cbb)"
      using len [OF t] cbb_locksD(2) [OF f] by (auto elim!: cbb_then_cases)
  next
    fix cbb cbb' assume "cbb_then f (cbb_add_child env h n b) cbb = (False, cbb')"
    then show "cbb_failed cbb' \<or> length (cbb_children cbb) < h \<and> cbb' = cbb"
      using cbb_locksD(3) [OF f] cbb_add_child_cases by (elim cbb_then_cases) (metis (full_types), blast)
  qed
qed

lemma cbb_locks_length_prefixed: "cbb_locks h (cbb_add_length_prefixed env h n)"
  unfolding cbb_add_length_prefixed_def by (intro cbb_locks_child cbb_locks_CBB_flush)

lemma cbb_locks_add_asn1:
  "cbb_locks h (CBB_add_asn1 env h tag)"
  "CBB_add_asn1 env h tag cbb = (True, cbb') \<Longrightarrow> Suc h \<le> length (cbb_children cbb')"
proof -
  have f: "cbb_locks h (cbb_then (CBB_flush env h)
      (if c then cbb_then (CBB_add_u8 env h x) (add_base128_integer env h y) else CBB_add_u8 env h z))" for c x y z
    by (auto intro!: cbb_locks_seq cbb_locks_CBB_flush cbb_locks_add_u8 cbb_locks_base128)
  show "cbb_locks h (CBB_add_asn1 env h tag)"
    unfolding CBB_add_asn1_def Let_def cbb_then_assoc using f by (rule cbb_locks_child)
  show "Suc h \<le> length (cbb_children cbb')" if "CBB_add_asn1 env h tag cbb = (True, cbb')"
    using that unfolding CBB_add_asn1_def Let_def cbb_then_assoc by (rule cbb_locks_child(2) [OF f])
qed

lemma cbb_locks_or_error:
  assumes "cbb_locks h f"
  shows "cbb_locks h (or_error h f)"
  using assms by (intro cbb_locksI) (auto simp: or_error_def split: prod.splits bool.splits dest: cbb_locksD)

lemma cbb_locks_element:
  assumes g: "cbb_locks (h + 1) g"
  shows "cbb_locks h (cbb_then (or_error h (cbb_then (CBB_add_asn1 env h tag) g)) (CBB_flush env h))"
    "cbb_locks h (or_error h (cbb_then (CBB_add_asn1 env h tag) (cbb_then g (CBB_flush env h))))"
proof -
  have "cbb_locks h (cbb_then (CBB_add_asn1 env h tag) g)"
    using cbb_locks_add_asn1(2) by (intro cbb_locks_then [OF cbb_locks_add_asn1(1) g]) auto
  then show "cbb_locks h (cbb_then (or_error h (cbb_then (CBB_add_asn1 env h tag) g)) (CBB_flush env h))"
    "cbb_locks h (or_error h (cbb_then (CBB_add_asn1 env h tag) (cbb_then g (CBB_flush env h))))"
    by (auto simp: cbb_then_assoc intro!: cbb_locks_seq cbb_locks_or_error cbb_locks_CBB_flush)
qed

lemma cbb_locks_all_u8: "bs \<noteq> [] \<Longrightarrow> cbb_locks h (add_all_u8 env h bs)"
proof (induction bs)
  case (Cons b bs)
  have skip: "cbb_then f (\<lambda>cbb. (True, cbb)) = f" for f by (rule ext) (simp add: cbb_then_def split: prod.splits bool.splits)
  show ?case using Cons by (cases "bs = []") (auto simp: skip intro: cbb_locks_add_u8 cbb_locks_seq)
qed simp

lemma cbb_locks_uint64_loop: "cbb_locks h (add_uint64_loop env h False bs)"
proof (induction bs)
  case Nil
  then show ?case by (simp add: cbb_locks_add_u8)
next
  case (Cons b bs)
  have e: "cbb_then (\<lambda>cbb. (True, cbb)) f = f" for f by (rule ext) (simp add: cbb_then_def)
  show ?case
    using Cons cbb_locks_all_u8 [of "0 # b # bs" h env] cbb_locks_all_u8 [of "b # bs" h env]
    by (auto simp: add_uint64_started e)
qed

lemma cbb_locks_values:
  "cbb_locks h (CBB_add_asn1_uint64_with_tag env h v tag)" "cbb_locks h (CBB_add_asn1_int64_with_tag env h v tag)"
  "cbb_locks h (CBB_add_asn1_octet_string env h data)" "cbb_locks h (CBB_add_asn1_bool env h b)"
proof -
  show u: "cbb_locks h (CBB_add_asn1_uint64_with_tag env h v tag)"
    unfolding CBB_add_asn1_uint64_with_tag_def by (intro cbb_locks_element cbb_locks_uint64_loop)
  have "cbb_locks h (cbb_then (or_error h (cbb_then (CBB_add_asn1 env h tag)
      (add_all_u8 env (h + 1) (asn1_int (sint v))))) (CBB_flush env h))"
    by (intro cbb_locks_element cbb_locks_all_u8) simp
  then show "cbb_locks h (CBB_add_asn1_int64_with_tag env h v tag)"
    using u int64_octets [of v] by (auto simp: CBB_add_asn1_int64_with_tag_def Let_def)
  show "cbb_locks h (CBB_add_asn1_octet_string env h data)" "cbb_locks h (CBB_add_asn1_bool env h b)"
    unfolding CBB_add_asn1_octet_string_def CBB_add_asn1_bool_def
    by (intro cbb_locks_element cbb_locks_writes cbb_locks_add_u8)+
qed

section \<open>The operations that write\<close>

text \<open>The operations of \<open>bytestring.h\<close> whose failures always lock the builder; \<open>CbbCalls\<close> has the others.\<close>

inductive cbb_writes :: "cbb_env \<Rightarrow> nat \<Rightarrow> cbb_op \<Rightarrow> bool" for env h where
  "cbb_writes env h (CBB_flush env h)"
| "length data < 2 ^ 64 \<Longrightarrow> cbb_writes env h (CBB_add_bytes env h data)"
| "n < 2 ^ 64 \<Longrightarrow> cbb_writes env h (CBB_add_zeros env h n)"
| "cbb_writes env h (CBB_add_u8 env h w8)"
| "cbb_writes env h (CBB_add_u16 env h w16)"
| "cbb_writes env h (CBB_add_u16le env h w16)"
| "cbb_writes env h (CBB_add_u24 env h w32)"
| "cbb_writes env h (CBB_add_u32 env h w32)"
| "cbb_writes env h (CBB_add_u32le env h w32)"
| "cbb_writes env h (CBB_add_u64 env h w64)"
| "cbb_writes env h (CBB_add_u64le env h w64)"
| "cbb_writes env h (CBB_add_u8_length_prefixed env h)"
| "cbb_writes env h (CBB_add_u16_length_prefixed env h)"
| "cbb_writes env h (CBB_add_u24_length_prefixed env h)"
| "cbb_writes env h (CBB_add_asn1 env h tag)"
| "cbb_writes env h (CBB_add_asn1_uint64_with_tag env h w64 tag)"
| "cbb_writes env h (CBB_add_asn1_int64_with_tag env h w64 tag)"
| "length data < 2 ^ 64 \<Longrightarrow> cbb_writes env h (CBB_add_asn1_octet_string env h data)"
| "cbb_writes env h (CBB_add_asn1_bool env h b)"

lemmas cbb_uint_defs =
  CBB_add_u8_def CBB_add_u16le_def CBB_add_u16_def CBB_add_u24_def CBB_add_u32le_def CBB_add_u32_def CBB_add_u64le_def CBB_add_u64_def
  CBB_add_u8_length_prefixed_def CBB_add_u16_length_prefixed_def CBB_add_u24_length_prefixed_def

lemma cbb_writes_locks: "cbb_writes env h f \<Longrightarrow> cbb_locks h f"
  by (induction rule: cbb_writes.induct)
    (simp_all add: cbb_locks_CBB_flush cbb_locks_writes cbb_locks_length_prefixed cbb_locks_add_asn1 cbb_locks_values cbb_uint_defs)

text \<open>Every such operation implements some tree operation; \<open>CBB_add_u24\<close> fails on a value of more than 24 bits.\<close>

lemma cbb_add_u_too_big:
  assumes "\<not> unat v < 256 ^ n" "n < 2 ^ 64" "cbb_rep cbb t"
  shows "\<not> fst (cbb_add_u env h v n cbb)"
proof (cases "CBB_add_space env h n cbb")
  case (Pair r cbb')
  show ?thesis
  proof (cases r)
    case (Some out)
    then obtain u new spare where "length new = n" "out = tree_size u"
      "bb_buf (cbb_base cbb') = tree_bytes (fst u) (snd u) @ new @ spare"
      using CBB_add_space_cases [OF assms(3,2) Pair] by auto
    then show ?thesis using Pair Some write_be_eq [of new n "tree_bytes (fst u) (snd u)" v spare] assms(1) drop_bit_eq_0_iff [of n v]
      by (simp add: cbb_add_u_def Let_def)
  qed (simp add: Pair cbb_add_u_def)
qed

lemma cbb_implements_add_u_partial:
  assumes "n < 2 ^ 64"
  shows "cbb_implements env (cbb_add_u env h v n) (\<lambda>t. if unat v < 256 ^ n then tree_add h (nat_be n (unat v)) t else None)"
proof (cases "unat v < 256 ^ n")
  case True
  then show ?thesis using cbb_implements_add_u [OF _ assms] by simp
next
  case False
  then show ?thesis using cbb_add_u_too_big [OF False assms] by (intro cbb_implementsI) (auto simp: cbb_outcome_def)
qed

lemmas cbb_implements_all =
  cbb_implements_CBB_flush cbb_implements_CBB_add_bytes cbb_implements_CBB_add_zeros cbb_implements_add_u_partial
  cbb_implements_add_length_prefixed cbb_implements_CBB_add_asn1 cbb_implements_uint64 cbb_implements_int64
  cbb_implements_octet_string cbb_implements_bool

lemma cbb_writes_implements: "cbb_writes env h f \<Longrightarrow> \<exists>F. cbb_implements env f F"
  by (induction rule: cbb_writes.induct; (unfold cbb_uint_defs)?; rule exI, rule cbb_implements_all; simp)

text \<open>
  The remaining operations. \<open>CBB_discard_child\<close> drops the open children, \<open>CBB_did_write\<close> takes
  over bytes of the reserved space.
\<close>

lemma tree_children_nth:
  "h < length cs \<Longrightarrow> ch_offset (tree_children root cs ! h) = length (tree_bytes root (drop (length cs - h) cs))
     \<and> (\<exists>ys. tree_bytes root cs = tree_bytes root (drop (length cs - h) cs) @ ys)
     \<and> take h (tree_children root cs) = tree_children root (drop (length cs - h) cs)"
proof (induction root cs rule: tree_bytes.induct)
  case (2 root k xs cs)
  show ?case
  proof (cases "h = length cs")
    case True
    then show ?thesis by (simp add: nth_append)
  next
    case False
    with 2 have "h < length cs" by simp
    with 2 show ?thesis by (auto simp: nth_append Suc_diff_le)
  qed
qed simp

lemma CBB_discard_child_rep:
  assumes "cbb_rep cbb t" "h < length (snd t)"
  shows "cbb_rep (CBB_discard_child h cbb) (fst t, drop (length (snd t) - h) (snd t))"
  using assms tree_children_nth [OF assms(2), of "fst t"] cbb_repD [OF assms(1)]
  by (auto simp: CBB_discard_child_def cbb_rep_def buffer_holds_def)

lemma CBB_did_write_rep:
  assumes "cbb_rep cbb t" "CBB_did_write h n cbb = (True, cbb')" "h \<le> length (snd t)" "n < 2 ^ 64"
  shows "length (snd t) = h \<and> (\<exists>data. length data = n \<and> cbb_rep cbb' (tree_append data t))"
proof -
  let ?b = "cbb_base cbb" and ?F = "tree_bytes (fst t) (snd t)"
  note b = buffer_holdsD [OF cbb_repD(1) [OF assms(1)]]
  have g: "\<not> (h < length (cbb_children cbb) \<or> size_add (bb_len ?b) n < bb_len ?b \<or> size_add (bb_len ?b) n > bb_cap ?b)"
    "cbb' = cbb\<lparr> cbb_base := ?b\<lparr> bb_len := size_add (bb_len ?b) n \<rparr> \<rparr>"
    using assms(2) by (auto simp: CBB_did_write_def Let_def split: if_splits)
  have sz: "size_add (length ?F) n = length ?F + n"
    using g(1) b assms(4) size_add_overflow_iff [of "length ?F" n] by (auto simp: size_add_small not_le)
  have "cbb_rep cbb' (tree_append (take n (drop (length ?F) (bb_buf ?b))) t)"
    using b g(1) cbb_repD(2) [OF assms(1)] by (auto simp: g(2) cbb_rep_def sz take_add intro!: buffer_holdsI)
  moreover have "length (take n (drop (length ?F) (bb_buf ?b))) = n" using g(1) b sz by auto
  moreover have "length (snd t) = h" using g(1) assms(3) cbb_repD(3) [OF assms(1)] by simp
  ultimately show ?thesis by blast
qed

lemma CBB_reserve_cases:
  assumes "CBB_reserve env h n cbb = (r, cbb')" "cbb_rep cbb t" "n < 2 ^ 64"
  shows "cbb_failed cbb' \<or> (\<exists>u. cbb_rep cbb' u)"
proof -
  obtain ok cbb1 where f: "CBB_flush env h cbb = (ok, cbb1)" by fastforce
  show ?thesis
  proof (cases ok)
    case False
    then show ?thesis using f assms(1,2) cbb_locksD(3) [OF cbb_locks_CBB_flush, of env h cbb cbb1]
      by (auto simp: CBB_reserve_def)
  next
    case True
    then obtain u where u: "cbb_rep cbb1 u" using CBB_flush_outcome [OF assms(2), of env h] f by (auto simp: cbb_outcome_def)
    obtain ok2 base where a: "cbb_buffer_reserve env n (cbb_base cbb1) = (ok2, base)" by fastforce
    have "cbb' = cbb1\<lparr> cbb_base := base \<rparr>" using assms(1) f True a by (cases ok2) (auto simp: CBB_reserve_def)
    then show ?thesis
      using cbb_buffer_reserve_cases [OF cbb_repD(1) [OF u] assms(3) a] cbb_repD(2) [OF u] by (auto simp: cbb_rep_def split: if_splits)
  qed
qed

lemma cbb_writes_keep:
  assumes "cbb_writes env h f" "f cbb = (ok, cbb')" "cbb_failed cbb \<or> (\<exists>t. cbb_rep cbb t)"
  shows "cbb_failed cbb' \<or> (\<exists>t. cbb_rep cbb' t)"
proof -
  note l = cbb_writes_locks [OF assms(1)]
  obtain F where F: "cbb_implements env f F" using cbb_writes_implements [OF assms(1)] by blast
  show ?thesis
  proof (cases "cbb_failed cbb")
    case True
    then show ?thesis using cbb_locksD(1) [OF l] assms(2) by (metis snd_conv)
  next
    case False
    then obtain t where t: "cbb_rep cbb t" using assms(3) by blast
    show ?thesis
    proof (cases ok)
      case True
      then show ?thesis using cbb_implementsD(2) [OF F t] assms(2) by (auto simp: cbb_outcome_def)
    next
      case False
      then show ?thesis using cbb_locksD(3) [OF l] assms(2) t by auto
    qed
  qed
qed

section \<open>Properties\<close>

lemma tree_children_bounds:
  "i < length cs \<Longrightarrow> ch_offset (tree_children root cs ! i) + ch_pending_len_len (tree_children root cs ! i) \<le> length (tree_bytes root cs)"
proof (induction root cs rule: tree_bytes.induct)
  case (2 root k xs cs)
  then show ?case by (cases "i < length cs") (auto simp: nth_append less_Suc_eq)
qed simp

lemma tree_children_ordered:
  "i < j \<Longrightarrow> j < length cs \<Longrightarrow> ch_offset (tree_children root cs ! i) + ch_pending_len_len (tree_children root cs ! i)
     \<le> ch_offset (tree_children root cs ! j)"
proof (induction root cs rule: tree_bytes.induct)
  case (2 root k xs cs)
  then show ?case using tree_children_bounds [of i cs root] by (cases "j < length cs") (auto simp: nth_append less_Suc_eq)
qed simp

text \<open>C18: Closing a length-prefixed child: \<open>CBB_finish\<close> writes the big-endian length of the contents before
  them when it fits in the prefix and fails otherwise, whatever the allocator does.\<close>
theorem CBB_finish_length_prefixed:
  assumes "cbb_rep cbb (root, [(Length_Prefix n, contents)])"
  shows "CBB_finish env 0 cbb =
    (if length contents < 256 ^ n then Some (root @ nat_be n (length contents) @ contents) else None)"
proof (cases "length contents < 256 ^ n")
  case True
  have "tree_flush 0 (root, [(Length_Prefix n, contents)]) = Some (root @ nat_be n (length contents) @ contents, [])"
    using True by (simp add: tree_flush_def)
  moreover have "cbb_room env (cbb_base cbb) (length (root @ nat_be n (length contents) @ contents))"
    using buffer_holdsD(4) [OF cbb_repD(1) [OF assms]] by (simp add: cbb_room_def)
  ultimately show ?thesis using True CBB_finish_rep(2) [OF assms] by simp
next
  case False
  then have "tree_flush 0 (root, [(Length_Prefix n, contents)]) = None" by (simp add: tree_flush_def)
  then show ?thesis using False CBB_finish_rep(1) [OF assms, of env] by (cases "CBB_finish env 0 cbb") auto
qed

theorem CBB_finish_length_prefixed_witness:
  "CBB_finish \<lparr> env_malloc = \<lambda>_. True, env_fill = 0 \<rparr> 0
     \<lparr> cbb_base = \<lparr> bb_buf = [1, 0, 0, 7, 8], bb_len = 5, bb_cap = 5, bb_can_resize = False, bb_error = False \<rparr>,
       cbb_children = [\<lparr> ch_offset = 1, ch_pending_len_len = 2, ch_pending_is_asn1 = False \<rparr>] \<rparr>
   = Some [1, 0, 2, 7, 8]"
proof -
  have "replicate 2 (0 :: u8) = [0, 0]" by (simp add: numeral_2_eq_2)
  then show ?thesis
    by (subst CBB_finish_length_prefixed [where root = "[1]" and n = 2 and contents = "[7, 8]"])
      (simp_all add: cbb_rep_def buffer_holds_def nat_be_def nat_le_numeral)
qed

text \<open>A whole value, written to a fresh builder.\<close>

lemma CBB_finish_element:
  assumes "cbb_rep cbb ([], [])" "cbb_implements env f (tree_add_element 0 tag contents)" "length contents < 2 ^ 32 - 1"
    "f cbb = (ok, cbb')"
  shows "if ok then CBB_finish env 0 cbb' = Some (der_element tag contents)
    else \<not> cbb_room env (cbb_base cbb) (length (der_element tag contents))"
proof -
  have o: "cbb_outcome env cbb (Some (der_element tag contents, [])) (ok, cbb')"
    using cbb_implementsD(2) [OF assms(2,1)] assms(3,4) by (simp add: tree_add_element_def tree_add_def tree_flush_def)
  show ?thesis
  proof (cases ok)
    case True
    then have rep: "cbb_rep cbb' (der_element tag contents, [])" using o by (simp add: cbb_outcome_def)
    have "cbb_room env (cbb_base cbb') (length (der_element tag contents))"
      using buffer_holdsD(4) [OF cbb_repD(1) [OF rep]] by (simp add: cbb_room_def)
    then show ?thesis using True CBB_finish_rep(2) [OF rep] by (simp add: tree_flush_def)
  next
    case False
    then show ?thesis using o by (simp add: cbb_outcome_def)
  qed
qed

lemma CBB_init_room:
  assumes "CBB_init env n = Some cbb" "n \<le> 2 ^ 62" "\<And>k. env_malloc env k" "m \<le> 2 ^ 61"
  shows "cbb_room env (cbb_base cbb) m"
  using CBB_init_rep [OF assms(1)] assms(2-4) by (simp add: cbb_room_def)

lemma length_asn1_int_u64:
  "length (asn1_int (sint (v :: u64))) \<le> 8" "length (asn1_int (int (unat (v :: u64)))) \<le> 9"
proof -
  show "length (asn1_int (int (unat v))) \<le> 9"
  proof (rule length_asn1_int)
    show "- (128 * 256 ^ (9 - 1)) \<le> int (unat v)" by (rule order.trans [OF _ of_nat_0_le_iff]) simp
    show "int (unat v) < 128 * 256 ^ (9 - 1)" using unsigned_less [of v, where ?'a = int] by simp
  qed simp
  show "length (asn1_int (sint v)) \<le> 8"
    using sint_greater_eq [of v] sint_less [of v] by (intro length_asn1_int) simp_all
qed

text \<open>C15: The INTEGER that \<open>CBB_add_asn1_int64\<close> writes into a new builder is read back as the same value by
  \<open>CBS_get_asn1_int64\<close>, for all of the 64-bit values, and with an allocator that does not fail the writing
  does not fail either.\<close>
theorem CBB_asn1_int64_roundtrip:
  assumes "CBB_init env n = Some cbb" "n \<le> 2 ^ 62" "\<And>k. env_malloc env k"
  shows "\<exists>cbb' out. CBB_add_asn1_int64 env 0 v cbb = (True, cbb') \<and> CBB_finish env 0 cbb' = Some out
    \<and> (\<forall>rest. CBS_get_asn1_int64 (out @ rest) = (Some v, rest))"
proof -
  let ?e = "der_element CBS_ASN1_INTEGER (asn1_int (sint v))"
  obtain ok cbb' where run: "CBB_add_asn1_int64_with_tag env 0 v CBS_ASN1_INTEGER cbb = (ok, cbb')" by fastforce
  have "length ?e \<le> 2 ^ 61" using length_asn1_int_u64(1) [of v] by (simp add: der_element_def der_tag_def der_length_def)
  then have "ok \<and> CBB_finish env 0 cbb' = Some ?e"
    using CBB_finish_element [OF _ cbb_implements_int64 _ run] CBB_init_rep [OF assms(1)] CBB_init_room [OF assms]
      length_asn1_int_u64(1) [of v] by (auto split: if_splits)
  then show ?thesis using run by (auto simp: CBB_add_asn1_int64_def CBS_get_asn1_int64_iff)
qed

theorem CBB_asn1_int64_roundtrip_witness:
  "\<exists>cbb' out. CBB_add_asn1_int64 \<lparr> env_malloc = \<lambda>_. True, env_fill = 0 \<rparr> 0 (- 2) (cbb_init [] 0 True) = (True, cbb')
    \<and> CBB_finish \<lparr> env_malloc = \<lambda>_. True, env_fill = 0 \<rparr> 0 cbb' = Some out
    \<and> (\<forall>rest. CBS_get_asn1_int64 (out @ rest) = (Some (- 2), rest))"
  by (rule CBB_asn1_int64_roundtrip [where n = 0]) (simp_all add: CBB_init_def)

text \<open>A SEQUENCE of an INTEGER and an OCTET STRING, through nested children.\<close>

lemma CBB_nested_outcome:
  assumes "CBB_init env n = Some cbb" "length data < 2 ^ 64"
    and "cbb_then (CBB_add_asn1 env 0 CBS_ASN1_SEQUENCE)
           (cbb_then (CBB_add_asn1_uint64 env 1 v) (CBB_add_asn1_octet_string env 1 data)) cbb = (ok, cbb')"
  defines "inner \<equiv> der_element CBS_ASN1_INTEGER (asn1_int (int (unat v))) @ der_element CBS_ASN1_OCTETSTRING data"
  shows "cbb_outcome env cbb (if length data < 2 ^ 32 - 1 then Some (der_tag CBS_ASN1_SEQUENCE, [(Asn1_Length, inner)]) else None) (ok, cbb')"
proof -
  let ?F = "\<lambda>t. Option.bind (tree_add_asn1 0 CBS_ASN1_SEQUENCE t)
        (\<lambda>t. Option.bind (tree_add_element 1 CBS_ASN1_INTEGER (asn1_int (int (unat v))) t)
               (tree_add_element 1 CBS_ASN1_OCTETSTRING data))"
  have "cbb_implements env (cbb_then (CBB_add_asn1 env 0 CBS_ASN1_SEQUENCE)
      (cbb_then (CBB_add_asn1_uint64 env 1 v) (CBB_add_asn1_octet_string env 1 data))) ?F"
    unfolding CBB_add_asn1_uint64_def
    by (intro cbb_implements_then cbb_implements_CBB_add_asn1 cbb_implements_uint64 cbb_implements_octet_string assms(2))
  from cbb_implementsD(2) [OF this, of cbb "([], [])"]
  have "cbb_outcome env cbb (?F ([], [])) (ok, cbb')"
    unfolding assms(3) using CBB_init_rep [OF assms(1)] by blast
  moreover have "?F ([], []) = (if length data < 2 ^ 32 - 1 then Some (der_tag CBS_ASN1_SEQUENCE, [(Asn1_Length, inner)]) else None)"
  proof -
    define c where "c = asn1_int (int (unat v))"
    have "length c < 2 ^ 32 - 1" unfolding c_def by (rule order.strict_trans1 [OF length_asn1_int_u64(2)]) simp
    then show ?thesis unfolding inner_def c_def [symmetric]
      by (simp add: tree_add_asn1_def tree_add_element_def tree_add_def tree_flush_def tree_open_def)
  qed
  ultimately show ?thesis by (simp only:)
qed

text \<open>C14: A SEQUENCE of an INTEGER and an OCTET STRING, written through nested children: if the calls and
  \<open>CBB_finish\<close> succeed, the readers of \<open>cbs.c\<close> take the output apart again into the same two values, with
  nothing left over.\<close>
theorem CBB_nested_roundtrip:
  assumes "CBB_init env n = Some cbb" "length data < 2 ^ 64"
    and "cbb_then (CBB_add_asn1 env 0 CBS_ASN1_SEQUENCE)
           (cbb_then (CBB_add_asn1_uint64 env 1 v) (CBB_add_asn1_octet_string env 1 data)) cbb = (True, cbb')"
    and "CBB_finish env 0 cbb' = Some out"
  shows "\<exists>inner inner'. CBS_get_asn1 CBS_ASN1_SEQUENCE out = (Some inner, [])
    \<and> CBS_get_asn1_uint64 inner = (Some v, inner') \<and> CBS_get_asn1 CBS_ASN1_OCTETSTRING inner' = (Some data, [])"
proof -
  let ?e1 = "der_element CBS_ASN1_INTEGER (asn1_int (int (unat v)))" and ?e2 = "der_element CBS_ASN1_OCTETSTRING data"
  let ?t = "(der_tag CBS_ASN1_SEQUENCE, [(Asn1_Length, ?e1 @ ?e2)])"
  have t: "cbb_rep cbb' ?t" "length data < 2 ^ 32 - 1"
    using CBB_nested_outcome [OF assms(1-3)] by (simp_all add: cbb_outcome_def split: if_splits)
  have "tree_flush 0 ?t = Some (out, [])" using CBB_finish_rep(1) [OF t(1) assms(4)] .
  then have out: "out = der_element CBS_ASN1_SEQUENCE (?e1 @ ?e2)" "length (?e1 @ ?e2) < 2 ^ 32 - 1"
    by (auto simp: tree_flush_def der_element_def split: if_splits)
  then have "CBS_get_asn1 CBS_ASN1_SEQUENCE out = (Some (?e1 @ ?e2), [])"
    by (auto simp: CBS_get_asn1_iff valid_tag_def)
  moreover have "CBS_get_asn1_uint64 (?e1 @ ?e2) = (Some v, ?e2)" by (simp add: CBS_get_asn1_uint64_iff)
  moreover have "CBS_get_asn1 CBS_ASN1_OCTETSTRING ?e2 = (Some data, [])"
    using t(2) by (auto simp: CBS_get_asn1_iff)
  ultimately show ?thesis by blast
qed

theorem CBB_nested_roundtrip_witness:
  "\<exists>cbb' out inner inner'.
    CBB_finish \<lparr> env_malloc = \<lambda>_. True, env_fill = 0 \<rparr> 0 cbb' = Some out \<and> CBS_get_asn1 CBS_ASN1_SEQUENCE out = (Some inner, [])
    \<and> CBS_get_asn1_uint64 inner = (Some 5, inner') \<and> CBS_get_asn1 CBS_ASN1_OCTETSTRING inner' = (Some [1, 2], [])"
proof -
  let ?env = "\<lparr> env_malloc = \<lambda>_. True, env_fill = 0 \<rparr>" and ?cbb = "cbb_init [] 0 True"
  let ?inner = "der_element CBS_ASN1_INTEGER (asn1_int (int (unat (5 :: u64)))) @ der_element CBS_ASN1_OCTETSTRING [1, 2]"
  let ?t = "(der_tag CBS_ASN1_SEQUENCE, [(Asn1_Length, ?inner)])"
  have init: "CBB_init ?env 0 = Some ?cbb" by (simp add: CBB_init_def)
  obtain ok cbb' where r: "cbb_then (CBB_add_asn1 ?env 0 CBS_ASN1_SEQUENCE)
           (cbb_then (CBB_add_asn1_uint64 ?env 1 5) (CBB_add_asn1_octet_string ?env 1 [1, 2])) ?cbb = (ok, cbb')" by fastforce
  have room: "cbb_room ?env (cbb_base ?cbb) m" if "m \<le> 2 ^ 61" for m using CBB_init_room [OF init _ _ that] by simp
  have inner: "length ?inner \<le> 200" "length (der_tag CBS_ASN1_SEQUENCE) = 1"
    using length_asn1_int_u64(2) [of 5] by (simp_all add: der_element_def der_tag_def der_length_def)
  have o: "cbb_outcome ?env ?cbb (Some ?t) (ok, cbb')" using CBB_nested_outcome [OF init _ r] by simp
  have ok using o room [of "tree_size ?t"] inner by (cases ok) (simp_all add: cbb_outcome_def)
  then have rep: "cbb_rep cbb' ?t" and room': "\<And>m. m \<le> 2 ^ 61 \<Longrightarrow> cbb_room ?env (cbb_base cbb') m"
    using o room by (simp_all add: cbb_outcome_def)
  let ?out = "der_tag CBS_ASN1_SEQUENCE @ der_length (length ?inner) @ ?inner"
  have "length ?out \<le> 2 ^ 61" using inner octets_le_iff [of "length ?inner" 1] by (simp add: der_length_def octets.simps)
  then have "CBB_finish ?env 0 cbb' = Some ?out"
    using inner(1) by (intro CBB_finish_rep(2) [OF rep] room') (simp_all add: tree_flush_def)
  with CBB_nested_roundtrip [OF init _ r [unfolded Eq_TrueI [OF \<open>ok\<close>]] this] show ?thesis by auto
qed

text \<open>C19: \<open>CBB_flush_asn1_set_of\<close> makes the encoding of a set canonical: two builders whose current
  contents are the same DER elements in different orders have the same bytes in the same tree afterwards, with
  any \<open>qsort\<close> that sorts.\<close>
theorem CBB_flush_asn1_set_of_canonical:
  assumes "c_qsort qsort" "list_all is_der_element es" "mset es = mset es'"
    and "cbb_rep cbb (root, (k, concat es) # cs)" "cbb_rep cbb' (root, (k, concat es') # cs)"
    and "CBB_flush_asn1_set_of env qsort (Suc (length cs)) cbb = (True, r)"
    and "CBB_flush_asn1_set_of env qsort (Suc (length cs)) cbb' = (True, r')"
  shows "\<exists>t. cbb_rep r t \<and> cbb_rep r' t \<and> tree_top t = concat (qsort compare_set_of_element es)"
proof -
  let ?q = "qsort compare_set_of_element"
  have sorts: "mset (?q xs) = mset xs" for xs by (rule c_qsort.qsort_perm [OF assms(1)])
  have res: "cbb_rep r1 (root, (k, concat (?q es1)) # cs)"
    if es1: "list_all is_der_element es1" "cbb_rep cbb1 (root, (k, concat es1) # cs)"
      and run: "CBB_flush_asn1_set_of env qsort (Suc (length cs)) cbb1 = (True, r1)" for es1 cbb1 r1
  proof -
    have fl: "tree_flush (Suc (length cs)) (root, (k, concat es1) # cs) = Some (root, (k, concat es1) # cs)"
      by (simp add: tree_flush_def)
    obtain es2 where es2: "concat es1 = concat es2" "list_all is_der_element es2"
      and rep: "cbb_rep r1 (root, (k, concat (if length es2 < 2 then es2 else ?q es2)) # cs)"
      using CBB_flush_asn1_set_of_True [OF es1(2) sorts run] unfolding fl by auto
    have "es2 = es1" using set_of_children_concat es1(1) es2 by (metis option.inject)
    moreover have "?q es1 = es1" if "length es1 < 2"
      using that sorts [of es1] by (cases es1; cases "tl es1") (auto dest: arg_cong [where f = size])
    ultimately show ?thesis using rep by (simp split: if_splits)
  qed
  have "list_all is_der_element es'" using assms(2,3) by (metis list.pred_set mset_eq_setD)
  moreover have "?q es = ?q es'"
    by (rule c_qsort.qsort_canonical [OF assms(1) set_of_order.cmp_order_axioms _ assms(3)])
      (simp add: compare_set_of_element_eq_0)
  ultimately show ?thesis using res [OF assms(2,4,6)] res [OF _ assms(5,7)] by (intro exI) auto
qed

text \<open>A builder with one open child that holds the given elements.\<close>

definition one_child :: "bytes list \<Rightarrow> CBB" where
  "one_child es = \<lparr> cbb_base = \<lparr> bb_buf = 0 # concat es, bb_len = Suc (length (concat es)), bb_cap = Suc (length (concat es)),
     bb_can_resize = False, bb_error = False \<rparr>,
     cbb_children = [\<lparr> ch_offset = 0, ch_pending_len_len = 1, ch_pending_is_asn1 = True \<rparr>] \<rparr>"

lemma one_child_rep: "length (concat es) < 2 ^ 64 - 1 \<Longrightarrow> cbb_rep (one_child es) ([], [(Asn1_Length, concat es)])"
  by (simp add: one_child_def cbb_rep_def buffer_holds_def)

lemma one_child_set_of:
  assumes "list_all is_der_element es" "length es = 2" "\<And>k. env_malloc env k"
    "length (concat es) < 2 ^ 63"
  shows "fst (CBB_flush_asn1_set_of env qsort 1 (one_child es))"
proof -
  have "concat es \<noteq> []" using assms(1,2) is_der_element_pos by (cases es) auto
  moreover have "CBB_flush env 1 (one_child es) = (True, one_child es)"
    by (subst CBB_flush.simps) (simp add: one_child_def)
  moreover have "take (CBB_len 1 (one_child es)) (drop (CBB_data 1 (one_child es)) (bb_buf (cbb_base (one_child es)))) = concat es"
    by (simp add: one_child_def CBB_len_def CBB_data_def)
  moreover have "OPENSSL_malloc (env_malloc env) 32" "OPENSSL_malloc (env_malloc env) (length (concat es))"
    using OPENSSL_malloc_all [OF assms(3)] assms(4) by simp_all
  ultimately show ?thesis
    using set_of_children_concat [OF assms(1)] assms(2)
    by (simp add: CBB_flush_asn1_set_of_def cbb_then_def OPENSSL_memdup_def OPENSSL_calloc_def OPENSSL_zalloc_def size_mul_def Let_def)
qed

theorem CBB_flush_asn1_set_of_canonical_witness:
  "\<exists>r r' t. cbb_rep r t \<and> cbb_rep r' t \<and>
    CBB_flush_asn1_set_of \<lparr> env_malloc = \<lambda>_. True, env_fill = 0 \<rparr> (\<lambda>cmp xs. heap_sort cmp (length xs) xs) 1
      (one_child [[2, 1, 5], [1, 1, 0xff]]) = (True, r)
    \<and> CBB_flush_asn1_set_of \<lparr> env_malloc = \<lambda>_. True, env_fill = 0 \<rparr> (\<lambda>cmp xs. heap_sort cmp (length xs) xs) 1
      (one_child [[1, 1, 0xff], [2, 1, 5]]) = (True, r')"
proof -
  let ?env = "\<lparr> env_malloc = \<lambda>_. True, env_fill = 0 \<rparr>" and ?a = "[2, 1, 5] :: bytes" and ?b = "[1, 1, 0xff] :: bytes"
  let ?run = "\<lambda>es. CBB_flush_asn1_set_of ?env (\<lambda>cmp xs. heap_sort cmp (length xs) xs) 1 (one_child es)"
  have el: "is_der_element ?a" "is_der_element ?b"
    unfolding is_der_element_def
    by (rule exI [of _ CBS_ASN1_INTEGER], rule exI [of _ "[5]"], simp add: der_element_def der_tag_def der_length_def)
      (rule exI [of _ CBS_ASN1_BOOLEAN], rule exI [of _ "[0xff]"], simp add: der_element_def der_tag_def der_length_def)
  have "fst (?run [?a, ?b])" "fst (?run [?b, ?a])" by (rule one_child_set_of; simp add: el)+
  then obtain r r' where r: "?run [?a, ?b] = (True, r)" "?run [?b, ?a] = (True, r')"
    by (cases "?run [?a, ?b]"; cases "?run [?b, ?a]") simp
  have "\<exists>t. cbb_rep r t \<and> cbb_rep r' t \<and> tree_top t = concat (heap_sort compare_set_of_element (length [?a, ?b]) [?a, ?b])"
    by (rule CBB_flush_asn1_set_of_canonical
          [OF heap_qsort.c_qsort_axioms, of "[?a, ?b]" "[?b, ?a]" "one_child [?a, ?b]" "[]" Asn1_Length "[]" "one_child [?b, ?a]" ?env r r'])
      (use el r one_child_rep [of "[?a, ?b]"] one_child_rep [of "[?b, ?a]"] in \<open>simp_all add: add_mset_commute\<close>)
  then show ?thesis using r by blast
qed

text \<open>C20: \<open>CBB_add_asn1_oid_from_text\<close> succeeds only on the dotted decimal form of an object identifier with at least
  two components, each below \<open>2 ^ 64\<close>, the first at most 2 and the second at most 39 unless the first is 2.
  Written to a new builder it then yields the contents octets of that identifier, which
  \<open>CBS_is_valid_asn1_oid\<close> accepts.\<close>
theorem CBB_add_asn1_oid_from_text_exact:
  assumes "CBB_init env n = Some cbb" "CBB_add_asn1_oid_from_text env 0 str cbb = (True, cbb')"
  shows "\<exists>ns. valid_oid ns \<and> str = dotted ns \<and> CBB_finish env 0 cbb' = Some (oid_octets ns) \<and> CBS_is_valid_asn1_oid (oid_octets ns)"
proof -
  obtain ns where ns: "valid_oid ns" "str = dotted ns"
    using CBB_add_asn1_oid_from_text_bad [of env 0 str cbb] assms(2) by auto
  have rep: "cbb_rep cbb' (oid_octets ns, [])"
    using cbb_implementsD(2) [OF CBB_add_asn1_oid_from_text_ok [OF ns(1), of env 0], of cbb "([], [])"] CBB_init_rep [OF assms(1)] assms(2) ns(2)
    by (simp add: cbb_outcome_def tree_add_def tree_flush_def)
  have "cbb_room env (cbb_base cbb') (length (oid_octets ns))"
    using buffer_holdsD(4) [OF cbb_repD(1) [OF rep]] by (simp add: cbb_room_def)
  then have "CBB_finish env 0 cbb' = Some (oid_octets ns)" using CBB_finish_rep(2) [OF rep] by (simp add: tree_flush_def)
  moreover obtain a b ms where "ns = a # b # ms" using ns(1) by (rule valid_oid_cases)
  then have "CBS_is_valid_asn1_oid (oid_octets ns)"
    unfolding CBS_is_valid_asn1_oid_iff by (intro exI [of _ "(40 * a + b) # ms"]) simp
  ultimately show ?thesis using ns by blast
qed

theorem CBB_add_asn1_oid_from_text_exact_witness:
  "\<exists>ns. valid_oid ns \<and> [50, 46, 53] = dotted ns \<and> CBS_is_valid_asn1_oid (oid_octets ns)"
proof -
  let ?env = "\<lparr> env_malloc = \<lambda>_. True, env_fill = 0 \<rparr>"
  have init: "CBB_init ?env 0 = Some (cbb_init [] 0 True)" by (simp add: CBB_init_def)
  have d: "dotted [2, 5] = [50, 46, 53]" by (simp add: decimal.simps)
  have "cbb_outcome ?env (cbb_init [] 0 True) (Some (oid_octets [2, 5], [])) (CBB_add_asn1_oid_from_text ?env 0 (dotted [2, 5]) (cbb_init [] 0 True))"
    using cbb_implementsD(2) [OF CBB_add_asn1_oid_from_text_ok [of "[2, 5]"], of "cbb_init [] 0 True" "([], [])" ?env 0] CBB_init_rep [OF init]
    by (simp add: tree_add_def tree_flush_def)
  moreover have "cbb_room ?env (cbb_base (cbb_init [] 0 True)) (length (oid_octets [2, 5]))"
    by (rule CBB_init_room [OF init]) (simp_all add: base128_def)
  ultimately have "fst (CBB_add_asn1_oid_from_text ?env 0 [50, 46, 53] (cbb_init [] 0 True))"
    unfolding d by (auto simp: cbb_outcome_def split: if_splits)
  then obtain cbb' where "CBB_add_asn1_oid_from_text ?env 0 [50, 46, 53] (cbb_init [] 0 True) = (True, cbb')"
    by (cases "CBB_add_asn1_oid_from_text ?env 0 [50, 46, 53] (cbb_init [] 0 True)") simp
  from CBB_add_asn1_oid_from_text_exact [OF init this] show ?thesis by blast
qed

end
