(* ===== verification/Unicode.thy ===== *)
theory Unicode
  imports CbbState
begin

text \<open>
  \<open>crypto/bytestring/unicode.c\<close>: the code points that the ASN.1 string types may hold, and their readers and
  writers in UTF-8, Latin-1, UCS-2 and UTF-32. Shown below: each reader accepts exactly the encodings of valid code
  points (in UTF-8 the shortest ones only), each writer appends exactly that encoding or refuses, and so every
  code point written is read back.
\<close>

unbundle bit_operations_syntax

section \<open>The code\<close>

definition is_valid_code_point :: "u32 \<Rightarrow> bool" where
  "is_valid_code_point v =
     (if v > 0x10ffff \<or> v AND 0xfffe = 0xfffe \<or> (v \<ge> 0xfdd0 \<and> v \<le> 0xfdef) \<or> (v \<ge> 0xd800 \<and> v \<le> 0xdfff)
      then False else True)"

definition BOTTOM_BITS :: "nat \<Rightarrow> u8" where
  "BOTTOM_BITS n = ucast (push_bit n (1 :: u32) - 1)"

definition TOP_BITS :: "nat \<Rightarrow> u8" where
  "TOP_BITS n = NOT (BOTTOM_BITS (8 - n))"

text \<open>The loop over the \<open>len\<close> continuation bytes.\<close>

primrec utf8_loop :: "nat \<Rightarrow> u32 \<Rightarrow> u32 reader" where
  "utf8_loop 0 v = rd_return v"
| "utf8_loop (Suc len) v =
     rd_bind CBS_get_u8 (\<lambda>c.
       if c AND TOP_BITS 2 \<noteq> TOP_BITS 1 then rd_fail
       else utf8_loop len (push_bit 6 v OR ucast (c AND BOTTOM_BITS 6)))"

definition CBS_get_utf8 :: "u32 reader" where
  "CBS_get_utf8 =
     rd_bind CBS_get_u8 (\<lambda>c.
       if c \<le> 0x7f then rd_return (ucast c)
       else
         let start = (if c AND TOP_BITS 3 = TOP_BITS 2 then Some (c AND BOTTOM_BITS 5, 1, 0x80)
                      else if c AND TOP_BITS 4 = TOP_BITS 3 then Some (c AND BOTTOM_BITS 4, 2, 0x800)
                      else if c AND TOP_BITS 5 = TOP_BITS 4 then Some (c AND BOTTOM_BITS 3, 3, 0x10000)
                      else None)
         in case start of
              None \<Rightarrow> rd_fail
            | Some (v, len, lower_bound) \<Rightarrow>
                rd_bind (utf8_loop len (ucast v)) (\<lambda>v.
                  if \<not> is_valid_code_point v \<or> v < lower_bound then rd_fail else rd_return v))"

definition CBS_get_latin1 :: "u32 reader" where
  "CBS_get_latin1 = rd_bind CBS_get_u8 (\<lambda>c. rd_return (ucast c))"

definition CBS_get_ucs2_be :: "u32 reader" where
  "CBS_get_ucs2_be =
     rd_bind CBS_get_u16 (\<lambda>c. if \<not> is_valid_code_point (ucast c) then rd_fail else rd_return (ucast c))"

definition CBS_get_utf32_be :: "u32 reader" where
  "CBS_get_utf32_be = rd_bind CBS_get_u32 (\<lambda>out. if is_valid_code_point out then rd_return out else rd_fail)"

definition CBB_get_utf8_len :: "u32 \<Rightarrow> nat" where
  "CBB_get_utf8_len u = (if u \<le> 0x7f then 1 else if u \<le> 0x7ff then 2 else if u \<le> 0xffff then 3 else 4)"

definition CBB_add_utf8 :: "cbb_env \<Rightarrow> nat \<Rightarrow> u32 \<Rightarrow> cbb_op" where
  "CBB_add_utf8 env h u =
     (if \<not> is_valid_code_point u then (\<lambda>cbb. (False, cbb))
      else if u \<le> 0x7f then CBB_add_u8 env h (ucast u)
      else if u \<le> 0x7ff then
        cbb_then (CBB_add_u8 env h (ucast (ucast (TOP_BITS 2) OR drop_bit 6 u)))
          (CBB_add_u8 env h (ucast (ucast (TOP_BITS 1) OR (u AND ucast (BOTTOM_BITS 6)))))
      else if u \<le> 0xffff then
        cbb_then (CBB_add_u8 env h (ucast (ucast (TOP_BITS 3) OR drop_bit 12 u)))
          (cbb_then (CBB_add_u8 env h (ucast (ucast (TOP_BITS 1) OR (drop_bit 6 u AND ucast (BOTTOM_BITS 6)))))
            (CBB_add_u8 env h (ucast (ucast (TOP_BITS 1) OR (u AND ucast (BOTTOM_BITS 6))))))
      else if u \<le> 0x10ffff then
        cbb_then (CBB_add_u8 env h (ucast (ucast (TOP_BITS 4) OR drop_bit 18 u)))
          (cbb_then (CBB_add_u8 env h (ucast (ucast (TOP_BITS 1) OR (drop_bit 12 u AND ucast (BOTTOM_BITS 6)))))
            (cbb_then (CBB_add_u8 env h (ucast (ucast (TOP_BITS 1) OR (drop_bit 6 u AND ucast (BOTTOM_BITS 6)))))
              (CBB_add_u8 env h (ucast (ucast (TOP_BITS 1) OR (u AND ucast (BOTTOM_BITS 6)))))))
      else (\<lambda>cbb. (False, cbb)))"

definition CBB_add_latin1 :: "cbb_env \<Rightarrow> nat \<Rightarrow> u32 \<Rightarrow> cbb_op" where
  "CBB_add_latin1 env h u = (if u \<le> 0xff then CBB_add_u8 env h (ucast u) else (\<lambda>cbb. (False, cbb)))"

definition CBB_add_ucs2_be :: "cbb_env \<Rightarrow> nat \<Rightarrow> u32 \<Rightarrow> cbb_op" where
  "CBB_add_ucs2_be env h u =
     (if u \<le> 0xffff \<and> is_valid_code_point u then CBB_add_u16 env h (ucast u) else (\<lambda>cbb. (False, cbb)))"

definition CBB_add_utf32_be :: "cbb_env \<Rightarrow> nat \<Rightarrow> u32 \<Rightarrow> cbb_op" where
  "CBB_add_utf32_be env h u = (if is_valid_code_point u then CBB_add_u32 env h u else (\<lambda>cbb. (False, cbb)))"

section \<open>Bit patterns as numbers\<close>

lemma BITS_values:
  "BOTTOM_BITS 3 = 7" "BOTTOM_BITS 4 = 15" "BOTTOM_BITS 5 = 31" "BOTTOM_BITS 6 = 63"
  "TOP_BITS 1 = 0x80" "TOP_BITS (Suc 0) = 0x80" "TOP_BITS 2 = 0xc0" "TOP_BITS 3 = 0xe0" "TOP_BITS 4 = 0xf0" "TOP_BITS 5 = 0xf8"
  by (simp_all add: BOTTOM_BITS_def TOP_BITS_def)

text \<open>A byte with a given pattern in its top bits is the pattern plus the number in the others.\<close>

lemma top_bits_patterns:
  "list_all (\<lambda>n. (of_nat n AND 0xc0 = (0x80 :: u8)) = (n div 64 = 2) \<and> (of_nat n AND 0xe0 = (0xc0 :: u8)) = (n div 32 = 6)
     \<and> (of_nat n AND 0xf0 = (0xe0 :: u8)) = (n div 16 = 14) \<and> (of_nat n AND 0xf8 = (0xf0 :: u8)) = (n div 8 = 30)) [0..<256]"
  by code_simp

lemma top_bits_iff:
  fixes c :: u8
  shows "(c AND 0xc0 = 0x80) = (unat c div 64 = 2)" "(c AND 0xe0 = 0xc0) = (unat c div 32 = 6)"
    "(c AND 0xf0 = 0xe0) = (unat c div 16 = 14)" "(c AND 0xf8 = 0xf0) = (unat c div 8 = 30)"
proof -
  have "unat c \<in> set [0..<256]" using unat_u8_less [of c] by simp
  then have "(of_nat (unat c) AND 0xc0 = (0x80 :: u8)) = (unat c div 64 = 2) \<and> (of_nat (unat c) AND 0xe0 = (0xc0 :: u8)) = (unat c div 32 = 6)
     \<and> (of_nat (unat c) AND 0xf0 = (0xe0 :: u8)) = (unat c div 16 = 14) \<and> (of_nat (unat c) AND 0xf8 = (0xf0 :: u8)) = (unat c div 8 = 30)"
    using top_bits_patterns unfolding list_all_iff by blast
  then show "(c AND 0xc0 = 0x80) = (unat c div 64 = 2)" "(c AND 0xe0 = 0xc0) = (unat c div 32 = 6)"
    "(c AND 0xf0 = 0xe0) = (unat c div 16 = 14)" "(c AND 0xf8 = 0xf0) = (unat c div 8 = 30)" by simp_all
qed

lemma unat_and_low:
  fixes w :: "'a::len word"
  shows "unat (w AND 7) = unat w mod 8" "unat (w AND 15) = unat w mod 16" "unat (w AND 31) = unat w mod 32" "unat (w AND 63) = unat w mod 64"
  using unat_take_bit [of 3 w] unat_take_bit [of 4 w] unat_take_bit [of 5 w] unat_take_bit [of 6 w]
  by (simp_all add: take_bit_eq_mask mask_eq_exp_minus_1)

text \<open>RFC 3629: the shortest encoding.\<close>

definition utf8_cont :: "nat \<Rightarrow> u8" where
  "utf8_cont n = of_nat (128 + n mod 64)"

definition utf8 :: "nat \<Rightarrow> bytes" where
  "utf8 n =
     (if n < 0x80 then [of_nat n]
      else if n < 0x800 then [of_nat (192 + n div 64), utf8_cont n]
      else if n < 0x10000 then [of_nat (224 + n div 64 div 64), utf8_cont (n div 64), utf8_cont n]
      else [of_nat (240 + n div 64 div 64 div 64), utf8_cont (n div 64 div 64), utf8_cont (n div 64), utf8_cont n])"

lemma utf8_loop_cont:
  assumes "unat v * 64 + 64 \<le> 2 ^ 32"
  shows "utf8_loop (Suc k) v (utf8_cont x # cbs) = utf8_loop k (of_nat (unat v * 64 + x mod 64)) cbs"
proof -
  have m: "(128 + y) mod 64 = y mod 64" for y :: nat using mod_mult_self1 [of y 2 64] by (simp add: add.commute)
  have c: "unat (utf8_cont x) = 128 + x mod 64" by (simp add: utf8_cont_def del: of_nat_add of_nat_numeral)
  then have top: "utf8_cont x AND TOP_BITS 2 = TOP_BITS 1" by (simp add: BITS_values top_bits_iff)
  have "unat (ucast (utf8_cont x AND BOTTOM_BITS 6) :: u32) = x mod 64"
    by (simp add: BITS_values unat_ucast_up unat_and_low c m)
  then have "unat (push_bit 6 v OR ucast (utf8_cont x AND BOTTOM_BITS 6)) = unat v * 64 + x mod 64"
    using unat_push_or [of "ucast (utf8_cont x AND BOTTOM_BITS 6)" 6 v] assms by simp
  then have "push_bit 6 v OR ucast (utf8_cont x AND BOTTOM_BITS 6) = of_nat (unat v * 64 + x mod 64)"
    using assms by (simp add: word_unat_eq_iff unat_of_nat del: of_nat_add of_nat_mult)
  then show ?thesis by (simp add: top rd_bind_simps)
qed

lemma utf8_loop_SucE:
  assumes "utf8_loop (Suc k) v cbs = (Some w, rest)" "unat v * 64 + 64 \<le> 2 ^ 32"
  obtains x cbs' where "x < 64" "cbs = utf8_cont x # cbs'" "utf8_loop k (of_nat (unat v * 64 + x)) cbs' = (Some w, rest)"
proof -
  obtain c cbs' where c: "cbs = c # cbs'" "unat c div 64 = 2"
    using assms(1) by (cases cbs) (auto simp: rd_bind_def rd_fail_def BITS_values top_bits_iff split: if_splits)
  have "c = utf8_cont (unat c)" using div_mult_mod_eq [of "unat c" 64] c(2) by (simp add: utf8_cont_def word_unat_eq_iff del: of_nat_add)
  then show thesis using that [of "unat c mod 64" cbs'] assms utf8_loop_cont [OF assms(2), of k "unat c" cbs'] c(1)
    by (simp add: utf8_cont_def)
qed

text \<open>The code points that are accepted.\<close>

lemma is_valid_code_point_iff:
  "is_valid_code_point v \<longleftrightarrow> unat v \<le> 0x10ffff \<and> unat v mod 0x10000 < 0xfffe \<and> \<not> (0xfdd0 \<le> unat v \<and> unat v \<le> 0xfdef)
     \<and> \<not> (0xd800 \<le> unat v \<and> unat v \<le> 0xdfff)"
proof -
  have "(v AND 0xfffe = 0xfffe) = (0xfffe \<le> unat v mod 0x10000)"
  proof -
    have "(0xfffe :: u32) = push_bit 1 (mask 15)" by (simp add: mask_eq_exp_minus_1)
    moreover have "v AND push_bit k m = push_bit k (drop_bit k v AND m)" for k m by (rule bit_word_eqI) (auto simp: bit_simps)
    ultimately have "v AND 0xfffe = push_bit 1 (take_bit 15 (drop_bit 1 v))" by (simp only: take_bit_eq_mask)
    moreover have "unat (push_bit 1 (take_bit 15 (drop_bit 1 v))) = 2 * (unat v div 2 mod 32768)"
      by (simp add: push_bit_eq_mult unat_word_ariths unat_take_bit unat_drop_bit)
    ultimately have u: "unat (v AND 0xfffe) = 2 * (unat v div 2 mod 32768)" by (simp only:)
    have "unat v mod 65536 = 2 * (unat v div 2 mod 32768) + unat v mod 2"
      using mod_mult2_eq [of "unat v" 2 32768] by simp
    moreover have "unat v div 2 mod 32768 < 32768" "unat v mod 2 < 2" by simp_all
    ultimately show ?thesis unfolding word_unat_eq_iff u by (simp; linarith)
  qed
  then show ?thesis by (auto simp: is_valid_code_point_def word_le_nat_alt word_less_nat_alt not_less not_le)
qed

lemma utf8_lead:
  fixes c :: u8
  shows "c AND TOP_BITS 3 = TOP_BITS 2 \<longleftrightarrow> unat c div 32 = 6" "c AND TOP_BITS 4 = TOP_BITS 3 \<longleftrightarrow> unat c div 16 = 14"
    "c AND TOP_BITS 5 = TOP_BITS 4 \<longleftrightarrow> unat c div 8 = 30" "unat (ucast (c AND BOTTOM_BITS 5) :: u32) = unat c mod 32"
    "unat (ucast (c AND BOTTOM_BITS 4) :: u32) = unat c mod 16" "unat (ucast (c AND BOTTOM_BITS 3) :: u32) = unat c mod 8"
    "c \<le> 0x7f \<longleftrightarrow> unat c < 128"
  by (auto simp: BITS_values top_bits_iff unat_ucast_up unat_and_low word_le_nat_alt)

lemma CBS_get_utf8_Cons:
  "CBS_get_utf8 (c # cbs) =
     (let n = unat c;
          finish = (\<lambda>len v lower. rd_bind (utf8_loop len v) (\<lambda>v. if \<not> is_valid_code_point v \<or> v < lower then rd_fail else rd_return v) cbs)
      in if n < 128 then (Some (of_nat n), cbs)
         else if n div 32 = 6 then finish 1 (of_nat (n mod 32)) 0x80
         else if n div 16 = 14 then finish 2 (of_nat (n mod 16)) 0x800
         else if n div 8 = 30 then finish 3 (of_nat (n mod 8)) 0x10000
         else (None, cbs))"
proof -
  have w: "ucast (c AND BOTTOM_BITS 5) = (of_nat (unat c mod 32) :: u32)" "ucast (c AND BOTTOM_BITS 4) = (of_nat (unat c mod 16) :: u32)"
    "ucast (c AND BOTTOM_BITS 3) = (of_nat (unat c mod 8) :: u32)" "ucast c = (of_nat (unat c) :: u32)"
    by (simp_all only: word_unat_eq_iff utf8_lead) (simp_all add: unat_of_nat unat_ucast_up take_bit_nat_eq_self)
  show ?thesis
    unfolding CBS_get_utf8_def rd_bind_def [of CBS_get_u8] CBS_get_u8_simps option.case prod.case utf8_lead(1-3,7) Let_def
    by (cases "unat c < 128"; cases "unat c div 32 = 6"; cases "unat c div 16 = 14"; cases "unat c div 8 = 30")
      (simp_all only: if_True if_False option.case prod.case w rd_return_def rd_fail_def simp_thms)
qed

section \<open>UTF-8\<close>

text \<open>The value of a lead and its continuation bytes.\<close>

definition utf8_value :: "nat \<Rightarrow> nat list \<Rightarrow> nat" where
  "utf8_value a xs = foldl (\<lambda>a x. a * 64 + x mod 64) a xs"

lemma utf8_value_simps [simp]: "utf8_value a [] = a" "utf8_value a (x # xs) = utf8_value (a * 64 + x mod 64) xs"
  by (simp_all add: utf8_value_def)

lemma utf8_step_bound: "a < 64 ^ k \<Longrightarrow> x < 64 \<Longrightarrow> a * 64 + x < 64 ^ Suc k" for a x k :: nat
proof -
  assume a: "a < 64 ^ k" and x: "x < 64"
  then have "Suc a * 64 \<le> 64 ^ k * 64" by (intro mult_right_mono) simp_all
  then show ?thesis using x by simp
qed

lemma utf8_loop_iff:
  "a < 64 ^ k \<Longrightarrow> k + length xs \<le> 5 \<Longrightarrow> utf8_loop (length xs) (of_nat a) (map utf8_cont xs @ rest) = (Some (of_nat (utf8_value a xs)), rest)"
proof (induction xs arbitrary: a k)
  case (Cons x xs)
  have "(64 :: nat) ^ Suc k \<le> 64 ^ 5" using Cons.prems(2) by (intro power_increasing) simp_all
  then have a: "a < 64 ^ 4" using Cons.prems(1) by simp
  then have u: "unat (of_nat a :: u32) = a" by (simp add: unat_of_nat)
  have "utf8_loop (Suc (length xs)) (of_nat a) (utf8_cont x # map utf8_cont xs @ rest)
      = utf8_loop (length xs) (of_nat (a * 64 + x mod 64)) (map utf8_cont xs @ rest)"
    using utf8_loop_cont [of "of_nat a" "length xs" x "map utf8_cont xs @ rest"] a by (simp only: u) simp
  also have "\<dots> = (Some (of_nat (utf8_value (a * 64 + x mod 64) xs)), rest)"
    by (rule Cons.IH [of _ "Suc k"]) (use Cons.prems utf8_step_bound [of a k "x mod 64"] in simp_all)
  finally show ?case by simp
qed (simp add: rd_return_def)

lemma utf8_loop_SomeE:
  assumes "utf8_loop len (of_nat a) cbs = (Some w, rest)" "a < 64 ^ k" "k + len \<le> 5"
  obtains xs where "length xs = len" "\<forall>x \<in> set xs. x < 64" "cbs = map utf8_cont xs @ rest" "w = of_nat (utf8_value a xs)"
proof -
  have "\<exists>xs. length xs = len \<and> (\<forall>x \<in> set xs. x < 64) \<and> cbs = map utf8_cont xs @ rest \<and> w = of_nat (utf8_value a xs)"
    using assms
  proof (induction len arbitrary: a k cbs)
    case (Suc len)
    have "(64 :: nat) ^ Suc k \<le> 64 ^ 5" using Suc.prems(3) by (intro power_increasing) simp_all
    then have a: "a < 64 ^ 4" using Suc.prems(2) by simp
    then have u: "unat (of_nat a :: u32) = a" by (simp add: unat_of_nat)
    obtain x cbs' where x: "x < 64" "cbs = utf8_cont x # cbs'" "utf8_loop len (of_nat (a * 64 + x)) cbs' = (Some w, rest)"
      using utf8_loop_SucE [OF Suc.prems(1)] a unfolding u by auto
    then obtain xs where "length xs = len" "\<forall>x \<in> set xs. x < 64" "cbs' = map utf8_cont xs @ rest" "w = of_nat (utf8_value (a * 64 + x) xs)"
      using Suc.IH [of "a * 64 + x" cbs' "Suc k"] Suc.prems utf8_step_bound [of a k x] by auto
    then show ?case using x by (intro exI [of _ "x # xs"]) simp
  qed (simp add: rd_return_def)
  then show thesis using that by blast
qed

text \<open>The encodings, by the number of bytes.\<close>

lemma utf8_split:
  "n div 64 * 64 + n mod 64 = n" "n div 64 div 64 * 64 + n div 64 mod 64 = n div 64"
  "n div 64 div 64 div 64 * 64 + n div 64 div 64 mod 64 = n div 64 div 64" for n :: nat
  by simp_all

lemma utf8_leads: "x < 32 \<Longrightarrow> (192 + x) div 32 = 6 \<and> (192 + x) mod 32 = x \<and> (192 + x) div 16 \<noteq> 14"
  "y < 16 \<Longrightarrow> (224 + y) div 16 = 14 \<and> (224 + y) mod 16 = y \<and> (224 + y) div 32 = 7"
  "z < 8 \<Longrightarrow> (240 + z) div 8 = 30 \<and> (240 + z) mod 8 = z \<and> (240 + z) div 16 = 15 \<and> (240 + z) div 32 = 7" for x y z :: nat
  by (simp_all add: div_nat_eqI mod_nat_eqI)

lemma CBS_get_utf8_lead:
  assumes "is_valid_code_point v"
  shows "a < 32 \<Longrightarrow> \<not> v < 0x80 \<Longrightarrow> utf8_loop 1 (of_nat a) cs = (Some v, rest) \<Longrightarrow> CBS_get_utf8 (of_nat (192 + a) # cs) = (Some v, rest)"
    and "a < 16 \<Longrightarrow> \<not> v < 0x800 \<Longrightarrow> utf8_loop 2 (of_nat a) cs = (Some v, rest) \<Longrightarrow> CBS_get_utf8 (of_nat (224 + a) # cs) = (Some v, rest)"
    and "a < 8 \<Longrightarrow> \<not> v < 0x10000 \<Longrightarrow> utf8_loop 3 (of_nat a) cs = (Some v, rest) \<Longrightarrow> CBS_get_utf8 (of_nat (240 + a) # cs) = (Some v, rest)"
proof -
  have u: "unat (of_nat (k + a) :: u8) = k + a" if "k + a < 256" for k using that by (simp only: unat_of_nat_u8) simp
  show "CBS_get_utf8 (of_nat (192 + a) # cs) = (Some v, rest)" if "a < 32" "\<not> v < 0x80" "utf8_loop 1 (of_nat a) cs = (Some v, rest)"
    unfolding CBS_get_utf8_Cons Let_def using that utf8_leads(1) [OF that(1)] u [of 192] assms
    by (simp add: rd_bind_def rd_return_def del: utf8_loop.simps of_nat_add of_nat_numeral One_nat_def)
  show "CBS_get_utf8 (of_nat (224 + a) # cs) = (Some v, rest)" if "a < 16" "\<not> v < 0x800" "utf8_loop 2 (of_nat a) cs = (Some v, rest)"
    unfolding CBS_get_utf8_Cons Let_def using that utf8_leads(2) [OF that(1)] u [of 224] assms
    by (simp add: rd_bind_def rd_return_def del: utf8_loop.simps of_nat_add of_nat_numeral One_nat_def)
  show "CBS_get_utf8 (of_nat (240 + a) # cs) = (Some v, rest)" if "a < 8" "\<not> v < 0x10000" "utf8_loop 3 (of_nat a) cs = (Some v, rest)"
    unfolding CBS_get_utf8_Cons Let_def using that utf8_leads(3) [OF that(1)] u [of 240] assms
    by (simp add: rd_bind_def rd_return_def del: utf8_loop.simps of_nat_add of_nat_numeral One_nat_def)
qed

lemma CBS_get_utf8_utf8:
  assumes "is_valid_code_point v"
  shows "CBS_get_utf8 (utf8 (unat v) @ rest) = (Some v, rest)"
proof -
  define n where "n = unat v"
  have v: "of_nat n = v" "is_valid_code_point (of_nat n)" using assms by (simp_all add: n_def)
  have n: "n \<le> 0x10ffff" using assms by (simp add: is_valid_code_point_iff n_def)
  have lt: "0x80 \<le> n \<Longrightarrow> \<not> v < 0x80" "0x800 \<le> n \<Longrightarrow> \<not> v < 0x800" "0x10000 \<le> n \<Longrightarrow> \<not> v < 0x10000"
    by (simp_all add: word_less_nat_alt n_def)
  consider "n < 0x80" | "0x80 \<le> n" "n < 0x800" | "0x800 \<le> n" "n < 0x10000" | "0x10000 \<le> n" by linarith
  then show ?thesis
  proof cases
    case 1
    then show ?thesis using v by (simp add: utf8_def CBS_get_utf8_Cons n_def [symmetric])
  next
    case 2
    then have "n div 64 < 32" by simp
    moreover from this have "utf8_loop 1 (of_nat (n div 64)) (utf8_cont n # rest) = (Some v, rest)"
      using utf8_loop_iff [of "n div 64" 1 "[n]" rest] by (simp add: utf8_split v del: utf8_loop.simps)
    ultimately show ?thesis using 2 CBS_get_utf8_lead(1) [OF assms _ lt(1)] by (simp add: utf8_def n_def [symmetric] del: of_nat_add)
  next
    case 3
    then have "n div 64 div 64 < 16" by simp
    moreover from this have "utf8_loop 2 (of_nat (n div 64 div 64)) (utf8_cont (n div 64) # utf8_cont n # rest) = (Some v, rest)"
      using utf8_loop_iff [of "n div 64 div 64" 1 "[n div 64, n]" rest]
      by (simp only: utf8_value_simps utf8_split v) (simp add: numeral_2_eq_2 del: utf8_loop.simps)
    ultimately have "CBS_get_utf8 (of_nat (224 + n div 64 div 64) # utf8_cont (n div 64) # utf8_cont n # rest) = (Some v, rest)"
      by (rule CBS_get_utf8_lead(2) [OF assms _ lt(2) [OF 3(1)]])
    moreover have "utf8 n = [of_nat (224 + n div 64 div 64), utf8_cont (n div 64), utf8_cont n]"
    proof -
      have "\<not> n < 0x80" "\<not> n < 0x800" using 3 by linarith+
      then show ?thesis using 3 by (simp only: utf8_def if_True if_False)
    qed
    ultimately show ?thesis by (simp only: n_def [symmetric] append_Cons append_Nil)
  next
    case 4
    then have "n div 64 div 64 div 64 < 8" using n by simp
    moreover from this have "utf8_loop 3 (of_nat (n div 64 div 64 div 64)) (utf8_cont (n div 64 div 64) # utf8_cont (n div 64) # utf8_cont n # rest) = (Some v, rest)"
      using utf8_loop_iff [of "n div 64 div 64 div 64" 1 "[n div 64 div 64, n div 64, n]" rest]
      by (simp only: utf8_value_simps utf8_split v) (simp add: numeral_3_eq_3 del: utf8_loop.simps)
    ultimately have "CBS_get_utf8 (of_nat (240 + n div 64 div 64 div 64) # utf8_cont (n div 64 div 64) # utf8_cont (n div 64) # utf8_cont n # rest) = (Some v, rest)"
      by (rule CBS_get_utf8_lead(3) [OF assms _ lt(3) [OF 4]])
    moreover have "utf8 n = [of_nat (240 + n div 64 div 64 div 64), utf8_cont (n div 64 div 64), utf8_cont (n div 64), utf8_cont n]"
    proof -
      have "\<not> n < 0x80" "\<not> n < 0x800" "\<not> n < 0x10000" using 4 by linarith+
      then show ?thesis by (simp only: utf8_def if_False)
    qed
    ultimately show ?thesis by (simp only: n_def [symmetric] append_Cons append_Nil)
  qed
qed

lemma utf8_value_bound: "a < 64 ^ k \<Longrightarrow> utf8_value a xs < 64 ^ (k + length xs)"
proof (induction xs arbitrary: a k)
  case (Cons x xs)
  then show ?case using Cons.IH [of "a * 64 + x mod 64" "Suc k"] utf8_step_bound [of a k "x mod 64"] by simp
qed simp

lemma utf8_digit: "x < 64 \<Longrightarrow> (a * 64 + x) div 64 = a" "x < 64 \<Longrightarrow> x mod 64 = x" "utf8_cont (a * 64 + x) = utf8_cont x" for a x :: nat
  by (simp_all add: utf8_cont_def)

lemma utf8_of_value:
  assumes "x < 64"
  shows "a < 32 \<Longrightarrow> 0x80 \<le> utf8_value a [x] \<Longrightarrow> utf8 (utf8_value a [x]) = [of_nat (192 + a), utf8_cont x]"
    and "a < 16 \<Longrightarrow> y < 64 \<Longrightarrow> 0x800 \<le> utf8_value a [x, y] \<Longrightarrow> utf8 (utf8_value a [x, y]) = [of_nat (224 + a), utf8_cont x, utf8_cont y]"
    and "a < 8 \<Longrightarrow> y < 64 \<Longrightarrow> z < 64 \<Longrightarrow> 0x10000 \<le> utf8_value a [x, y, z]
      \<Longrightarrow> utf8 (utf8_value a [x, y, z]) = [of_nat (240 + a), utf8_cont x, utf8_cont y, utf8_cont z]"
proof -
  define m where "m = a * 64 + x"
  have m: "m div 64 = a" "utf8_cont m = utf8_cont x" "a < k \<Longrightarrow> m < k * 64" for k
    using assms by (simp_all only: m_def utf8_digit)
  show "utf8 (utf8_value a [x]) = [of_nat (192 + a), utf8_cont x]" if "a < 32" "0x80 \<le> utf8_value a [x]"
  proof -
    have "utf8_value a [x] = m" using assms by (simp add: m_def)
    then show ?thesis using that m(1,2) m(3) [OF that(1)] by (simp add: utf8_def)
  qed
  define l where "l = m * 64 + y"
  have l: "l div 64 = m" "utf8_cont l = utf8_cont y" "m < k \<Longrightarrow> l < k * 64" if "y < 64" for k
    using that by (simp_all only: l_def utf8_digit)
  show "utf8 (utf8_value a [x, y]) = [of_nat (224 + a), utf8_cont x, utf8_cont y]" if "a < 16" "y < 64" "0x800 \<le> utf8_value a [x, y]"
  proof -
    have "utf8_value a [x, y] = l" using assms that(2) by (simp only: m_def l_def utf8_value_simps utf8_digit)
    then show ?thesis using that m(1,2) l(1,2) l(3) [OF _ m(3) [OF that(1)]] by (simp add: utf8_def)
  qed
  define k where "k = l * 64 + z"
  show "utf8 (utf8_value a [x, y, z]) = [of_nat (240 + a), utf8_cont x, utf8_cont y, utf8_cont z]"
    if "a < 8" "y < 64" "z < 64" "0x10000 \<le> utf8_value a [x, y, z]"
  proof -
    have "utf8_value a [x, y, z] = k" using assms that(2,3) by (simp only: m_def l_def k_def utf8_value_simps utf8_digit)
    moreover have "k div 64 = l" "utf8_cont k = utf8_cont z" using that(3) by (simp_all only: k_def utf8_digit)
    ultimately show ?thesis using that m(1,2) l(1,2) by (simp add: utf8_def)
  qed
qed

lemma list_1_to_3:
  "length xs = 1 \<longleftrightarrow> (\<exists>x. xs = [x])" "length xs = 2 \<longleftrightarrow> (\<exists>x y. xs = [x, y])" "length xs = 3 \<longleftrightarrow> (\<exists>x y z. xs = [x, y, z])"
  by (auto simp: eval_nat_numeral length_Suc_conv)

lemma utf8_multi:
  assumes run: "rd_bind (utf8_loop len (of_nat a)) (\<lambda>v. if \<not> is_valid_code_point v \<or> v < lower then rd_fail else rd_return v) cs = (Some v, rest)"
    and a: "a < 64" "len \<le> 3"
    and enc: "\<And>xs. length xs = len \<Longrightarrow> \<forall>x \<in> set xs. x < 64 \<Longrightarrow> unat lower \<le> utf8_value a xs
      \<Longrightarrow> utf8_value a xs \<le> 0x10ffff \<Longrightarrow> utf8 (utf8_value a xs) = c # map utf8_cont xs"
  shows "is_valid_code_point v \<and> c # cs = utf8 (unat v) @ rest"
proof -
  have v: "utf8_loop len (of_nat a) cs = (Some v, rest)" "is_valid_code_point v" "\<not> v < lower"
    using run by (auto simp: rd_bind_Some_iff rd_return_def rd_fail_def split: if_splits)
  obtain xs where xs: "length xs = len" "\<forall>x \<in> set xs. x < 64" "cs = map utf8_cont xs @ rest" "v = of_nat (utf8_value a xs)"
    using utf8_loop_SomeE [OF v(1), of 1] a by auto
  have "(64 :: nat) ^ (1 + len) \<le> 64 ^ 4" using a(2) by (intro power_increasing) simp_all
  then have "utf8_value a xs < 64 ^ 4" using utf8_value_bound [of a 1 xs] a(1) xs(1) by simp
  then have u: "unat v = utf8_value a xs" by (simp add: xs(4) unat_of_nat)
  then have "unat lower \<le> utf8_value a xs" "utf8_value a xs \<le> 0x10ffff"
    using v(2,3) by (simp_all add: is_valid_code_point_iff word_less_nat_alt not_less)
  then show ?thesis using enc [OF xs(1,2)] v(2) xs(3) by (simp add: u)
qed

lemma CBS_get_utf8_SomeD:
  assumes "CBS_get_utf8 cbs = (Some v, rest)"
  shows "is_valid_code_point v \<and> cbs = utf8 (unat v) @ rest"
proof -
  obtain c cs where cbs: "cbs = c # cs" using assms by (cases cbs) (auto simp: CBS_get_utf8_def rd_bind_def)
  define n where "n = unat c"
  have c: "c = of_nat n" by (simp add: n_def)
  note run = assms [unfolded cbs CBS_get_utf8_Cons Let_def n_def [symmetric]]
  consider "n < 128" | "n \<ge> 128" "n div 32 = 6" | "n \<ge> 128" "n div 32 \<noteq> 6" "n div 16 = 14" | "n \<ge> 128" "n div 32 \<noteq> 6" "n div 16 \<noteq> 14" "n div 8 = 30"
    | "n \<ge> 128" "n div 32 \<noteq> 6" "n div 16 \<noteq> 14" "n div 8 \<noteq> 30" by linarith
  then show ?thesis
  proof cases
    case 1
    then have "v = of_nat n" "rest = cs" using run by auto
    moreover from this have "unat v = n" using 1 by (simp add: unat_of_nat)
    ultimately show ?thesis using 1 cbs c by (auto simp: is_valid_code_point_iff utf8_def)
  next
    case 2
    then have "192 \<le> n" "n < 224" by arith+
    then obtain a where a: "n = 192 + a" "a < 32" using le_Suc_ex [of 192 n] by auto
    have "utf8 (utf8_value a xs) = c # map utf8_cont xs"
      if "length xs = 1" "\<forall>x \<in> set xs. x < 64" "unat (0x80 :: u32) \<le> utf8_value a xs" for xs
      using that a(2) unfolding list_1_to_3 c a(1) by (auto simp: utf8_of_value simp del: utf8_value_simps of_nat_add)
    then show ?thesis using utf8_multi [of 1 a "0x80" cs v rest c] run 2 a(2) utf8_leads(1) [OF a(2)]
      by (simp add: cbs a(1) del: utf8_loop.simps)
  next
    case 3
    then have "224 \<le> n" "n < 240" by arith+
    then obtain a where a: "n = 224 + a" "a < 16" using le_Suc_ex [of 224 n] by auto
    have "utf8 (utf8_value a xs) = c # map utf8_cont xs"
      if "length xs = 2" "\<forall>x \<in> set xs. x < 64" "unat (0x800 :: u32) \<le> utf8_value a xs" for xs
      using that a(2) unfolding list_1_to_3 c a(1) by (auto simp: utf8_of_value simp del: utf8_value_simps of_nat_add)
    then show ?thesis using utf8_multi [of 2 a "0x800" cs v rest c] run 3 a(2) utf8_leads(2) [OF a(2)]
      by (simp add: cbs a(1) del: utf8_loop.simps)
  next
    case 4
    then have "240 \<le> n" "n < 248" by arith+
    then obtain a where a: "n = 240 + a" "a < 8" using le_Suc_ex [of 240 n] by auto
    have "utf8 (utf8_value a xs) = c # map utf8_cont xs"
      if "length xs = 3" "\<forall>x \<in> set xs. x < 64" "unat (0x10000 :: u32) \<le> utf8_value a xs" for xs
      using that a(2) unfolding list_1_to_3 c a(1) by (auto simp: utf8_of_value simp del: utf8_value_simps of_nat_add)
    then show ?thesis using utf8_multi [of 3 a "0x10000" cs v rest c] run 4 a(2) utf8_leads(3) [OF a(2)]
      by (simp add: cbs a(1) del: utf8_loop.simps)
  next
    case 5
    then show ?thesis using run by simp
  qed
qed

interpretation utf8_codec: codec "\<lambda>v. utf8 (unat v)" CBS_get_utf8 is_valid_code_point
  by unfold_locales (fact CBS_get_utf8_utf8, fact CBS_get_utf8_SomeD)

section \<open>The other encodings\<close>

lemma valid_latin1: "u \<le> (0xff :: u32) \<Longrightarrow> is_valid_code_point u"
  by (auto simp: is_valid_code_point_iff word_le_nat_alt)

definition ucs2_valid :: "u32 \<Rightarrow> bool" where
  "ucs2_valid u \<longleftrightarrow> u \<le> 0xffff \<and> is_valid_code_point u"

definition ucs2_text :: "u32 \<Rightarrow> bytes" where
  "ucs2_text u = nat_be 2 (unat u)"

definition utf32_text :: "u32 \<Rightarrow> bytes" where
  "utf32_text u = nat_be 4 (unat u)"

interpretation latin1_codec: codec "\<lambda>u. [ucast u]" CBS_get_latin1 "\<lambda>u. u \<le> 0xff"
proof unfold_locales
  fix u :: u32 and rest assume "u \<le> 0xff"
  then have "unat u < 256" by (simp add: word_le_nat_alt)
  then have "ucast (ucast u :: u8) = u" by (simp add: word_unat_eq_iff unat_ucast_up unsigned_ucast_eq take_bit_nat_eq_self unat_take_bit)
  then show "CBS_get_latin1 ([ucast u] @ rest) = (Some u, rest)" by (simp add: CBS_get_latin1_def rd_bind_def rd_return_def)
next
  fix u :: u32 and cbs rest assume r: "CBS_get_latin1 cbs = (Some u, rest)"
  then obtain c where c: "cbs = c # rest" "u = ucast c" by (cases cbs) (auto simp: CBS_get_latin1_def rd_bind_def rd_return_def)
  moreover have "ucast (ucast c :: u32) = c" by simp
  moreover have "unat (ucast c :: u32) \<le> 255" using unat_u8_less [of c] by (simp add: unat_ucast_up del: unat_u8_less)
  ultimately show "u \<le> 0xff \<and> cbs = [ucast u] @ rest" by (simp add: word_le_nat_alt)
qed

interpretation ucs2_codec: codec ucs2_text CBS_get_ucs2_be ucs2_valid
proof unfold_locales
  fix u :: u32 and rest assume u: "ucs2_valid u"
  then have l: "unat u < 65536" by (simp add: ucs2_valid_def word_le_nat_alt)
  then have c: "unat (ucast u :: u16) = unat u" by (simp add: unsigned_ucast_eq take_bit_nat_eq_self)
  then have "ucast (ucast u :: u16) = u" by (simp add: word_unat_eq_iff unat_ucast_up)
  moreover have "CBS_get_u16 (ucs2_text u @ rest) = (Some (ucast u), rest)" using u16_codec.dec_enc [of "ucast u" rest] by (simp add: ucs2_text_def c)
  ultimately show "CBS_get_ucs2_be (ucs2_text u @ rest) = (Some u, rest)"
    using u by (simp add: CBS_get_ucs2_be_def rd_bind_def rd_return_def ucs2_valid_def)
next
  fix u :: u32 and cbs rest assume "CBS_get_ucs2_be cbs = (Some u, rest)"
  then obtain c where c: "CBS_get_u16 cbs = (Some c, rest)" "u = ucast c" "is_valid_code_point u"
    by (auto simp: CBS_get_ucs2_be_def rd_bind_Some_iff rd_return_def rd_fail_def split: if_splits)
  have "unat u = unat c" by (simp add: c(2) unat_ucast_up)
  moreover have "unat c < 65536" by (rule unat_lt_pow256)
  ultimately show "ucs2_valid u \<and> cbs = ucs2_text u @ rest"
    using c(1,3) u16_codec.enc_dec [OF c(1)] by (simp add: ucs2_valid_def ucs2_text_def word_le_nat_alt)
qed

interpretation utf32_codec: codec utf32_text CBS_get_utf32_be is_valid_code_point
proof unfold_locales
  fix u :: u32 and rest assume "is_valid_code_point u"
  then show "CBS_get_utf32_be (utf32_text u @ rest) = (Some u, rest)"
    using u32_codec.dec_enc [of u rest] by (simp add: CBS_get_utf32_be_def rd_bind_def rd_return_def utf32_text_def)
next
  fix u :: u32 and cbs rest assume "CBS_get_utf32_be cbs = (Some u, rest)"
  then have "CBS_get_u32 cbs = (Some u, rest)" "is_valid_code_point u"
    by (auto simp: CBS_get_utf32_be_def rd_bind_Some_iff rd_return_def rd_fail_def split: if_splits)
  then show "is_valid_code_point u \<and> cbs = utf32_text u @ rest" using u32_codec.enc_dec by (auto simp: utf32_text_def)
qed

section \<open>Writing\<close>

lemma cont_byte: "ucast (ucast (TOP_BITS 1) OR (w AND ucast (BOTTOM_BITS 6)) :: u32) = utf8_cont (unat w)" for w :: u32
proof -
  have b: "ucast (TOP_BITS 1) = (128 :: u32)" "ucast (BOTTOM_BITS 6) = (63 :: u32)" by (simp_all add: BITS_values)
  have "unat (128 OR (w AND 63)) = 128 + unat w mod 64"
    using unat_push_or [of "w AND 63" 6 2] by (simp add: unat_and_low)
  then show ?thesis unfolding b by (simp add: utf8_cont_def word_unat_eq_iff unsigned_ucast_eq take_bit_eq_mod del: of_nat_add)
qed

lemma lead_byte:
  fixes w :: u32
  shows "unat w < 32 \<Longrightarrow> ucast (ucast (TOP_BITS 2) OR w :: u32) = (of_nat (192 + unat w) :: u8)"
    and "unat w < 16 \<Longrightarrow> ucast (ucast (TOP_BITS 3) OR w :: u32) = (of_nat (224 + unat w) :: u8)"
    and "unat w < 8 \<Longrightarrow> ucast (ucast (TOP_BITS 4) OR w :: u32) = (of_nat (240 + unat w) :: u8)"
  using unat_push_or [of w 5 6] unat_push_or [of w 4 14] unat_push_or [of w 3 30]
  by (simp_all add: BITS_values word_unat_eq_iff unsigned_ucast_eq take_bit_eq_mod del: of_nat_add)

lemma cbb_implements_utf8:
  assumes "is_valid_code_point u"
  shows "cbb_implements env (CBB_add_utf8 env h u) (tree_add h (utf8 (unat u)))"
proof -
  have n: "unat u \<le> 0x10ffff" using assms by (simp add: is_valid_code_point_iff)
  have u: "unat (drop_bit 6 u) = unat u div 64" "unat (drop_bit 12 u) = unat u div 64 div 64" "unat (drop_bit 18 u) = unat u div 64 div 64 div 64"
    by (simp_all add: unat_drop_bit flip: div_mult2_eq)
  define n where "n = unat u"
  have le: "u \<le> 0x7f \<longleftrightarrow> n < 0x80" "u \<le> 0x7ff \<longleftrightarrow> n < 0x800" "u \<le> 0xffff \<longleftrightarrow> n < 0x10000" "u \<le> 0x10ffff"
    using n by (auto simp: word_le_nat_alt n_def)
  have c: "(ucast u :: u8) = of_nat n" by (simp add: n_def word_unat_eq_iff unsigned_ucast_eq take_bit_eq_mod)
  note seq = cbb_implements_seq [OF cbb_implements_CBB_add_u8 cbb_implements_CBB_add_u8, unfolded append_Cons append_Nil]
    cbb_implements_seq [OF cbb_implements_CBB_add_u8 cbb_implements_seq [OF cbb_implements_CBB_add_u8 cbb_implements_CBB_add_u8], unfolded append_Cons append_Nil]
    cbb_implements_seq [OF cbb_implements_CBB_add_u8 cbb_implements_seq [OF cbb_implements_CBB_add_u8
      cbb_implements_seq [OF cbb_implements_CBB_add_u8 cbb_implements_CBB_add_u8]], unfolded append_Cons append_Nil]
  consider "n < 0x80" | "0x80 \<le> n" "n < 0x800" | "0x800 \<le> n" "n < 0x10000" | "0x10000 \<le> n" by linarith
  then show ?thesis
  proof cases
    case 1
    then show ?thesis using assms cbb_implements_CBB_add_u8 [of env h "of_nat n"] unfolding CBB_add_utf8_def le c utf8_def n_def [symmetric] by simp
  next
    case 2
    then have l: "unat (drop_bit 6 u) < 32" by (simp add: u n_def [symmetric])
    have "\<not> n < 0x80" using 2 by linarith
    then show ?thesis using assms 2 seq(1) unfolding CBB_add_utf8_def le cont_byte lead_byte(1) [OF l] u utf8_def n_def [symmetric]
      by (simp only: if_False if_True simp_thms)
  next
    case 3
    then have l: "unat (drop_bit 12 u) < 16" by (simp add: u n_def [symmetric])
    have "\<not> n < 0x80" "\<not> n < 0x800" using 3 by linarith+
    then show ?thesis using assms 3 seq(2) unfolding CBB_add_utf8_def le cont_byte lead_byte(2) [OF l] u utf8_def n_def [symmetric]
      by (simp only: if_False if_True simp_thms)
  next
    case 4
    then have l: "unat (drop_bit 18 u) < 8" using n by (simp add: u n_def [symmetric])
    have "\<not> n < 0x80" "\<not> n < 0x800" "\<not> n < 0x10000" using 4 by linarith+
    then show ?thesis using assms le(4) seq(3) unfolding CBB_add_utf8_def le(1-3) cont_byte lead_byte(3) [OF l] u utf8_def n_def [symmetric]
      by (simp only: if_False if_True simp_thms)
  qed
qed

text \<open>A reader and a writer of the same encoding, and what a caller of both gets.\<close>

locale text_encoding = codec enc dec valid
  for enc :: "u32 \<Rightarrow> bytes" and dec :: "u32 reader" and valid :: "u32 \<Rightarrow> bool" +
  fixes add :: "cbb_env \<Rightarrow> nat \<Rightarrow> u32 \<Rightarrow> cbb_op"
  assumes add_valid: "valid u \<Longrightarrow> cbb_implements env (add env h u) (tree_add h (enc u))"
    and add_invalid: "\<not> valid u \<Longrightarrow> add env h u cbb = (False, cbb)"
    and enc_size: "valid u \<Longrightarrow> 1 \<le> length (enc u) \<and> length (enc u) \<le> 4"
begin

lemma written_and_read:
  assumes init: "CBB_init env n = Some cbb" "n \<le> 2 ^ 62" "\<And>k. env_malloc env k"
  shows "case add env 0 u cbb of
      (False, cbb') \<Rightarrow> \<not> valid u \<and> cbb' = cbb
    | (True, cbb') \<Rightarrow> valid u \<and> (\<exists>out. CBB_finish env 0 cbb' = Some out \<and> (\<forall>rest. dec (out @ rest) = (Some u, rest)))"
proof (cases "valid u")
  case True
  obtain ok cbb' where run: "add env 0 u cbb = (ok, cbb')" by fastforce
  have rep: "cbb_rep cbb ([], [])" using CBB_init_rep [OF init(1)] by blast
  have "cbb_outcome env cbb (Some (enc u, [])) (ok, cbb')"
    using cbb_implementsD(2) [OF add_valid [OF True, of env 0] rep] run by (simp add: tree_add_def tree_flush_def)
  moreover have room: "cbb_room env (cbb_base cbb) m" if "m \<le> 4" for m
    using CBB_init_room [OF init(1,2) init(3), of m] that by simp
  ultimately have "ok" "cbb_rep cbb' (enc u, [])" "cbb_room env (cbb_base cbb') (length (enc u))"
    using enc_size [OF True] by (auto simp: cbb_outcome_def split: if_splits)
  then have "CBB_finish env 0 cbb' = Some (enc u)" using CBB_finish_rep(2) [of cbb' "(enc u, [])" "enc u" env] by (simp add: tree_flush_def)
  then show ?thesis using run \<open>ok\<close> dec_enc [OF True] True by simp
next
  case False
  then show ?thesis by (simp add: add_invalid)
qed

lemma read_size: "dec cbs = (Some u, rest) \<Longrightarrow> valid u \<and> (\<exists>pre. cbs = pre @ rest \<and> 1 \<le> length pre \<and> length pre \<le> 4)"
  using enc_dec enc_size by blast

end

interpretation utf8_enc: text_encoding "\<lambda>v. utf8 (unat v)" CBS_get_utf8 is_valid_code_point CBB_add_utf8
  by unfold_locales (simp_all add: cbb_implements_utf8, simp_all add: CBB_add_utf8_def utf8_def)

interpretation latin1_enc: text_encoding "\<lambda>u. [ucast u]" CBS_get_latin1 "\<lambda>u. u \<le> 0xff" CBB_add_latin1
  by unfold_locales (simp_all add: CBB_add_latin1_def cbb_implements_CBB_add_u8)

interpretation ucs2_enc: text_encoding ucs2_text CBS_get_ucs2_be ucs2_valid CBB_add_ucs2_be
proof unfold_locales
  fix env h and u :: u32 assume u: "ucs2_valid u"
  then have "unat u < 65536" by (simp add: ucs2_valid_def word_le_nat_alt)
  then have "unat (ucast (ucast u :: u16) :: u64) = unat u" "unat u < 256 ^ 2"
    by (simp_all add: unat_ucast_up) (simp_all add: unsigned_ucast_eq unat_take_bit take_bit_nat_eq_self)
  then show "cbb_implements env (CBB_add_ucs2_be env h u) (tree_add h (ucs2_text u))"
    using u cbb_implements_add_u [of "ucast (ucast u :: u16)" 2 env h]
    by (simp add: CBB_add_ucs2_be_def CBB_add_u16_def ucs2_valid_def ucs2_text_def)
qed (auto simp: CBB_add_ucs2_be_def ucs2_valid_def ucs2_text_def)

interpretation utf32_enc: text_encoding utf32_text CBS_get_utf32_be is_valid_code_point CBB_add_utf32_be
proof unfold_locales
  fix env h and u :: u32 assume u: "is_valid_code_point u"
  have "unat (ucast u :: u64) = unat u" by (simp add: unat_ucast_up)
  moreover have "unat u < 256 ^ 4" using unat_lt_pow256(2) [of u] by simp
  ultimately show "cbb_implements env (CBB_add_utf32_be env h u) (tree_add h (utf32_text u))"
    using u cbb_implements_add_u [of "ucast u" 4 env h] by (simp add: CBB_add_utf32_be_def CBB_add_u32_def utf32_text_def)
qed (simp_all add: CBB_add_utf32_be_def utf32_text_def)

section \<open>Properties\<close>

text \<open>C38: \<open>CBS_get_utf8\<close> accepts exactly the RFC 3629 encoding of a valid code point, in its shortest form: overlong
  forms, surrogates, noncharacters and values beyond U+10FFFF are refused; and \<open>CBB_get_utf8_len\<close> is the length
  of that encoding.\<close>
theorem CBS_get_utf8_exact:
  "(CBS_get_utf8 cbs = (Some v, rest)) = (is_valid_code_point v \<and> cbs = utf8 (unat v) @ rest)
   \<and> CBB_get_utf8_len v = length (utf8 (unat v))"
  using utf8_codec.dec_iff [of cbs v rest] by (simp add: CBB_get_utf8_len_def utf8_def word_le_nat_alt)

text \<open>C39: Every code point that one of the four readers returns is one that may be interchanged, and it was read from between one
  and four bytes; what follows them is left for the next call.\<close>
theorem code_point_readers_valid:
  assumes "rd \<in> {CBS_get_utf8, CBS_get_latin1, CBS_get_ucs2_be, CBS_get_utf32_be}" "rd cbs = (Some v, rest)"
  shows "is_valid_code_point v \<and> (\<exists>pre. cbs = pre @ rest \<and> 1 \<le> length pre \<and> length pre \<le> 4)"
proof -
  consider "CBS_get_utf8 cbs = (Some v, rest)" | "CBS_get_latin1 cbs = (Some v, rest)" | "CBS_get_ucs2_be cbs = (Some v, rest)"
    | "CBS_get_utf32_be cbs = (Some v, rest)" using assms by blast
  then show ?thesis
  proof cases
    case 2
    then show ?thesis using latin1_enc.read_size valid_latin1 by blast
  next
    case 3
    then show ?thesis using ucs2_enc.read_size by (fastforce simp: ucs2_valid_def)
  qed (use utf8_enc.read_size utf32_enc.read_size in blast)+
qed

theorem code_point_readers_valid_witness: "is_valid_code_point 0xe9 \<and> (\<exists>pre. [0xc3, 0xa9, 0x21] = pre @ [0x21 :: u8] \<and> 1 \<le> length pre \<and> length pre \<le> 4)"
proof -
  have "CBS_get_utf8 [0xc3, 0xa9, 0x21] = (Some 0xe9, [0x21])" by code_simp
  then show ?thesis by (rule code_point_readers_valid [rotated]) simp
qed

text \<open>C40: In each of the four encodings, a code point written to a new builder is read back from the finished output, with
  whatever follows it left over; with an allocator that does not fail the writer refuses exactly the code points
  the encoding cannot hold, and then leaves the builder as it was.\<close>
theorem code_points_written_and_read:
  assumes "CBB_init env n = Some cbb" "n \<le> 2 ^ 62" "\<And>k. env_malloc env k"
    and "(add, dec, valid) \<in> {(CBB_add_utf8, CBS_get_utf8, is_valid_code_point), (CBB_add_latin1, CBS_get_latin1, \<lambda>u. u \<le> 0xff),
      (CBB_add_ucs2_be, CBS_get_ucs2_be, \<lambda>u. u \<le> 0xffff \<and> is_valid_code_point u), (CBB_add_utf32_be, CBS_get_utf32_be, is_valid_code_point)}"
  shows "case add env 0 u cbb of
      (False, cbb') \<Rightarrow> \<not> valid u \<and> cbb' = cbb
    | (True, cbb') \<Rightarrow> valid u \<and> (\<exists>out. CBB_finish env 0 cbb' = Some out \<and> (\<forall>rest. dec (out @ rest) = (Some u, rest)))"
  using utf8_enc.written_and_read [OF assms(1-3), of u] latin1_enc.written_and_read [OF assms(1-3), of u]
    ucs2_enc.written_and_read [OF assms(1-3), of u, unfolded ucs2_valid_def] utf32_enc.written_and_read [OF assms(1-3), of u] assms(4)
  by (elim insertE emptyE; elim Pair_inject; simp only:)

theorem code_points_written_and_read_witness:
  "\<exists>cbb' out. CBB_add_utf8 \<lparr> env_malloc = \<lambda>_. True, env_fill = 0 \<rparr> 0 0xe9 (cbb_init [] 0 True) = (True, cbb')
     \<and> CBB_finish \<lparr> env_malloc = \<lambda>_. True, env_fill = 0 \<rparr> 0 cbb' = Some out \<and> (\<forall>rest. CBS_get_utf8 (out @ rest) = (Some 0xe9, rest))"
proof -
  have "is_valid_code_point 0xe9" by code_simp
  moreover have "case CBB_add_utf8 \<lparr> env_malloc = \<lambda>_. True, env_fill = 0 \<rparr> 0 0xe9 (cbb_init [] 0 True) of
      (False, cbb') \<Rightarrow> \<not> is_valid_code_point 0xe9 \<and> cbb' = cbb_init [] 0 True
    | (True, cbb') \<Rightarrow> is_valid_code_point 0xe9 \<and> (\<exists>out. CBB_finish \<lparr> env_malloc = \<lambda>_. True, env_fill = 0 \<rparr> 0 cbb' = Some out
        \<and> (\<forall>rest. CBS_get_utf8 (out @ rest) = (Some 0xe9, rest)))"
    by (rule code_points_written_and_read [where n = 0]) (simp_all add: CBB_init_def)
  ultimately show ?thesis by (auto split: prod.splits bool.splits)
qed

end
