(* ===== verification/CbbCalls.thy ===== *)
theory CbbCalls
  imports Unicode
begin

text \<open>
  All the functions of \<open>bytestring.h\<close> that act on a \<open>CBB\<close>, as one datatype of calls: the states that sequences of calls
  can reach, and what a failing call leaves behind.
\<close>

unbundle bit_operations_syntax

section \<open>Calls\<close>

text \<open>
  The functions that only fix a tag (\<open>CBB_add_asn1_uint64\<close>, \<open>CBB_add_asn1_int64\<close>) are instances. \<open>Add_space\<close> and
  \<open>Reserve\<close> come with what the caller then writes to the memory it is given: all of it, or a part.
\<close>

datatype cbb_call =
    Flush | Flush_asn1_set_of | Discard_child
  | Add_bytes bytes | Add_zeros nat | Add_space bytes | Reserve nat bytes | Did_write nat
  | Add_u8 u8 | Add_u16 u16 | Add_u16le u16 | Add_u24 u32 | Add_u32 u32 | Add_u32le u32 | Add_u64 u64 | Add_u64le u64
  | Add_u8_length_prefixed | Add_u16_length_prefixed | Add_u24_length_prefixed | Add_asn1 CBS_ASN1_TAG
  | Add_asn1_uint64_with_tag u64 CBS_ASN1_TAG | Add_asn1_int64_with_tag u64 CBS_ASN1_TAG
  | Add_asn1_octet_string bytes | Add_asn1_bool bool | Add_asn1_oid_from_text bytes
  | Add_utf8 u32 | Add_latin1 u32 | Add_ucs2_be u32 | Add_utf32_be u32

type_synonym c_sort = "(CBS \<Rightarrow> CBS \<Rightarrow> int) \<Rightarrow> CBS list \<Rightarrow> CBS list"

fun run_call :: "cbb_env \<Rightarrow> c_sort \<Rightarrow> nat \<Rightarrow> cbb_call \<Rightarrow> cbb_op" where
  "run_call env qsort h Flush = CBB_flush env h"
| "run_call env qsort h Flush_asn1_set_of = CBB_flush_asn1_set_of env qsort h"
| "run_call env qsort h Discard_child = (\<lambda>cbb. (True, CBB_discard_child h cbb))"
| "run_call env qsort h (Add_bytes data) = CBB_add_bytes env h data"
| "run_call env qsort h (Add_zeros n) = CBB_add_zeros env h n"
| "run_call env qsort h (Add_space data) = (\<lambda>cbb.
     case CBB_add_space env h (length data) cbb of
       (None, cbb) \<Rightarrow> (False, cbb)
     | (Some out, cbb) \<Rightarrow> (True, cbb\<lparr> cbb_base := (cbb_base cbb)\<lparr> bb_buf := buf_write out data (bb_buf (cbb_base cbb)) \<rparr> \<rparr>))"
| "run_call env qsort h (Reserve n data) = (\<lambda>cbb.
     case CBB_reserve env h n cbb of
       (None, cbb) \<Rightarrow> (False, cbb)
     | (Some out, cbb) \<Rightarrow>
         (True, cbb\<lparr> cbb_base := (cbb_base cbb)\<lparr> bb_buf := buf_write out (take n data) (bb_buf (cbb_base cbb)) \<rparr> \<rparr>))"
| "run_call env qsort h (Did_write n) = CBB_did_write h n"
| "run_call env qsort h (Add_u8 v) = CBB_add_u8 env h v"
| "run_call env qsort h (Add_u16 w) = CBB_add_u16 env h w"
| "run_call env qsort h (Add_u16le w) = CBB_add_u16le env h w"
| "run_call env qsort h (Add_u24 x) = CBB_add_u24 env h x"
| "run_call env qsort h (Add_u32 x) = CBB_add_u32 env h x"
| "run_call env qsort h (Add_u32le x) = CBB_add_u32le env h x"
| "run_call env qsort h (Add_u64 y) = CBB_add_u64 env h y"
| "run_call env qsort h (Add_u64le y) = CBB_add_u64le env h y"
| "run_call env qsort h Add_u8_length_prefixed = CBB_add_u8_length_prefixed env h"
| "run_call env qsort h Add_u16_length_prefixed = CBB_add_u16_length_prefixed env h"
| "run_call env qsort h Add_u24_length_prefixed = CBB_add_u24_length_prefixed env h"
| "run_call env qsort h (Add_asn1 tag) = CBB_add_asn1 env h tag"
| "run_call env qsort h (Add_asn1_uint64_with_tag y tag) = CBB_add_asn1_uint64_with_tag env h y tag"
| "run_call env qsort h (Add_asn1_int64_with_tag y tag) = CBB_add_asn1_int64_with_tag env h y tag"
| "run_call env qsort h (Add_asn1_octet_string data) = CBB_add_asn1_octet_string env h data"
| "run_call env qsort h (Add_asn1_bool b) = CBB_add_asn1_bool env h b"
| "run_call env qsort h (Add_asn1_oid_from_text text) = CBB_add_asn1_oid_from_text env h text"
| "run_call env qsort h (Add_utf8 u) = CBB_add_utf8 env h u"
| "run_call env qsort h (Add_latin1 u) = CBB_add_latin1 env h u"
| "run_call env qsort h (Add_ucs2_be u) = CBB_add_ucs2_be env h u"
| "run_call env qsort h (Add_utf32_be u) = CBB_add_utf32_be env h u"

text \<open>Lengths of the caller's data are values of \<open>size_t\<close>.\<close>

fun call_ok :: "cbb_call \<Rightarrow> bool" where
  "call_ok (Add_bytes data) \<longleftrightarrow> length data < 2 ^ 64"
| "call_ok (Add_zeros n) \<longleftrightarrow> n < 2 ^ 64"
| "call_ok (Add_space data) \<longleftrightarrow> length data < 2 ^ 64"
| "call_ok (Reserve n data) \<longleftrightarrow> n < 2 ^ 64"
| "call_ok (Did_write n) \<longleftrightarrow> n < 2 ^ 64"
| "call_ok (Add_asn1_octet_string data) \<longleftrightarrow> length data < 2 ^ 64"
| "call_ok _ \<longleftrightarrow> True"

text \<open>The code points an encoding refuses.\<close>

fun unencodable :: "cbb_call \<Rightarrow> bool" where
  "unencodable (Add_utf8 u) \<longleftrightarrow> \<not> is_valid_code_point u"
| "unencodable (Add_latin1 u) \<longleftrightarrow> u > 0xff"
| "unencodable (Add_ucs2_be u) \<longleftrightarrow> u > 0xffff \<or> \<not> is_valid_code_point u"
| "unencodable (Add_utf32_be u) \<longleftrightarrow> \<not> is_valid_code_point u"
| "unencodable _ \<longleftrightarrow> False"

section \<open>Calls that lock the builder when they fail\<close>

lemma Add_space_eq: "run_call env qsort h (Add_space data) = CBB_add_bytes env h data"
  by (rule ext) (simp add: CBB_add_bytes_def)

lemma cbb_locks_code_points:
  "\<not> unencodable (Add_utf8 u) \<Longrightarrow> cbb_locks h (CBB_add_utf8 env h u)"
  "\<not> unencodable (Add_latin1 u) \<Longrightarrow> cbb_locks h (CBB_add_latin1 env h u)"
  "\<not> unencodable (Add_ucs2_be u) \<Longrightarrow> cbb_locks h (CBB_add_ucs2_be env h u)"
  "\<not> unencodable (Add_utf32_be u) \<Longrightarrow> cbb_locks h (CBB_add_utf32_be env h u)"
proof -
  show "cbb_locks h (CBB_add_utf8 env h u)" if "\<not> unencodable (Add_utf8 u)"
  proof -
    have "u \<le> 0x10ffff" using that by (auto simp: is_valid_code_point_def split: if_splits)
    then show ?thesis using that unfolding CBB_add_utf8_def by (simp add: cbb_locks_add_u8 cbb_locks_seq)
  qed
qed (simp_all add: CBB_add_latin1_def CBB_add_ucs2_be_def CBB_add_utf32_be_def cbb_locks_add_u8 cbb_uint_defs cbb_locks_writes not_less)

lemma unencodable_refused: "unencodable c \<Longrightarrow> run_call env qsort h c cbb = (False, cbb)"
proof (cases c)
  fix u assume u: "unencodable c" and c: "c = Add_latin1 u"
  then have "\<not> u \<le> 0xff" by (simp add: not_le)
  then show ?thesis by (simp add: c CBB_add_latin1_def)
next
  fix u assume u: "unencodable c" and c: "c = Add_ucs2_be u"
  then have "\<not> (u \<le> 0xffff \<and> is_valid_code_point u)" by (auto simp: not_le)
  then show ?thesis by (simp only: c run_call.simps CBB_add_ucs2_be_def if_False)
qed (simp_all add: CBB_add_utf8_def CBB_add_utf32_be_def)

text \<open>The calls whose failures may leave the builder usable.\<close>

fun may_refuse :: "cbb_call \<Rightarrow> bool" where
  "may_refuse Flush_asn1_set_of \<longleftrightarrow> True"
| "may_refuse Discard_child \<longleftrightarrow> True"
| "may_refuse (Reserve n data) \<longleftrightarrow> True"
| "may_refuse (Did_write n) \<longleftrightarrow> True"
| "may_refuse (Add_asn1_oid_from_text text) \<longleftrightarrow> True"
| "may_refuse c \<longleftrightarrow> unencodable c"

lemma run_call_locks: "call_ok c \<Longrightarrow> \<not> may_refuse c \<Longrightarrow> cbb_locks h (run_call env qsort h c)"
  by (cases c)
    (simp_all only: Add_space_eq run_call.simps may_refuse.simps cbb_locks_code_points cbb_locks_writes cbb_uint_defs cbb_locks_length_prefixed
      cbb_locks_CBB_flush cbb_locks_add_asn1 cbb_locks_values call_ok.simps simp_thms)

lemma CBB_reserve_fails: "CBB_reserve env h n cbb = (None, cbb') \<Longrightarrow> h \<le> length (cbb_children cbb) \<Longrightarrow> cbb_failed cbb'"
  using CBB_flush_fails [of env h cbb cbb'] cbb_buffer_reserve_fails
  by (auto simp: CBB_reserve_def split: prod.splits bool.splits)

lemma oid_text_loop_fails:
  "oid_text_loop env h (dotted ns) cbb = (False, cbb') \<Longrightarrow> u64_components ns \<Longrightarrow> h \<le> length (cbb_children cbb) \<Longrightarrow> cbb_failed cbb'"
proof (induction ns arbitrary: cbb)
  case Nil
  then show ?case by (simp add: oid_text_loop.simps)
next
  case (Cons n ns)
  obtain ok c where a: "add_base128_integer env h (of_nat n) cbb = (ok, c)" by fastforce
  have shorter: "length (dotted ns) < length (dotted (n # ns))" by (cases ns) auto
  have "(if ok then oid_text_loop env h (dotted ns) c else (False, c)) = (False, cbb')"
    using Cons.prems(1) parse_dotted_step [OF Cons.prems(2)] a shorter by (subst (asm) oid_text_loop.simps) (auto split: if_splits)
  then show ?case
    using Cons.IH [of c] Cons.prems(2,3) cbb_locksD(2,3) [OF cbb_locks_base128, of env h "of_nat n" cbb c] a by (cases ok) auto
qed

lemma CBB_add_asn1_oid_from_text_fails:
  assumes "CBB_add_asn1_oid_from_text env h (dotted ns) cbb = (False, cbb')" "valid_oid ns" "h \<le> length (cbb_children cbb)"
  shows "cbb_failed cbb'"
proof -
  obtain a b ms where ns: "ns = a # b # ms" and ab: "valid_oid [a, b]" and u64: "u64_components ns"
    using assms(2) by (rule valid_oid_cases)
  have u: "unat (of_nat a :: u64) = a" "unat (of_nat b :: u64) = b" using u64 ns by (simp_all add: unat_of_nat_u64)
  have guard: "\<not> ((of_nat a :: u64) > 2 \<or> ((of_nat a :: u64) < 2 \<and> (of_nat b :: u64) > 39) \<or> (of_nat b :: u64) > UINT64_MAX - 80)"
    unfolding oid_guard u using ab by simp
  have parse: "parse_dotted_decimal (dotted ns) = (Some (of_nat a), dotted (b # ms))"
    "parse_dotted_decimal (dotted (b # ms)) = (Some (of_nat b), dotted ms)"
    using u64 by (simp_all only: ns parse_dotted_step u64_components_simps)
  have run: "CBB_add_asn1_oid_from_text env h (dotted ns) = cbb_then (cbb_then (CBB_flush env h)
      (add_base128_integer env h (40 * of_nat a + of_nat b))) (oid_text_loop env h (dotted ms))"
    unfolding cbb_then_assoc [symmetric]
    by (simp only: CBB_add_asn1_oid_from_text_def parse prod.case option.case Eq_FalseI [OF guard] if_False)
  have l: "cbb_locks h (cbb_then (CBB_flush env h) (add_base128_integer env h (40 * of_nat a + of_nat b)))"
    by (rule cbb_locks_seq [OF cbb_locks_CBB_flush cbb_locks_base128])
  from assms(1) [unfolded run] show ?thesis
  proof (cases rule: cbb_then_cases)
    case (1 c)
    then show ?thesis using oid_text_loop_fails [of env h ms c cbb'] cbb_locksD(2) [OF l 1(1)] u64 ns by simp
  next
    case 2
    then show ?thesis using cbb_locksD(3) [OF l 2(1)] assms(3) by simp
  qed
qed

lemma CBB_flush_asn1_set_of_fails:
  assumes "CBB_flush_asn1_set_of env qsort h cbb = (False, cbb')" "h \<le> length (cbb_children cbb)" "\<not> cbb_failed cbb'"
  shows "CBB_flush env h cbb = (True, cbb') \<and> (let contents = take (CBB_len h cbb') (drop (CBB_data h cbb') (bb_buf (cbb_base cbb')))
     in case set_of_children contents of None \<Rightarrow> True
        | Some es \<Rightarrow> OPENSSL_memdup (env_malloc env) contents = None \<or> OPENSSL_calloc (env_malloc env) (length es) 16 = None)"
  using assms CBB_flush_fails [of env h cbb cbb']
  by (auto simp: CBB_flush_asn1_set_of_def cbb_then_def Let_def split: prod.splits bool.splits option.splits if_splits)

section \<open>Reachable builders\<close>

text \<open>
  The states that a client can bring a builder into. A call is on a \<open>CBB\<close> that is still open; each call of
  \<open>CBB_flush_asn1_set_of\<close> may meet another C library sort.
\<close>

inductive cbb_reach :: "cbb_env \<Rightarrow> CBB \<Rightarrow> bool" for env where
  reach_init: "CBB_init env n = Some cbb \<Longrightarrow> cbb_reach env cbb"
| reach_init_fixed: "length buf < 2 ^ 64 \<Longrightarrow> cbb_reach env (CBB_init_fixed buf)"
| reach_call: "cbb_reach env cbb \<Longrightarrow> h \<le> length (cbb_children cbb) \<Longrightarrow> call_ok c \<Longrightarrow> c_qsort qsort \<Longrightarrow>
    run_call env qsort h c cbb = (ok, cbb') \<Longrightarrow> cbb_reach env cbb'"

text \<open>A builder that an operation has locked, or that represents a tree; operations that keep this.\<close>

definition cbb_sound :: "CBB \<Rightarrow> bool" where
  "cbb_sound cbb \<longleftrightarrow> cbb_failed cbb \<or> (\<exists>t. cbb_rep cbb t)"

definition cbb_keeps :: "cbb_op \<Rightarrow> bool" where
  "cbb_keeps f \<longleftrightarrow> (\<forall>cbb. cbb_sound cbb \<longrightarrow> cbb_sound (snd (f cbb)))"

lemma cbb_keepsD: "cbb_keeps f \<Longrightarrow> cbb_sound cbb \<Longrightarrow> f cbb = (ok, cbb') \<Longrightarrow> cbb_sound cbb'"
  unfolding cbb_keeps_def by (metis snd_conv)

lemma cbb_keepsI: "(\<And>cbb ok cbb'. cbb_sound cbb \<Longrightarrow> f cbb = (ok, cbb') \<Longrightarrow> cbb_sound cbb') \<Longrightarrow> cbb_keeps f"
  unfolding cbb_keeps_def by (metis prod.collapse)

lemma cbb_keeps_op:
  assumes l: "cbb_locks h f" and F: "cbb_implements env f F"
  shows "cbb_keeps f"
proof (rule cbb_keepsI)
  fix cbb ok cbb' assume s: "cbb_sound cbb" and run: "f cbb = (ok, cbb')"
  show "cbb_sound cbb'"
  proof (cases "cbb_failed cbb")
    case True
    then show ?thesis using cbb_locksD(1) [OF l] run by (metis cbb_sound_def snd_conv)
  next
    case False
    then obtain t where t: "cbb_rep cbb t" using s by (auto simp: cbb_sound_def)
    show ?thesis
      using cbb_implementsD(2) [OF F t] cbb_locksD(3) [OF l, of cbb cbb'] run s
      by (cases ok) (auto simp: cbb_outcome_def cbb_sound_def)
  qed
qed

lemma cbb_keeps_then: "cbb_keeps f \<Longrightarrow> cbb_keeps g \<Longrightarrow> cbb_keeps (cbb_then f g)"
  by (rule cbb_keepsI, erule cbb_then_cases) (blast dest: cbb_keepsD)+

lemma cbb_keeps_fail: "cbb_keeps (\<lambda>cbb. (False, cbb))"
  by (simp add: cbb_keeps_def)

lemmas cbb_keeps_flush = cbb_keeps_op [OF cbb_locks_CBB_flush cbb_implements_CBB_flush]
lemmas cbb_keeps_base128 = cbb_keeps_op [OF cbb_locks_base128 cbb_implements_base128]

lemma cbb_keeps_oid_text_loop: "cbb_keeps (oid_text_loop env h cbs)"
proof -
  have "cbb_sound cbb \<Longrightarrow> cbb_sound (snd (oid_text_loop env h cbs cbb))" for cbb
  proof (induction env h cbs cbb rule: oid_text_loop.induct)
    case (1 env h cbs cbb)
    obtain r cbs' where p: "parse_dotted_decimal cbs = (r, cbs')" by fastforce
    show ?case
    proof (cases "cbs \<noteq> [] \<and> (\<exists>a. r = Some a) \<and> length cbs' < length cbs")
      case True
      then obtain a where a: "r = Some a" by blast
      obtain ok c where run: "add_base128_integer env h a cbb = (ok, c)" by fastforce
      have c: "cbb_sound c" by (rule cbb_keepsD [OF cbb_keeps_base128 "1.prems" run])
      have eq: "oid_text_loop env h cbs cbb = (if ok then oid_text_loop env h cbs' c else (False, c))"
        using True a p run by (subst oid_text_loop.simps) (cases ok; simp)
      show ?thesis using "1.IH" [of r cbs' a ok c] True a p run c unfolding eq by (cases ok) simp_all
    next
      case False
      then have "snd (oid_text_loop env h cbs cbb) = cbb" using p by (subst oid_text_loop.simps) (cases r; auto)
      then show ?thesis using "1.prems" by simp
    qed
  qed
  then show ?thesis by (simp add: cbb_keeps_def)
qed

lemma cbb_keeps_oid_from_text: "cbb_keeps (CBB_add_asn1_oid_from_text env h text)"
  unfolding CBB_add_asn1_oid_from_text_def
proof (rule cbb_keeps_then [OF cbb_keeps_flush], rule cbb_keepsI)
  fix cbb ok cbb' assume s: "cbb_sound cbb" and run: "(case parse_dotted_decimal text of
         (None, _) \<Rightarrow> (False, cbb)
       | (Some a, cbs) \<Rightarrow>
           case parse_dotted_decimal cbs of
             (None, _) \<Rightarrow> (False, cbb)
           | (Some b, cbs) \<Rightarrow>
               if a > 2 \<or> (a < 2 \<and> b > 39) \<or> b > UINT64_MAX - 80 then (False, cbb)
               else cbb_then (add_base128_integer env h (40 * a + b)) (oid_text_loop env h cbs) cbb) = (ok, cbb')"
  then have "cbb' = cbb \<or> (\<exists>v cbs. cbb_then (add_base128_integer env h v) (oid_text_loop env h cbs) cbb = (ok, cbb'))"
    by (auto split: prod.splits option.splits if_splits)
  then show "cbb_sound cbb'"
    using s cbb_keepsD [OF cbb_keeps_then [OF cbb_keeps_base128 cbb_keeps_oid_text_loop] s] by blast
qed

lemma cbb_keeps_set_of:
  assumes "c_qsort qsort"
  shows "cbb_keeps (CBB_flush_asn1_set_of env qsort h)"
proof (rule cbb_keepsI)
  fix cbb ok cbb' assume s: "cbb_sound cbb" and run: "CBB_flush_asn1_set_of env qsort h cbb = (ok, cbb')"
  show "cbb_sound cbb'"
  proof (cases ok)
    case True
    then have "\<not> cbb_failed cbb" using run by (auto simp: CBB_flush_asn1_set_of_def cbb_then_def)
    then obtain t where "cbb_rep cbb t" using s by (auto simp: cbb_sound_def)
    then show ?thesis using CBB_flush_asn1_set_of_True [OF _ c_qsort.qsort_perm [OF assms]] run True by (fastforce simp: cbb_sound_def)
  next
    case False
    then have "cbb' = snd (CBB_flush env h cbb)"
      using run by (auto simp: CBB_flush_asn1_set_of_def cbb_then_def Let_def split: prod.splits bool.splits option.splits if_splits)
    then show ?thesis using cbb_keeps_flush s by (simp add: cbb_keeps_def)
  qed
qed

lemma buffer_holds_spare:
  assumes "buffer_holds base xs" "length xs + length data \<le> bb_cap base"
  shows "buffer_holds (base\<lparr> bb_buf := buf_write (length xs) data (bb_buf base) \<rparr>) xs"
  using buffer_holdsD [OF assms(1)] assms(2) by (intro buffer_holdsI) (auto simp: buf_write_def)

lemma cbb_keeps_reserve:
  assumes n: "n < 2 ^ 64"
  shows "cbb_keeps (run_call env qsort h (Reserve n data))"
proof (rule cbb_keepsI)
  fix cbb ok cbb' assume s: "cbb_sound cbb" and run: "run_call env qsort h (Reserve n data) cbb = (ok, cbb')"
  obtain fl c where f: "CBB_flush env h cbb = (fl, c)" by fastforce
  have c: "cbb_sound c" by (rule cbb_keepsD [OF cbb_keeps_flush s f])
  show "cbb_sound cbb'"
  proof (cases "fl \<and> \<not> cbb_failed c")
    case False
    have failed: "cbb_sound d" if "fl" "snd (cbb_buffer_reserve env n (cbb_base c)) = b" "bb_error (cbb_base d) = bb_error b" for d b
    proof -
      have "bb_error (cbb_base c)" using False that(1) by simp
      then have "bb_error b" using that(2) by (auto simp: cbb_buffer_reserve_def Let_def split: if_splits option.splits)
      then show ?thesis using that(3) by (auto simp: cbb_sound_def)
    qed
    show ?thesis
    proof (cases fl)
      case True
      obtain r b where "cbb_buffer_reserve env n (cbb_base c) = (r, b)" by fastforce
      then show ?thesis using run f True failed [OF True, of b cbb'] by (cases r) (auto simp: CBB_reserve_def)
    qed (use run f c in \<open>simp add: CBB_reserve_def\<close>)
  next
    case True
    then obtain t where t: "cbb_rep c t" using c by (auto simp: cbb_sound_def)
    obtain r b where b: "cbb_buffer_reserve env n (cbb_base c) = (r, b)" by fastforce
    note bc = cbb_buffer_reserve_cases [OF cbb_repD(1) [OF t] n b]
    show ?thesis
    proof (cases r)
      case False
      then show ?thesis using run f True b bc by (auto simp: CBB_reserve_def cbb_sound_def)
    next
      case r: True
      let ?F = "tree_bytes (fst t) (snd t)"
      have h: "buffer_holds b ?F" "length ?F + n \<le> bb_cap b" using bc r by simp_all
      have "bb_len b = length ?F" using h(1) by (simp add: buffer_holds_def)
      then have "cbb' = c\<lparr> cbb_base := b\<lparr> bb_buf := buf_write (length ?F) (take n data) (bb_buf b) \<rparr> \<rparr>"
        using run f True b r by (auto simp: CBB_reserve_def)
      moreover have "length ?F + length (take n data) \<le> bb_cap b" using h(2) by simp
      ultimately have "cbb_rep cbb' t"
        using buffer_holds_spare [OF h(1), of "take n data"] cbb_repD(2) [OF t] by (simp add: cbb_rep_def)
      then show ?thesis unfolding cbb_sound_def by blast
    qed
  qed
qed

lemma cbb_keeps_encoding:
  assumes "text_encoding enc dec valid add" "\<And>u. valid u \<Longrightarrow> cbb_locks h (add env h u)"
  shows "cbb_keeps (add env h u)"
proof (cases "valid u")
  case True
  then show ?thesis using cbb_keeps_op [OF assms(2) text_encoding.add_valid [OF assms(1)]] by blast
next
  case False
  then have "add env h u = (\<lambda>cbb. (False, cbb))" using text_encoding.add_invalid [OF assms(1)] by blast
  then show ?thesis by (simp add: cbb_keeps_def)
qed

lemma cbb_keeps_code_points:
  "cbb_keeps (CBB_add_utf8 env h u)" "cbb_keeps (CBB_add_latin1 env h u)" "cbb_keeps (CBB_add_ucs2_be env h u)"
  "cbb_keeps (CBB_add_utf32_be env h u)"
  by (rule cbb_keeps_encoding [OF utf8_enc.text_encoding_axioms] cbb_keeps_encoding [OF latin1_enc.text_encoding_axioms]
      cbb_keeps_encoding [OF ucs2_enc.text_encoding_axioms] cbb_keeps_encoding [OF utf32_enc.text_encoding_axioms],
      rule cbb_locks_code_points, simp add: ucs2_valid_def not_less)+

lemma cbb_keeps_writes: "cbb_writes env h f \<Longrightarrow> cbb_keeps f"
  using cbb_writes_locks cbb_writes_implements cbb_keeps_op by blast

lemma run_call_keeps:
  assumes "call_ok c" "c_qsort qsort" "c \<noteq> Discard_child" "\<And>n. c \<noteq> Did_write n"
  shows "cbb_keeps (run_call env qsort h c)"
proof (cases c)
  case (Add_space data)
  then show ?thesis using assms(1) cbb_keeps_writes [OF cbb_writes.intros(2)] by (simp only: Add_space_eq call_ok.simps)
next
  case (Reserve n data)
  then show ?thesis using assms(1) cbb_keeps_reserve by (simp only: call_ok.simps)
next
  case Flush_asn1_set_of
  then show ?thesis using cbb_keeps_set_of [OF assms(2)] by simp
qed (use assms(1,3,4) in
    \<open>simp_all only: run_call.simps call_ok.simps cbb_keeps_oid_from_text cbb_keeps_code_points cbb_writes.intros [THEN cbb_keeps_writes] simp_thms\<close>)

lemma run_call_sound:
  assumes "cbb_sound cbb" "h \<le> length (cbb_children cbb)" "call_ok c" "c_qsort qsort" "run_call env qsort h c cbb = (ok, cbb')"
  shows "cbb_sound cbb'"
proof -
  consider "c = Discard_child" | n where "c = Did_write n" | "cbb_keeps (run_call env qsort h c)"
    using run_call_keeps [OF assms(3,4)] by blast
  then show ?thesis
  proof cases
    case 1
    show ?thesis
    proof (cases "cbb_failed cbb")
      case True
      then show ?thesis using 1 assms(5) by (auto simp: CBB_discard_child_def cbb_sound_def)
    next
      case False
      then obtain t where t: "cbb_rep cbb t" using assms(1) by (auto simp: cbb_sound_def)
      then show ?thesis using 1 assms(5) CBB_discard_child_rep [OF t, of h] cbb_repD(3) [OF t]
        by (cases "h < length (snd t)") (auto simp: CBB_discard_child_def cbb_sound_def)
    qed
  next
    case (2 n)
    then show ?thesis using assms CBB_did_write_rep [of cbb _ h n cbb'] cbb_repD(3)
      by (cases ok) (fastforce simp: CBB_did_write_def Let_def cbb_sound_def split: if_splits)+
  next
    case 3
    then show ?thesis using cbb_keepsD assms(1,5) by blast
  qed
qed

lemma cbb_reach_sound: "cbb_reach env cbb \<Longrightarrow> cbb_sound cbb"
proof (induction rule: cbb_reach.induct)
  case (reach_call cbb h c qsort ok cbb')
  then show ?case using run_call_sound by blast
next
  case (reach_init_fixed buf)
  then show ?case using CBB_init_fixed_rep unfolding cbb_sound_def by blast
next
  case (reach_init n cbb)
  then show ?case using CBB_init_rep unfolding cbb_sound_def by blast
qed

section \<open>After a failure\<close>

text \<open>A sequence of calls, whatever they return.\<close>

definition run_calls :: "cbb_env \<Rightarrow> c_sort \<Rightarrow> (nat \<times> cbb_call) list \<Rightarrow> CBB \<Rightarrow> CBB" where
  "run_calls env qsort calls cbb = foldl (\<lambda>cbb (h, c). snd (run_call env qsort h c cbb)) cbb calls"

lemma locked_call:
  assumes "cbb_failed cbb"
  shows "cbb_failed (snd (run_call env qsort h c cbb))"
    and "fst (run_call env qsort h c cbb) \<Longrightarrow> c = Discard_child \<or> (\<exists>n. c = Did_write n)"
proof -
  have space [simp]: "CBB_add_space env h n cbb = (None, cbb)" "CBB_reserve env h n cbb = (None, cbb)" for n
    using assms by (simp_all add: CBB_add_space_def CBB_reserve_def)
  have lock: "\<not> fst (f cbb) \<and> cbb_failed (snd (f cbb))" if "cbb_locks h f" for f using cbb_locksD(1) [OF that assms] .
  have "cbb_failed (snd (run_call env qsort h c cbb)) \<and> (fst (run_call env qsort h c cbb) \<longrightarrow> c = Discard_child \<or> (\<exists>n. c = Did_write n))"
  proof (cases "may_refuse c \<or> \<not> call_ok c")
    case False
    then show ?thesis using lock [OF run_call_locks] by blast
  next
    case True
    show ?thesis
    proof (cases "unencodable c")
      case True
      then show ?thesis using unencodable_refused assms by simp
    next
      case False
      then show ?thesis
        using True assms lock [OF cbb_locks_writes(1)] lock [OF cbb_locks_writes(2)] lock [OF cbb_locks_values(3)]
        by (cases c) (simp_all add: CBB_flush_asn1_set_of_def CBB_add_asn1_oid_from_text_def cbb_then_def CBB_discard_child_def CBB_did_write_def Let_def)
    qed
  qed
  then show "cbb_failed (snd (run_call env qsort h c cbb))"
    "fst (run_call env qsort h c cbb) \<Longrightarrow> c = Discard_child \<or> (\<exists>n. c = Did_write n)" by blast+
qed

lemma locked_calls: "cbb_failed cbb \<Longrightarrow> cbb_failed (run_calls env qsort calls cbb)"
  by (induction calls arbitrary: cbb) (auto simp: run_calls_def locked_call(1))

section \<open>Properties\<close>

text \<open>C16: In every state a client can reach by any calls of \<open>bytestring.h\<close>, unless the error flag is set, the length is within the capacity, the
  capacity is the size of the buffer, and the open children lie one inside the other within the length: none of the
  index arithmetic of \<open>CBB_flush\<close>, \<open>CBB_data\<close> or \<open>CBB_len\<close> leaves the buffer.\<close>
theorem CBB_reachable_in_bounds:
  assumes "cbb_reach env cbb" "\<not> bb_error (cbb_base cbb)"
  shows "bb_len (cbb_base cbb) \<le> bb_cap (cbb_base cbb) \<and> length (bb_buf (cbb_base cbb)) = bb_cap (cbb_base cbb)
    \<and> (\<forall>j < length (cbb_children cbb). ch_offset (cbb_children cbb ! j) + ch_pending_len_len (cbb_children cbb ! j) \<le> bb_len (cbb_base cbb)
        \<and> (\<forall>i < j. ch_offset (cbb_children cbb ! i) + ch_pending_len_len (cbb_children cbb ! i) \<le> ch_offset (cbb_children cbb ! j)))"
proof -
  obtain t where t: "cbb_rep cbb t" using cbb_reach_sound [OF assms(1)] assms(2) unfolding cbb_sound_def by blast
  note b = buffer_holdsD [OF cbb_repD(1) [OF t]] and c = cbb_repD(2,3) [OF t]
  have "\<forall>j < length (snd t). ch_offset (tree_children (fst t) (snd t) ! j) + ch_pending_len_len (tree_children (fst t) (snd t) ! j) \<le> tree_size t
      \<and> (\<forall>i < j. ch_offset (tree_children (fst t) (snd t) ! i) + ch_pending_len_len (tree_children (fst t) (snd t) ! i)
           \<le> ch_offset (tree_children (fst t) (snd t) ! j))"
    using tree_children_bounds tree_children_ordered by blast
  then show ?thesis using b c by simp
qed

theorem CBB_reachable_in_bounds_witness:
  "bb_len (cbb_base (CBB_init_fixed (replicate 9 0))) \<le> bb_cap (cbb_base (CBB_init_fixed (replicate 9 0)))"
  using CBB_reachable_in_bounds [OF reach_init_fixed, of "replicate 9 0"] by (simp add: CBB_init_fixed_def cbb_init_def)

text \<open>C17: What a failing call of \<open>bytestring.h\<close> on a \<open>CBB\<close> that is still open leaves behind. Either the builder is locked: then
  after any further calls \<open>CBB_finish\<close> fails, and of the calls only \<open>CBB_did_write\<close>, which does not look at the error flag, and
  \<open>CBB_discard_child\<close>, which returns nothing, may report success. Or the call is one of four that refuse their input
  without locking: \<open>CBB_did_write\<close> and the Unicode writers on a code point they cannot encode, which change nothing,
  \<open>CBB_flush_asn1_set_of\<close>, which has flushed, on contents that are not DER elements or without memory, and
  \<open>CBB_add_asn1_oid_from_text\<close> on a text that is not an object identifier, which may have written its first components.\<close>
theorem CBB_failure_is_final:
  assumes "h \<le> length (cbb_children cbb)" "call_ok c" "run_call env qsort h c cbb = (False, cbb')"
  shows "(bb_error (cbb_base cbb') \<and> (\<forall>calls. CBB_finish env 0 (run_calls env qsort calls cbb') = None
        \<and> (\<forall>h' d. fst (run_call env qsort h' d (run_calls env qsort calls cbb')) \<longrightarrow> d = Discard_child \<or> (\<exists>n. d = Did_write n))))
    \<or> (\<exists>n. c = Did_write n) \<and> cbb' = cbb
    \<or> unencodable c \<and> cbb' = cbb
    \<or> c = Flush_asn1_set_of \<and> CBB_flush env h cbb = (True, cbb')
        \<and> (let contents = take (CBB_len h cbb') (drop (CBB_data h cbb') (bb_buf (cbb_base cbb')))
           in case set_of_children contents of None \<Rightarrow> True
              | Some es \<Rightarrow> OPENSSL_memdup (env_malloc env) contents = None \<or> OPENSSL_calloc (env_malloc env) (length es) 16 = None)
    \<or> (\<exists>text. c = Add_asn1_oid_from_text text \<and> (\<nexists>ns. valid_oid ns \<and> text = dotted ns))"
proof (cases "cbb_failed cbb'")
  case True
  then show ?thesis using locked_calls [OF True] locked_call(2) by (simp add: CBB_finish_def) blast
next
  case False
  then have may: "may_refuse c" using run_call_locks [OF assms(2)] cbb_locksD(3) [of h _ cbb cbb'] assms(1,3) by (metis not_le)
  show ?thesis
  proof (cases "unencodable c")
    case True
    then have "cbb' = cbb" using unencodable_refused assms(3) by simp
    then show ?thesis using True by blast
  next
    case enc: False
    then consider "c = Flush_asn1_set_of" | "c = Discard_child" | n data where "c = Reserve n data" | n where "c = Did_write n"
      | "text" where "c = Add_asn1_oid_from_text text" using may by (cases c) auto
    then show ?thesis
    proof cases
      case 1
      then show ?thesis using CBB_flush_asn1_set_of_fails [of env qsort h cbb cbb'] assms False by simp
    next
      case (3 n data)
      then show ?thesis using CBB_reserve_fails [of env h n cbb cbb'] assms False by (auto split: prod.splits option.splits)
    next
      case (4 n)
      then show ?thesis using assms(3) by (auto simp: CBB_did_write_def Let_def split: if_splits)
    next
      case (5 "text")
      then show ?thesis using CBB_add_asn1_oid_from_text_fails [of env h _ cbb cbb'] assms False by auto
    qed (use assms(3) in simp)
  qed
qed

theorem CBB_failure_is_final_witness:
  "CBB_finish \<lparr> env_malloc = \<lambda>_. True, env_fill = 0 \<rparr> 0
     (snd (run_call \<lparr> env_malloc = \<lambda>_. True, env_fill = 0 \<rparr> (\<lambda>cmp xs. xs) 0 (Add_u8 7) (CBB_init_fixed []))) = None"
proof -
  let ?env = "\<lparr> env_malloc = \<lambda>_. True, env_fill = 0 \<rparr>" and ?cbb = "CBB_init_fixed []"
  have f: "run_call ?env (\<lambda>cmp xs. xs) 0 (Add_u8 7) ?cbb = (False, ?cbb\<lparr> cbb_base := (cbb_base ?cbb)\<lparr> bb_error := True \<rparr> \<rparr>)"
    by (simp add: CBB_add_u8_def cbb_add_u_def CBB_add_space_def CBB_flush.simps CBB_init_fixed_def cbb_init_def
        cbb_buffer_add_def cbb_buffer_reserve_def size_add_def)
  have "run_calls ?env (\<lambda>cmp xs. xs) [] c = c" for c by (simp add: run_calls_def)
  with CBB_failure_is_final [OF _ _ f] show ?thesis unfolding f by (simp del: run_call.simps) metis
qed

end
