(* ===== verification/PosixTime.thy ===== *)
theory PosixTime
  imports Bytestring "HOL-Library.Signed_Division"
begin

text \<open>
  \<open>crypto/asn1/posix_time.c\<close>, the conversion between \<open>struct tm\<close> and POSIX time, and the time
  parsers at the end of \<open>crypto/bytestring/cbs.c\<close>. The quantities of the code are \<open>int64_t\<close> and
  \<open>int\<close> values that its range checks keep far from the limits; they are integers here, with C's division
  towards zero as \<open>sdiv\<close> and \<open>smod\<close>, and the one sum that can overflow is guarded as in the code.
  Shown below: the count of days follows the Gregorian calendar day by day, and the two conversions are inverse to each
  other on the whole range.
\<close>

unbundle bit_operations_syntax

section \<open>Definitions\<close>

abbreviation (input) SECS_PER_HOUR :: int where "SECS_PER_HOUR \<equiv> 60 * 60"
abbreviation (input) SECS_PER_DAY :: int where "SECS_PER_DAY \<equiv> 24 * SECS_PER_HOUR"
abbreviation (input) MIN_POSIX_TIME :: int where "MIN_POSIX_TIME \<equiv> - 62167219200"
abbreviation (input) MAX_POSIX_TIME :: int where "MAX_POSIX_TIME \<equiv> 253402300799"
abbreviation (input) INT64_MAX :: int where "INT64_MAX \<equiv> 2 ^ 63 - 1"
abbreviation (input) INT64_MIN :: int where "INT64_MIN \<equiv> - (2 ^ 63)"
abbreviation (input) INT32_MAX :: int where "INT32_MAX \<equiv> 2 ^ 31 - 1"
abbreviation (input) INT32_MIN :: int where "INT32_MIN \<equiv> - (2 ^ 31)"

record tm =
  tm_sec :: int
  tm_min :: int
  tm_hour :: int
  tm_mday :: int
  tm_mon :: int
  tm_year :: int
  tm_wday :: int
  tm_yday :: int
  tm_isdst :: int

definition is_valid_date :: "int \<Rightarrow> int \<Rightarrow> int \<Rightarrow> bool" where
  "is_valid_date year month day \<longleftrightarrow>
     (if day < 1 \<or> month < 1 \<or> year < 0 \<or> year > 9999 then False
      else if month \<in> {1, 3, 5, 7, 8, 10, 12} then day > 0 \<and> day \<le> 31
      else if month \<in> {4, 6, 9, 11} then day > 0 \<and> day \<le> 30
      else if month = 2 then
        if (year smod 4 = 0 \<and> year smod 100 \<noteq> 0) \<or> year smod 400 = 0 then day > 0 \<and> day \<le> 29
        else day > 0 \<and> day \<le> 28
      else False)"

definition is_valid_time :: "int \<Rightarrow> int \<Rightarrow> int \<Rightarrow> bool" where
  "is_valid_time hours minutes seconds \<longleftrightarrow>
     \<not> (hours < 0 \<or> minutes < 0 \<or> seconds < 0 \<or> hours > 23 \<or> minutes > 59 \<or> seconds > 59)"

definition is_valid_posix_time :: "int \<Rightarrow> bool" where
  "is_valid_posix_time time \<longleftrightarrow> MIN_POSIX_TIME \<le> time \<and> time \<le> MAX_POSIX_TIME"

definition posix_time_from_utc :: "int \<Rightarrow> int \<Rightarrow> int \<Rightarrow> int \<Rightarrow> int \<Rightarrow> int \<Rightarrow> int option" where
  "posix_time_from_utc year month day hours minutes seconds =
     (if \<not> is_valid_date year month day \<or> \<not> is_valid_time hours minutes seconds then None
      else let
        year = (if month \<le> 2 then year - 1 else year);
        era = (if year \<ge> 0 then year else year - 399) sdiv 400;
        year_of_era = year - era * 400;
        day_of_year = (153 * (if month > 2 then month - 3 else month + 9) + 2) sdiv 5 + day - 1;
        day_of_era = year_of_era * 365 + year_of_era sdiv 4 - year_of_era sdiv 100 + day_of_year;
        posix_days = era * 146097 + day_of_era - 719468
      in Some (posix_days * SECS_PER_DAY + hours * SECS_PER_HOUR + minutes * 60 + seconds))"

text \<open>The out-parameters: year, month, day, hours, minutes, seconds.\<close>

definition utc_from_posix_time :: "int \<Rightarrow> (int \<times> int \<times> int \<times> int \<times> int \<times> int) option" where
  "utc_from_posix_time time =
     (if \<not> is_valid_posix_time time then None
      else let
        days = time sdiv SECS_PER_DAY;
        leftover_seconds = time smod SECS_PER_DAY;
        (days, leftover_seconds) = (if leftover_seconds < 0 then (days - 1, leftover_seconds + SECS_PER_DAY)
                                    else (days, leftover_seconds));
        days = days + 719468;
        era = (if days > 0 then days else days - 146096) sdiv 146097;
        day_of_era = days - era * 146097;
        year_of_era = (day_of_era - day_of_era sdiv 1460 + day_of_era sdiv 36524 - day_of_era sdiv 146096) sdiv 365;
        year = year_of_era + era * 400;
        day_of_year = day_of_era - (365 * year_of_era + year_of_era sdiv 4 - year_of_era sdiv 100);
        month_of_year = (5 * day_of_year + 2) sdiv 153;
        month = (if month_of_year < 10 then month_of_year + 3 else month_of_year - 9);
        year = (if month \<le> 2 then year + 1 else year);
        day = day_of_year - (153 * month_of_year + 2) sdiv 5 + 1;
        hours = leftover_seconds sdiv SECS_PER_HOUR;
        leftover_seconds = leftover_seconds smod SECS_PER_HOUR
      in Some (year, month, day, hours, leftover_seconds sdiv 60, leftover_seconds smod 60))"

definition OPENSSL_tm_to_posix :: "tm \<Rightarrow> int option" where
  "OPENSSL_tm_to_posix t =
     posix_time_from_utc (tm_year t + 1900) (tm_mon t + 1) (tm_mday t) (tm_hour t) (tm_min t) (tm_sec t)"

text \<open>
  The nine fields of \<open>struct tm\<close> that the C standard names; the two that some platforms add, \<open>tm_gmtoff\<close> and \<open>tm_zone\<close>, are zeroed
  by the code and are not kept here.
\<close>

definition OPENSSL_posix_to_tm :: "int \<Rightarrow> tm option" where
  "OPENSSL_posix_to_tm time =
     map_option (\<lambda>(year, month, day, hours, minutes, seconds).
         \<lparr> tm_sec = seconds, tm_min = minutes, tm_hour = hours, tm_mday = day, tm_mon = month - 1,
           tm_year = year - 1900, tm_wday = 0, tm_yday = 0, tm_isdst = 0 \<rparr>)
       (utc_from_posix_time time)"

text \<open>The size of \<open>time_t\<close>, four or eight, is the platform's.\<close>

definition OPENSSL_timegm :: "nat \<Rightarrow> tm \<Rightarrow> int option" where
  "OPENSSL_timegm sizeof_time_t t =
     (case OPENSSL_tm_to_posix t of
        None \<Rightarrow> None
      | Some posix_time \<Rightarrow>
          if sizeof_time_t = 4 \<and> (posix_time > INT32_MAX \<or> posix_time < INT32_MIN) then None else Some posix_time)"

definition OPENSSL_gmtime :: "int \<Rightarrow> tm option" where
  "OPENSSL_gmtime time = OPENSSL_posix_to_tm time"

definition OPENSSL_gmtime_adj :: "tm \<Rightarrow> int \<Rightarrow> int \<Rightarrow> tm option" where
  "OPENSSL_gmtime_adj t offset_day offset_sec =
     (case OPENSSL_tm_to_posix t of
        None \<Rightarrow> None
      | Some posix_time \<Rightarrow>
          let posix_time = posix_time + offset_day * SECS_PER_DAY
          in if posix_time > 0 \<and> offset_sec > INT64_MAX - posix_time then None
             else if posix_time < 0 \<and> offset_sec < INT64_MIN - posix_time then None
             else OPENSSL_posix_to_tm (posix_time + offset_sec))"

text \<open>\<open>*out_days\<close> and \<open>*out_secs\<close>.\<close>

definition OPENSSL_gmtime_diff :: "tm \<Rightarrow> tm \<Rightarrow> (int \<times> int) option" where
  "OPENSSL_gmtime_diff from_tm to_tm =
     (case (OPENSSL_tm_to_posix to_tm, OPENSSL_tm_to_posix from_tm) of
        (Some time_to, Some time_from) \<Rightarrow>
          let timediff = time_to - time_from
          in Some (timediff sdiv SECS_PER_DAY, timediff smod SECS_PER_DAY)
      | _ \<Rightarrow> None)"

subsection \<open>Parsing\<close>

definition cbs_get_two_digits :: "int reader" where
  "cbs_get_two_digits =
     rd_bind CBS_get_u8 (\<lambda>first_digit.
       if \<not> OPENSSL_isdigit (uint first_digit) then rd_fail
       else rd_bind CBS_get_u8 (\<lambda>second_digit.
         if \<not> OPENSSL_isdigit (uint second_digit) then rd_fail
         else rd_return ((uint first_digit - 48) * 10 + (uint second_digit - 48))))"

definition is_valid_day :: "int \<Rightarrow> int \<Rightarrow> int \<Rightarrow> bool" where
  "is_valid_day year month day \<longleftrightarrow>
     (if day < 1 then False
      else if month \<in> {1, 3, 5, 7, 8, 10, 12} then day \<le> 31
      else if month \<in> {4, 6, 9, 11} then day \<le> 30
      else if month = 2 then
        if (year smod 4 = 0 \<and> year smod 100 \<noteq> 0) \<or> year smod 400 = 0 then day \<le> 29 else day \<le> 28
      else False)"

text \<open>\<open>if (!f(&copy, &x) || !ok(x)) return 0;\<close>\<close>

definition rd_check :: "'a reader \<Rightarrow> ('a \<Rightarrow> bool) \<Rightarrow> 'a reader" where
  "rd_check m ok = rd_bind m (\<lambda>x. if ok x then rd_return x else rd_fail)"

definition rfc5280_year :: "bool \<Rightarrow> int reader" where
  "rfc5280_year is_gentime =
     (if is_gentime then
        rd_bind cbs_get_two_digits (\<lambda>hi. rd_bind cbs_get_two_digits (\<lambda>lo. rd_return (hi * 100 + lo)))
      else rd_bind cbs_get_two_digits (\<lambda>tmp.
        let year = 1900 + tmp; year = (if year < 1950 then year + 100 else year)
        in if year \<ge> 2050 then rd_fail else rd_return year))"

text \<open>The offset in seconds that follows the time.\<close>

definition rfc5280_offset :: "bool \<Rightarrow> int reader" where
  "rfc5280_offset allow_timezone_offset =
     rd_bind CBS_get_u8 (\<lambda>tz.
       if tz = 90 then rd_return 0
       else if tz = 43 \<or> tz = 45 then
         let offset_sign = (if tz = 43 then 1 else - 1)
         in if \<not> allow_timezone_offset then rd_fail
            else rd_bind (rd_check cbs_get_two_digits (\<lambda>h. h \<le> 23)) (\<lambda>offset_hours.
              rd_bind (rd_check cbs_get_two_digits (\<lambda>m. m \<le> 59)) (\<lambda>offset_minutes.
                rd_return (offset_sign * (offset_hours * 3600 + offset_minutes * 60))))
       else rd_fail)"

definition rfc5280_fields :: "bool \<Rightarrow> bool \<Rightarrow> (int \<times> int \<times> int \<times> int \<times> int \<times> int \<times> int) reader" where
  "rfc5280_fields is_gentime allow_timezone_offset =
     rd_bind (rfc5280_year is_gentime) (\<lambda>year.
     rd_bind (rd_check cbs_get_two_digits (\<lambda>month. \<not> (month < 1 \<or> month > 12))) (\<lambda>month.
     rd_bind (rd_check cbs_get_two_digits (is_valid_day year month)) (\<lambda>day.
     rd_bind (rd_check cbs_get_two_digits (\<lambda>hour. \<not> hour > 23)) (\<lambda>hour.
     rd_bind (rd_check cbs_get_two_digits (\<lambda>minute. \<not> minute > 59)) (\<lambda>minute.
     rd_bind (rd_check cbs_get_two_digits (\<lambda>sec. \<not> sec > 59)) (\<lambda>sec.
     rd_bind (rfc5280_offset allow_timezone_offset) (\<lambda>offset_seconds.
       rd_return (year, month, day, hour, minute, sec, offset_seconds))))))))"

text \<open>
  The return value and \<open>*out_tm\<close> afterwards (\<open>None\<close> for a null pointer): a failing time-zone adjustment
  leaves the fields it was given.
\<close>

definition CBS_parse_rfc5280_time_internal :: "CBS \<Rightarrow> bool \<Rightarrow> bool \<Rightarrow> tm option \<Rightarrow> bool \<times> tm option" where
  "CBS_parse_rfc5280_time_internal cbs is_gentime allow_timezone_offset out_tm =
     (case rfc5280_fields is_gentime allow_timezone_offset cbs of
        (None, _) \<Rightarrow> (False, out_tm)
      | (Some (year, month, day, hour, minute, sec, offset_seconds), copy) \<Rightarrow>
          if length copy \<noteq> 0 then (False, out_tm)
          else case out_tm of
            None \<Rightarrow> (True, None)
          | Some t \<Rightarrow>
              let t = t\<lparr> tm_year := year - 1900, tm_mon := month - 1, tm_mday := day, tm_hour := hour,
                         tm_min := minute, tm_sec := sec \<rparr>
              in if offset_seconds \<noteq> 0 then
                   case OPENSSL_gmtime_adj t 0 offset_seconds of None \<Rightarrow> (False, Some t) | Some t' \<Rightarrow> (True, Some t')
                 else (True, Some t))"

definition CBS_parse_generalized_time :: "CBS \<Rightarrow> tm option \<Rightarrow> bool \<Rightarrow> bool \<times> tm option" where
  "CBS_parse_generalized_time cbs out_tm allow_timezone_offset =
     CBS_parse_rfc5280_time_internal cbs True allow_timezone_offset out_tm"

definition CBS_parse_utc_time :: "CBS \<Rightarrow> tm option \<Rightarrow> bool \<Rightarrow> bool \<times> tm option" where
  "CBS_parse_utc_time cbs out_tm allow_timezone_offset =
     CBS_parse_rfc5280_time_internal cbs False allow_timezone_offset out_tm"

section \<open>C division\<close>

lemma sdiv_div: "0 \<le> a \<Longrightarrow> 0 < b \<Longrightarrow> a sdiv b = a div (b :: int)"
  by (simp add: signed_divide_int_def sgn_if)

lemma smod_mod: "0 \<le> a \<Longrightarrow> 0 < b \<Longrightarrow> a smod b = a mod (b :: int)"
  by (cases "a = 0") (simp_all add: signed_modulo_int_def sgn_if)

text \<open>The code's floor divisions of a number that may be negative.\<close>

lemma neg_sdiv: "a < 0 \<Longrightarrow> 0 < b \<Longrightarrow> a sdiv b = - ((- a) div (b :: int))"
  by (simp add: signed_divide_int_def sgn_if)

lemma sdiv_floor:
  "0 < b \<Longrightarrow> (if y \<ge> 0 then y else y - (b - 1)) sdiv b = y div (b :: int)"
  "0 < b \<Longrightarrow> (if y > 0 then y else y - (b - 1)) sdiv b = y div (b :: int)"
proof -
  have neg: "- ((b - 1 - y) div b) = y div b" if "0 < b" "y \<le> 0"
  proof -
    define q where "q = y div b"
    define r where "r = y mod b"
    have y: "y = b * q + r" "0 \<le> r" "r < b" using that by (simp_all add: q_def r_def)
    have a: "(b * (- q) + (b - 1 - r)) div b = - q + (b - 1 - r) div b" using that by (intro div_mult_self4) simp
    have c: "(b - 1 - r) div b = 0" using y by simp
    have e: "b - 1 - y = b * (- q) + (b - 1 - r)" unfolding y(1) by (simp add: algebra_simps)
    have "(b - 1 - y) div b = - q" by (simp only: e a c add_0_right)
    then show ?thesis by (simp add: q_def)
  qed
  show "0 < b \<Longrightarrow> (if y \<ge> 0 then y else y - (b - 1)) sdiv b = y div b"
    using neg by (auto simp: sdiv_div neg_sdiv)
  show "0 < b \<Longrightarrow> (if y > 0 then y else y - (b - 1)) sdiv b = y div b"
    using neg by (cases "y = 0"; cases "b = 1") (auto simp: sdiv_div neg_sdiv signed_divide_int_def)
qed

section \<open>Division by a constant\<close>

lemma div_interval: "c * q \<le> x \<Longrightarrow> x < c * q + c \<Longrightarrow> x div c = (q :: int)"
  by (intro int_div_pos_eq [of x c q "x - c * q"]) simp_all

lemma le_div_iff: "0 < c \<Longrightarrow> q \<le> x div c \<longleftrightarrow> q * c \<le> (x :: int)"
proof
  assume c: "0 < c" and q: "q \<le> x div c"
  then have "q * c \<le> x div c * c" by (intro mult_right_mono) simp_all
  moreover have "x div c * c + x mod c = x" "0 \<le> x mod c" using c by simp_all
  ultimately show "q * c \<le> x" by linarith
next
  assume "0 < c" "q * c \<le> x"
  then show "q \<le> x div c" using zdiv_mono1 [of "q * c" x c] by simp
qed

lemma div_le_iff: "0 < c \<Longrightarrow> x div c \<le> q \<longleftrightarrow> x < (q + 1) * (c :: int)"
  using le_div_iff [of c "q + 1" x] by auto

lemma div_diff_le: "a \<le> b \<Longrightarrow> 0 < c \<Longrightarrow> b div c - a div c \<le> b - (a :: int)"
proof -
  assume ab: "a \<le> b" and c: "0 < c"
  have "1 * (b - a) \<le> c * (b - a)" using ab c by (intro mult_right_mono) simp_all
  then have "b div c \<le> (a + c * (b - a)) div c" using c by (intro zdiv_mono1) simp_all
  also have "\<dots> = a div c + (b - a)" using c by simp
  finally show ?thesis by simp
qed

lemma succ_div:
  fixes Y c :: int
  assumes "1 < c"
  shows "(Y + 1) div c = Y div c + (if (Y + 1) mod c = 0 then 1 else 0)"
proof -
  define q r where "q = Y div c" and "r = Y mod c"
  have Y: "Y = r + q * c" "0 \<le> r" "r < c" using assms by (simp_all add: q_def r_def)
  show ?thesis
  proof (cases "r + 1 = c")
    case True
    then have e: "Y + 1 = (q + 1) * c" by (simp add: Y(1) algebra_simps)
    show ?thesis unfolding q_def [symmetric] e using assms by simp
  next
    case False
    then have e: "Y + 1 = (r + 1) + q * c" and "0 < r + 1" "r + 1 < c" using Y by simp_all
    then show ?thesis unfolding q_def [symmetric] e by simp
  qed
qed

lemma mod_0_cancel: "c dvd b \<Longrightarrow> x mod b = 0 \<Longrightarrow> x mod c = (0 :: int)"
  using mod_mod_cancel [of c b x] by auto

section \<open>The four-hundred-year cycle\<close>

definition leap_year :: "int \<Rightarrow> bool" where
  "leap_year y \<longleftrightarrow> (y mod 4 = 0 \<and> y mod 100 \<noteq> 0) \<or> y mod 400 = 0"

text \<open>Years that start on 1 March: the day in the cycle on which year \<open>y\<close> starts.\<close>

definition year_start :: "int \<Rightarrow> int" where
  "year_start y = 365 * y + y div 4 - y div 100"

definition year_days :: "int \<Rightarrow> int" where
  "year_days y = (if leap_year (y + 1) then 366 else 365)"

definition cycle_days :: "int \<Rightarrow> int" where
  "cycle_days d = d - d div 1460 + d div 36524 - d div 146096"

lemma cycle_days_step: "cycle_days d \<le> cycle_days (d + 1)"
proof -
  have "(d + 1) div 1460 \<le> (d + 1460) div 1460" by (rule zdiv_mono1) simp_all
  then have "(d + 1) div 1460 \<le> d div 1460 + 1" by simp
  moreover have "d div 146096 = d div 36524 div 4" "(d + 1) div 146096 = (d + 1) div 36524 div 4" 
    by (simp_all flip: zdiv_zmult2_eq)
  moreover have "(d + 1) div 36524 div 4 - d div 36524 div 4 \<le> (d + 1) div 36524 - d div 36524"
    by (intro div_diff_le zdiv_mono1) simp_all
  ultimately show ?thesis unfolding cycle_days_def by linarith
qed

lemma cycle_days_mono: "d \<le> e \<Longrightarrow> cycle_days d \<le> cycle_days e"
  by (induction e rule: int_ge_induct) (auto intro: order.trans cycle_days_step)

lemma cycle_days_ends:
  "list_all (\<lambda>y. 365 * y \<le> cycle_days (year_start y) \<and> cycle_days (year_start y + year_days y - 1) < 365 * (y + 1)) (map int [0..<400])"
  by code_simp


lemma cycle_year:
  assumes "0 \<le> y" "y < 400" "0 \<le> r" "r < year_days y"
  shows "cycle_days (year_start y + r) div 365 = y"
proof -
  have "y \<in> set (map int [0..<400])" using assms(1,2) by (auto intro!: image_eqI [of _ _ "nat y"])
  then have "365 * y \<le> cycle_days (year_start y)" "cycle_days (year_start y + year_days y - 1) < 365 * (y + 1)"
    using cycle_days_ends unfolding list_all_iff by blast+
  then have ends: "365 * y \<le> cycle_days (year_start y)" "cycle_days (year_start y + year_days y - 1) < 365 * y + 365" by simp_all
  have "cycle_days (year_start y) \<le> cycle_days (year_start y + r)"
    "cycle_days (year_start y + r) \<le> cycle_days (year_start y + year_days y - 1)"
    using assms(3,4) by (auto intro: cycle_days_mono)
  then show ?thesis using ends by (intro div_interval) (erule (1) order.trans, erule (1) order.strict_trans1)
qed

text \<open>Every day of the cycle is a day of one of its years.\<close>

lemma year_start_step: "0 \<le> y \<Longrightarrow> y < 399 \<Longrightarrow> year_start (y + 1) = year_start y + year_days y"
proof -
  assume y: "0 \<le> y" "y < 399"
  have four: "(y + 1) div 4 = y div 4 + (if (y + 1) mod 4 = 0 then 1 else 0)"
    and hundred: "(y + 1) div 100 = y div 100 + (if (y + 1) mod 100 = 0 then 1 else 0)" by (simp_all only: succ_div rel_simps)
  have "(y + 1) mod 400 \<noteq> 0" using y mod_pos_pos_trivial [of "y + 1" 400] by linarith
  moreover have "(y + 1) mod 100 = 0 \<Longrightarrow> (y + 1) mod 4 = 0" by (erule mod_0_cancel [rotated]) simp
  moreover define a b :: bool where "a \<longleftrightarrow> (y + 1) mod 4 = 0" and "b \<longleftrightarrow> (y + 1) mod 100 = 0"
  ultimately show ?thesis unfolding year_start_def year_days_def leap_year_def four hundred a_def [symmetric] b_def [symmetric]
    by (cases a; cases b) simp_all
qed

lemma cycle_day_cases:
  assumes "0 \<le> d" "d < 146097"
  obtains y r where "0 \<le> y" "y < 400" "0 \<le> r" "r < year_days y" "d = year_start y + r"
proof -
  have "\<exists>y r. 0 \<le> y \<and> y < 400 \<and> 0 \<le> r \<and> r < year_days y \<and> d = year_start y + r"
    using assms
  proof (induction d rule: int_ge_induct)
    case base
    show ?case by (rule exI [of _ 0], rule exI [of _ 0]) (simp add: year_start_def year_days_def)
  next
    case (step d)
    then obtain y r where y: "0 \<le> y" "y < 400" "0 \<le> r" "r < year_days y" "d = year_start y + r" by auto
    show ?case
    proof (cases "r + 1 < year_days y")
      case True
      then show ?thesis using y by (intro exI [of _ y] exI [of _ "r + 1"]) auto
    next
      case False
      then have r: "r + 1 = year_days y" using y(4) by simp
      have "y \<noteq> 399"
      proof
        assume "y = 399"
        then have "year_start y + year_days y = 146097" by (simp add: year_start_def year_days_def leap_year_def)
        then show False using r y(5) step.prems by simp
      qed
      then show ?thesis using y r year_start_step [of y]
        by (intro exI [of _ "y + 1"] exI [of _ 0]) (auto simp: year_days_def)
    qed
  qed
  then show thesis using that by blast
qed

section \<open>Months\<close>

text \<open>Months counted from March: the day of the year on which month \<open>m\<close> starts, and its length.\<close>

definition month_start :: "int \<Rightarrow> int" where
  "month_start m = (153 * m + 2) div 5"

lemma month_of_day:
  "list_all (\<lambda>r. let m = (5 * r + 2) div 153 in 0 \<le> m \<and> m < 12 \<and> month_start m \<le> r
     \<and> r < (if m = 11 then 366 else month_start (m + 1))) (map int [0..<366])"
  by code_simp

lemma day_of_month:
  "list_all (\<lambda>m. list_all (\<lambda>k. month_start m + k < (if m = 11 then 366 else month_start (m + 1)) \<longrightarrow> (5 * (month_start m + k) + 2) div 153 = m)
     (map int [0..<31])) (map int [0..<12])"
  by code_simp

lemma month_number_cases:
  assumes "1 \<le> m" "m \<le> 12"
  shows "m = 1 \<or> m = 2 \<or> m = 3 \<or> m = 4 \<or> m = 5 \<or> m = 6 \<or> m = 7 \<or> m = 8 \<or> m = 9 \<or> m = 10 \<or> m = 11 \<or> m = (12 :: int)"
  using assms by presburger

text \<open>A date of the calendar, and its year and month counted from March.\<close>

lemma is_valid_date_iff:
  "is_valid_date y m d \<longleftrightarrow> 0 \<le> y \<and> y \<le> 9999 \<and> 1 \<le> m \<and> m \<le> 12 \<and> 1 \<le> d
     \<and> d \<le> (if m = 2 then if leap_year y then 29 else 28 else if m \<in> {4, 6, 9, 11} then 30 else 31)"
proof (cases "0 \<le> y")
  case True
  show ?thesis using True month_number_cases [of m] by (auto simp: is_valid_date_def leap_year_def smod_mod)
qed (simp add: is_valid_date_def)

definition march_year :: "int \<Rightarrow> int \<Rightarrow> int" where
  "march_year y m = (if m \<le> 2 then y - 1 else y)"

definition march_month :: "int \<Rightarrow> int" where
  "march_month m = (if m > 2 then m - 3 else m + 9)"

text \<open>Days from 1 March 0000, and the way back.\<close>

definition day_number :: "int \<Rightarrow> int \<Rightarrow> int \<Rightarrow> int" where
  "day_number y m d = march_year y m div 400 * 146097 + year_start (march_year y m mod 400)
     + month_start (march_month m) + d - 1"

lemma posix_time_from_utc_eq:
  "posix_time_from_utc y m d hh mm ss =
     (if is_valid_date y m d \<and> is_valid_time hh mm ss
      then Some ((day_number y m d - 719468) * 86400 + hh * 3600 + mm * 60 + ss) else None)"
proof -
  have e: "(if Y \<ge> 0 then Y else Y - 399) sdiv 400 = Y div 400" for Y :: int using sdiv_floor(1) [of 400 Y] by (simp split: if_splits)
  have r: "Y - Y div 400 * 400 = Y mod 400" for Y :: int by (simp add: minus_div_mult_eq_mod)
  have s: "(Y mod 400) * 365 + (Y mod 400) sdiv 4 - (Y mod 400) sdiv 100 = year_start (Y mod 400)" for Y :: int
    by (simp add: sdiv_div year_start_def)
  have m: "(153 * march_month m + 2) sdiv 5 = month_start (march_month m)" if "1 \<le> m"
    using that by (simp add: month_start_def march_month_def sdiv_div)
  show ?thesis
  proof (cases "is_valid_date y m d \<and> is_valid_time hh mm ss")
    case True
    then have "1 \<le> m" by (simp add: is_valid_date_iff)
    have "posix_time_from_utc y m d hh mm ss = Some ((march_year y m div 400 * 146097
        + (year_start (march_year y m mod 400) + (month_start (march_month m) + d - 1)) - 719468) * (24 * (60 * 60))
        + hh * (60 * 60) + mm * 60 + ss)"
      using True unfolding posix_time_from_utc_def Let_def march_year_def [symmetric] march_month_def [symmetric] e r s m [OF \<open>1 \<le> m\<close>]
      by simp
    then show ?thesis using True by (simp add: day_number_def)
  qed (auto simp: posix_time_from_utc_def)
qed

text \<open>The date of a day number, as \<open>utc_from_posix_time\<close> computes it.\<close>

definition day_date :: "int \<Rightarrow> int \<times> int \<times> int" where
  "day_date n =
     (let era = n div 146097; day_of_era = n mod 146097; y = cycle_days day_of_era div 365;
          r = day_of_era - year_start y; m = (5 * r + 2) div 153; month = (if m < 10 then m + 3 else m - 9);
          year = y + era * 400
      in (if month \<le> 2 then year + 1 else year, month, r - month_start m + 1))"

lemma day_date_march:
  assumes "n = E * 146097 + year_start y + r" "0 \<le> y" "y < 400" "0 \<le> r" "r < year_days y"
  shows "day_date n = (let m = (5 * r + 2) div 153; month = (if m < 10 then m + 3 else m - 9)
    in (if month \<le> 2 then y + E * 400 + 1 else y + E * 400, month, r - month_start m + 1))"
proof -
  have "year_start y + r < 146097" "0 \<le> year_start y"
  proof -
    have "y div 4 \<le> 99" "y div 100 \<le> y div 4" "0 \<le> y div 100" "y = 399 \<longrightarrow> y div 100 = 3" 
      using assms(2,3) by (simp_all add: div_le_iff zdiv_mono2)
    moreover have "year_days y \<le> 366" by (simp add: year_days_def)
    ultimately show "year_start y + r < 146097" "0 \<le> year_start y"
      using assms(2-5) unfolding year_start_def by (cases "y = 399"; linarith)+
  qed
  then have "(E * 146097 + (year_start y + r)) div 146097 = E" "(E * 146097 + (year_start y + r)) mod 146097 = year_start y + r"
    using assms(4) by simp_all
  then have "n div 146097 = E" "n mod 146097 = year_start y + r" by (simp_all add: assms(1) add.assoc)
  moreover have "cycle_days (year_start y + r) div 365 = y" by (rule cycle_year) (use assms in auto)
  ultimately show ?thesis by (simp add: day_date_def Let_def)
qed

lemma leap_year_cycle: "leap_year (Y mod 400 + 1) = leap_year (Y + 1)"
proof -
  have "(Y mod 400 + 1) mod c = (Y + 1) mod c" if "c dvd 400" for c :: int
    using that by (metis mod_add_left_eq mod_mod_cancel)
  from this [of 4] this [of 100] this [of 400] show ?thesis unfolding leap_year_def by simp
qed

lemma month_of_date:
  assumes "1 \<le> m" "m \<le> 12" "1 \<le> d" "d \<le> (if m = 2 then 29 else if m \<in> {4, 6, 9, 11} then 30 else 31)"
  defines "r \<equiv> month_start (march_month m) + d - 1"
  shows "0 \<le> r \<and> r < (if m = 2 \<and> d = 29 then 366 else 365) \<and> (5 * r + 2) div 153 = march_month m"
proof -
  show ?thesis
    using month_number_cases [OF assms(1,2)] assms(3,4)
    by (elim disjE; simp add: r_def month_start_def march_month_def; intro conjI impI div_interval; linarith)
qed

lemma day_date_day_number:
  assumes "1 \<le> m" "m \<le> 12" "1 \<le> d"
    and "d \<le> (if m = 2 then if leap_year y then 29 else 28 else if m \<in> {4, 6, 9, 11} then 30 else 31)"
  shows "day_date (day_number y m d) = (y, m, d)"
proof -
  let ?Y = "march_year y m" and ?r = "month_start (march_month m) + d - 1"
  have "d \<le> (if m = 2 then 29 else if m \<in> {4, 6, 9, 11} then 30 else 31)" using assms(4) by (auto split: if_splits)
  note month = month_of_date [OF assms(1-3) this]
  have "year_days (?Y mod 400) = (if leap_year (?Y + 1) then 366 else 365)" by (simp add: year_days_def leap_year_cycle)
  moreover have "m = 2 \<and> d = 29 \<longrightarrow> leap_year (?Y + 1)" using assms(4) by (auto simp: march_year_def split: if_splits)
  ultimately have r: "0 \<le> ?r" "?r < year_days (?Y mod 400)" "(5 * ?r + 2) div 153 = march_month m"
    using month by (auto split: if_splits)
  have "day_number y m d = ?Y div 400 * 146097 + year_start (?Y mod 400) + ?r" by (simp add: day_number_def)
  from day_date_march [OF this _ _ r(1,2)]
  have "day_date (day_number y m d) = (let m' = march_month m; month = (if m' < 10 then m' + 3 else m' - 9)
    in (if month \<le> 2 then ?Y mod 400 + ?Y div 400 * 400 + 1 else ?Y mod 400 + ?Y div 400 * 400, month, ?r - month_start m' + 1))"
    unfolding r(3) by simp
  moreover have "?Y mod 400 + ?Y div 400 * 400 = ?Y" by simp
  ultimately show ?thesis using assms(1,2) by (auto simp: march_month_def march_year_def Let_def)
qed

lemma day_number_day_date:
  assumes "day_date n = (y, m, d)"
  shows "day_number y m d = n \<and> 1 \<le> m \<and> m \<le> 12 \<and> 1 \<le> d
    \<and> d \<le> (if m = 2 then if leap_year y then 29 else 28 else if m \<in> {4, 6, 9, 11} then 30 else 31)"
proof -
  obtain Y r where Y: "0 \<le> Y" "Y < 400" "0 \<le> r" "r < year_days Y" "n mod 146097 = year_start Y + r"
    by (rule cycle_day_cases [of "n mod 146097"]) auto
  let ?E = "n div 146097" and ?m = "(5 * r + 2) div 153"
  have n: "n = ?E * 146097 + year_start Y + r" using Y(5) by (simp add: add.assoc flip: Y(5))
  have "r \<in> set (map int [0..<366])" using Y(3,4) by (auto simp: year_days_def intro!: image_eqI [of _ _ "nat r"] split: if_splits)
  then have m: "0 \<le> ?m" "?m < 12" "month_start ?m \<le> r" "r < (if ?m = 11 then 366 else month_start (?m + 1))"
    using month_of_day unfolding list_all_iff Let_def by blast+
  note date = day_date_march [OF n Y(1-4), unfolded assms Let_def]
  have mm: "march_month m = ?m" "1 \<le> m" "m \<le> 12" and yy: "march_year y m = Y + ?E * 400" and dd: "d = r - month_start ?m + 1"
    using date m(1,2) by (auto simp: march_month_def march_year_def split: if_splits)
  have "(Y + ?E * 400) div 400 = ?E" "(Y + ?E * 400) mod 400 = Y" using Y(1,2) by simp_all
  then have "day_number y m d = n" unfolding day_number_def yy mm dd using n by simp
  moreover have "1 \<le> d" using dd m(3) by simp
  moreover have "d \<le> (if m = 2 then if leap_year y then 29 else 28 else if m \<in> {4, 6, 9, 11} then 30 else 31)"
  proof -
    have bound: "r < (if march_month m = 11 then 366 else month_start (march_month m + 1))"
      and d: "d = r - month_start (march_month m) + 1" using m(4) [folded mm(1)] dd [folded mm(1)] by blast+
    have "leap_year (Y + 1) = leap_year (Y + ?E * 400 + 1)"
      using leap_year_cycle [of "Y + ?E * 400"] \<open>(Y + ?E * 400) mod 400 = Y\<close> by simp
    moreover have "y = Y + ?E * 400 + 1" if "m = 2" using yy that by (simp add: march_year_def)
    ultimately have feb: "m = 2 \<Longrightarrow> r < (if leap_year y then 366 else 365)" using Y(4) by (simp add: year_days_def)
    from month_number_cases [OF mm(2,3)] bound d feb show ?thesis
      by (elim disjE; simp add: march_month_def month_start_def split: if_splits)
  qed
  ultimately show ?thesis using mm by blast
qed

section \<open>Times\<close>

definition march_start :: "int \<Rightarrow> int" where
  "march_start Y = 365 * Y + Y div 4 - Y div 100 + Y div 400"

lemma march_start_cycle: "Y div 400 * 146097 + year_start (Y mod 400) = march_start Y"
proof -
  define E y where "E = Y div 400" and "y = Y mod 400"
  have Y: "Y = y + (E * 100) * 4" "Y = y + (E * 4) * 100" by (simp_all add: E_def y_def)
  have "Y div 4 = E * 100 + y div 4" unfolding Y(1) by (rule div_mult_self1) simp
  moreover have "Y div 100 = E * 4 + y div 100" unfolding Y(2) by (rule div_mult_self1) simp
  ultimately show ?thesis
    unfolding march_start_def year_start_def E_def [symmetric] y_def [symmetric] using Y(1) by linarith
qed

lemma march_start_mono: "Y \<le> Z \<Longrightarrow> march_start Y + 365 * (Z - Y) \<le> march_start Z"
proof -
  assume le: "Y \<le> Z"
  have "Y div 4 \<le> Z div 4" "Y div 400 \<le> Z div 400" using le by (simp_all add: zdiv_mono1)
  moreover have "Y div 100 = Y div 4 div 25" "Z div 100 = Z div 4 div 25" by (simp_all flip: zdiv_zmult2_eq)
  moreover have "Z div 4 div 25 - Y div 4 div 25 \<le> Z div 4 - Y div 4" by (intro div_diff_le \<open>Y div 4 \<le> Z div 4\<close>) simp
  ultimately show ?thesis unfolding march_start_def by (simp add: algebra_simps)
qed

lemma day_number_bounds:
  assumes "1 \<le> m" "m \<le> 12" "1 \<le> d" "d \<le> (if m = 2 then 29 else if m \<in> {4, 6, 9, 11} then 30 else 31)"
  shows "0 \<le> y \<and> y \<le> 9999 \<longleftrightarrow> -60 \<le> day_number y m d \<and> day_number y m d \<le> 3652364"
proof -
  let ?Y = "march_year y m"
  define r where "r = month_start (march_month m) + d - 1"
  have n: "day_number y m d = march_start ?Y + r" by (simp add: day_number_def r_def flip: march_start_cycle)
  have r: "0 \<le> r" "r \<le> 365" using month_of_date [OF assms] by (auto simp: r_def split: if_splits)
  have rm: "m \<le> 2 \<longrightarrow> 306 \<le> r" "m > 2 \<longrightarrow> r \<le> 305"
    using month_number_cases [OF assms(1,2)] assms(3,4) by (elim disjE; simp add: r_def march_month_def month_start_def)+
  have v: "march_start (- 1) = - 366" "march_start 0 = 0" "march_start 9999 = 3652059" by (simp_all add: march_start_def)
  consider "y < 0" "m \<le> 2 \<or> y \<noteq> - 1" | "y = - 1" "m > 2" | "y = 0" "m \<le> 2" | "0 \<le> ?Y" "?Y \<le> 9998" "0 \<le> y" "y \<le> 9999" | "y = 9999" "m > 2"
    | "y = 10000" "m \<le> 2" | "y > 9999" "?Y \<ge> 10000" 
    unfolding march_year_def by (cases "m \<le> 2") force+
  then show ?thesis
  proof cases
    case 1
    then show ?thesis using march_start_mono [of ?Y "- 1"] r v n by (auto simp: march_year_def split: if_splits)
  next
    case 4
    then show ?thesis using march_start_mono [of 0 ?Y] march_start_mono [of ?Y 9999] r v n by auto
  next
    case 7
    then show ?thesis using march_start_mono [of 9999 ?Y] r v n by auto
  qed (use r rm v n in \<open>auto simp: march_year_def\<close>)
qed

text \<open>\<open>utc_from_posix_time\<close> with floor division.\<close>

lemma floor_divmod:
  fixes t b :: int
  assumes "0 < b"
  shows "(if t smod b < 0 then (t sdiv b - 1, t smod b + b) else (t sdiv b, t smod b)) = (t div b, t mod b)"
proof (cases "0 \<le> t")
  case True
  then show ?thesis using assms by (simp add: sdiv_div smod_mod not_less)
next
  case False
  have m: "t smod b = - (- t mod b)" using False assms by (simp add: signed_modulo_int_def sgn_if)
  have d: "t sdiv b = - (- t div b)" using False assms by (simp add: neg_sdiv)
  show ?thesis
  proof (cases "- t mod b = 0")
    case True
    then show ?thesis using assms zdiv_zminus1_eq_if [of b t] zmod_zminus1_eq_if [of t b] by (auto simp: m d split: if_splits)
  next
    case False
    then have "0 < - t mod b" using assms pos_mod_sign [of b "- t"] by linarith
    then show ?thesis
      using assms False zdiv_zminus1_eq_if [of b "- t"] zmod_zminus1_eq_if [of "- t" b] by (simp add: m d)
  qed
qed

lemma day_date_code:
  "(let era = (if n > 0 then n else n - 146096) sdiv 146097;
        day_of_era = n - era * 146097;
        year_of_era = (day_of_era - day_of_era sdiv 1460 + day_of_era sdiv 36524 - day_of_era sdiv 146096) sdiv 365;
        year = year_of_era + era * 400;
        day_of_year = day_of_era - (365 * year_of_era + year_of_era sdiv 4 - year_of_era sdiv 100);
        month_of_year = (5 * day_of_year + 2) sdiv 153;
        month = (if month_of_year < 10 then month_of_year + 3 else month_of_year - 9);
        year = (if month \<le> 2 then year + 1 else year);
        day = day_of_year - (153 * month_of_year + 2) sdiv 5 + 1
    in f year month day) = (case day_date n of (y, m, d) \<Rightarrow> f y m d)"
proof -
  define E D where "E = n div 146097" and "D = n mod 146097"
  have era: "(if n > 0 then n else n - 146096) sdiv 146097 = E" "n - E * 146097 = D"
    using sdiv_floor(2) [of 146097 n] by (simp_all add: E_def D_def minus_div_mult_eq_mod split: if_splits)
  obtain Y q where Y: "0 \<le> Y" "Y < 400" "0 \<le> q" "q < year_days Y" "D = year_start Y + q" and D: "0 \<le> D"
    by (rule cycle_day_cases [of D]) (auto simp: D_def)
  have cd: "D - D sdiv 1460 + D sdiv 36524 - D sdiv 146096 = cycle_days D" using D by (simp add: cycle_days_def sdiv_div)
  have y: "cycle_days D div 365 = Y" using Y cycle_year by simp
  then have "0 \<le> cycle_days D" using Y(1) pos_imp_zdiv_nonneg_iff [of 365 "cycle_days D"] by simp
  then have y': "cycle_days D sdiv 365 = Y" using y by (simp add: sdiv_div)
  have q: "D - (365 * Y + Y sdiv 4 - Y sdiv 100) = q" using Y by (simp add: year_start_def sdiv_div)
  have q': "D - year_start Y = q" using Y(5) by simp
  have m: "(5 * q + 2) sdiv 153 = (5 * q + 2) div 153" using Y(3) by (simp add: sdiv_div)
  have ms: "(153 * ((5 * q + 2) div 153) + 2) sdiv 5 = month_start ((5 * q + 2) div 153)"
    using Y(3) by (simp add: month_start_def sdiv_div pos_imp_zdiv_nonneg_iff)
  show ?thesis
    unfolding day_date_def Let_def E_def [symmetric] D_def [symmetric] era cd y y' q q' m ms by (simp only: prod.case)
qed

lemma utc_from_posix_time_eq:
  "utc_from_posix_time t =
     (if is_valid_posix_time t then
        case day_date (t div 86400 + 719468) of (y, m, d) \<Rightarrow>
          Some (y, m, d, t mod 86400 div 3600, t mod 86400 mod 3600 div 60, t mod 86400 mod 3600 mod 60)
      else None)"
proof (cases "is_valid_posix_time t")
  case True
  have div: "(if t smod (24 * (60 * 60)) < 0 then (t sdiv (24 * (60 * 60)) - 1, t smod (24 * (60 * 60)) + 24 * (60 * 60))
      else (t sdiv (24 * (60 * 60)), t smod (24 * (60 * 60)))) = (t div 86400, t mod 86400)"
    using floor_divmod [of 86400 t] by (simp split: if_splits)
  have s: "(t mod 86400) sdiv (60 * 60) = t mod 86400 div 3600" "(t mod 86400) smod (60 * 60) = t mod 86400 mod 3600"
    "t mod 86400 mod 3600 sdiv 60 = t mod 86400 mod 3600 div 60" "t mod 86400 mod 3600 smod 60 = t mod 86400 mod 3600 mod 60"
    by (simp_all only: sdiv_div smod_mod) (simp_all add: sdiv_div smod_mod)
  show ?thesis
    using day_date_code [of "t div 86400 + 719468" "\<lambda>y m d. Some (y, m, d, t mod 86400 div 3600, t mod 86400 mod 3600 div 60, t mod 86400 mod 3600 mod 60)"]
    unfolding utc_from_posix_time_def Let_def div prod.case s by (simp only: True not_True_eq_False if_False if_True)
qed (simp add: utc_from_posix_time_def)

text \<open>A time of the day as seconds, and back.\<close>

lemma is_valid_time_split:
  assumes "0 \<le> s" "s < 86400"
  shows "is_valid_time (s div 3600) (s mod 3600 div 60) (s mod 3600 mod 60)"
    "s div 3600 * 3600 + s mod 3600 div 60 * 60 + s mod 3600 mod 60 = s"
proof -
  have "s div 3600 * 3600 + s mod 3600 = s" "s mod 3600 div 60 * 60 + s mod 3600 mod 60 = s mod 3600" by simp_all
  then show "s div 3600 * 3600 + s mod 3600 div 60 * 60 + s mod 3600 mod 60 = s" by linarith
  have "0 \<le> s div 3600" "s div 3600 \<le> 23" using assms by (simp_all add: pos_imp_zdiv_nonneg_iff)  
  moreover have "0 \<le> s mod 3600 div 60" "s mod 3600 div 60 \<le> 59" using pos_mod_bound [of 3600 s] by (simp_all add: pos_imp_zdiv_nonneg_iff)
  moreover have "s mod 3600 mod 60 < 60" "0 \<le> s mod 3600 mod 60" by simp_all
  ultimately show "is_valid_time (s div 3600) (s mod 3600 div 60) (s mod 3600 mod 60)"
    unfolding is_valid_time_def by linarith
qed

lemma is_valid_time_join:
  assumes "is_valid_time h m s"
  shows "(h * 3600 + m * 60 + s) div 3600 = h" "(h * 3600 + m * 60 + s) mod 3600 = m * 60 + s"
    "(m * 60 + s) div 60 = m" "(m * 60 + s) mod 60 = s" "0 \<le> h * 3600 + m * 60 + s" "h * 3600 + m * 60 + s < 86400"
proof -
  have b: "0 \<le> h" "h \<le> 23" "0 \<le> m" "m \<le> 59" "0 \<le> s" "s \<le> 59" using assms by (auto simp: is_valid_time_def)
  have e: "h * 3600 + m * 60 + s = (m * 60 + s) + h * 3600" by simp
  show "(h * 3600 + m * 60 + s) div 3600 = h" "(h * 3600 + m * 60 + s) mod 3600 = m * 60 + s"
    unfolding e using b by (simp_all add: div_mult_self1)
  have e: "m * 60 + s = s + m * 60" by simp
  show "(m * 60 + s) div 60 = m" "(m * 60 + s) mod 60 = s" unfolding e using b by simp_all
  show "0 \<le> h * 3600 + m * 60 + s" "h * 3600 + m * 60 + s < 86400" using b by linarith+
qed

lemma posix_range: "is_valid_posix_time t \<longleftrightarrow> - 60 \<le> t div 86400 + 719468 \<and> t div 86400 + 719468 \<le> 3652364"
  using le_div_iff [of 86400 "- 719528" t] div_le_iff [of 86400 t 2932896] unfolding is_valid_posix_time_def by auto

lemma posix_of_utc_of_posix:
  assumes "utc_from_posix_time t = Some (y, m, d, hh, mm, ss)"
  shows "posix_time_from_utc y m d hh mm ss = Some t"
proof -
  obtain y' m' d' where date: "day_date (t div 86400 + 719468) = (y', m', d')" by (cases "day_date (t div 86400 + 719468)")
  have eq: "y = y'" "m = m'" "d = d'" "hh = t mod 86400 div 3600" "mm = t mod 86400 mod 3600 div 60" "ss = t mod 86400 mod 3600 mod 60"
    and v: "is_valid_posix_time t" using assms by (auto simp: utc_from_posix_time_eq date simp del: mod_mod_trivial split: if_splits)
  note n = day_number_day_date [OF date [folded eq(1-3)]]
  then have "d \<le> (if m = 2 then 29 else if m \<in> {4, 6, 9, 11} then 30 else 31)" by (auto split: if_splits)
  then have "0 \<le> y \<and> y \<le> 9999" using day_number_bounds [of m d y] n v posix_range by simp
  then have "is_valid_date y m d" using n by (simp add: is_valid_date_iff)
  moreover have "is_valid_time hh mm ss" "hh * 3600 + mm * 60 + ss = t mod 86400"
    unfolding eq by (rule is_valid_time_split; simp)+
  moreover have "(day_number y m d - 719468) * 86400 + t mod 86400 = t" using n by simp
  ultimately show ?thesis unfolding posix_time_from_utc_eq by (simp add: add.assoc)
qed

lemma utc_of_posix_of_utc:
  assumes "posix_time_from_utc y m d hh mm ss = Some t"
  shows "utc_from_posix_time t = Some (y, m, d, hh, mm, ss)"
proof -
  have v: "is_valid_date y m d" "is_valid_time hh mm ss"
    and t: "t = (hh * 3600 + mm * 60 + ss) + (day_number y m d - 719468) * 86400"
    using assms by (auto simp: posix_time_from_utc_eq split: if_splits)
  note j = is_valid_time_join [OF v(2)]
  have div: "(x + K * 86400) div 86400 + 719468 = K + 719468" "(x + K * 86400) mod 86400 = x" if "0 \<le> x" "x < 86400" for x K :: int
    using that by simp_all
  have n: "t div 86400 + 719468 = day_number y m d" "t mod 86400 = hh * 3600 + mm * 60 + ss"
    unfolding t using div [OF j(5,6), of "day_number y m d - 719468"] by simp_all
  have date: "1 \<le> m" "m \<le> 12" "1 \<le> d" "d \<le> (if m = 2 then if leap_year y then 29 else 28 else if m \<in> {4, 6, 9, 11} then 30 else 31)"
    "0 \<le> y \<and> y \<le> 9999" using v(1) by (auto simp: is_valid_date_iff)
  then have "d \<le> (if m = 2 then 29 else if m \<in> {4, 6, 9, 11} then 30 else 31)" by (auto split: if_splits)
  then have "is_valid_posix_time t" using day_number_bounds [of m d y] date n(1) posix_range by simp
  then show ?thesis
    unfolding utc_from_posix_time_eq n using day_date_day_number [OF date(1-4)] j by simp
qed

text \<open>The fields of \<open>struct tm\<close> that a POSIX time determines.\<close>

definition tm_fields :: "tm \<Rightarrow> int \<times> int \<times> int \<times> int \<times> int \<times> int" where
  "tm_fields t = (tm_year t + 1900, tm_mon t + 1, tm_mday t, tm_hour t, tm_min t, tm_sec t)"

lemma OPENSSL_posix_to_tm_fields:
  "OPENSSL_posix_to_tm t = Some T \<Longrightarrow> utc_from_posix_time t = Some (tm_fields T)"
  by (auto simp: OPENSSL_posix_to_tm_def tm_fields_def)

lemma tm_fields_eqI:
  "tm_fields S = tm_fields T \<longleftrightarrow> tm_year S = tm_year T \<and> tm_mon S = tm_mon T \<and> tm_mday S = tm_mday T
     \<and> tm_hour S = tm_hour T \<and> tm_min S = tm_min T \<and> tm_sec S = tm_sec T"
  by (auto simp: tm_fields_def)

lemma OPENSSL_tm_to_posix_fields: "tm_fields S = tm_fields T \<Longrightarrow> OPENSSL_tm_to_posix S = OPENSSL_tm_to_posix T"
  by (simp add: OPENSSL_tm_to_posix_def tm_fields_def)

lemma OPENSSL_posix_to_tm_iff:
  "OPENSSL_posix_to_tm t = Some T \<longleftrightarrow>
     OPENSSL_tm_to_posix T = Some t \<and> tm_wday T = 0 \<and> tm_yday T = 0 \<and> tm_isdst T = 0"
proof
  assume T: "OPENSSL_posix_to_tm t = Some T"
  have "OPENSSL_tm_to_posix T = Some t"
    using posix_of_utc_of_posix OPENSSL_posix_to_tm_fields [OF T] by (simp add: OPENSSL_tm_to_posix_def tm_fields_def)
  then show "OPENSSL_tm_to_posix T = Some t \<and> tm_wday T = 0 \<and> tm_yday T = 0 \<and> tm_isdst T = 0"
    using T by (auto simp: OPENSSL_posix_to_tm_def)
next
  assume "OPENSSL_tm_to_posix T = Some t \<and> tm_wday T = 0 \<and> tm_yday T = 0 \<and> tm_isdst T = 0"
  then show "OPENSSL_posix_to_tm t = Some T"
    using utc_of_posix_of_utc by (cases T) (auto simp: OPENSSL_tm_to_posix_def OPENSSL_posix_to_tm_def)
qed

lemma OPENSSL_posix_to_tm_range: "OPENSSL_posix_to_tm t \<noteq> None \<longleftrightarrow> is_valid_posix_time t"
  by (auto simp: OPENSSL_posix_to_tm_def utc_from_posix_time_eq split: prod.splits)

lemma OPENSSL_tm_to_posix_range: "OPENSSL_tm_to_posix T = Some t \<Longrightarrow> is_valid_posix_time t"
  unfolding OPENSSL_tm_to_posix_def by (drule utc_of_posix_of_utc) (simp only: utc_from_posix_time_eq option.distinct split: if_splits)

lemma OPENSSL_gmtime_adj_eq:
  assumes "OPENSSL_tm_to_posix T = Some t" "INT32_MIN \<le> days" "days \<le> INT32_MAX" "INT64_MIN \<le> secs" "secs \<le> INT64_MAX"
  shows "OPENSSL_gmtime_adj T days secs = OPENSSL_posix_to_tm (t + days * 86400 + secs)"
proof -
  have t: "MIN_POSIX_TIME \<le> t" "t \<le> MAX_POSIX_TIME"
    using OPENSSL_tm_to_posix_range [OF assms(1)] by (auto simp: is_valid_posix_time_def)
  let ?u = "t + days * 86400"
  have "OPENSSL_posix_to_tm (?u + secs) = None" if "?u > 0 \<and> secs > INT64_MAX - ?u \<or> ?u < 0 \<and> secs < INT64_MIN - ?u"
    using that OPENSSL_posix_to_tm_range [of "?u + secs"] by (auto simp: is_valid_posix_time_def)
  then show ?thesis using assms(1) by (auto simp: OPENSSL_gmtime_adj_def Let_def)
qed

section \<open>Properties\<close>

text \<open>C29: The conversions between \<open>struct tm\<close> and POSIX time are inverse to each other: every time from the
  year 0000 to the year 9999, and no other, converts to broken-down fields that convert back to it, and every
  broken-down time that converts to a POSIX time is what that time converts to, up to the fields the code zeroes.\<close>
theorem OPENSSL_posix_time_inverse:
  "(OPENSSL_posix_to_tm t \<noteq> None) = (MIN_POSIX_TIME \<le> t \<and> t \<le> MAX_POSIX_TIME)
   \<and> (OPENSSL_posix_to_tm t = Some T) = (OPENSSL_tm_to_posix T = Some t \<and> tm_wday T = 0 \<and> tm_yday T = 0 \<and> tm_isdst T = 0)
   \<and> (OPENSSL_tm_to_posix T = Some t) = (OPENSSL_posix_to_tm t = Some (T\<lparr> tm_wday := 0, tm_yday := 0, tm_isdst := 0 \<rparr>))"
  using OPENSSL_posix_to_tm_range OPENSSL_posix_to_tm_iff
  by (simp add: is_valid_posix_time_def OPENSSL_tm_to_posix_def)

text \<open>The Gregorian calendar: the date after a date.\<close>

definition month_length :: "int \<Rightarrow> int \<Rightarrow> int" where
  "month_length y m = (if m = 2 then if leap_year y then 29 else 28 else if m \<in> {4, 6, 9, 11} then 30 else 31)"

definition next_date :: "int \<times> int \<times> int \<Rightarrow> int \<times> int \<times> int" where
  "next_date = (\<lambda>(y, m, d). if d < month_length y m then (y, m, d + 1) else if m < 12 then (y, m + 1, 1) else (y + 1, 1, 1))"

lemma march_start_step: "march_start (Y + 1) = march_start Y + year_days Y"
proof -
  have add: "(365 :: int) * (Y + 1) + (a + da) - (b + db) + (c + dc) = 365 * Y + a - b + c + (365 + da - db + dc)"
    for a b c da db dc :: int by simp
  have leap: "365 + (if P then (1 :: int) else 0) - (if Q then 1 else 0) + (if R then 1 else 0) = (if (P \<and> \<not> Q) \<or> R then 366 else 365)"
    if "R \<Longrightarrow> Q" "Q \<Longrightarrow> P" for P Q R using that by auto
  have dvd: "(100 :: int) dvd 400" "(4 :: int) dvd 100" by simp_all
  have "365 + (if (Y + 1) mod 4 = 0 then (1 :: int) else 0) - (if (Y + 1) mod 100 = 0 then 1 else 0)
      + (if (Y + 1) mod 400 = 0 then 1 else 0) = year_days Y"
    unfolding year_days_def leap_year_def by (rule leap) (fact mod_0_cancel [OF dvd(1)], fact mod_0_cancel [OF dvd(2)])
  then show ?thesis
    unfolding march_start_def succ_div [of 4 Y, simplified] succ_div [of 100 Y, simplified] succ_div [of 400 Y, simplified] add
    by (simp only:)
qed

lemma day_number_next:
  assumes "1 \<le> m" "m \<le> 12" "1 \<le> d" "d \<le> month_length y m"
  shows "(case next_date (y, m, d) of (y', m', d') \<Rightarrow> day_number y' m' d') = day_number y m d + 1"
proof -
  have n: "day_number y m d = march_start (march_year y m) + month_start (march_month m) + d - 1" for y m d
    by (simp add: day_number_def march_start_cycle)
  have feb: "march_start y = march_start (y - 1) + (if leap_year y then 366 else 365)"
    using march_start_step [of "y - 1"] by (simp add: year_days_def)
  from month_number_cases [OF assms(1,2)] assms(3,4) feb show ?thesis
    by (elim disjE; simp add: next_date_def month_length_def n march_year_def march_month_def month_start_def)
qed

text \<open>C30: \<open>posix_time_from_utc\<close> is the number of seconds since 1970-01-01 00:00:00 of the proleptic Gregorian
  calendar: that time is zero, midnight of the next date of the calendar is 86400 seconds later for every valid date,
  and the time of the day is added in seconds.\<close>
theorem posix_time_from_utc_calendar:
  "posix_time_from_utc 1970 1 1 0 0 0 = Some 0
   \<and> (is_valid_date y m d \<longrightarrow> (\<exists>t. posix_time_from_utc y m d 0 0 0 = Some t
        \<and> (case next_date (y, m, d) of (y', m', d') \<Rightarrow> y' \<le> 9999 \<longrightarrow> posix_time_from_utc y' m' d' 0 0 0 = Some (t + 86400))
        \<and> (is_valid_time hh mm ss \<longrightarrow> posix_time_from_utc y m d hh mm ss = Some (t + hh * 3600 + mm * 60 + ss))))"
proof -
  have zero: "posix_time_from_utc 1970 1 1 0 0 0 = Some 0"
    by (simp add: posix_time_from_utc_eq is_valid_date_iff is_valid_time_def day_number_def march_year_def march_month_def
        month_start_def year_start_def)
  have midnight: "is_valid_time 0 0 0" by (simp add: is_valid_time_def)
  show ?thesis
  proof (intro conjI impI zero)
    assume v: "is_valid_date y m d"
    then have date: "1 \<le> m" "m \<le> 12" "1 \<le> d" "d \<le> month_length y m" "0 \<le> y" "y \<le> 9999"
      by (auto simp: is_valid_date_iff month_length_def)
    obtain y' m' d' where nx: "next_date (y, m, d) = (y', m', d')" by (cases "next_date (y, m, d)")
    have "is_valid_date y' m' d'" if "y' \<le> 9999"
      using nx date that month_number_cases [OF date(1,2)]
      by (auto simp: next_date_def is_valid_date_iff month_length_def split: if_splits)
    moreover have "day_number y' m' d' = day_number y m d + 1" using day_number_next [OF date(1-4)] nx by simp
    ultimately show "\<exists>t. posix_time_from_utc y m d 0 0 0 = Some t
        \<and> (case next_date (y, m, d) of (y', m', d') \<Rightarrow> y' \<le> 9999 \<longrightarrow> posix_time_from_utc y' m' d' 0 0 0 = Some (t + 86400))
        \<and> (is_valid_time hh mm ss \<longrightarrow> posix_time_from_utc y m d hh mm ss = Some (t + hh * 3600 + mm * 60 + ss))"
      using v midnight by (simp add: posix_time_from_utc_eq nx)
  qed
qed

subsection \<open>Parsing\<close>

text \<open>Two decimal digits.\<close>

definition two_digits :: "int \<Rightarrow> bytes" where
  "two_digits v = [of_int (48 + v div 10), of_int (48 + v mod 10)]"

lemma digit_byte:
  "OPENSSL_isdigit (uint b) \<and> uint b - 48 = v \<longleftrightarrow> 0 \<le> v \<and> v \<le> 9 \<and> b = of_int (48 + v)" for b :: u8
proof
  assume "OPENSSL_isdigit (uint b) \<and> uint b - 48 = v"
  then have "0 \<le> v" "v \<le> 9" "48 + v = uint b" by (auto simp: OPENSSL_isdigit_def)
  then show "0 \<le> v \<and> v \<le> 9 \<and> b = of_int (48 + v)" by simp
next
  assume v: "0 \<le> v \<and> v \<le> 9 \<and> b = of_int (48 + v)"
  then have "uint b = (48 + v) mod 256" by (simp only: uint_word_of_int) simp
  then have "uint b = 48 + v" using v by simp
  then show "OPENSSL_isdigit (uint b) \<and> uint b - 48 = v" using v by (simp add: OPENSSL_isdigit_def)
qed

lemma cbs_get_two_digits_iff [reader_simps]:
  "cbs_get_two_digits cbs = (Some v, rest) \<longleftrightarrow> 0 \<le> v \<and> v \<le> 99 \<and> cbs = two_digits v @ rest"
proof -
  have "cbs_get_two_digits cbs = (Some v, rest) \<longleftrightarrow>
      (\<exists>a b. cbs = a # b # rest \<and> OPENSSL_isdigit (uint a) \<and> OPENSSL_isdigit (uint b) \<and> (uint a - 48) * 10 + (uint b - 48) = v)"
    unfolding cbs_get_two_digits_def
    by (cases cbs; cases "tl cbs") (auto simp: rd_bind_def rd_return_def rd_fail_def)
  also have "\<dots> \<longleftrightarrow> (\<exists>a b x y. cbs = a # b # rest \<and> (0 \<le> x \<and> x \<le> 9 \<and> a = of_int (48 + x)) \<and> (0 \<le> y \<and> y \<le> 9 \<and> b = of_int (48 + y)) \<and> x * 10 + y = v)"
    unfolding digit_byte [symmetric] by auto
  also have "\<dots> \<longleftrightarrow> 0 \<le> v \<and> v \<le> 99 \<and> cbs = two_digits v @ rest"
  proof
    assume "\<exists>a b x y. cbs = a # b # rest \<and> (0 \<le> x \<and> x \<le> 9 \<and> a = of_int (48 + x)) \<and> (0 \<le> y \<and> y \<le> 9 \<and> b = of_int (48 + y)) \<and> x * 10 + y = v"
    then obtain x y where "cbs = of_int (48 + x) # of_int (48 + y) # rest" "0 \<le> x" "x \<le> 9" "0 \<le> y" "y \<le> 9" "v = x * 10 + y" by blast
    moreover from this have "v div 10 = x" "v mod 10 = y" by simp_all
    ultimately show "0 \<le> v \<and> v \<le> 99 \<and> cbs = two_digits v @ rest" by (simp add: two_digits_def)
  next
    assume v: "0 \<le> v \<and> v \<le> 99 \<and> cbs = two_digits v @ rest"
    have "0 \<le> v div 10" "v div 10 \<le> 9" "0 \<le> v mod 10" "v mod 10 \<le> 9" "v div 10 * 10 + v mod 10 = v"
      using v zdiv_mono1 [of v 99 10] by (simp_all add: pos_imp_zdiv_nonneg_iff)
    then show "\<exists>a b x y. cbs = a # b # rest \<and> (0 \<le> x \<and> x \<le> 9 \<and> a = of_int (48 + x)) \<and> (0 \<le> y \<and> y \<le> 9 \<and> b = of_int (48 + y)) \<and> x * 10 + y = v"
      using v unfolding two_digits_def append_Cons append_Nil by blast
  qed
  finally show ?thesis .
qed

interpretation two_digits_codec: codec two_digits cbs_get_two_digits "\<lambda>v. 0 \<le> v \<and> v \<le> 99"
  by unfold_locales (auto simp: cbs_get_two_digits_iff)

lemma rd_check_iff [reader_simps]: "rd_check m ok cbs = (Some v, rest) \<longleftrightarrow> m cbs = (Some v, rest) \<and> ok v"
  by (auto simp: rd_check_def rd_bind_Some_iff rd_return_def rd_fail_def split: if_splits)

lemma is_valid_day_iff:
  assumes "0 \<le> y" "y \<le> 9999" "1 \<le> m" "m \<le> 12"
  shows "is_valid_day y m d = is_valid_date y m d"
  using assms by (auto simp: is_valid_day_def is_valid_date_def)

text \<open>The text of a GeneralizedTime and of a UTCTime, with the zone as given.\<close>

definition time_text :: "int \<Rightarrow> int \<Rightarrow> int \<Rightarrow> int \<Rightarrow> int \<Rightarrow> bytes" where
  "time_text m d hh mm ss = two_digits m @ two_digits d @ two_digits hh @ two_digits mm @ two_digits ss"

definition year_text :: "bool \<Rightarrow> int \<Rightarrow> bytes" where
  "year_text is_gentime y = (if is_gentime then two_digits (y div 100) @ two_digits (y mod 100) else two_digits (y mod 100))"

definition year_ok :: "bool \<Rightarrow> int \<Rightarrow> bool" where
  "year_ok is_gentime y \<longleftrightarrow> (if is_gentime then 0 \<le> y \<and> y \<le> 9999 else 1950 \<le> y \<and> y \<le> 2049)"

lemma rfc5280_year_iff [reader_simps]:
  "rfc5280_year is_gentime cbs = (Some y, rest) \<longleftrightarrow> year_ok is_gentime y \<and> cbs = year_text is_gentime y @ rest"
proof (cases is_gentime)
  case True
  have "(\<exists>hi lo. 0 \<le> hi \<and> hi \<le> 99 \<and> 0 \<le> lo \<and> lo \<le> 99 \<and> y = hi * 100 + lo \<and> cbs = two_digits hi @ two_digits lo @ rest)
      \<longleftrightarrow> 0 \<le> y \<and> y \<le> 9999 \<and> cbs = two_digits (y div 100) @ two_digits (y mod 100) @ rest" (is "?L \<longleftrightarrow> ?R")
  proof
    assume ?L
    then obtain hi lo where "0 \<le> hi" "hi \<le> 99" "0 \<le> lo" "lo \<le> 99" "y = hi * 100 + lo" "cbs = two_digits hi @ two_digits lo @ rest" by blast
    moreover from this have "y div 100 = hi" "y mod 100 = lo" by simp_all
    ultimately show ?R by simp
  next
    assume ?R
    then have "0 \<le> y div 100" "y div 100 \<le> 99" "0 \<le> y mod 100" "y mod 100 \<le> 99" "y = y div 100 * 100 + y mod 100"
      using zdiv_mono1 [of y 9999 100] by (simp_all add: pos_imp_zdiv_nonneg_iff)
    then show ?L using \<open>?R\<close> by blast
  qed
  then show ?thesis using True
    by (auto simp: rfc5280_year_def year_ok_def year_text_def rd_bind_Some_iff cbs_get_two_digits_iff rd_return_def)
next
  case False
  have y: "(if 1900 + t < 1950 then 1900 + t + 100 else 1900 + t) = y \<and> \<not> y \<ge> 2050 \<and> 0 \<le> t \<and> t \<le> 99
      \<longleftrightarrow> t = y mod 100 \<and> 1950 \<le> y \<and> y \<le> 2049" for t
  proof
    assume "t = y mod 100 \<and> 1950 \<le> y \<and> y \<le> 2049"
    moreover have "y mod 100 = y - 1900" if "1950 \<le> y" "y < 2000" using that mod_pos_pos_trivial [of "y - 1900" 100] by (simp add: mod_diff_eq [symmetric])
    moreover have "y mod 100 = y - 2000" if "2000 \<le> y" "y \<le> 2049" using that mod_pos_pos_trivial [of "y - 2000" 100] by (simp add: mod_diff_eq [symmetric])
    ultimately show "(if 1900 + t < 1950 then 1900 + t + 100 else 1900 + t) = y \<and> \<not> y \<ge> 2050 \<and> 0 \<le> t \<and> t \<le> 99" by (cases "y < 2000") auto
  next
    assume "(if 1900 + t < 1950 then 1900 + t + 100 else 1900 + t) = y \<and> \<not> y \<ge> 2050 \<and> 0 \<le> t \<and> t \<le> 99"
    moreover have "(t + 1900) mod 100 = t mod 100" "(t + 2000) mod 100 = t mod 100"
      using mod_mult_self1 [of t 19 100] mod_mult_self1 [of t 20 100] by simp_all
    ultimately show "t = y mod 100 \<and> 1950 \<le> y \<and> y \<le> 2049" by (auto split: if_splits simp: add.commute)
  qed
  have step: "(let year = 1900 + t; year = (if year < 1950 then year + 100 else year) in if year \<ge> 2050 then rd_fail else rd_return year) c = (Some y, rest)
      \<longleftrightarrow> (if 1900 + t < 1950 then 1900 + t + 100 else 1900 + t) = y \<and> \<not> y \<ge> 2050 \<and> c = rest" for t c
    unfolding Let_def by (cases "(if 1900 + t < 1950 then 1900 + t + 100 else 1900 + t) \<ge> 2050") (auto simp: rd_return_def rd_fail_def)
  have "rfc5280_year False cbs = (Some y, rest) \<longleftrightarrow>
      (\<exists>t. ((if 1900 + t < 1950 then 1900 + t + 100 else 1900 + t) = y \<and> \<not> y \<ge> 2050 \<and> 0 \<le> t \<and> t \<le> 99) \<and> cbs = two_digits t @ rest)"
    (is "?L \<longleftrightarrow> ?R")
  proof
    assume ?L
    then have "\<exists>t r. (0 \<le> t \<and> t \<le> 99 \<and> cbs = two_digits t @ r)
      \<and> (if 1900 + t < 1950 then 1900 + t + 100 else 1900 + t) = y \<and> \<not> y \<ge> 2050 \<and> r = rest"
      unfolding rfc5280_year_def if_False rd_bind_Some_iff cbs_get_two_digits_iff step .
    then show ?R by (elim exE conjE) (simp only: simp_thms, rule exI, (intro conjI; (assumption | rule refl)))
  next
    assume ?R
    then obtain t where t: "((if 1900 + t < 1950 then 1900 + t + 100 else 1900 + t) = y \<and> \<not> y \<ge> 2050 \<and> 0 \<le> t \<and> t \<le> 99) \<and> cbs = two_digits t @ rest"
      by (elim exE)
    have "\<exists>t r. (0 \<le> t \<and> t \<le> 99 \<and> cbs = two_digits t @ r)
      \<and> (if 1900 + t < 1950 then 1900 + t + 100 else 1900 + t) = y \<and> \<not> y \<ge> 2050 \<and> r = rest"
      using t by (intro exI [of _ t] exI [of _ rest]) (simp only: simp_thms)
    then show ?L
      unfolding rfc5280_year_def if_False rd_bind_Some_iff cbs_get_two_digits_iff step .
  qed
  then show ?thesis unfolding y using False by (simp only: year_ok_def year_text_def if_False conj_assoc ex_simps simp_thms)
qed

text \<open>Without time-zone offsets the zone is \<open>Z\<close>.\<close>

lemma rfc5280_offset_strict: "rfc5280_offset False cbs = (Some off, rest) \<longleftrightarrow> off = 0 \<and> cbs = 90 # rest"
  by (cases cbs) (auto simp: rfc5280_offset_def rd_bind_def rd_return_def rd_fail_def)

lemma rfc5280_fields_strict:
  "rfc5280_fields g False cbs = (Some (y, m, d, hh, mm, ss, off), rest) \<longleftrightarrow>
     year_ok g y \<and> is_valid_date y m d \<and> is_valid_time hh mm ss \<and> off = 0
     \<and> cbs = year_text g y @ time_text m d hh mm ss @ 90 # rest"
proof -
  have v: "year_ok g y \<Longrightarrow> 0 \<le> y \<and> y \<le> 9999" by (auto simp: year_ok_def split: if_splits)
  have bounds: "is_valid_date y m d \<Longrightarrow> 1 \<le> m \<and> m \<le> 12 \<and> 0 \<le> d \<and> d \<le> 99 \<and> 0 \<le> m \<and> m \<le> 99"
    "is_valid_time hh mm ss \<Longrightarrow> 0 \<le> hh \<and> hh \<le> 99 \<and> 0 \<le> mm \<and> mm \<le> 99 \<and> 0 \<le> ss \<and> ss \<le> 99"
    by (auto simp: is_valid_date_iff is_valid_time_def split: if_splits)
  have t: "is_valid_time hh mm ss \<longleftrightarrow> 0 \<le> hh \<and> \<not> hh > 23 \<and> 0 \<le> mm \<and> \<not> mm > 59 \<and> 0 \<le> ss \<and> \<not> ss > 59"
    by (auto simp: is_valid_time_def)
  show ?thesis
  proof
    assume l: "rfc5280_fields g False cbs = (Some (y, m, d, hh, mm, ss, off), rest)"
    have "year_ok g y \<and> (0 \<le> m \<and> m \<le> 99 \<and> \<not> (m < 1 \<or> m > 12)) \<and> (0 \<le> d \<and> d \<le> 99 \<and> is_valid_day y m d)
      \<and> (0 \<le> hh \<and> hh \<le> 99 \<and> \<not> hh > 23) \<and> (0 \<le> mm \<and> mm \<le> 99 \<and> \<not> mm > 59) \<and> (0 \<le> ss \<and> ss \<le> 99 \<and> \<not> ss > 59)
      \<and> off = 0 \<and> cbs = year_text g y @ time_text m d hh mm ss @ 90 # rest"
      using l unfolding rfc5280_fields_def rd_bind_Some_iff rfc5280_year_iff rd_check_iff cbs_get_two_digits_iff rfc5280_offset_strict
        rd_return_def time_text_def append.assoc prod.inject option.inject
      by (elim exE conjE) (simp only: not_False_eq_True simp_thms)
    then show "year_ok g y \<and> is_valid_date y m d \<and> is_valid_time hh mm ss \<and> off = 0
        \<and> cbs = year_text g y @ time_text m d hh mm ss @ 90 # rest"
      using v is_valid_day_iff [of y m d] by (auto simp: is_valid_time_def)
  next
    assume r: "year_ok g y \<and> is_valid_date y m d \<and> is_valid_time hh mm ss \<and> off = 0
        \<and> cbs = year_text g y @ time_text m d hh mm ss @ 90 # rest"
    then have "is_valid_day y m d" using v bounds(1) is_valid_day_iff [of y m d] by blast
    moreover have "rfc5280_year g (year_text g y @ c) = (Some y, c)" for c using r by (simp add: rfc5280_year_iff)
    moreover have "cbs_get_two_digits (two_digits m @ c) = (Some m, c)" "cbs_get_two_digits (two_digits d @ c) = (Some d, c)"
      "cbs_get_two_digits (two_digits hh @ c) = (Some hh, c)" "cbs_get_two_digits (two_digits mm @ c) = (Some mm, c)"
      "cbs_get_two_digits (two_digits ss @ c) = (Some ss, c)" for c
      using r bounds unfolding cbs_get_two_digits_iff by blast+
    moreover have "rfc5280_offset False (90 # rest) = (Some 0, rest)" by (simp add: rfc5280_offset_strict)
    ultimately show "rfc5280_fields g False cbs = (Some (y, m, d, hh, mm, ss, off), rest)"
      using r bounds(1) t by (simp add: rfc5280_fields_def rd_bind_def rd_check_def rd_return_def time_text_def)
  qed
qed

lemma CBS_parse_rfc5280_time_strict:
  "CBS_parse_rfc5280_time_internal cbs g False (Some t0) = (True, Some T) \<longleftrightarrow>
     (\<exists>y m d hh mm ss. year_ok g y \<and> is_valid_date y m d \<and> is_valid_time hh mm ss
        \<and> cbs = year_text g y @ time_text m d hh mm ss @ [90]
        \<and> T = t0\<lparr> tm_year := y - 1900, tm_mon := m - 1, tm_mday := d, tm_hour := hh, tm_min := mm, tm_sec := ss \<rparr>)"
    (is "?L \<longleftrightarrow> ?R")
proof
  assume l: ?L
  then obtain y m d hh mm ss off copy where f: "rfc5280_fields g False cbs = (Some (y, m, d, hh, mm, ss, off), copy)"
    unfolding CBS_parse_rfc5280_time_internal_def by (auto split: prod.splits option.splits)
  have off: "off = 0" using f unfolding rfc5280_fields_strict by blast
  then have "copy = []" using l f by (simp add: CBS_parse_rfc5280_time_internal_def split: if_splits)
  moreover from this off have "T = t0\<lparr> tm_year := y - 1900, tm_mon := m - 1, tm_mday := d, tm_hour := hh, tm_min := mm, tm_sec := ss \<rparr>"
    using l f by (simp add: CBS_parse_rfc5280_time_internal_def)
  moreover from f \<open>copy = []\<close> have "year_ok g y \<and> is_valid_date y m d \<and> is_valid_time hh mm ss \<and> off = 0
      \<and> cbs = year_text g y @ time_text m d hh mm ss @ [90]"
    unfolding rfc5280_fields_strict by (simp only: simp_thms)
  ultimately show ?R
    by (intro exI [of _ y] exI [of _ m] exI [of _ d] exI [of _ hh] exI [of _ mm] exI [of _ ss]) (simp only: simp_thms)
next
  assume ?R
  then obtain y m d hh mm ss where "year_ok g y \<and> is_valid_date y m d \<and> is_valid_time hh mm ss
        \<and> cbs = year_text g y @ time_text m d hh mm ss @ [90]"
      and t: "T = t0\<lparr> tm_year := y - 1900, tm_mon := m - 1, tm_mday := d, tm_hour := hh, tm_min := mm, tm_sec := ss \<rparr>" by blast
  then have "rfc5280_fields g False cbs = (Some (y, m, d, hh, mm, ss, 0), [])" by (simp add: rfc5280_fields_strict)
  then show ?L by (simp add: CBS_parse_rfc5280_time_internal_def t)
qed

text \<open>C31: With time-zone offsets refused, \<open>CBS_parse_generalized_time\<close> accepts exactly the texts
  \<open>YYYYMMDDHHMMSSZ\<close> of the valid times of the years 0 to 9999, and \<open>CBS_parse_utc_time\<close> exactly the texts
  \<open>YYMMDDHHMMSSZ\<close> of the valid times of the years 1950 to 2049; the six fields of \<open>*out_tm\<close> that the text gives are
  set and the others are what they were before the call (the header says that \<open>*out_tm\<close> is zeroed first).\<close>
theorem CBS_parse_time_exact:
  "(CBS_parse_generalized_time cbs (Some t0) False = (True, Some T)) =
     (\<exists>y m d hh mm ss. 0 \<le> y \<and> y \<le> 9999 \<and> is_valid_date y m d \<and> is_valid_time hh mm ss
        \<and> cbs = two_digits (y div 100) @ two_digits (y mod 100) @ time_text m d hh mm ss @ [90]
        \<and> T = t0\<lparr> tm_year := y - 1900, tm_mon := m - 1, tm_mday := d, tm_hour := hh, tm_min := mm, tm_sec := ss \<rparr>)
   \<and> (CBS_parse_utc_time cbs (Some t0) False = (True, Some T)) =
     (\<exists>y m d hh mm ss. 1950 \<le> y \<and> y \<le> 2049 \<and> is_valid_date y m d \<and> is_valid_time hh mm ss
        \<and> cbs = two_digits (y mod 100) @ time_text m d hh mm ss @ [90]
        \<and> T = t0\<lparr> tm_year := y - 1900, tm_mon := m - 1, tm_mday := d, tm_hour := hh, tm_min := mm, tm_sec := ss \<rparr>)"
  unfolding CBS_parse_generalized_time_def CBS_parse_utc_time_def CBS_parse_rfc5280_time_strict year_ok_def year_text_def
    if_True if_False append.assoc by (simp only: conj_assoc simp_thms)

text \<open>C32: What \<open>OPENSSL_gmtime_diff\<close> reports, \<open>OPENSSL_gmtime_adj\<close> undoes: moving the first time by the days and
  seconds between the two gives the second time. The seconds are less than a day and have the sign of the days.\<close>
theorem OPENSSL_gmtime_diff_adj:
  assumes "OPENSSL_gmtime_diff T1 T2 = Some (days, secs)"
  shows "OPENSSL_gmtime_adj T1 days secs = Some (T2\<lparr> tm_wday := 0, tm_yday := 0, tm_isdst := 0 \<rparr>)
    \<and> \<bar>secs\<bar> < 86400 \<and> (0 \<le> days \<and> 0 \<le> secs \<or> days \<le> 0 \<and> secs \<le> 0)"
proof -
  obtain t1 t2 where t: "OPENSSL_tm_to_posix T1 = Some t1" "OPENSSL_tm_to_posix T2 = Some t2"
    and ds: "days = (t2 - t1) sdiv 86400" "secs = (t2 - t1) smod 86400"
    using assms by (auto simp: OPENSSL_gmtime_diff_def Let_def split: option.splits)
  have r: "MIN_POSIX_TIME \<le> t1" "t1 \<le> MAX_POSIX_TIME" "MIN_POSIX_TIME \<le> t2" "t2 \<le> MAX_POSIX_TIME"
    using t [THEN OPENSSL_tm_to_posix_range] by (auto simp: is_valid_posix_time_def)
  have sum: "days * 86400 + secs = t2 - t1" unfolding ds by (rule sdiv_mult_smod_eq)
  have signs: "\<bar>secs\<bar> < 86400 \<and> (0 \<le> days \<and> 0 \<le> secs \<or> days \<le> 0 \<and> secs \<le> 0)"
  proof (cases "0 \<le> t2 - t1")
    case True
    then show ?thesis unfolding ds by (simp add: sdiv_div smod_mod pos_imp_zdiv_nonneg_iff)
  next
    case False
    then have "days = - ((t1 - t2) div 86400)" "0 \<le> (t1 - t2) div 86400" unfolding ds by (simp_all add: neg_sdiv pos_imp_zdiv_nonneg_iff)
    moreover have "(t1 - t2) div 86400 * 86400 + (t1 - t2) mod 86400 = t1 - t2" by (rule div_mult_mod_eq)
    moreover have "0 \<le> (t1 - t2) mod 86400" "(t1 - t2) mod 86400 < 86400" by simp_all
    ultimately show ?thesis using sum by linarith
  qed
  have "t1 + days * 86400 + secs = t2" using sum by simp
  moreover have "OPENSSL_gmtime_adj T1 days secs = OPENSSL_posix_to_tm (t1 + days * 86400 + secs)"
    using t(1) by (rule OPENSSL_gmtime_adj_eq) (use r signs sum in \<open>auto simp: abs_if\<close>)
  moreover have "OPENSSL_posix_to_tm t2 = Some (T2\<lparr> tm_wday := 0, tm_yday := 0, tm_isdst := 0 \<rparr>)"
    using t(2) OPENSSL_posix_to_tm_iff by (simp add: OPENSSL_tm_to_posix_def)
  ultimately show ?thesis using signs by simp
qed

lemma posix_time_from_utc_calendar_witness:
  "\<exists>t. posix_time_from_utc 2024 2 28 0 0 0 = Some t \<and> posix_time_from_utc 2024 2 29 0 0 0 = Some (t + 86400)
     \<and> posix_time_from_utc 2024 2 28 12 30 15 = Some (t + 12 * 3600 + 30 * 60 + 15)"
  using posix_time_from_utc_calendar [of 2024 2 28 12 30 15]
  by (simp add: is_valid_date_iff is_valid_time_def leap_year_def next_date_def month_length_def)

lemma OPENSSL_gmtime_diff_adj_witness:
  "OPENSSL_gmtime_adj \<lparr> tm_sec = 5, tm_min = 0, tm_hour = 0, tm_mday = 1, tm_mon = 2, tm_year = 124, tm_wday = 0, tm_yday = 0, tm_isdst = 0 \<rparr> (- 1) (- 6)
    = Some \<lparr> tm_sec = 59, tm_min = 59, tm_hour = 23, tm_mday = 28, tm_mon = 1, tm_year = 124, tm_wday = 0, tm_yday = 0, tm_isdst = 0 \<rparr>"
proof -
  have "OPENSSL_gmtime_diff
      \<lparr> tm_sec = 5, tm_min = 0, tm_hour = 0, tm_mday = 1, tm_mon = 2, tm_year = 124, tm_wday = 0, tm_yday = 0, tm_isdst = 0 \<rparr>
      \<lparr> tm_sec = 59, tm_min = 59, tm_hour = 23, tm_mday = 28, tm_mon = 1, tm_year = 124, tm_wday = 4, tm_yday = 7, tm_isdst = 0 \<rparr>
    = Some (- 1, - 6)" by code_simp
  from OPENSSL_gmtime_diff_adj [OF this] show ?thesis by simp
qed

end
