(* ===== verification/Base64.thy ===== *)
theory Base64
  imports Cbb
begin

text \<open>
  \<open>crypto/base64/base64.c\<close>: the block encoder and decoder, the streaming encoder and decoder with
  their context \<open>EVP_ENCODE_CTX\<close>, and the length computations. An operation that writes to a caller's
  buffer returns the bytes it has written there. Shown below: the branch-free character maps are the alphabet of
  RFC 4648 and its inverse, decoding undoes encoding, the decoder accepts exactly the strings of complete quads with
  padding at the end, and both streaming interfaces give the same result however the input is cut into pieces.
\<close>

unbundle bit_operations_syntax

section \<open>Characters\<close>

definition constant_time_lt_args_8 :: "u8 \<Rightarrow> u8 \<Rightarrow> u8" where
  "constant_time_lt_args_8 a b =
     (let aw = ucast a :: crypto_word_t; bw = ucast b in ucast (constant_time_msb_w (aw - bw)))"

definition constant_time_in_range_8 :: "u8 \<Rightarrow> u8 \<Rightarrow> u8 \<Rightarrow> u8" where
  "constant_time_in_range_8 a min_c max_c =
     (let a = a - min_c in constant_time_lt_args_8 a (max_c - min_c + 1))"

definition conv_bin2ascii :: "u8 \<Rightarrow> u8" where
  "conv_bin2ascii a =
     (let a = a AND 0x3f;
          ret = constant_time_select_8 (ucast (constant_time_eq_8 (ucast a) 62)) 0x2b 0x2f;
          ret = constant_time_select_8 (ucast (constant_time_lt_args_8 a 62)) (a - 52 + 0x30) ret;
          ret = constant_time_select_8 (ucast (constant_time_lt_args_8 a 52)) (a - 26 + 0x61) ret;
          ret = constant_time_select_8 (ucast (constant_time_lt_args_8 a 26)) (a + 0x41) ret
      in ret)"

definition base64_ascii_to_bin :: "u8 \<Rightarrow> u8" where
  "base64_ascii_to_bin a =
     (let is_upper = constant_time_in_range_8 a 0x41 0x5a;
          is_lower = constant_time_in_range_8 a 0x61 0x7a;
          is_digit = constant_time_in_range_8 a 0x30 0x39;
          is_plus = constant_time_eq_8 (ucast a) 0x2b;
          is_slash = constant_time_eq_8 (ucast a) 0x2f;
          is_equals = constant_time_eq_8 (ucast a) 0x3d;
          ret = 0;
          ret = ret OR (is_upper AND (a - 0x41));
          ret = ret OR (is_lower AND (a - 0x61 + 26));
          ret = ret OR (is_digit AND (a - 0x30 + 52));
          ret = ret OR (is_plus AND 62);
          ret = ret OR (is_slash AND 63);
          is_valid = is_upper OR is_lower OR is_digit OR is_plus OR is_slash OR is_equals
      in ret OR NOT is_valid)"

section \<open>Encoding\<close>

definition EVP_EncodedLength :: "nat \<Rightarrow> nat option" where
  "EVP_EncodedLength len =
     (if size_add len 2 < len then None
      else let len = size_add len 2; len = len div 3 in
        if size_mul len 4 div 4 \<noteq> len then None
        else let len = size_mul len 4 in
          if size_add len 1 < len then None else Some (size_add len 1))"

record EVP_ENCODE_CTX =
  ctx_data_used :: nat
  ctx_data :: bytes
  ctx_eof_seen :: bool
  ctx_error_encountered :: bool

definition EVP_EncodeInit :: EVP_ENCODE_CTX where
  "EVP_EncodeInit = \<lparr> ctx_data_used = 0, ctx_data = replicate 48 0, ctx_eof_seen = False, ctx_error_encountered = False \<rparr>"

definition EVP_ENCODE_CTX_new :: "(nat \<Rightarrow> bool) \<Rightarrow> EVP_ENCODE_CTX option" where
  "EVP_ENCODE_CTX_new malloc_ok = (if OPENSSL_malloc malloc_ok 56 then Some EVP_EncodeInit else None)"

text \<open>The loop of \<open>EVP_EncodeBlock\<close>: \<open>dst\<close> is what has been written and \<open>ret\<close> the count returned.\<close>

fun encode_block_loop :: "bytes \<Rightarrow> bytes \<Rightarrow> nat \<Rightarrow> bytes \<times> nat" where
  "encode_block_loop [] dst ret = (dst, ret)"
| "encode_block_loop (s0 # s1 # s2 # src) dst ret =
     (let l = push_bit 16 (ucast s0) OR push_bit 8 (ucast s1) OR ucast s2 :: u32
      in encode_block_loop src
           (dst @ [conv_bin2ascii (ucast (drop_bit 18 l)), conv_bin2ascii (ucast (drop_bit 12 l)),
                   conv_bin2ascii (ucast (drop_bit 6 l)), conv_bin2ascii (ucast l)]) (size_add ret 4))"
| "encode_block_loop (s0 # src) dst ret =
     (let l = push_bit 16 (ucast s0) :: u32;
          l = (case src of s1 # _ \<Rightarrow> l OR push_bit 8 (ucast s1) | [] \<Rightarrow> l)
      in (dst @ [conv_bin2ascii (ucast (drop_bit 18 l)), conv_bin2ascii (ucast (drop_bit 12 l)),
                 if src = [] then 0x3d else conv_bin2ascii (ucast (drop_bit 6 l)), 0x3d], size_add ret 4))"

text \<open>The bytes written, with the terminating zero, and the return value.\<close>

definition EVP_EncodeBlock :: "bytes \<Rightarrow> bytes \<times> nat" where
  "EVP_EncodeBlock src = (case encode_block_loop src [] 0 of (dst, ret) \<Rightarrow> (dst @ [0], ret))"

text \<open>
  One line: the block goes to \<open>out\<close>, the zero that \<open>EVP_EncodeBlock\<close> wrote after it is replaced
  by a newline, and \<open>encoded\<close> is the count returned. The zero written after the newline is overwritten by the next line.
\<close>

definition encode_line :: "bytes \<Rightarrow> bytes \<Rightarrow> bytes \<times> nat" where
  "encode_line out block = (case EVP_EncodeBlock block of (dst, encoded) \<Rightarrow> (out @ take encoded dst @ [0x0a], encoded))"

text \<open>
  The \<open>while\<close> loop of \<open>EVP_EncodeUpdate\<close>; \<open>Inl\<close> is the early return on overflow. The text written so far
  is followed by a zero in the buffer, which is not kept here.
\<close>

function encode_update_loop :: "bytes \<Rightarrow> bytes \<Rightarrow> nat \<Rightarrow> bytes + bytes \<times> bytes \<times> nat" where
  "encode_update_loop in_bytes out total_out =
     (if length in_bytes \<ge> 48 then
        case encode_line out (take 48 in_bytes) of (out, encoded) \<Rightarrow>
          if size_add (size_add total_out encoded) 1 < total_out then Inl out
          else encode_update_loop (drop 48 in_bytes) out (size_add (size_add total_out encoded) 1)
      else Inr (in_bytes, out, total_out))"
  by pat_completeness auto
termination by (relation "measure (\<lambda>(in_bytes, out, total_out). length in_bytes)") auto

text \<open>The context, the text written to \<open>out\<close> and \<open>*out_len\<close> afterwards. The text is without the zero that the code writes behind it.\<close>

definition EVP_EncodeUpdate :: "EVP_ENCODE_CTX \<Rightarrow> bytes \<Rightarrow> EVP_ENCODE_CTX \<times> bytes \<times> nat" where
  "EVP_EncodeUpdate ctx in_bytes =
     (if length in_bytes = 0 then (ctx, [], 0)
      else if 48 - ctx_data_used ctx > length in_bytes then
        (ctx\<lparr> ctx_data := buf_write (ctx_data_used ctx) in_bytes (ctx_data ctx),
              ctx_data_used := ctx_data_used ctx + length in_bytes \<rparr>, [], 0)
      else
        let (ctx, in_bytes, out, total_out) =
              (if ctx_data_used ctx \<noteq> 0 then
                 let todo = 48 - ctx_data_used ctx;
                     ctx = ctx\<lparr> ctx_data := buf_write (ctx_data_used ctx) (take todo in_bytes) (ctx_data ctx) \<rparr>;
                     (out, encoded) = encode_line [] (ctx_data ctx)
                 in (ctx\<lparr> ctx_data_used := 0 \<rparr>, drop todo in_bytes, out, size_add encoded 1)
               else (ctx, in_bytes, [], 0))
        in case encode_update_loop in_bytes out total_out of
             Inl out \<Rightarrow> (ctx, out, 0)
           | Inr (in_bytes, out, total_out) \<Rightarrow>
               (ctx\<lparr> ctx_data := (if length in_bytes \<noteq> 0 then buf_write 0 in_bytes (ctx_data ctx) else ctx_data ctx),
                      ctx_data_used := length in_bytes \<rparr>,
                out, if total_out > INT_MAX then 0 else total_out))"

definition EVP_EncodeFinal :: "EVP_ENCODE_CTX \<Rightarrow> EVP_ENCODE_CTX \<times> bytes \<times> nat" where
  "EVP_EncodeFinal ctx =
     (if ctx_data_used ctx = 0 then (ctx, [], 0)
      else case encode_line [] (take (ctx_data_used ctx) (ctx_data ctx)) of (out, encoded) \<Rightarrow>
        (ctx\<lparr> ctx_data_used := 0 \<rparr>, out @ [0], encoded + 1))"

section \<open>Decoding\<close>

definition EVP_DecodedLength :: "nat \<Rightarrow> nat option" where
  "EVP_DecodedLength len = (if len mod 4 \<noteq> 0 then None else Some (size_mul (len div 4) 3))"

definition EVP_DecodeInit :: EVP_ENCODE_CTX where
  "EVP_DecodeInit = \<lparr> ctx_data_used = 0, ctx_data = replicate 48 0, ctx_eof_seen = False, ctx_error_encountered = False \<rparr>"

definition base64_decode_quad :: "bytes \<Rightarrow> bytes option" where
  "base64_decode_quad in_bytes =
     (let a = base64_ascii_to_bin (in_bytes ! 0); b = base64_ascii_to_bin (in_bytes ! 1);
          c = base64_ascii_to_bin (in_bytes ! 2); d = base64_ascii_to_bin (in_bytes ! 3)
      in if a = 0xff \<or> b = 0xff \<or> c = 0xff \<or> d = 0xff then None
         else
           let v = push_bit 18 (ucast a) OR push_bit 12 (ucast b) OR push_bit 6 (ucast c) OR ucast d :: u32;
               padding_pattern = (push_bit 3 (of_bool (in_bytes ! 0 = 0x3d)) OR push_bit 2 (of_bool (in_bytes ! 1 = 0x3d))
                  OR push_bit 1 (of_bool (in_bytes ! 2 = 0x3d)) OR of_bool (in_bytes ! 3 = 0x3d) :: nat)
           in if padding_pattern = 0 then Some [ucast (drop_bit 16 v), ucast (drop_bit 8 v), ucast v]
              else if padding_pattern = 1 then Some [ucast (drop_bit 16 v), ucast (drop_bit 8 v)]
              else if padding_pattern = 3 then Some [ucast (drop_bit 16 v)]
              else None)"

text \<open>
  The loop of \<open>EVP_DecodeUpdate\<close> over the input, with the bytes written to \<open>out\<close> (\<open>bytes_out\<close> is their
  number): the context is marked and the loop left at the first error.
\<close>

fun decode_update_loop :: "bytes \<Rightarrow> EVP_ENCODE_CTX \<Rightarrow> bytes \<Rightarrow> bool \<times> EVP_ENCODE_CTX \<times> bytes" where
  "decode_update_loop [] ctx out = (True, ctx, out)"
| "decode_update_loop (c # in_bytes) ctx out =
     (if c \<in> {0x20, 0x09, 0x0d, 0x0a} then decode_update_loop in_bytes ctx out
      else if ctx_eof_seen ctx then (False, ctx\<lparr> ctx_error_encountered := True \<rparr>, out)
      else
        let ctx = ctx\<lparr> ctx_data := (ctx_data ctx)[ctx_data_used ctx := c], ctx_data_used := ctx_data_used ctx + 1 \<rparr>
        in if ctx_data_used ctx = 4 then
             case base64_decode_quad (ctx_data ctx) of
               None \<Rightarrow> (False, ctx\<lparr> ctx_error_encountered := True \<rparr>, out)
             | Some bs \<Rightarrow>
                 let ctx = ctx\<lparr> ctx_data_used := 0 \<rparr>;
                     ctx = (if length bs < 3 then ctx\<lparr> ctx_eof_seen := True \<rparr> else ctx)
                 in decode_update_loop in_bytes ctx (out @ bs)
           else decode_update_loop in_bytes ctx out)"

text \<open>The return value, the context, the bytes written and \<open>*out_len\<close>.\<close>

definition EVP_DecodeUpdate :: "EVP_ENCODE_CTX \<Rightarrow> bytes \<Rightarrow> int \<times> EVP_ENCODE_CTX \<times> bytes \<times> nat" where
  "EVP_DecodeUpdate ctx in_bytes =
     (if ctx_error_encountered ctx then (- 1, ctx, [], 0)
      else case decode_update_loop in_bytes ctx [] of
        (False, ctx, out) \<Rightarrow> (- 1, ctx, out, 0)
      | (True, ctx, out) \<Rightarrow>
          if length out > INT_MAX then (- 1, ctx\<lparr> ctx_error_encountered := True \<rparr>, out, 0)
          else (if ctx_eof_seen ctx then 0 else 1, ctx, out, length out))"

definition EVP_DecodeFinal :: "EVP_ENCODE_CTX \<Rightarrow> int \<times> nat" where
  "EVP_DecodeFinal ctx = (if ctx_error_encountered ctx \<or> ctx_data_used ctx \<noteq> 0 then (- 1, 0) else (1, 0))"

text \<open>The loop of \<open>EVP_DecodeBase64\<close> over an input of whole quads: \<open>i \<noteq> in_len - 4\<close> says that more follows.\<close>

fun decode_base64_loop :: "bytes \<Rightarrow> bytes \<Rightarrow> bool \<times> bytes" where
  "decode_base64_loop (a # b # c # d # in_bytes) out =
     (case base64_decode_quad [a, b, c, d] of
        None \<Rightarrow> (False, out)
      | Some bs \<Rightarrow> if length bs \<noteq> 3 \<and> in_bytes \<noteq> [] then (False, out @ bs)
                     else decode_base64_loop in_bytes (out @ bs))"
| "decode_base64_loop _ out = (True, out)"

text \<open>The return value, the bytes written to \<open>out\<close> and \<open>*out_len\<close>.\<close>

definition EVP_DecodeBase64 :: "nat \<Rightarrow> bytes \<Rightarrow> bool \<times> bytes \<times> nat" where
  "EVP_DecodeBase64 max_out in_bytes =
     (if length in_bytes mod 4 \<noteq> 0 then (False, [], 0)
      else case EVP_DecodedLength (length in_bytes) of
        None \<Rightarrow> (False, [], 0)
      | Some max_len \<Rightarrow>
          if max_out < max_len then (False, [], 0)
          else case decode_base64_loop in_bytes [] of
            (False, out) \<Rightarrow> (False, out, 0)
          | (True, out) \<Rightarrow> (True, out, length out))"

text \<open>The zeros put back in place of the padding.\<close>

function pad_to_triple :: "bytes \<Rightarrow> bytes" where
  "pad_to_triple dst = (if length dst mod 3 \<noteq> 0 then pad_to_triple (dst @ [0]) else dst)"
  by pat_completeness auto
termination by (relation "measure (\<lambda>dst. (3 - length dst mod 3) mod 3)") (auto simp: mod_Suc)

text \<open>The return value and the bytes written to \<open>dst\<close>.\<close>

definition EVP_DecodeBlock :: "bytes \<Rightarrow> int \<times> bytes" where
  "EVP_DecodeBlock src =
     (let src = dropWhile (\<lambda>c. c = 0x20 \<or> c = 0x09) src;
          src = rev (dropWhile (\<lambda>c. c \<in> {0x20, 0x09, 0x0d, 0x0a}) (rev src))
      in case EVP_DecodedLength (length src) of
           None \<Rightarrow> (- 1, [])
         | Some dst_len \<Rightarrow>
             if dst_len > INT_MAX then (- 1, [])
             else case EVP_DecodeBase64 dst_len src of
               (False, dst, _) \<Rightarrow> (- 1, dst)
             | (True, dst, dst_len) \<Rightarrow> let dst = pad_to_triple dst in (int (length dst), dst))"

section \<open>The alphabet\<close>

lemma constant_time_lt_args_8_eq [mask_simps]: "constant_time_lt_args_8 a b = (if a < b then NOT 0 else 0)"
proof -
  have "bit (ucast a - ucast b :: crypto_word_t) 63 \<longleftrightarrow> (ucast a :: crypto_word_t) < ucast b"
    by (subst word_less_msb) (simp add: bit_simps)
  also have "\<dots> \<longleftrightarrow> a < b" by (simp add: word_less_nat_alt unat_ucast_up)
  finally show ?thesis by (simp add: constant_time_lt_args_8_def mask_simps)
qed

lemma constant_time_in_range_8_eq [mask_simps]:
  assumes "lo \<le> hi" "unat hi < 255"
  shows "constant_time_in_range_8 a lo hi = (if lo \<le> a \<and> a \<le> hi then NOT 0 else 0)"
proof -
  have "unat (hi - lo + 1) = unat hi - unat lo + 1"
    using assms by (simp add: unat_word_ariths unat_sub word_le_nat_alt)
  moreover have "unat (a - lo) = (if unat lo \<le> unat a then unat a - unat lo else 256 + unat a - unat lo)"
    using unat_u8_less [of a] unat_u8_less [of lo] by (auto simp: unat_sub_if')
  ultimately show ?thesis
    using assms unat_u8_less [of a] by (auto simp: constant_time_in_range_8_def mask_simps word_less_nat_alt word_le_nat_alt)
qed

text \<open>The character of a six-bit value.\<close>

definition base64_char :: "nat \<Rightarrow> u8" where
  "base64_char n = of_nat (if n < 26 then n + 65 else if n < 52 then n - 26 + 97 else if n < 62 then n - 52 + 48
     else if n = 62 then 43 else 47)"

lemma conv_bin2ascii_eq: "conv_bin2ascii a = base64_char (unat a mod 64)"
proof -
  define n where "n = unat a mod 64"
  have "a AND 0x3f = take_bit 6 a" by (simp add: take_bit_eq_mask mask_eq_exp_minus_1)
  then have u: "unat (a AND 0x3f) = n" by (simp add: unat_take_bit n_def)
  have n: "n < 64" by (simp add: n_def)
  then have a: "a AND 0x3f = of_nat n" by (simp add: word_unat_eq_iff u)
  have lt: "(of_nat n :: u8) < 26 \<longleftrightarrow> n < 26" "(of_nat n :: u8) < 52 \<longleftrightarrow> n < 52" "(of_nat n :: u8) < 62 \<longleftrightarrow> n < 62"
    "(ucast (of_nat n :: u8) :: crypto_word_t) = 62 \<longleftrightarrow> n = 62"
    using n by (simp_all add: word_less_nat_alt word_unat_eq_iff unat_ucast_up)
  have "conv_bin2ascii a = (if n < 26 then of_nat n + 0x41 else if n < 52 then of_nat n - 26 + 0x61
      else if n < 62 then of_nat n - 52 + 0x30 else if n = 62 then 0x2b else 0x2f)"
    by (simp add: conv_bin2ascii_def Let_def a mask_simps lt)
  then show ?thesis by (auto simp: base64_char_def n_def [symmetric] of_nat_diff)
qed

lemma base64_ascii_to_bin_eq:
  "base64_ascii_to_bin c =
     (if 0x41 \<le> c \<and> c \<le> 0x5a then c - 0x41 else if 0x61 \<le> c \<and> c \<le> 0x7a then c - 0x61 + 26
      else if 0x30 \<le> c \<and> c \<le> 0x39 then c - 0x30 + 52 else if c = 0x2b then 62 else if c = 0x2f then 63
      else if c = 0x3d then 0 else 0xff)"
proof -
  have eq: "(ucast c :: crypto_word_t) = 0x2b \<longleftrightarrow> c = 0x2b" "(ucast c :: crypto_word_t) = 0x2f \<longleftrightarrow> c = 0x2f"
    "(ucast c :: crypto_word_t) = 0x3d \<longleftrightarrow> c = 0x3d"
    by (simp_all add: word_unat_eq_iff unat_ucast_up)
  have out: "constant_time_in_range_8 c 0x41 0x5a = (if 0x41 \<le> c \<and> c \<le> 0x5a then NOT 0 else 0)"
    "constant_time_in_range_8 c 0x61 0x7a = (if 0x61 \<le> c \<and> c \<le> 0x7a then NOT 0 else 0)"
    "constant_time_in_range_8 c 0x30 0x39 = (if 0x30 \<le> c \<and> c \<le> 0x39 then NOT 0 else 0)"
    by (simp_all add: constant_time_in_range_8_eq)
  show ?thesis
    unfolding base64_ascii_to_bin_def Let_def out mask_simps eq
    by (auto simp: word_le_nat_alt)
qed

lemma unat_base64_char:
  assumes "n < 64"
  shows "unat (base64_char n) = (if n < 26 then n + 65 else if n < 52 then n - 26 + 97 else if n < 62 then n - 52 + 48
     else if n = 62 then 43 else 47)"
  using assms by (auto simp: base64_char_def)

lemma base64_ascii_to_bin_char [simp]: "n < 64 \<Longrightarrow> base64_ascii_to_bin (base64_char n) = of_nat n"
  unfolding base64_ascii_to_bin_eq word_le_nat_alt word_unat_eq_iff
  by (auto simp: unat_base64_char unat_word_ariths unat_sub_if')

lemma base64_char_not_equals: "n < 64 \<Longrightarrow> base64_char n \<noteq> 0x3d"
  by (auto simp: word_unat_eq_iff unat_base64_char)

lemma base64_char_not_space: "n < 64 \<Longrightarrow> base64_char n \<notin> {0x20, 0x09, 0x0d, 0x0a}"
  by (auto simp: word_unat_eq_iff unat_base64_char)

lemma base64_ascii_to_bin_cases:
  obtains (char) n where "n < 64" "c = base64_char n" "base64_ascii_to_bin c = of_nat n"
  | (equals) "c = 0x3d" "base64_ascii_to_bin c = 0"
  | (bad) "c \<noteq> 0x3d" "base64_ascii_to_bin c = 0xff"
proof -
  define u where "u = unat c"
  have c: "c = of_nat u" by (simp add: u_def)
  consider "65 \<le> u \<and> u \<le> 90" | "97 \<le> u \<and> u \<le> 122" | "48 \<le> u \<and> u \<le> 57" | "u = 43" | "u = 47"
    | "\<not> (65 \<le> u \<and> u \<le> 90) \<and> \<not> (97 \<le> u \<and> u \<le> 122) \<and> \<not> (48 \<le> u \<and> u \<le> 57) \<and> u \<noteq> 43 \<and> u \<noteq> 47" by blast
  then show thesis
  proof cases
    case 1
    then obtain n where n: "u = 65 + n" "n < 26" using le_Suc_ex [of 65 u] by force
    then have "c = base64_char n" by (simp add: c base64_char_def)
    then show thesis using n char [of n] by simp
  next
    case 2
    then obtain n where n: "u = 97 + n" "n < 26" using le_Suc_ex [of 97 u] by force
    then have "c = base64_char (n + 26)" by (simp add: c base64_char_def)
    then show thesis using n char [of "n + 26"] by simp
  next
    case 3
    then obtain n where n: "u = 48 + n" "n < 10" using le_Suc_ex [of 48 u] by force
    then have "c = base64_char (n + 52)" by (simp add: c base64_char_def)
    then show thesis using n char [of "n + 52"] by simp
  next
    case 4 then have "c = base64_char 62" by (simp add: c base64_char_def)
    then show thesis using char [of 62] by simp
  next
    case 5 then have "c = base64_char 63" by (simp add: c base64_char_def)
    then show thesis using char [of 63] by simp
  next
    case 6
    then have "base64_ascii_to_bin c = (if c = 0x3d then 0 else 0xff)"
      unfolding base64_ascii_to_bin_eq word_le_nat_alt word_unat_eq_iff u_def by auto
    then show thesis using equals bad by (auto split: if_splits)
  qed
qed

section \<open>Blocks\<close>

text \<open>RFC 4648: three bytes are a 24-bit number and four six-bit digits.\<close>

definition base64_quad :: "nat \<Rightarrow> bytes" where
  "base64_quad v = [base64_char (v div 2 ^ 18), base64_char (v div 2 ^ 12 mod 64), base64_char (v div 64 mod 64), base64_char (v mod 64)]"

fun base64_text :: "bytes \<Rightarrow> bytes" where
  "base64_text [] = []"
| "base64_text (a # b # c # src) = base64_quad (be_nat [a, b, c]) @ base64_text src"
| "base64_text [a, b] = take 3 (base64_quad (be_nat [a, b, 0])) @ [0x3d]"
| "base64_text [a] = take 2 (base64_quad (be_nat [a, 0, 0])) @ [0x3d, 0x3d]"

lemma block_bits:
  fixes a b c :: u8
  defines "l \<equiv> push_bit 16 (ucast a) OR push_bit 8 (ucast b) OR ucast c :: u32" and "v \<equiv> be_nat [a, b, c]"
  shows "unat l = v" "v < 2 ^ 24"
    "unat (ucast (drop_bit 18 l) :: u8) mod 64 = v div 2 ^ 18" "unat (ucast (drop_bit 12 l) :: u8) mod 64 = v div 2 ^ 12 mod 64"
    "unat (ucast (drop_bit 6 l) :: u8) mod 64 = v div 64 mod 64" "unat (ucast l :: u8) mod 64 = v mod 64"
proof -
  have u: "unat (ucast x :: u32) = unat x" for x :: u8 by (simp add: unat_ucast_up)
  have bc: "unat (push_bit 8 (ucast b) OR ucast c :: u32) = unat b * 256 + unat c"
    using unat_push_or [of "ucast c :: u32" 8 "ucast b"] unat_u8_less [of b] unat_u8_less [of c] by (simp add: u)
  have v: "v = unat a * 65536 + (unat b * 256 + unat c)" by (simp add: v_def be_nat_Cons)
  then show l: "unat l = v"
    using unat_push_or [of "push_bit 8 (ucast b) OR ucast c :: u32" 16 "ucast a"] unat_u8_less [of a] unat_u8_less [of b] unat_u8_less [of c]
    by (simp add: l_def u bc)
  show v24: "v < 2 ^ 24" using be_nat_bound [of "[a, b, c]"] by (simp add: v_def)
  have m: "unat (ucast x :: u8) mod 64 = unat x mod 64" for x :: u32
    by (simp add: unsigned_ucast_eq take_bit_eq_mod mod_mod_cancel)
  have "v div 2 ^ 18 < 64" using v24 by (simp add: less_mult_imp_div_less)
  then show "unat (ucast (drop_bit 18 l) :: u8) mod 64 = v div 2 ^ 18" "unat (ucast (drop_bit 12 l) :: u8) mod 64 = v div 2 ^ 12 mod 64"
    "unat (ucast (drop_bit 6 l) :: u8) mod 64 = v div 64 mod 64" "unat (ucast l :: u8) mod 64 = v mod 64"
    unfolding m unat_drop_bit l by simp_all
qed

lemma encode_block_loop_eq:
  "length src < 2 ^ 62 \<Longrightarrow> ret + length (base64_text src) < 2 ^ 64 \<Longrightarrow>
   encode_block_loop src dst ret = (dst @ base64_text src, ret + length (base64_text src))"
proof (induction src arbitrary: dst ret rule: base64_text.induct)
  case (2 a b c src)
  have "encode_block_loop (a # b # c # src) dst ret = encode_block_loop src (dst @ base64_quad (be_nat [a, b, c])) (size_add ret 4)"
    by (simp only: encode_block_loop.simps Let_def conv_bin2ascii_eq block_bits base64_quad_def)
  then show ?case using 2 by (simp add: conv_bin2ascii_eq block_bits base64_quad_def size_add_small Let_def del: drop_bit_or)
next
  case (4 a)
  show ?case using 4 block_bits [of a 0 0] by (simp add: Let_def conv_bin2ascii_eq base64_quad_def size_add_small del: drop_bit_or)
next
  case (3 a b)
  show ?case using 3 block_bits [of a b 0] by (simp add: Let_def conv_bin2ascii_eq base64_quad_def size_add_small del: drop_bit_or)
qed simp

text \<open>Decoding a quad of four digits.\<close>

abbreviation quad_value :: "nat \<Rightarrow> nat \<Rightarrow> nat \<Rightarrow> nat \<Rightarrow> nat" where
  "quad_value p q r s \<equiv> p * 2 ^ 18 + (q * 2 ^ 12 + (r * 64 + s))"

lemma nat_be_3: "nat_be 3 v = [of_nat (v div 65536), of_nat (v div 256), of_nat v]"
  by (simp add: nat_be_def numeral_3_eq_3 flip: div_mult2_eq)

lemma base64_decode_quad_digits:
  assumes "p < 64" "q < 64" "r < 64" "s < 64"
    and "base64_ascii_to_bin a = of_nat p" "base64_ascii_to_bin b = of_nat q" "base64_ascii_to_bin c = of_nat r" "base64_ascii_to_bin d = of_nat s"
  shows "base64_decode_quad [a, b, c, d] =
     (if a = 0x3d \<or> b = 0x3d then None
      else if c = 0x3d then if d = 0x3d then Some (take 1 (nat_be 3 (quad_value p q r s))) else None
      else if d = 0x3d then Some (take 2 (nat_be 3 (quad_value p q r s)))
      else Some (nat_be 3 (quad_value p q r s)))"
proof -
  define v :: u32 where "v = push_bit 18 (ucast (of_nat p :: u8)) OR push_bit 12 (ucast (of_nat q :: u8))
    OR push_bit 6 (ucast (of_nat r :: u8)) OR ucast (of_nat s :: u8)"
  have small: "(of_nat n :: u8) \<noteq> 0xff" if "n < 64" for n using that by (simp add: word_unat_eq_iff)
  have u: "unat (ucast (of_nat n :: u8) :: u32) = n" if "n < 64" for n using that by (simp add: unat_ucast_up)
  have rs: "unat (push_bit 6 (ucast (of_nat r :: u8)) OR ucast (of_nat s :: u8) :: u32) = r * 64 + s"
    using unat_push_or [of "ucast (of_nat s :: u8) :: u32" 6 "ucast (of_nat r :: u8)"] assms by (simp add: u)
  have qrs: "unat (push_bit 12 (ucast (of_nat q :: u8)) OR push_bit 6 (ucast (of_nat r :: u8)) OR ucast (of_nat s :: u8) :: u32) = q * 2 ^ 12 + (r * 64 + s)"
    using unat_push_or [of "push_bit 6 (ucast (of_nat r :: u8)) OR ucast (of_nat s :: u8) :: u32" 12 "ucast (of_nat q :: u8)"] assms by (simp add: u rs)
  have v: "unat v = quad_value p q r s" unfolding v_def
    using unat_push_or [of "push_bit 12 (ucast (of_nat q :: u8)) OR push_bit 6 (ucast (of_nat r :: u8)) OR ucast (of_nat s :: u8) :: u32" 18 "ucast (of_nat p :: u8)"] assms
    by (simp add: u qrs)
  have byte: "(ucast w :: u8) = of_nat (unat w)" for w :: u32 by (simp add: word_unat_eq_iff unsigned_ucast_eq take_bit_eq_mod)
  have bs: "[ucast (drop_bit 16 v), ucast (drop_bit 8 v), ucast v] = nat_be 3 (quad_value p q r s)"
    unfolding nat_be_3 byte unat_drop_bit v by simp
  have nth: "[a, b, c, d] ! 0 = a" "[a, b, c, d] ! 1 = b" "[a, b, c, d] ! 2 = c" "[a, b, c, d] ! 3 = d" by simp_all
  show ?thesis
    unfolding base64_decode_quad_def Let_def nth assms(5-8) v_def [symmetric] bs [symmetric]
    by (cases "a = 0x3d"; cases "b = 0x3d"; cases "c = 0x3d"; cases "d = 0x3d") (simp_all add: small assms(1-4))
qed

lemma base64_decode_quad_bad:
  assumes "0xff \<in> {base64_ascii_to_bin a, base64_ascii_to_bin b, base64_ascii_to_bin c, base64_ascii_to_bin d}"
  shows "base64_decode_quad [a, b, c, d] = None"
  using assms by (auto simp: base64_decode_quad_def Let_def eval_nat_numeral)

text \<open>
  What the quads decode to: the last one may stand for fewer than three bytes, and then its unused bits are
  not looked at.
\<close>

definition short_quad :: "bytes \<Rightarrow> bytes \<Rightarrow> bool" where
  "short_quad quad bs \<longleftrightarrow>
     (\<exists>p < 64. \<exists>q < 64. \<exists>r < 64. quad = [base64_char p, base64_char q, base64_char r, 0x3d] \<and> bs = take 2 (nat_be 3 (quad_value p q r 0)))
   \<or> (\<exists>p < 64. \<exists>q < 64. quad = [base64_char p, base64_char q, 0x3d, 0x3d] \<and> bs = take 1 (nat_be 3 (quad_value p q 0 0)))"

lemma base64_quad_value:
  assumes "p < 64" "q < 64" "r < 64" "s < 64"
  shows "base64_quad (quad_value p q r s) = [base64_char p, base64_char q, base64_char r, base64_char s]" "quad_value p q r s < 2 ^ 24"
proof -
  have "quad_value p q r s div 2 ^ 18 = p" "quad_value p q r s div 2 ^ 12 = p * 64 + q" "quad_value p q r s div 64 = (p * 64 + q) * 64 + r"
    using assms by (simp_all add: div_nat_eqI)
  moreover have "((p * 64 + q) * 64 + r) mod 64 = r" "(p * 64 + q) mod 64 = q"
    using assms unfolding mod_mult_self3 by simp_all
  moreover have "quad_value p q r s mod 64 = s" using assms(4) by (simp add: mod_add_eq [symmetric])
  ultimately show "base64_quad (quad_value p q r s) = [base64_char p, base64_char q, base64_char r, base64_char s]"
    by (simp only: base64_quad_def)
  show "quad_value p q r s < 2 ^ 24" using assms by simp
qed

lemma quad_value_digits:
  assumes "v < 2 ^ 24"
  shows "quad_value (v div 2 ^ 18) (v div 2 ^ 12 mod 64) (v div 64 mod 64) (v mod 64) = v"
    "v div 2 ^ 18 < 64" "v div 2 ^ 12 mod 64 < 64" "v div 64 mod 64 < 64" "v mod 64 < 64"
proof -
  have h: "quad_value A B C D = ((A * 64 + B) * 64 + C) * 64 + D" for A B C D by simp
  have e: "v div 2 ^ 18 * 64 + v div 2 ^ 12 mod 64 = v div 2 ^ 12" "v div 2 ^ 12 * 64 + v div 64 mod 64 = v div 64"
    using div_mult_mod_eq [of "v div 64" 64] div_mult_mod_eq [of "v div 2 ^ 12" 64] by (simp_all flip: div_mult2_eq)
  show "quad_value (v div 2 ^ 18) (v div 2 ^ 12 mod 64) (v div 64 mod 64) (v mod 64) = v"
    unfolding h e by (rule div_mult_mod_eq)
  show "v div 2 ^ 18 < 64" "v div 2 ^ 12 mod 64 < 64" "v div 64 mod 64 < 64" "v mod 64 < 64"
    using assms by (simp_all add: less_mult_imp_div_less)
qed

lemma base64_decode_quad_iff:
  "base64_decode_quad [a, b, c, d] = Some bs \<longleftrightarrow>
     short_quad [a, b, c, d] bs \<or> length bs = 3 \<and> [a, b, c, d] = base64_quad (be_nat bs)"
proof
  assume l: "base64_decode_quad [a, b, c, d] = Some bs"
  have good: "(\<exists>n < 64. base64_ascii_to_bin x = of_nat n \<and> (if x = 0x3d then n = 0 else x = base64_char n))" if "x \<in> {a, b, c, d}" for x
  proof (cases x rule: base64_ascii_to_bin_cases)
    case bad
    then show ?thesis using l that base64_decode_quad_bad [of a b c d] by auto
  qed (use base64_char_not_equals in auto)
  obtain p q r s where v: "p < 64" "base64_ascii_to_bin a = of_nat p" "if a = 0x3d then p = 0 else a = base64_char p"
      "q < 64" "base64_ascii_to_bin b = of_nat q" "if b = 0x3d then q = 0 else b = base64_char q"
      "r < 64" "base64_ascii_to_bin c = of_nat r" "if c = 0x3d then r = 0 else c = base64_char r"
      "s < 64" "base64_ascii_to_bin d = of_nat s" "if d = 0x3d then s = 0 else d = base64_char s"
    using good [of a] good [of b] good [of c] good [of d] by auto
  note dec = base64_decode_quad_digits [OF v(1,4,7,10) v(2,5,8,11)]
  have be: "be_nat (nat_be 3 (quad_value p q r s)) = quad_value p q r s"
    using base64_quad_value(2) [OF v(1,4,7,10)] by (simp only: be_nat_nat_be) simp
  show "short_quad [a, b, c, d] bs \<or> length bs = 3 \<and> [a, b, c, d] = base64_quad (be_nat bs)"
  proof (cases "d = 0x3d")
    case False
    then have "a \<noteq> 0x3d" "b \<noteq> 0x3d" "c \<noteq> 0x3d" "bs = nat_be 3 (quad_value p q r s)" using l unfolding dec by (auto split: if_splits)
    then show ?thesis using False v be base64_quad_value(1) [OF v(1,4,7,10)] by simp
  next
    case True
    then have "a \<noteq> 0x3d" "b \<noteq> 0x3d" "s = 0" "bs = (if c = 0x3d then take 1 (nat_be 3 (quad_value p q r s)) else take 2 (nat_be 3 (quad_value p q r s)))"
      using l v unfolding dec by (auto split: if_splits)
    then show ?thesis using True v unfolding short_quad_def by (auto split: if_splits)
  qed
next
  assume r: "short_quad [a, b, c, d] bs \<or> length bs = 3 \<and> [a, b, c, d] = base64_quad (be_nat bs)"
  have eq: "base64_ascii_to_bin 0x3d = of_nat 0" by (simp add: base64_ascii_to_bin_eq word_le_nat_alt)
  show "base64_decode_quad [a, b, c, d] = Some bs"
    using r
  proof
    assume "short_quad [a, b, c, d] bs"
    then consider (two) p q r where "p < 64" "q < 64" "r < 64" "[a, b, c, d] = [base64_char p, base64_char q, base64_char r, 0x3d]"
        "bs = take 2 (nat_be 3 (quad_value p q r 0))"
      | (one) p q where "p < 64" "q < 64" "[a, b, c, d] = [base64_char p, base64_char q, 0x3d, 0x3d]" "bs = take 1 (nat_be 3 (quad_value p q 0 0))"
      unfolding short_quad_def by blast
    then show ?thesis
    proof cases
      case two
      then show ?thesis
        using base64_decode_quad_digits [of p q r 0 a b c d] by (simp add: base64_char_not_equals eq del: One_nat_def)
    next
      case one
      then show ?thesis
        using base64_decode_quad_digits [of p q 0 0 a b c d] by (simp add: base64_char_not_equals eq del: One_nat_def)
    qed
  next
    assume l: "length bs = 3 \<and> [a, b, c, d] = base64_quad (be_nat bs)"
    define v where "v = be_nat bs"
    have v: "v < 2 ^ 24" using be_nat_bound [of bs] l by (simp add: v_def)
    note d = quad_value_digits(2-5) [OF v] and q = quad_value_digits(1) [OF v]
    have "nat_be 3 v = bs" using nat_be_be_nat [of bs] l by (simp add: v_def)
    then show ?thesis using l base64_decode_quad_digits [OF d] d q
      by (simp add: base64_quad_def base64_char_not_equals flip: v_def)
  qed
qed

section \<open>Whole texts\<close>

lemma short_quad_length: "short_quad quad bs \<Longrightarrow> length quad = 4 \<and> (length bs = 1 \<or> length bs = 2)"
  by (auto simp: short_quad_def)

lemma base64_text_append: "length full mod 3 = 0 \<Longrightarrow> base64_text (full @ bs) = base64_text full @ base64_text bs"
  by (induction full rule: base64_text.induct) auto

lemma length_base64_quad [simp]: "length (base64_quad v) = 4"
  by (simp add: base64_quad_def)

lemma length_base64_text: "length (base64_text src) = (length src + 2) div 3 * 4"
proof (induction src rule: base64_text.induct)
  case (2 a b c src)
  then show ?case using div_add_self1 [of 3 "length src + 2"] by (simp add: algebra_simps)
qed (simp_all add: min_def)

lemma base64_text_Nil_iff: "base64_text src = [] \<longleftrightarrow> src = []"
  by (cases src rule: base64_text.cases) (simp_all add: base64_quad_def)

lemma base64_text_triple: "length bs = 3 \<Longrightarrow> base64_text (bs @ src) = base64_quad (be_nat bs) @ base64_text src"
  by (auto simp: numeral_3_eq_3 length_Suc_conv)

text \<open>A text without padding, and what may follow it.\<close>

definition base64_tail :: "bytes \<Rightarrow> bytes \<Rightarrow> bool" where
  "base64_tail tail bs \<longleftrightarrow> tail = [] \<and> bs = [] \<or> short_quad tail bs"

lemma decode_base64_loop_iff:
  assumes "length src mod 4 = 0"
  shows "decode_base64_loop src out = (True, out') \<longleftrightarrow>
    (\<exists>full tail bs. length full mod 3 = 0 \<and> base64_tail tail bs \<and> src = base64_text full @ tail \<and> out' = out @ full @ bs)"
  using assms
proof (induction src out rule: decode_base64_loop.induct)
  case (1 a b c d src out)
  have len: "length src mod 4 = 0" using "1.prems" by simp
  show ?case (is "?L \<longleftrightarrow> ?R")
  proof
    assume l: ?L
    then obtain bs where bs: "base64_decode_quad [a, b, c, d] = Some bs" by (auto split: option.splits)
    show ?R
    proof (cases "length bs = 3")
      case True
      then have q: "[a, b, c, d] = base64_quad (be_nat bs)"
        using bs short_quad_length [of "[a, b, c, d]" bs] unfolding base64_decode_quad_iff by auto
      have "decode_base64_loop src (out @ bs) = (True, out')" using l bs True by simp
      then obtain full tail bs' where f: "length full mod 3 = 0" "base64_tail tail bs'" "src = base64_text full @ tail" "out' = (out @ bs) @ full @ bs'"
        using iffD1 [OF "1.IH" [OF bs _ len]] True by metis
      have "a # b # c # d # src = base64_text (bs @ full) @ tail"
        using q f(3) base64_text_triple [OF True, of full] by (simp flip: append_Cons)
      then show ?thesis using f True by (intro exI [of _ "bs @ full"] exI [of _ tail] exI [of _ bs']) simp
    next
      case False
      then have "src = []" "out' = out @ bs" using l bs by (auto split: if_splits)
      moreover have "short_quad [a, b, c, d] bs" using bs False unfolding base64_decode_quad_iff by simp
      ultimately show ?thesis by (intro exI [of _ "[]"] exI [of _ "[a, b, c, d]"] exI [of _ bs]) (simp add: base64_tail_def)
    qed
  next
    assume ?R
    then obtain full tail bs where f: "length full mod 3 = 0" "base64_tail tail bs" "a # b # c # d # src = base64_text full @ tail" "out' = out @ full @ bs"
      by metis
    show ?L
    proof (cases "full = []")
      case True
      then have s: "short_quad (a # b # c # d # src) bs" using f by (auto simp: base64_tail_def)
      then have "src = []" using short_quad_length by fastforce
      then have "base64_decode_quad [a, b, c, d] = Some bs" using s unfolding base64_decode_quad_iff by simp
      then show ?thesis using True \<open>src = []\<close> f(4) by simp
    next
      case False
      then have "length full \<ge> 3" using f(1) by (cases "length full < 3") auto
      then obtain trip rest where t: "full = trip @ rest" "length trip = 3" by (metis append_take_drop_id length_take min.absorb2)
      have "a # b # c # d # src = base64_quad (be_nat trip) @ base64_text rest @ tail"
        using f(3) base64_text_triple [OF t(2)] by (simp add: t(1))
      then have q: "[a, b, c, d] = base64_quad (be_nat trip)" "src = base64_text rest @ tail" by (simp_all add: base64_quad_def)
      then have dec: "base64_decode_quad [a, b, c, d] = Some trip" using t(2) unfolding base64_decode_quad_iff by simp
      moreover have "decode_base64_loop src (out @ trip) = (True, out')"
        using t(2) q(2) f(1,2,4) t(1)
        by (intro iffD2 [OF "1.IH" [OF dec _ len]]) (simp, intro exI [of _ rest] exI [of _ tail] exI [of _ bs], simp)
      ultimately show ?thesis using t(2) by simp
    qed
  qed
qed (auto simp: base64_tail_def base64_text_Nil_iff dest!: short_quad_length)

text \<open>Encoded texts are such texts.\<close>

lemma short_quadI:
  assumes "p < 64" "q < 64"
  shows "r < 64 \<Longrightarrow> short_quad [base64_char p, base64_char q, base64_char r, 0x3d] (take 2 (nat_be 3 (quad_value p q r 0)))"
    "short_quad [base64_char p, base64_char q, 0x3d, 0x3d] (take 1 (nat_be 3 (quad_value p q 0 0)))"
  unfolding short_quad_def using assms by blast+

lemma base64_quad_short:
  "short_quad (take 3 (base64_quad (be_nat [a, b, 0])) @ [0x3d]) [a, b]"
  "short_quad (take 2 (base64_quad (be_nat [a, 0, 0])) @ [0x3d, 0x3d]) [a]"
proof -
  have v: "be_nat [x, y, z] < 2 ^ 24" "nat_be 3 (be_nat [x, y, z]) = [x, y, z]" for x y z
    using be_nat_bound [of "[x, y, z]"] nat_be_be_nat [of "[x, y, z]"] by (simp_all flip: numeral_3_eq_3)
  define v where "v = be_nat [a, b, 0]"
  have "v = 64 * (unat a * 1024 + unat b * 4)" by (simp add: v_def be_nat_Cons)
  then have "v mod 64 = 0" by simp
  then show "short_quad (take 3 (base64_quad (be_nat [a, b, 0])) @ [0x3d]) [a, b]"
    using quad_value_digits [OF v(1) [of a b 0]] v(2) [of a b 0]
      short_quadI(1) [of "v div 2 ^ 18" "v div 2 ^ 12 mod 64" "v div 64 mod 64"]
    unfolding base64_quad_def v_def [symmetric] by simp
  define w where "w = be_nat [a, 0, 0]"
  have "w = 64 * (64 * (unat a * 16))" by (simp add: w_def be_nat_Cons)
  then have "w mod 64 = 0" "w div 64 mod 64 = 0" by simp_all
  then show "short_quad (take 2 (base64_quad (be_nat [a, 0, 0])) @ [0x3d, 0x3d]) [a]"
    using quad_value_digits [OF v(1) [of a 0 0]] v(2) [of a 0 0] short_quadI(2) [of "w div 2 ^ 18" "w div 2 ^ 12 mod 64"]
    unfolding base64_quad_def w_def [symmetric] by simp
qed

lemma base64_text_split:
  obtains full tail bs where "src = full @ bs" "length full mod 3 = 0" "base64_tail tail bs" "base64_text src = base64_text full @ tail"
proof -
  define n where "n = length src div 3 * 3"
  define full bs where "full = take n src" and "bs = drop n src"
  have src: "src = full @ bs" by (simp add: full_def bs_def)
  have "n \<le> length src" by (simp add: n_def)
  then have full: "length full mod 3 = 0" by (simp add: full_def) (simp add: n_def)
  have "length bs = length src mod 3" by (simp add: bs_def n_def minus_div_mult_eq_mod)
  then have "length bs < 3" by simp
  then have "bs = [] \<or> (\<exists>a. bs = [a]) \<or> (\<exists>a b. bs = [a, b])" by (cases bs; cases "tl bs"; cases "tl (tl bs)") auto
  then have "base64_tail (base64_text bs) bs" using base64_quad_short by (auto simp: base64_tail_def)
  then show thesis using that [OF src full] base64_text_append [OF full] src by simp
qed

lemma decode_base64_text: "decode_base64_loop (base64_text src) out = (True, out @ src)"
proof -
  have "length (base64_text src) mod 4 = 0" by (simp add: length_base64_text)
  then show ?thesis using base64_text_split [of src] by (simp add: decode_base64_loop_iff) (metis append.assoc)
qed

section \<open>Streams\<close>

text \<open>The lines of a text: 48 bytes make a line; what is left over waits for the next call.\<close>

function base64_lines :: "bytes \<Rightarrow> bytes" where
  "base64_lines xs = (if length xs \<ge> 48 then base64_text (take 48 xs) @ [0x0a] @ base64_lines (drop 48 xs) else [])"
  by pat_completeness auto
termination by (relation "measure length") auto

function line_rest :: "bytes \<Rightarrow> bytes" where
  "line_rest xs = (if length xs \<ge> 48 then line_rest (drop 48 xs) else xs)"
  by pat_completeness auto
termination by (relation "measure length") auto

declare base64_lines.simps [simp del] line_rest.simps [simp del]

definition base64_last_line :: "bytes \<Rightarrow> bytes" where
  "base64_last_line xs = (if xs = [] then [] else base64_text xs @ [0x0a])"

definition base64_pem :: "bytes \<Rightarrow> bytes" where
  "base64_pem xs = base64_lines xs @ base64_last_line (line_rest xs)"

lemma length_line_rest: "length (line_rest xs) < 48"
  by (induction xs rule: line_rest.induct) (subst line_rest.simps, auto)

lemma lines_block:
  assumes "length block = 48"
  shows "base64_lines (block @ ys) = base64_text block @ [0x0a] @ base64_lines ys" "line_rest (block @ ys) = line_rest ys"
  using assms by (simp_all add: base64_lines.simps [of "block @ ys"] line_rest.simps [of "block @ ys"])

lemma lines_append:
  "base64_lines (xs @ ys) = base64_lines xs @ base64_lines (line_rest xs @ ys)" "line_rest (xs @ ys) = line_rest (line_rest xs @ ys)"
proof (induction xs rule: line_rest.induct)
  case (1 xs)
  { case 1
    show ?case
    proof (cases "length xs \<ge> 48")
      case True
      then show ?thesis using "1.IH"(1) by (simp add: base64_lines.simps [of xs] base64_lines.simps [of "xs @ ys"] line_rest.simps [of xs])
    next
      case False
      then show ?thesis by (simp add: base64_lines.simps [of xs] line_rest.simps [of xs])
    qed
  next
    case 2
    show ?case
    proof (cases "length xs \<ge> 48")
      case True
      then show ?thesis using "1.IH"(2) by (simp add: line_rest.simps [of xs] line_rest.simps [of "xs @ ys"])
    next
      case False
      then show ?thesis by (simp add: line_rest.simps [of xs])
    qed
  }
qed

lemma length_base64_lines: "length (base64_lines xs) = length xs div 48 * 65"
proof (induction xs rule: base64_lines.induct)
  case (1 xs)
  show ?case
  proof (cases "length xs \<ge> 48")
    case True
    then have "length xs div 48 = Suc ((length xs - 48) div 48)" by (simp add: le_div_geq)
    then show ?thesis using 1 True by (simp add: base64_lines.simps [of xs] length_base64_text min_def)
  qed (simp add: base64_lines.simps [of xs])
qed

lemma encode_line_eq: "length block \<le> 48 \<Longrightarrow> encode_line out block = (out @ base64_text block @ [0x0a], length (base64_text block))"
  by (simp add: encode_line_def EVP_EncodeBlock_def encode_block_loop_eq length_base64_text)

declare encode_update_loop.simps [simp del]

lemma encode_update_loop_eq:
  "total_out + length in_bytes * 2 < 2 ^ 64 \<Longrightarrow>
   encode_update_loop in_bytes out total_out = Inr (line_rest in_bytes, out @ base64_lines in_bytes, total_out + length (base64_lines in_bytes))"
proof (induction in_bytes out total_out rule: encode_update_loop.induct)
  case (1 in_bytes out total_out)
  show ?case
  proof (cases "length in_bytes \<ge> 48")
    case True
    have len: "length (take 48 in_bytes) = 48" using True by simp
    have t: "size_add (size_add total_out 64) 1 = total_out + 65" using "1.prems" True by (simp add: size_add_small)
    have line: "encode_line out (take 48 in_bytes) = (out @ base64_text (take 48 in_bytes) @ [0x0a], 64)"
      using encode_line_eq [of "take 48 in_bytes" out] len by (simp add: length_base64_text)
    have "encode_update_loop (drop 48 in_bytes) (out @ base64_text (take 48 in_bytes) @ [0x0a]) (total_out + 65)
        = Inr (line_rest (drop 48 in_bytes), (out @ base64_text (take 48 in_bytes) @ [0x0a]) @ base64_lines (drop 48 in_bytes),
               total_out + 65 + length (base64_lines (drop 48 in_bytes)))"
      using "1.IH" [OF True line [symmetric]] "1.prems" True t by simp
    then show ?thesis using True t line len
      by (simp add: encode_update_loop.simps [of in_bytes] line_rest.simps [of in_bytes] base64_lines.simps [of in_bytes] length_base64_text)
  next
    case False
    then show ?thesis by (simp add: encode_update_loop.simps [of in_bytes] line_rest.simps [of in_bytes] base64_lines.simps [of in_bytes])
  qed
qed

text \<open>The context holds what is left over.\<close>

definition encode_pending :: "EVP_ENCODE_CTX \<Rightarrow> bytes \<Rightarrow> bool" where
  "encode_pending ctx xs \<longleftrightarrow> length xs < 48 \<and> ctx_data_used ctx = length xs \<and> length (ctx_data ctx) = 48
     \<and> take (length xs) (ctx_data ctx) = xs"

lemma EVP_EncodeInit_pending: "encode_pending EVP_EncodeInit []"
  by (simp add: encode_pending_def EVP_EncodeInit_def)

lemma encode_pending_write:
  assumes "encode_pending ctx xs" "length xs + length ys \<le> 48"
  shows "length (buf_write (length xs) ys (ctx_data ctx)) = 48" "take (length xs + length ys) (buf_write (length xs) ys (ctx_data ctx)) = xs @ ys"
  using assms by (auto simp: encode_pending_def buf_write_def min_def)

lemma EVP_EncodeUpdate_pending:
  assumes p: "encode_pending ctx xs" and n: "length in_bytes < 2 ^ 62"
  shows "\<exists>ctx'. EVP_EncodeUpdate ctx in_bytes = (ctx', base64_lines (xs @ in_bytes),
      if length (base64_lines (xs @ in_bytes)) > INT_MAX then 0 else length (base64_lines (xs @ in_bytes)))
    \<and> encode_pending ctx' (line_rest (xs @ in_bytes))"
proof -
  have used: "ctx_data_used ctx = length xs" "length xs < 48" using p by (simp_all add: encode_pending_def)
  have short: "base64_lines ys = []" "line_rest ys = ys" if "length ys < 48" for ys
    using that by (simp_all add: base64_lines.simps [of ys] line_rest.simps [of ys])
  consider "in_bytes = []" | "in_bytes \<noteq> []" "length xs + length in_bytes < 48" | "in_bytes \<noteq> []" "48 \<le> length xs + length in_bytes" by linarith
  then show ?thesis
  proof cases
    case 1
    then show ?thesis using p used short by (simp add: EVP_EncodeUpdate_def)
  next
    case 2
    then show ?thesis
      using p used short [of "xs @ in_bytes"] encode_pending_write [OF p, of in_bytes] by (auto simp: EVP_EncodeUpdate_def encode_pending_def)
  next
    case 3
    define todo where "todo = (if xs = [] then 0 else 48 - length xs)"
    define out where "out = (if xs = [] then [] else base64_text (xs @ take todo in_bytes) @ [0x0a])"
    define ctx1 where "ctx1 = (if xs = [] then ctx else ctx\<lparr> ctx_data := buf_write (length xs) (take todo in_bytes) (ctx_data ctx), ctx_data_used := 0 \<rparr>)"
    have first: "(if ctx_data_used ctx \<noteq> 0 then
          let todo = 48 - ctx_data_used ctx; ctx = ctx\<lparr> ctx_data := buf_write (ctx_data_used ctx) (take todo in_bytes) (ctx_data ctx) \<rparr>;
              (out, encoded) = encode_line [] (ctx_data ctx)
          in (ctx\<lparr> ctx_data_used := 0 \<rparr>, drop todo in_bytes, out, size_add encoded 1)
        else (ctx, in_bytes, [], 0)) = (ctx1, drop todo in_bytes, out, length out)"
    proof (cases "xs = []")
      case False
      then have t: "todo = 48 - length xs" "todo \<le> length in_bytes" using 3 used by (auto simp: todo_def)
      have full: "buf_write (length xs) (take todo in_bytes) (ctx_data ctx) = xs @ take todo in_bytes"
        using encode_pending_write [OF p, of "take todo in_bytes"] t used by simp
      have "length (xs @ take todo in_bytes) = 48" using t used by simp
      then have "encode_line [] (xs @ take todo in_bytes) = (out, 64)" "length out = 65"
        using encode_line_eq [of "xs @ take todo in_bytes" "[]"] False by (simp_all add: out_def length_base64_text)
      then show ?thesis using False used t(1) full by (simp add: Let_def ctx1_def size_add_small)
    qed (use used in \<open>simp add: ctx1_def out_def todo_def\<close>)
    have split: "base64_lines (xs @ in_bytes) = out @ base64_lines (drop todo in_bytes)" "line_rest (xs @ in_bytes) = line_rest (drop todo in_bytes)"
      "length out \<le> 65"
    proof -
      have eq: "xs @ in_bytes = (xs @ take todo in_bytes) @ drop todo in_bytes" by simp
      have len: "length (xs @ take todo in_bytes) = 48" if "xs \<noteq> []" using that 3 used by (simp add: todo_def)
      show "base64_lines (xs @ in_bytes) = out @ base64_lines (drop todo in_bytes)"
      proof (cases "xs = []")
        case False
        then show ?thesis unfolding eq lines_block(1) [OF len [OF False]] by (simp add: out_def)
      qed (simp add: out_def todo_def)
      show "line_rest (xs @ in_bytes) = line_rest (drop todo in_bytes)"
      proof (cases "xs = []")
        case False
        then show ?thesis unfolding eq lines_block(2) [OF len [OF False]] by simp
      qed (simp add: todo_def)
      show "length out \<le> 65" using len by (cases "xs = []") (simp_all add: out_def length_base64_text)
    qed
    have loop: "encode_update_loop (drop todo in_bytes) out (length out)
        = Inr (line_rest (drop todo in_bytes), out @ base64_lines (drop todo in_bytes), length out + length (base64_lines (drop todo in_bytes)))"
      using n split(3) by (intro encode_update_loop_eq) simp
    define rest where "rest = line_rest (drop todo in_bytes)"
    have data: "length (ctx_data ctx1) = 48" using p 3 used by (auto simp: ctx1_def todo_def encode_pending_def buf_write_def)
    have "EVP_EncodeUpdate ctx in_bytes =
        (ctx1\<lparr> ctx_data := (if length rest \<noteq> 0 then buf_write 0 rest (ctx_data ctx1) else ctx_data ctx1), ctx_data_used := length rest \<rparr>,
         base64_lines (xs @ in_bytes), if length (base64_lines (xs @ in_bytes)) > INT_MAX then 0 else length (base64_lines (xs @ in_bytes)))"
      unfolding EVP_EncodeUpdate_def first using 3 used by (simp add: loop split(1) rest_def)
    moreover have "encode_pending (ctx1\<lparr> ctx_data := (if length rest \<noteq> 0 then buf_write 0 rest (ctx_data ctx1) else ctx_data ctx1),
        ctx_data_used := length rest \<rparr>) rest"
      using length_line_rest [of "drop todo in_bytes"] data by (auto simp: encode_pending_def rest_def buf_write_def)
    ultimately show ?thesis unfolding split(2) rest_def by blast
  qed
qed

lemma EVP_EncodeFinal_pending:
  assumes "encode_pending ctx xs"
  shows "EVP_EncodeFinal ctx = (ctx\<lparr> ctx_data_used := 0 \<rparr>, if xs = [] then [] else base64_last_line xs @ [0], length (base64_last_line xs))"
  using assms encode_line_eq [of xs "[]"] by (auto simp: EVP_EncodeFinal_def encode_pending_def base64_last_line_def)

abbreviation base64_space :: "u8 \<Rightarrow> bool" where
  "base64_space c \<equiv> c \<in> {0x20, 0x09, 0x0d, 0x0a}"

lemma decode_update_loop_append:
  "decode_update_loop (xs @ ys) ctx out =
     (case decode_update_loop xs ctx out of (False, r) \<Rightarrow> (False, r) | (True, ctx', out') \<Rightarrow> decode_update_loop ys ctx' out')"
  by (induction xs ctx out rule: decode_update_loop.induct) (auto simp: Let_def split: option.splits)

lemma decode_update_loop_out:
  "decode_update_loop xs ctx (pre @ out) = (case decode_update_loop xs ctx out of (ok, ctx', out') \<Rightarrow> (ok, ctx', pre @ out'))"
  by (induction xs ctx out rule: decode_update_loop.induct) (auto simp: Let_def split: option.splits)

lemma decode_update_loop_filter:
  "decode_update_loop xs ctx out = decode_update_loop (filter (\<lambda>c. \<not> base64_space c) xs) ctx out"
  by (induction xs ctx out rule: decode_update_loop.induct) (auto simp: Let_def split: option.splits)

lemma base64_decode_quad_length: "base64_decode_quad xs = Some bs \<Longrightarrow> length bs \<le> 3"
  by (auto simp: base64_decode_quad_def Let_def split: if_splits)

lemma decode_update_loop_keeps:
  "decode_update_loop xs ctx out = (True, ctx', out') \<Longrightarrow> ctx_data_used ctx < 4 \<Longrightarrow>
   ctx_data_used ctx' < 4 \<and> ctx_error_encountered ctx' = ctx_error_encountered ctx
   \<and> length out' + ctx_data_used ctx' \<le> length out + length xs + ctx_data_used ctx"
proof (induction xs ctx out rule: decode_update_loop.induct)
  case (2 c xs ctx out)
  then show ?case
    using base64_decode_quad_length
    by (fastforce simp: Let_def split: if_splits option.splits)
qed simp

text \<open>A context between two quads.\<close>

definition decode_ready :: "bool \<Rightarrow> EVP_ENCODE_CTX \<Rightarrow> bool" where
  "decode_ready eof ctx \<longleftrightarrow> ctx_data_used ctx = 0 \<and> length (ctx_data ctx) = 48 \<and> ctx_eof_seen ctx = eof \<and> \<not> ctx_error_encountered ctx"

lemma decode_ready_init: "decode_ready False EVP_DecodeInit"
  by (simp add: decode_ready_def EVP_DecodeInit_def)

lemma decode_update_loop_quad:
  assumes "decode_ready False ctx" "\<not> base64_space a" "\<not> base64_space b" "\<not> base64_space c" "\<not> base64_space d"
  shows "base64_decode_quad [a, b, c, d] = None \<Longrightarrow> fst (decode_update_loop (a # b # c # d # xs) ctx out) = False"
    and "base64_decode_quad [a, b, c, d] = Some bs \<Longrightarrow> \<exists>ctx4. decode_ready (length bs < 3) ctx4
      \<and> decode_update_loop (a # b # c # d # xs) ctx out = decode_update_loop xs ctx4 (out @ bs)"
proof -
  define data where "data = (ctx_data ctx)[0 := a, 1 := b, 2 := c, 3 := d]"
  have "data ! 0 = a" "data ! 1 = b" "data ! 2 = c" "data ! 3 = d" using assms(1) by (simp_all add: data_def decode_ready_def)
  then have quad: "base64_decode_quad data = base64_decode_quad [a, b, c, d]" by (simp add: base64_decode_quad_def)
  let ?ctx4 = "ctx\<lparr> ctx_data := data, ctx_data_used := 0 \<rparr>"
  have run: "decode_update_loop (a # b # c # d # xs) ctx out =
      (case base64_decode_quad [a, b, c, d] of
         None \<Rightarrow> (False, ctx\<lparr> ctx_data := data, ctx_data_used := 4, ctx_error_encountered := True \<rparr>, out)
       | Some bs \<Rightarrow> decode_update_loop xs (if length bs < 3 then ?ctx4\<lparr> ctx_eof_seen := True \<rparr> else ?ctx4) (out @ bs))"
    using assms quad by (simp add: decode_ready_def Let_def data_def eval_nat_numeral split: option.splits)
  show "base64_decode_quad [a, b, c, d] = None \<Longrightarrow> fst (decode_update_loop (a # b # c # d # xs) ctx out) = False"
    unfolding run by simp
  show "\<exists>ctx4. decode_ready (length bs < 3) ctx4 \<and> decode_update_loop (a # b # c # d # xs) ctx out = decode_update_loop xs ctx4 (out @ bs)"
    if "base64_decode_quad [a, b, c, d] = Some bs"
    by (rule exI [of _ "if length bs < 3 then ?ctx4\<lparr> ctx_eof_seen := True \<rparr> else ?ctx4"])
      (use assms(1) run that in \<open>auto simp: decode_ready_def data_def\<close>)
qed

lemma decode_update_loop_eof:
  "ctx_eof_seen ctx \<Longrightarrow> list_all (\<lambda>c. \<not> base64_space c) xs \<Longrightarrow> decode_update_loop xs ctx out = (True, ctx', out') \<longleftrightarrow> xs = [] \<and> ctx' = ctx \<and> out' = out"
  by (cases xs) auto

lemma list_less_4_cases:
  assumes "length xs < 4"
  obtains "xs = []" | a where "xs = [a]" | a b where "xs = [a, b]" | a b c where "xs = [a, b, c]"
  using assms by (cases xs; cases "tl xs"; cases "tl (tl xs)"; cases "tl (tl (tl xs))") auto

text \<open>Without white space, the streaming loop that ends between two quads is the loop of the block decoder.\<close>

lemma decode_update_loop_block:
  assumes "decode_ready False ctx" "list_all (\<lambda>c. \<not> base64_space c) xs"
  shows "(\<exists>ctx'. decode_update_loop xs ctx out = (True, ctx', out') \<and> ctx_data_used ctx' = 0)
    \<longleftrightarrow> length xs mod 4 = 0 \<and> decode_base64_loop xs out = (True, out')"
  using assms
proof (induction xs out arbitrary: ctx rule: decode_base64_loop.induct)
  case (1 a b c d xs out)
  note quad = decode_update_loop_quad [OF "1.prems"(1), of a b c d]
  have ns: "\<not> base64_space a" "\<not> base64_space b" "\<not> base64_space c" "\<not> base64_space d" "list_all (\<lambda>c. \<not> base64_space c) xs"
    using "1.prems"(2) by simp_all
  show ?case
  proof (cases "base64_decode_quad [a, b, c, d]")
    case None
    then have "fst (decode_update_loop (a # b # c # d # xs) ctx out) = False" by (rule quad(1) [OF ns(1-4)])
    then show ?thesis using None by (auto simp del: decode_update_loop.simps)
  next
    case (Some bs)
    obtain ctx4 where ctx4: "decode_ready (length bs < 3) ctx4" "decode_update_loop (a # b # c # d # xs) ctx out = decode_update_loop xs ctx4 (out @ bs)"
      using quad(2) [OF ns(1-4) Some] by blast
    show ?thesis
    proof (cases "length bs < 3")
      case True
      then have "ctx_eof_seen ctx4" "ctx_data_used ctx4 = 0" using ctx4(1) by (auto simp: decode_ready_def)
      then show ?thesis using decode_update_loop_eof [OF _ ns(5), of ctx4 "out @ bs"] ctx4(2) Some True by (auto simp del: decode_update_loop.simps)
    next
      case False
      then have l: "length bs = 3" using base64_decode_quad_length [OF Some] by simp
      have "decode_ready False ctx4" using ctx4(1) False by simp
      from "1.IH" [OF Some _ this ns(5)] l show ?thesis using ctx4(2) Some by (auto simp del: decode_update_loop.simps)
    qed
  qed
qed (auto simp: decode_ready_def Let_def)

definition decode_ok :: "EVP_ENCODE_CTX \<Rightarrow> bool" where
  "decode_ok ctx \<longleftrightarrow> ctx_data_used ctx < 4 \<and> \<not> ctx_error_encountered ctx"

text \<open>A caller that feeds the decoder piece by piece and keeps the first \<open>*out_len\<close> bytes of every call.\<close>

fun decode_stream :: "EVP_ENCODE_CTX \<Rightarrow> bytes list \<Rightarrow> (EVP_ENCODE_CTX \<times> bytes) option" where
  "decode_stream ctx [] = Some (ctx, [])"
| "decode_stream ctx (c # chunks) =
     (case EVP_DecodeUpdate ctx c of (ret, ctx, out, out_len) \<Rightarrow>
        if ret < 0 then None else map_option (\<lambda>(ctx, rest). (ctx, take out_len out @ rest)) (decode_stream ctx chunks))"

definition decode_all :: "bytes list \<Rightarrow> bytes option" where
  "decode_all chunks =
     (case decode_stream EVP_DecodeInit chunks of None \<Rightarrow> None
      | Some (ctx, out) \<Rightarrow> if fst (EVP_DecodeFinal ctx) < 0 then None else Some out)"

lemma decode_stream_loop:
  assumes "decode_ok ctx" "\<forall>c \<in> set chunks. length c \<le> INT_MAX - 3"
  shows "decode_stream ctx chunks =
    (case decode_update_loop (concat chunks) ctx [] of (False, _) \<Rightarrow> None | (True, ctx', out) \<Rightarrow> Some (ctx', out))"
  using assms
proof (induction chunks arbitrary: ctx)
  case (Cons c chunks)
  have noerr: "\<not> ctx_error_encountered ctx" using Cons.prems(1) by (simp add: decode_ok_def)
  obtain ok ctx1 out1 where l: "decode_update_loop c ctx [] = (ok, ctx1, out1)" by (cases "decode_update_loop c ctx []")
  show ?case
  proof (cases ok)
    case False
    then show ?thesis using noerr l by (simp add: EVP_DecodeUpdate_def decode_update_loop_append)
  next
    case True
    with l have l1: "decode_update_loop c ctx [] = (True, ctx1, out1)" by simp
    note k = decode_update_loop_keeps [OF l1]
    have ok1: "decode_ok ctx1" using k Cons.prems(1) by (simp add: decode_ok_def)
    have "length out1 \<le> length c + 3" using k Cons.prems(1) by (simp add: decode_ok_def)
    moreover have "length c + 3 \<le> INT_MAX" using Cons.prems(2) by auto
    ultimately have "\<not> length out1 > INT_MAX" by linarith
    then have u: "EVP_DecodeUpdate ctx c = (if ctx_eof_seen ctx1 then 0 else 1, ctx1, out1, length out1)"
      using noerr l True by (simp add: EVP_DecodeUpdate_def)
    have "decode_stream ctx1 chunks =
        (case decode_update_loop (concat chunks) ctx1 [] of (False, _) \<Rightarrow> None | (True, ctx', out) \<Rightarrow> Some (ctx', out))"
      using Cons.IH [OF ok1] Cons.prems(2) by simp
    then show ?thesis
      using l True decode_update_loop_out [of "concat chunks" ctx1 out1 "[]"]
      by (simp add: u decode_update_loop_append split: prod.splits bool.splits)
  qed
qed simp

section \<open>Encoded text\<close>

definition base64_alphabet :: string where
  "base64_alphabet = ''ABCDEFGHIJKLMNOPQRSTUVWXYZabcdefghijklmnopqrstuvwxyz0123456789+/''"

lemma base64_char_alphabet: "n < 64 \<Longrightarrow> base64_char n = of_char (base64_alphabet ! n)"
proof -
  assume "n < 64"
  then have "n \<in> set [0..<64]" by simp
  moreover have "list_all (\<lambda>n. base64_char n = of_char (base64_alphabet ! n)) [0..<64]"
    unfolding base64_alphabet_def by code_simp
  ultimately show ?thesis unfolding list_all_iff by blast
qed

lemma base64_text_no_space: "list_all (\<lambda>c. \<not> base64_space c) (base64_text src)"
proof (induction src rule: base64_text.induct)
  have quad: "list_all (\<lambda>c. \<not> base64_space c) (base64_quad (be_nat [a, b, c]))" for a b c
  proof -
    have v: "be_nat [a, b, c] < 2 ^ 24" using be_nat_bound [of "[a, b, c]"] by simp
    show ?thesis using quad_value_digits(2-5) [OF v, THEN base64_char_not_space]
      unfolding base64_quad_def list.pred_inject by (intro conjI list.pred_inject(1))
  qed
  { case 1 then show ?case by simp next
    case (2 a b c src) then show ?case using quad [of a b c] by simp next
    case (3 a b) then show ?case using quad [of a b 0] by (simp add: base64_quad_def) next
    case (4 a) then show ?case using quad [of a 0 0] by (simp add: base64_quad_def) }
qed

lemma filter_base64_text: "filter (\<lambda>c. \<not> base64_space c) (base64_text src) = base64_text src"
  using base64_text_no_space [of src] by (simp only: filter_id_conv list_all_iff)

lemma filter_base64_lines: "filter (\<lambda>c. \<not> base64_space c) (base64_lines xs) @ base64_text (line_rest xs) = base64_text xs"
proof (induction xs rule: base64_lines.induct)
  case (1 xs)
  show ?case
  proof (cases "length xs \<ge> 48")
    case True
    have "base64_text xs = base64_text (take 48 xs) @ base64_text (drop 48 xs)"
      using base64_text_append [of "take 48 xs" "drop 48 xs"] True by simp
    then show ?thesis using 1 True filter_base64_text by (simp add: base64_lines.simps [of xs] line_rest.simps [of xs])
  qed (simp add: base64_lines.simps [of xs] line_rest.simps [of xs])
qed

lemma filter_base64_pem: "filter (\<lambda>c. \<not> base64_space c) (base64_pem xs) = base64_text xs"
  using filter_base64_lines [of xs] by (auto simp: base64_pem_def base64_last_line_def filter_base64_text [simplified])

lemma EVP_DecodeBase64_eq:
  assumes "length src < 2 ^ 64" "length src mod 4 = 0"
  shows "EVP_DecodeBase64 max_out src = (True, out, n) \<longleftrightarrow>
    length src div 4 * 3 \<le> max_out \<and> decode_base64_loop src [] = (True, out) \<and> n = length out"
proof -
  have "length src div 4 * 4 = length src" using assms(2) by (simp add: mod_0_imp_dvd)
  then have "length src div 4 * 3 < 2 ^ 64" using assms(1) by linarith
  then have "EVP_DecodedLength (length src) = Some (length src div 4 * 3)"
    using assms by (simp add: EVP_DecodedLength_def size_mul_small)
  then show ?thesis using assms(2) by (auto simp: EVP_DecodeBase64_def split: prod.splits bool.splits)
qed

lemma length_div_3: "(n + 2) div 3 * 3 = n + (3 - n mod 3) mod 3" for n :: nat
proof -
  define q r where "q = n div 3" and "r = n mod 3"
  have n: "n = r + q * 3" "r < 3" by (simp_all add: q_def r_def)
  have "(n + 2) div 3 = (r + 2) div 3 + q" unfolding n(1) by (simp add: add.commute [of _ 2] add.left_commute [of 2] flip: add.assoc)
  moreover have "r = 0 \<or> r = 1 \<or> r = 2" using n(2) by auto
  ultimately show ?thesis unfolding r_def [symmetric] by (elim disjE) (simp_all add: n(1))
qed

declare pad_to_triple.simps [simp del]

lemma pad_to_triple_eq: "pad_to_triple xs = xs @ replicate ((3 - length xs mod 3) mod 3) 0"
proof (induction xs rule: pad_to_triple.induct)
  case (1 xs)
  have step: "pad_to_triple xs = (if length xs mod 3 \<noteq> 0 then pad_to_triple (xs @ [0]) else xs)" by (rule pad_to_triple.simps)
  show ?case
  proof (cases "length xs mod 3 = 0")
    case False
    then have r: "length xs mod 3 = 1 \<or> length xs mod 3 = 2" by auto
    have "pad_to_triple xs = xs @ 0 # replicate ((3 - Suc (length xs) mod 3) mod 3) 0" unfolding step using 1 [OF False] False by simp
    moreover have "(3 - length xs mod 3) mod 3 = Suc ((3 - Suc (length xs) mod 3) mod 3)" using r by (elim disjE) (simp_all add: mod_Suc)
    ultimately show ?thesis by simp
  qed (simp add: step)
qed

text \<open>A caller that encodes piece by piece.\<close>

fun encode_stream :: "EVP_ENCODE_CTX \<Rightarrow> bytes list \<Rightarrow> EVP_ENCODE_CTX \<times> bytes" where
  "encode_stream ctx [] = (ctx, [])"
| "encode_stream ctx (c # chunks) =
     (case EVP_EncodeUpdate ctx c of (ctx, out, out_len) \<Rightarrow>
        case encode_stream ctx chunks of (ctx, rest) \<Rightarrow> (ctx, take out_len out @ rest))"

definition encode_all :: "bytes list \<Rightarrow> bytes" where
  "encode_all chunks =
     (case encode_stream EVP_EncodeInit chunks of (ctx, text) \<Rightarrow>
        case EVP_EncodeFinal ctx of (_, out, out_len) \<Rightarrow> text @ take out_len out)"

lemma encode_stream_lines:
  assumes "encode_pending ctx xs" "\<forall>c \<in> set chunks. length c \<le> 2 ^ 30"
  shows "\<exists>ctx'. encode_stream ctx chunks = (ctx', base64_lines (xs @ concat chunks)) \<and> encode_pending ctx' (line_rest (xs @ concat chunks))"
  using assms
proof (induction chunks arbitrary: ctx xs)
  case Nil
  then have "length xs < 48" by (simp add: encode_pending_def)
  then show ?case using Nil by (simp add: base64_lines.simps [of xs] line_rest.simps [of xs])
next
  case (Cons c chunks)
  have len: "length xs < 48" "length c \<le> 2 ^ 30" using Cons.prems by (auto simp: encode_pending_def)
  then have "length (xs @ c) div 48 \<le> 22369623" by (simp add: div_le_mono [of _ "1073741871" 48, simplified])
  then have small: "\<not> length (base64_lines (xs @ c)) > INT_MAX" by (simp add: length_base64_lines)
  obtain ctx1 where u: "EVP_EncodeUpdate ctx c = (ctx1, base64_lines (xs @ c), length (base64_lines (xs @ c)))"
    "encode_pending ctx1 (line_rest (xs @ c))"
    using EVP_EncodeUpdate_pending [OF Cons.prems(1), of c] len(2) small by auto
  from Cons.IH [OF u(2)] Cons.prems(2) show ?case
    using lines_append [of "xs @ c" "concat chunks"] by (auto simp: u(1))
qed

lemma encode_all_pem:
  assumes "\<forall>c \<in> set chunks. length c \<le> 2 ^ 30"
  shows "encode_all chunks = base64_pem (concat chunks)"
proof -
  obtain ctx where "encode_stream EVP_EncodeInit chunks = (ctx, base64_lines (concat chunks))" "encode_pending ctx (line_rest (concat chunks))"
    using encode_stream_lines [OF EVP_EncodeInit_pending assms] by auto
  then show ?thesis by (simp add: encode_all_def EVP_EncodeFinal_pending base64_pem_def base64_last_line_def)
qed

lemma decode_all_iff:
  assumes "\<forall>c \<in> set chunks. length c \<le> INT_MAX - 3"
  defines "plain \<equiv> filter (\<lambda>c. \<not> base64_space c) (concat chunks)"
  shows "decode_all chunks = Some data \<longleftrightarrow> length plain mod 4 = 0 \<and> decode_base64_loop plain [] = (True, data)"
proof -
  have ok: "decode_ok EVP_DecodeInit" by (simp add: decode_ok_def EVP_DecodeInit_def)
  have ns: "list_all (\<lambda>c. \<not> base64_space c) plain" by (simp add: plain_def list_all_iff)
  have "decode_all chunks = Some data \<longleftrightarrow> (\<exists>ctx'. decode_update_loop plain EVP_DecodeInit [] = (True, ctx', data) \<and> ctx_data_used ctx' = 0)"
    unfolding decode_all_def decode_stream_loop [OF ok assms(1)] decode_update_loop_filter [of "concat chunks"] plain_def [symmetric]
    using decode_update_loop_keeps [of plain EVP_DecodeInit "[]"] ok
    by (auto simp: EVP_DecodeFinal_def decode_ok_def split: prod.splits bool.splits if_splits)
  then show ?thesis using decode_update_loop_block [OF decode_ready_init ns, of "[]" data] by simp
qed

section \<open>Properties\<close>

text \<open>\<open>conv_bin2ascii\<close>, which computes without branches or table lookups, is the alphabet of RFC 4648 indexed by
  the low six bits, and \<open>base64_ascii_to_bin\<close> inverts it: a character of the alphabet gives its position,
  the padding character zero, and every other byte \<open>0xff\<close>.\<close>
theorem base64_characters:
  "conv_bin2ascii a = of_char (base64_alphabet ! (unat a mod 64))
   \<and> base64_ascii_to_bin (conv_bin2ascii a) = of_nat (unat a mod 64)
   \<and> (base64_ascii_to_bin c = 0xff) = (c \<noteq> of_char CHR ''='' \<and> c \<notin> of_char ` set base64_alphabet)"
proof -
  have "(base64_ascii_to_bin c = 0xff) = (c \<noteq> 0x3d \<and> (\<forall>n < 64. c \<noteq> base64_char n))"
  proof (cases c rule: base64_ascii_to_bin_cases)
    case (char n)
    then show ?thesis by (auto simp: word_unat_eq_iff)
  next
    case bad
    have "(of_nat n :: u8) \<noteq> 0xff" if "n < 64" for n using that by (simp add: word_unat_eq_iff)
    then show ?thesis using bad by auto
  qed simp
  moreover have "of_char ` set base64_alphabet = base64_char ` {0..<64}"
  proof -
    have "set base64_alphabet = (!) base64_alphabet ` {0..<64}"
      using nth_image [of 64 base64_alphabet] by (simp add: base64_alphabet_def)
    then show ?thesis by (force simp: base64_char_alphabet)
  qed
  moreover have "(\<forall>n < 64. c \<noteq> base64_char n) = (c \<notin> base64_char ` {0..<64})" by auto
  ultimately show ?thesis by (simp add: conv_bin2ascii_eq flip: base64_char_alphabet)
qed

text \<open>C33: What the block encoder writes has the length \<open>EVP_EncodedLength\<close> promises, with its terminator, and both
  block decoders give the bytes back: \<open>EVP_DecodeBase64\<close> exactly, and \<open>EVP_DecodeBlock\<close>, also with blanks before and
  white space after the text, with a zero for every padding character.\<close>
theorem EVP_EncodeBlock_roundtrip:
  assumes "length src \<le> 2 ^ 30" "EVP_EncodeBlock src = (dst, n)" "(length src + 2) div 3 * 3 \<le> max_out"
    and "\<forall>c \<in> set before. c = 0x20 \<or> c = 0x09" "\<forall>c \<in> set after. c \<in> {0x20, 0x09, 0x0d, 0x0a}"
  shows "EVP_EncodedLength (length src) = Some (length dst) \<and> EVP_DecodeBase64 max_out (take n dst) = (True, src, length src)
    \<and> EVP_DecodeBlock (before @ take n dst @ after)
      = (int ((length src + 2) div 3 * 3), src @ replicate ((3 - length src mod 3) mod 3) 0)"
proof -
  define txt_bytes where "txt_bytes = base64_text src"
  have len: "length txt_bytes = (length src + 2) div 3 * 4" "(length src + 2) div 3 \<le> length src + 2"
    by (simp_all add: txt_bytes_def length_base64_text)
  have enc: "take n dst = txt_bytes" "length dst = length txt_bytes + 1"
    using assms(1,2) len(2) encode_block_loop_eq [of src 0 "[]"]
    by (auto simp: EVP_EncodeBlock_def txt_bytes_def length_base64_text)
  have l1: "EVP_EncodedLength (length src) = Some (length dst)"
    using assms(1) len enc(2) by (simp add: EVP_EncodedLength_def size_add_small size_mul_small Let_def)
  have dec: "EVP_DecodeBase64 m txt_bytes = (True, src, length src)" if "(length src + 2) div 3 * 3 \<le> m" for m
    using EVP_DecodeBase64_eq [of txt_bytes m src "length src"] len that assms(1) decode_base64_text [of src "[]"]
    by (simp add: txt_bytes_def)
  have ns: "\<forall>c \<in> set txt_bytes. \<not> base64_space c" using base64_text_no_space [of src] by (simp only: txt_bytes_def list_all_iff)
  have trim: "rev (dropWhile base64_space (rev (dropWhile (\<lambda>c. c = 0x20 \<or> c = 0x09) (before @ txt_bytes @ after)))) = txt_bytes"
  proof (cases "txt_bytes = []")
    case True
    have "\<forall>c \<in> set (dropWhile (\<lambda>c. c = 0x20 \<or> c = 0x09) after). base64_space c" using assms(5) set_dropWhileD by fastforce
    then have "dropWhile base64_space (rev (dropWhile (\<lambda>c. c = 0x20 \<or> c = 0x09) after)) = []" by (simp only: dropWhile_eq_Nil_conv set_rev)
    then show ?thesis using True assms(4) by (simp add: dropWhile_append2)
  next
    case False
    then have "dropWhile (\<lambda>c. c = 0x20 \<or> c = 0x09) (txt_bytes @ after) = txt_bytes @ after" using ns by (cases txt_bytes) auto
    moreover have "dropWhile base64_space (rev txt_bytes) = rev txt_bytes" using ns by (cases txt_bytes rule: rev_cases) auto
    moreover have "dropWhile base64_space (rev after @ rev txt_bytes) = dropWhile base64_space (rev txt_bytes)"
      using assms(5) by (intro dropWhile_append2) simp
    ultimately show ?thesis using assms(4) by (simp add: dropWhile_append2)
  qed
  have "EVP_DecodedLength (length txt_bytes) = Some ((length src + 2) div 3 * 3)" "\<not> (length src + 2) div 3 * 3 > INT_MAX"
    using len assms(1) by (simp_all add: EVP_DecodedLength_def size_mul_small)
  moreover have "length (pad_to_triple src) = (length src + 2) div 3 * 3" unfolding pad_to_triple_eq length_div_3 by simp
  ultimately have "EVP_DecodeBlock (before @ txt_bytes @ after)
      = (int ((length src + 2) div 3 * 3), src @ replicate ((3 - length src mod 3) mod 3) 0)"
    unfolding EVP_DecodeBlock_def Let_def trim pad_to_triple_eq [symmetric] by (simp add: dec)
  then show ?thesis using l1 dec [OF assms(3)] enc(1) by simp
qed

text \<open>C34: \<open>EVP_DecodeBase64\<close> accepts exactly the texts made of the encoding of a whole number of triples and at most one
  quad with padding after it, when the output fits; the unused bits of the last character are ignored.\<close>
theorem EVP_DecodeBase64_exact:
  assumes "length src < 2 ^ 64"
  shows "EVP_DecodeBase64 max_out src = (True, out, n) \<longleftrightarrow>
    length src div 4 * 3 \<le> max_out \<and> n = length out
    \<and> (\<exists>full tail bs. length full mod 3 = 0 \<and> base64_tail tail bs \<and> src = base64_text full @ tail \<and> out = full @ bs)"
proof (cases "length src mod 4 = 0")
  case True
  show ?thesis unfolding EVP_DecodeBase64_eq [OF assms True] decode_base64_loop_iff [OF True] append_Nil by blast
next
  case False
  moreover have "length (base64_text full @ tail) mod 4 = 0" if "base64_tail tail bs" for full tail bs
    using that short_quad_length by (auto simp: base64_tail_def length_base64_text)
  ultimately show ?thesis by (auto simp: EVP_DecodeBase64_def)
qed

text \<open>C35: The streaming encoder does not depend on how the input is cut into pieces: what the calls write is the text of the
  whole input in lines of 64 characters.\<close>
theorem EVP_EncodeUpdate_stream:
  assumes "\<forall>c \<in> set chunks. length c \<le> 2 ^ 30"
  shows "encode_all chunks = base64_pem (concat chunks)"
  using assms by (rule encode_all_pem)

text \<open>C36: The streaming decoder, fed in any pieces, accepts what the block decoder accepts once white space is removed,
  with the same result.\<close>
theorem EVP_DecodeUpdate_stream:
  assumes "\<forall>c \<in> set chunks. length c \<le> INT_MAX - 3" "length (concat chunks) < 2 ^ 64"
  shows "decode_all chunks = Some data \<longleftrightarrow>
    EVP_DecodeBase64 (length (concat chunks)) (filter (\<lambda>c. c \<notin> {0x20, 0x09, 0x0d, 0x0a}) (concat chunks)) = (True, data, length data)"
proof -
  let ?plain = "filter (\<lambda>c. \<not> base64_space c) (concat chunks)"
  have len: "length ?plain \<le> length (concat chunks)" by (rule length_filter_le)
  then have fits: "length ?plain div 4 * 3 \<le> length (concat chunks)" by linarith
  show ?thesis
  proof (cases "length ?plain mod 4 = 0")
    case True
    have "length ?plain < 2 ^ 64" using len assms(2) by linarith
    from EVP_DecodeBase64_eq [OF this True] show ?thesis unfolding decode_all_iff [OF assms(1)] using True fits by blast
  next
    case False
    then show ?thesis using decode_all_iff [OF assms(1), of data] by (simp add: EVP_DecodeBase64_def)
  qed
qed

text \<open>C37: Text written by the streaming encoder is read back by the streaming decoder, whatever pieces either is given.\<close>
theorem EVP_Encode_Decode_stream:
  assumes "\<forall>c \<in> set chunks. length c \<le> 2 ^ 30" "concat pieces = encode_all chunks" "\<forall>c \<in> set pieces. length c \<le> INT_MAX - 3"
  shows "decode_all pieces = Some (concat chunks)"
proof -
  have "filter (\<lambda>c. \<not> base64_space c) (concat pieces) = base64_text (concat chunks)"
    unfolding assms(2) encode_all_pem [OF assms(1)] by (rule filter_base64_pem)
  then show ?thesis
    using decode_all_iff [OF assms(3), of "concat chunks"] decode_base64_text [of "concat chunks" "[]"]
    by (simp add: length_base64_text)
qed

text \<open>The witnesses: "Hi" is "SGk=".\<close>

lemma hi_text: "base64_text [0x48, 0x69] = [0x53, 0x47, 0x6b, 0x3d]"
  by (simp add: base64_quad_def be_nat_Cons base64_char_def)

lemma two: "Suc (Suc 0) = 2"
  by simp

declare base64_text.simps [simp del] encode_block_loop.simps [simp del] decode_base64_loop.simps [simp del]

lemma EVP_EncodeBlock_roundtrip_witness:
  "EVP_EncodedLength 2 = Some 5 \<and> EVP_DecodeBase64 3 [0x53, 0x47, 0x6b, 0x3d] = (True, [0x48, 0x69], 2)
   \<and> EVP_DecodeBlock [0x20, 0x53, 0x47, 0x6b, 0x3d, 0x0a] = (3, [0x48, 0x69, 0])"
proof -
  have "EVP_EncodeBlock [0x48, 0x69] = ([0x53, 0x47, 0x6b, 0x3d, 0], 4)"
    using encode_block_loop_eq [of "[0x48, 0x69]" 0 "[]"] by (simp add: EVP_EncodeBlock_def hi_text)
  from EVP_EncodeBlock_roundtrip [OF _ this, of 3 "[0x20]" "[0x0a]"] show ?thesis by (simp add: two)
qed

lemma EVP_DecodeBase64_exact_witness: "EVP_DecodeBase64 6 [0x53, 0x47, 0x6b, 0x3d] = (True, [0x48, 0x69], 2)"
proof -
  have "base64_tail (base64_text [0x48, 0x69]) [0x48, 0x69]"
    using base64_quad_short(1) [of 72 105] by (simp add: base64_tail_def base64_text.simps)
  then have "\<exists>full tail bs. length full mod 3 = 0 \<and> base64_tail tail bs
      \<and> [0x53, 0x47, 0x6b, 0x3d] = base64_text full @ tail \<and> [0x48, 0x69] = full @ bs"
    unfolding hi_text
    by (rule_tac x = "[]" in exI, rule_tac x = "[0x53, 0x47, 0x6b, 0x3d]" in exI, rule_tac x = "[0x48, 0x69]" in exI)
      (simp add: base64_text.simps)
  then show ?thesis using EVP_DecodeBase64_exact [of "[0x53, 0x47, 0x6b, 0x3d]" 6 "[0x48, 0x69]" 2] by simp
qed

lemma hi_pem: "base64_pem [0x48, 0x69] = [0x53, 0x47, 0x6b, 0x3d, 0x0a]"
  by (simp add: base64_pem_def base64_lines.simps [of "[0x48, 0x69]"] line_rest.simps [of "[0x48, 0x69]"] base64_last_line_def hi_text)

lemma EVP_EncodeUpdate_stream_witness: "encode_all [[0x48], [0x69]] = [0x53, 0x47, 0x6b, 0x3d, 0x0a]"
  using EVP_EncodeUpdate_stream [of "[[0x48], [0x69]]"] by (simp add: hi_pem)

lemma EVP_DecodeUpdate_stream_witness: "decode_all [[0x53, 0x0a, 0x47], [0x6b, 0x3d]] = Some [0x48, 0x69]"
proof -
  have "EVP_DecodeBase64 5 [0x53, 0x47, 0x6b, 0x3d] = (True, [0x48, 0x69], 2)"
    using EVP_DecodeBase64_eq [of "[0x53, 0x47, 0x6b, 0x3d]" 5] decode_base64_text [of "[0x48, 0x69]" "[]"] by (simp add: hi_text)
  then show ?thesis using EVP_DecodeUpdate_stream [of "[[0x53, 0x0a, 0x47], [0x6b, 0x3d]]" "[0x48, 0x69]"] by (simp add: two)
qed

lemma EVP_Encode_Decode_stream_witness: "decode_all [[0x53, 0x47, 0x6b], [0x3d, 0x0a]] = Some [0x48, 0x69]"
  using EVP_Encode_Decode_stream [of "[[0x48, 0x69]]" "[[0x53, 0x47, 0x6b], [0x3d, 0x0a]]"] encode_all_pem [of "[[0x48, 0x69]]"]
  by (simp add: hi_pem)

end
