(* ===== verification/Ber.thy ===== *)
theory Ber
  imports CbbState "HOL-Library.Sublist"
begin

text \<open>
  \<open>crypto/bytestring/ber.c\<close> and \<open>CBB_finish_i2d\<close> of \<open>asn1_compat.c\<close>: the search for BER-only encodings, the
  conversion of BER to DER with its nested recursions and its depth limit, and implicitly tagged strings. The
  conversion calls itself on the rest of the input that an inner call leaves, so it is given fuel; one more than the length
  of the input is shown to be enough. Shown below: the search accepts exactly the nested DER values of bounded depth
  without constructed strings, and a conversion that succeeds produces such values.
\<close>

unbundle bit_operations_syntax

section \<open>The code\<close>

abbreviation (input) kMaxDepth :: nat where "kMaxDepth \<equiv> 128"

definition is_string_type :: "CBS_ASN1_TAG \<Rightarrow> bool" where
  "is_string_type tag \<longleftrightarrow>
     tag AND NOT CBS_ASN1_CONSTRUCTED \<in> {4, 0xc, 0x12, 0x13, 0x14, 0x15, 0x16, 0x19, 0x1a, 0x1b, 0x1c, 0x1e}"

lemma ber_element_cases:
  assumes "CBS_get_any_ber_asn1_element cbs = (Some e, rest)"
  shows "cbs = elem_out e @ rest \<and> 0 < elem_header_len e \<and> elem_header_len e \<le> length (elem_out e)"
proof -
  obtain tag header len k ber indef where tag: "parse_asn1_tag cbs = (Some tag, header)" and out: "cbs = elem_out e @ rest"
      "length (elem_out e) = length (der_tag tag) + k + len"
      "e = \<lparr> elem_out = elem_out e, elem_tag = tag, elem_header_len = length (der_tag tag) + k,
             elem_ber_found = ber, elem_indefinite = indef \<rparr>"
    using assms unfolding CBS_get_any_ber_asn1_element_def by (elim elementE)
  have "elem_header_len e = length (der_tag tag) + k" by (subst out(3)) simp
  moreover have "0 < length (der_tag tag)" by (simp add: der_tag_def Let_def)
  ultimately show ?thesis using out(1,2) by simp
qed

text \<open>
  The answer, \<open>None\<close> on an error: \<open>*ber_found\<close>. The loop keeps its depth, so its test may be
  repeated with every element.
\<close>

function cbs_find_ber :: "CBS \<Rightarrow> nat \<Rightarrow> bool option" where
  "cbs_find_ber inp depth =
     (if depth > kMaxDepth then None
      else if length inp = 0 then Some False
      else case CBS_get_any_ber_asn1_element inp of
        (None, _) \<Rightarrow> None
      | (Some e, rest) \<Rightarrow>
          if elem_ber_found e then Some True
          else if elem_tag e AND CBS_ASN1_CONSTRUCTED \<noteq> 0 then
            if is_string_type (elem_tag e) then Some True
            else case CBS_skip (elem_header_len e) (elem_out e) of
              (None, _) \<Rightarrow> None
            | (Some _, contents) \<Rightarrow>
                (case cbs_find_ber contents (depth + 1) of
                   None \<Rightarrow> None
                 | Some True \<Rightarrow> Some True
                 | Some False \<Rightarrow> cbs_find_ber rest depth)
          else cbs_find_ber rest depth)"
  by pat_completeness auto
termination
proof (relation "measure (\<lambda>(inp, depth). length inp)", goal_cases)
  case (2 inp depth x rest e y contents u)
  then have e: "CBS_get_any_ber_asn1_element inp = (Some e, rest)" by simp
  have "contents = drop (elem_header_len e) (elem_out e)"
    using 2 by (simp add: CBS_skip_def rd_bind_def rd_return_def cbs_get_def split: if_splits)
  then show ?case using ber_element_cases [OF e] by auto
next
  case (3 inp depth x rest e)
  then have e: "CBS_get_any_ber_asn1_element inp = (Some e, rest)" by simp
  then show ?case using ber_element_cases [OF e] by auto
next
  case (4 inp depth x rest e)
  then have e: "CBS_get_any_ber_asn1_element inp = (Some e, rest)" by simp
  then show ?case using ber_element_cases [OF e] by auto
qed simp

declare cbs_find_ber.simps [simp del]

definition cbs_get_eoc :: "CBS \<Rightarrow> CBS option" where
  "cbs_get_eoc cbs = (if length cbs \<ge> 2 \<and> cbs ! 0 = 0 \<and> cbs ! 1 = 0 then Some (drop 2 cbs) else None)"

text \<open>Where the contents of an element go: the level of the builder and the string tag of its children.\<close>

definition ber_out_contents ::
    "cbb_env \<Rightarrow> nat \<Rightarrow> CBS_ASN1_TAG \<Rightarrow> CBS_ASN1_TAG \<Rightarrow> CBB \<Rightarrow> (nat \<times> CBS_ASN1_TAG) option \<times> CBB" where
  "ber_out_contents env h string_tag tag cbb =
     (if string_tag \<noteq> 0 then
        if tag AND NOT CBS_ASN1_CONSTRUCTED \<noteq> string_tag then (None, cbb) else (Some (h, string_tag), cbb)
      else
        let constructed_string = (tag AND CBS_ASN1_CONSTRUCTED \<noteq> 0 \<and> is_string_type tag);
            out_tag = (if constructed_string then tag AND NOT CBS_ASN1_CONSTRUCTED else tag);
            child_string_tag = (if constructed_string then out_tag else string_tag)
        in case CBB_add_asn1 env h out_tag cbb of
             (False, cbb) \<Rightarrow> (None, cbb)
           | (True, cbb) \<Rightarrow> (Some (h + 1, child_string_tag), cbb))"

text \<open>
  The return value, \<open>in\<close> and the builder; \<open>out\<close> is the \<open>CBB\<close> at level \<open>h\<close>. \<open>None\<close> when the fuel has run out.
\<close>

fun cbs_convert_ber ::
    "nat \<Rightarrow> cbb_env \<Rightarrow> nat \<Rightarrow> CBS_ASN1_TAG \<Rightarrow> bool \<Rightarrow> nat \<Rightarrow> CBS \<Rightarrow> CBB \<Rightarrow> (bool \<times> CBS \<times> CBB) option" where
  "cbs_convert_ber 0 env h string_tag looking_for_eoc depth inp cbb = None"
| "cbs_convert_ber (Suc fuel) env h string_tag looking_for_eoc depth inp cbb =
     (if depth > kMaxDepth then Some (False, inp, cbb)
      else if length inp = 0 then Some (\<not> looking_for_eoc, inp, cbb)
      else case (if looking_for_eoc then cbs_get_eoc inp else None) of
        Some inp \<Rightarrow> Some (True, inp, cbb)
      | None \<Rightarrow>
      case CBS_get_any_ber_asn1_element inp of
        (None, inp) \<Rightarrow> Some (False, inp, cbb)
      | (Some e, inp) \<Rightarrow>
      case ber_out_contents env h string_tag (elem_tag e) cbb of
        (None, cbb) \<Rightarrow> Some (False, inp, cbb)
      | (Some (out_contents, child_string_tag), cbb) \<Rightarrow>
          if elem_indefinite e then
            case cbs_convert_ber fuel env out_contents child_string_tag True (depth + 1) inp cbb of
              None \<Rightarrow> None
            | Some (False, inp, cbb) \<Rightarrow> Some (False, inp, cbb)
            | Some (True, inp, cbb) \<Rightarrow>
                (case CBB_flush env h cbb of
                   (False, cbb) \<Rightarrow> Some (False, inp, cbb)
                 | (True, cbb) \<Rightarrow> cbs_convert_ber fuel env h string_tag looking_for_eoc depth inp cbb)
          else case CBS_skip (elem_header_len e) (elem_out e) of
            (None, _) \<Rightarrow> Some (False, inp, cbb)
          | (Some _, contents) \<Rightarrow>
              case (if elem_tag e AND CBS_ASN1_CONSTRUCTED \<noteq> 0
                    then map_option (\<lambda>(ok, _, cbb). (ok, cbb))
                           (cbs_convert_ber fuel env out_contents child_string_tag False (depth + 1) contents cbb)
                    else Some (CBB_add_bytes env out_contents contents cbb)) of
                None \<Rightarrow> None
              | Some (False, cbb) \<Rightarrow> Some (False, inp, cbb)
              | Some (True, cbb) \<Rightarrow>
                  (case CBB_flush env h cbb of
                     (False, cbb) \<Rightarrow> Some (False, inp, cbb)
                   | (True, cbb) \<Rightarrow> cbs_convert_ber fuel env h string_tag looking_for_eoc depth inp cbb))"

declare cbs_convert_ber.simps(2) [simp del]

text \<open>\<open>*out\<close> with whether \<open>*out_storage\<close> owns it, and \<open>in\<close>.\<close>

definition CBS_asn1_ber_to_der :: "cbb_env \<Rightarrow> (CBS \<times> bool) reader" where
  "CBS_asn1_ber_to_der env inp =
     (case cbs_find_ber inp 0 of
        None \<Rightarrow> (None, inp)
      | Some False \<Rightarrow>
          (case CBS_get_any_asn1_element inp of (None, inp) \<Rightarrow> (None, inp) | (Some e, inp) \<Rightarrow> (Some (elem_out e, False), inp))
      | Some True \<Rightarrow>
          (case CBB_init env (length inp) of
             None \<Rightarrow> (None, inp)
           | Some cbb \<Rightarrow>
               case cbs_convert_ber (length inp + 1) env 0 0 False 0 inp cbb of
                 Some (True, inp, cbb) \<Rightarrow>
                   (case CBB_finish env 0 cbb of None \<Rightarrow> (None, inp) | Some out \<Rightarrow> (Some (out, True), inp))
               | Some (False, inp, cbb) \<Rightarrow> (None, inp)
               | None \<Rightarrow> (None, inp)))"

text \<open>The loop over the chunks of a constructed string, \<open>result\<close> being a builder.\<close>

function implicit_string_loop :: "cbb_env \<Rightarrow> CBS_ASN1_TAG \<Rightarrow> CBS \<Rightarrow> CBB \<Rightarrow> bool \<times> CBB" where
  "implicit_string_loop env inner_tag child result =
     (if length child = 0 then (True, result)
      else case CBS_get_asn1 inner_tag child of
        (None, _) \<Rightarrow> (False, result)
      | (Some chunk, child) \<Rightarrow>
          case CBB_add_bytes env 0 chunk result of
            (False, result) \<Rightarrow> (False, result)
          | (True, result) \<Rightarrow> implicit_string_loop env inner_tag child result)"
  by pat_completeness auto
termination
proof (relation "measure (\<lambda>(env, inner_tag, child, result). length child)", goal_cases)
  case (2 env inner_tag child result p rest chunk q result')
  then have "CBS_get_asn1 inner_tag child = (Some chunk, rest)" by simp
  then show ?case by (auto simp: CBS_get_asn1_iff der_element_def der_tag_def Let_def)
qed simp

declare implicit_string_loop.simps [simp del]

definition CBS_get_asn1_implicit_string ::
    "cbb_env \<Rightarrow> CBS_ASN1_TAG \<Rightarrow> CBS_ASN1_TAG \<Rightarrow> (CBS \<times> bool) reader" where
  "CBS_get_asn1_implicit_string env outer_tag inner_tag inp =
     (if CBS_peek_asn1_tag inp outer_tag then rd_bind (CBS_get_asn1 outer_tag) (\<lambda>out. rd_return (out, False)) inp
      else case CBB_init env (length inp) of
        None \<Rightarrow> (None, inp)
      | Some result \<Rightarrow>
          case CBS_get_asn1 (outer_tag OR CBS_ASN1_CONSTRUCTED) inp of
            (None, inp) \<Rightarrow> (None, inp)
          | (Some child, inp) \<Rightarrow>
              case implicit_string_loop env inner_tag child result of
                (False, _) \<Rightarrow> (None, inp)
              | (True, result) \<Rightarrow>
                  (case CBB_finish env 0 result of None \<Rightarrow> (None, inp) | Some data \<Rightarrow> (Some (data, True), inp)))"

text \<open>
  \<open>CBB_finish_i2d\<close>: \<open>outp\<close> is null, points to a null pointer, or to memory of the caller at a position; the
  memory must have room for the output.
\<close>

datatype i2d_outp = Outp_null | Outp_alloc "bytes option" | Outp_buffer bytes nat

definition CBB_finish_i2d :: "cbb_env \<Rightarrow> CBB \<Rightarrow> i2d_outp \<Rightarrow> int \<times> i2d_outp" where
  "CBB_finish_i2d env cbb outp =
     (case CBB_finish env 0 cbb of
        None \<Rightarrow> (- 1, outp)
      | Some der \<Rightarrow>
          if length der > INT_MAX then (- 1, outp)
          else (int (length der),
            case outp of
              Outp_null \<Rightarrow> Outp_null
            | Outp_alloc None \<Rightarrow> Outp_alloc (Some der)
            | Outp_alloc (Some mem) \<Rightarrow> Outp_buffer (buf_write 0 der mem) (length der)
            | Outp_buffer mem pos \<Rightarrow> Outp_buffer (buf_write pos der mem) (pos + length der)))"

section \<open>Termination of the conversion\<close>

lemma skip_contents: "CBS_skip n data = (Some u, contents) \<Longrightarrow> contents = drop n data"
  by (auto simp: CBS_skip_def rd_bind_def rd_return_def cbs_get_def split: if_splits option.splits prod.splits)

lemma ber_element_lengths:
  assumes "CBS_get_any_ber_asn1_element inp = (Some e, rest)"
  shows "length rest < length inp"
    and "CBS_skip (elem_header_len e) (elem_out e) = (Some u, contents) \<Longrightarrow> length contents < length inp"
  using ber_element_cases [OF assms] skip_contents [of "elem_header_len e" "elem_out e" u contents] by auto

lemma ber_element_suffix: "CBS_get_any_ber_asn1_element inp = (Some e, rest) \<Longrightarrow> suffix rest inp"
  using ber_element_cases [of inp e rest] by (auto simp: suffix_def)

lemma cbs_get_eoc_suffix: "cbs_get_eoc inp = Some rest \<Longrightarrow> suffix rest inp"
  by (auto simp: cbs_get_eoc_def suffix_drop split: if_splits)

lemma ber_element_None: "CBS_get_any_ber_asn1_element inp = (None, rest) \<Longrightarrow> rest = inp"
  unfolding CBS_get_any_ber_asn1_element_def by (rule cbs_get_any_asn1_element_None)

definition convert_returns :: "CBS \<Rightarrow> (bool \<times> CBS \<times> CBB) option \<Rightarrow> bool" where
  "convert_returns inp r \<longleftrightarrow> (\<exists>ok in' cbb'. r = Some (ok, in', cbb') \<and> suffix in' inp)"

lemma convert_returns_Some [simp]: "convert_returns inp (Some (ok, in', cbb')) \<longleftrightarrow> suffix in' inp"
  by (simp add: convert_returns_def)

lemma convert_returns_mono: "convert_returns rest r \<Longrightarrow> suffix rest inp \<Longrightarrow> convert_returns inp r"
  by (auto simp: convert_returns_def intro: suffix_order.trans)

lemma cbs_convert_ber_returns:
  "length inp < fuel \<Longrightarrow> convert_returns inp (cbs_convert_ber fuel env h string_tag eoc depth inp cbb)"
proof (induction fuel arbitrary: h string_tag eoc depth inp cbb)
  case (Suc fuel)
  have IH: "convert_returns inp' (cbs_convert_ber fuel env h' st' eoc' d' inp' cbb')"
    if "length inp' < length inp" for h' st' eoc' d' inp' cbb'
    using Suc.IH [of inp' h' st' eoc' d' cbb'] Suc.prems that by simp
  obtain eo rest where e: "CBS_get_any_ber_asn1_element inp = (eo, rest)" by fastforce
  show ?case
  proof (cases "depth > kMaxDepth \<or> length inp = 0 \<or> (eoc \<and> cbs_get_eoc inp \<noteq> None) \<or> eo = None")
    case True
    then show ?thesis using e
      by (cases "cbs_get_eoc inp") (auto simp: cbs_convert_ber.simps(2) dest: ber_element_None cbs_get_eoc_suffix split: if_splits)
  next
    case False
    then obtain el where el: "CBS_get_any_ber_asn1_element inp = (Some el, rest)" using e by blast
    note len = ber_element_lengths [OF el]
    have tail: "convert_returns inp (case CBB_flush env h c of (False, c) \<Rightarrow> Some (False, r, c)
        | (True, c) \<Rightarrow> cbs_convert_ber fuel env h string_tag eoc depth r c)" if "suffix r rest" for r c
    proof -
      have "suffix r inp" "length r < length inp"
        using that ber_element_suffix [OF el] len(1) suffix_length_le [OF that] by (auto intro: suffix_order.trans)
      then show ?thesis using convert_returns_mono [OF IH] by (auto split: prod.split bool.split)
    qed
    have rest: "suffix rest inp" by (rule ber_element_suffix [OF el])
    obtain oc cbb1 where oc: "ber_out_contents env h string_tag (elem_tag el) cbb = (oc, cbb1)" by fastforce
    show ?thesis
    proof (cases oc)
      case None
      then show ?thesis using False el oc rest by (auto simp: cbs_convert_ber.simps(2) split: option.split)
    next
      case (Some p)
      obtain h' st' where p: "p = (h', st')" by fastforce
      show ?thesis
      proof (cases "elem_indefinite el")
        case True
        have inner: "convert_returns rest (cbs_convert_ber fuel env h' st' True (depth + 1) rest cbb1)"
          using Suc.IH [of rest] Suc.prems len by auto
        then obtain ok r c where r: "cbs_convert_ber fuel env h' st' True (depth + 1) rest cbb1 = Some (ok, r, c)"
          "suffix r rest" by (auto simp: convert_returns_def)
        then show ?thesis using False el oc len rest Some p True tail [of r c] suffix_order.trans [of r rest inp]
          by (cases ok) (auto simp: cbs_convert_ber.simps(2) split: option.split)
      next
        case def: False
        obtain so contents where so: "CBS_skip (elem_header_len el) (elem_out el) = (so, contents)" by fastforce
        show ?thesis
        proof (cases so)
          case None
          then show ?thesis using False el oc rest Some p def so by (auto simp: cbs_convert_ber.simps(2) split: option.split)
        next
          case so': (Some u)
          have inner: "\<exists>ok r c. cbs_convert_ber fuel env h' st' False (depth + 1) contents cbb1 = Some (ok, r, c)"
            using IH [of contents h' st' False "depth + 1" cbb1] len(2) [of u contents] so so' unfolding convert_returns_def by blast
          obtain ok c where r: "(if elem_tag el AND CBS_ASN1_CONSTRUCTED \<noteq> 0
                    then map_option (\<lambda>(ok, _, cbb). (ok, cbb))
                           (cbs_convert_ber fuel env h' st' False (depth + 1) contents cbb1)
                    else Some (CBB_add_bytes env h' contents cbb1)) = Some (ok, c)" (is "?r = _")
            using inner surj_pair [of "CBB_add_bytes env h' contents cbb1"]
            by (cases ?r) (auto split: if_splits)
          show ?thesis using False el oc len Some p def so so' rest tail [of rest c] r
            by (cases ok) (auto simp: cbs_convert_ber.simps(2) split: option.split)
        qed
      qed
    qed
  qed
qed simp

text \<open>A result found with some fuel is found with more: the flat order, which every construct of the body respects.\<close>

definition found_le :: "'a option \<Rightarrow> 'a option \<Rightarrow> bool" where
  "found_le a b \<longleftrightarrow> a = None \<or> a = b"

named_theorems found_le_intros

lemma found_le_refl [found_le_intros]: "found_le a a"
  by (simp add: found_le_def)

lemma found_le_if [found_le_intros]: "found_le a a' \<Longrightarrow> found_le b b' \<Longrightarrow> found_le (if c then a else b) (if c then a' else b')"
  by simp

lemma found_le_bool [found_le_intros]: "found_le a a' \<Longrightarrow> found_le b b' \<Longrightarrow> found_le (case_bool a b c) (case_bool a' b' c)"
  by (cases c) simp_all

lemma found_le_prod [found_le_intros]: "(\<And>x y. found_le (f x y) (g x y)) \<Longrightarrow> found_le (case_prod f p) (case_prod g p)"
  by (cases p) simp

lemma found_le_option [found_le_intros]:
  "found_le z z' \<Longrightarrow> (\<And>x. found_le (f x) (g x)) \<Longrightarrow> found_le (case_option z f p) (case_option z' g p)"
  by (cases p) simp_all

lemma found_le_call [found_le_intros]:
  "found_le a b \<Longrightarrow> (\<And>x. found_le (f x) (g x)) \<Longrightarrow> found_le (case_option None f a) (case_option None g b)"
  by (auto simp: found_le_def split: option.splits)

lemma found_le_map [found_le_intros]: "found_le a b \<Longrightarrow> found_le (map_option f a) (map_option f b)"
  by (auto simp: found_le_def)

lemma cbs_convert_ber_more_fuel:
  "found_le (cbs_convert_ber fuel env h st eoc depth inp cbb) (cbs_convert_ber (Suc fuel) env h st eoc depth inp cbb)"
proof (induction fuel arbitrary: h st eoc depth inp cbb)
  case 0
  show ?case by (simp add: found_le_def)
next
  case (Suc fuel)
  show ?case
    unfolding cbs_convert_ber.simps(2) [of fuel env h st eoc depth inp cbb] cbs_convert_ber.simps(2) [of "Suc fuel" env h st eoc depth inp cbb]
    by (intro Suc.IH found_le_if found_le_bool found_le_prod found_le_call found_le_option found_le_map) (rule found_le_refl)+
qed

lemma cbs_convert_ber_enough_fuel:
  "cbs_convert_ber (length inp + 1 + k) env h st eoc depth inp cbb = cbs_convert_ber (length inp + 1) env h st eoc depth inp cbb"
proof (induction k)
  case (Suc k)
  have "cbs_convert_ber (length inp + 1 + k) env h st eoc depth inp cbb \<noteq> None"
    using cbs_convert_ber_returns [of inp "length inp + 1 + k" env h st eoc depth cbb] by (auto simp: convert_returns_def)
  then show ?case
    using Suc.IH cbs_convert_ber_more_fuel [of "length inp + 1 + k" env h st eoc depth inp cbb]
    by (auto simp: found_le_def)
qed simp

section \<open>Nested DER values\<close>

text \<open>A DER value whose constructed parts are taken apart, as far as \<open>cbs_find_ber\<close> looks into them.\<close>

datatype der_value = Primitive CBS_ASN1_TAG bytes | Constructed CBS_ASN1_TAG "der_value list"

fun der_bytes :: "der_value \<Rightarrow> bytes" where
  "der_bytes (Primitive tag contents) = der_element tag contents"
| "der_bytes (Constructed tag vs) = der_element tag (concat (map der_bytes vs))"

abbreviation der_sequence :: "der_value list \<Rightarrow> bytes" where
  "der_sequence vs \<equiv> concat (map der_bytes vs)"

text \<open>Well-formed values with at most \<open>k\<close> levels of constructed values, none of them a string.\<close>

fun der_ok :: "nat \<Rightarrow> der_value \<Rightarrow> bool" where
  "der_ok k (Primitive tag contents) \<longleftrightarrow>
     valid_tag tag \<and> tag AND CBS_ASN1_CONSTRUCTED = 0 \<and> length contents < 2 ^ 32"
| "der_ok k (Constructed tag vs) \<longleftrightarrow>
     valid_tag tag \<and> tag AND CBS_ASN1_CONSTRUCTED \<noteq> 0 \<and> \<not> is_string_type tag \<and> length (der_sequence vs) < 2 ^ 32
     \<and> 0 < k \<and> list_all (der_ok (k - 1)) vs"

definition der_nested :: "nat \<Rightarrow> bytes \<Rightarrow> bool" where
  "der_nested k inp \<longleftrightarrow> (\<exists>vs. inp = der_sequence vs \<and> list_all (der_ok k) vs)"

lemma der_element_not_Nil [simp]: "der_element tag contents \<noteq> []" "[] \<noteq> der_element tag contents"
  by (simp_all add: der_element_def der_length_def)

lemma der_bytes_not_Nil [simp]: "der_bytes v \<noteq> []"
  by (cases v) simp_all

lemma der_nested_Nil [simp]: "der_nested k []"
  unfolding der_nested_def by (rule exI [of _ "[]"]) simp

lemma der_element_eqD:
  assumes "der_element tag c @ rest = der_element tag' c' @ rest'"
    and "valid_tag tag" "length c < 2 ^ 32" "valid_tag tag'" "length c' < 2 ^ 32"
  shows "tag = tag' \<and> c = c' \<and> rest = rest'"
  using CBS_get_any_asn1_iff [of "der_element tag c @ rest" c tag rest] CBS_get_any_asn1_iff [of "der_element tag c @ rest" c' tag' rest'] assms
  by simp

lemma der_nested_element:
  assumes "valid_tag tag" "length c < 2 ^ 32"
  shows "der_nested k (der_element tag c @ rest) \<longleftrightarrow>
     (tag AND CBS_ASN1_CONSTRUCTED \<noteq> 0 \<longrightarrow> \<not> is_string_type tag \<and> 0 < k \<and> der_nested (k - 1) c) \<and> der_nested k rest"
    (is "?L \<longleftrightarrow> ?R")
proof
  assume ?L
  then obtain v vs where v: "der_element tag c @ rest = der_bytes v @ der_sequence vs" "der_ok k v" "list_all (der_ok k) vs"
    unfolding der_nested_def by (metis append_is_Nil_conv concat.simps der_element_not_Nil(1) list.pred_inject(2) list.simps(8,9) neq_Nil_conv)
  show ?R
  proof (cases v)
    case (Primitive tag' c')
    then show ?thesis using der_element_eqD [of tag c rest tag' c'] v assms by (auto simp: der_nested_def)
  next
    case (Constructed tag' ws)
    then show ?thesis using der_element_eqD [of tag c rest tag' "der_sequence ws"] v assms by (auto simp: der_nested_def)
  qed
next
  assume R: ?R
  then obtain vs where vs: "rest = der_sequence vs" "list_all (der_ok k) vs" by (auto simp: der_nested_def)
  show ?L
  proof (cases "tag AND CBS_ASN1_CONSTRUCTED = 0")
    case True
    then show ?thesis unfolding der_nested_def using vs assms by (intro exI [of _ "Primitive tag c # vs"]) simp
  next
    case False
    then obtain ws where "c = der_sequence ws" "list_all (der_ok (k - 1)) ws" using R by (auto simp: der_nested_def)
    then show ?thesis unfolding der_nested_def using vs assms R False by (intro exI [of _ "Constructed tag ws # vs"]) simp
  qed
qed

lemma der_nested_start:
  assumes "der_nested k inp" "inp \<noteq> []"
  obtains tag c rest where "valid_tag tag" "length c < 2 ^ 32" "inp = der_element tag c @ rest"
proof -
  obtain v vs where v: "inp = der_bytes v @ der_sequence vs" "der_ok k v"
    using assms unfolding der_nested_def by (metis concat.simps list.pred_inject(2) list.simps(8,9) neq_Nil_conv)
  then show thesis using that by (cases v) auto
qed

lemma der_rest_shorter: "length rest < length (der_element tag c @ rest)" "length c < length (der_element tag c @ rest)"
  using der_element_not_Nil(1) [of tag c] by (simp_all add: der_element_def der_length_def)

text \<open>One round of the search on a DER element.\<close>

lemma find_ber_element:
  assumes "valid_tag tag" "length c < 2 ^ 32" "depth \<le> 128"
  shows "cbs_find_ber (der_element tag c @ rest) depth = Some False \<longleftrightarrow>
     (tag AND CBS_ASN1_CONSTRUCTED \<noteq> 0 \<longrightarrow> \<not> is_string_type tag \<and> cbs_find_ber c (depth + 1) = Some False)
     \<and> cbs_find_ber rest depth = Some False"
proof -
  have e: "CBS_get_any_ber_asn1_element (der_element tag c @ rest) = (Some (elem_of tag c), rest)"
    using get_der_element [OF assms(1,2)] unfolding ber_found_iff by blast
  have "CBS_skip (elem_header_len (elem_of tag c)) (elem_out (elem_of tag c)) = (Some (), c)"
    by (simp add: CBS_skip_def elem_of_def der_element_def rd_bind_def rd_return_def cbs_get_def)
  moreover have "\<not> elem_ber_found (elem_of tag c)" by (simp add: elem_of_def)
  ultimately show ?thesis
    using e assms(3) cbs_find_ber.simps [of "der_element tag c @ rest" depth] by (auto split: option.splits bool.splits)
qed

lemma find_ber_start:
  assumes "cbs_find_ber inp depth = Some False" "inp \<noteq> []"
  obtains tag c rest where "valid_tag tag" "length c < 2 ^ 32" "inp = der_element tag c @ rest"
proof -
  obtain e rest where e: "CBS_get_any_ber_asn1_element inp = (Some e, rest)" "\<not> elem_ber_found e"
    using assms cbs_find_ber.simps [of inp depth] by (auto split: if_splits prod.splits option.splits)
  then have "CBS_get_any_asn1_element inp = (Some e, rest)" by (simp add: ber_found_iff)
  then show thesis using that unfolding CBS_get_any_asn1_element_iff by blast
qed

lemma cbs_find_ber_iff: "cbs_find_ber inp depth = Some False \<longleftrightarrow> depth \<le> 128 \<and> der_nested (128 - depth) inp"
proof (induction "length inp" arbitrary: inp depth rule: less_induct)
  case less
  have deep: "cbs_find_ber inp depth = None" if "128 < depth" using that by (simp add: cbs_find_ber.simps)
  have empty: "cbs_find_ber [] depth = Some False" if "depth \<le> 128" using that by (simp add: cbs_find_ber.simps)
  have element: "?case" if "depth \<le> 128" "valid_tag tag" "length c < 2 ^ 32" "inp = der_element tag c @ rest" for tag c rest
    unfolding that(4) find_ber_element [OF that(2,3,1)] der_nested_element [OF that(2,3)]
    using less [of c "depth + 1"] less [of rest depth] that der_rest_shorter [of c tag rest] der_rest_shorter [of rest tag c] by auto
  show ?case
    using deep empty element find_ber_start [of inp depth] der_nested_start [of "128 - depth" inp]
    by (cases "inp = []"; cases "depth \<le> 128") (simp, simp, metis, simp)
qed

section \<open>What the conversion computes\<close>

text \<open>
  A BER value as it is read: a primitive with its contents or a constructed value, of definite or indefinite length;
  the readings of an input, with whether an end-of-contents ends them and what it leaves.
\<close>

datatype ber_value = Ber_primitive CBS_ASN1_TAG bytes | Ber_constructed CBS_ASN1_TAG "ber_value list"

abbreviation (input) constructed :: "CBS_ASN1_TAG \<Rightarrow> bool" where
  "constructed tag \<equiv> tag AND CBS_ASN1_CONSTRUCTED \<noteq> 0"

abbreviation contents_of :: "asn1_element \<Rightarrow> CBS" where
  "contents_of e \<equiv> drop (elem_header_len e) (elem_out e)"

inductive ber_reads :: "bool \<Rightarrow> CBS \<Rightarrow> ber_value list \<Rightarrow> CBS \<Rightarrow> bool" where
  ber_end: "ber_reads False [] [] []"
| ber_eoc: "cbs_get_eoc inp = Some rest \<Longrightarrow> ber_reads True inp [] rest"
| ber_indefinite: "eoc \<longrightarrow> cbs_get_eoc inp = None \<Longrightarrow> CBS_get_any_ber_asn1_element inp = (Some e, inp1) \<Longrightarrow> elem_indefinite e \<Longrightarrow>
    ber_reads True inp1 vs inp2 \<Longrightarrow> ber_reads eoc inp2 ws rest \<Longrightarrow>
    ber_reads eoc inp (Ber_constructed (elem_tag e) vs # ws) rest"
| ber_definite: "eoc \<longrightarrow> cbs_get_eoc inp = None \<Longrightarrow> CBS_get_any_ber_asn1_element inp = (Some e, inp1) \<Longrightarrow> \<not> elem_indefinite e \<Longrightarrow>
    constructed (elem_tag e) \<Longrightarrow> ber_reads False (contents_of e) vs [] \<Longrightarrow> ber_reads eoc inp1 ws rest \<Longrightarrow>
    ber_reads eoc inp (Ber_constructed (elem_tag e) vs # ws) rest"
| ber_primitive: "eoc \<longrightarrow> cbs_get_eoc inp = None \<Longrightarrow> CBS_get_any_ber_asn1_element inp = (Some e, inp1) \<Longrightarrow> \<not> elem_indefinite e \<Longrightarrow>
    \<not> constructed (elem_tag e) \<Longrightarrow> ber_reads eoc inp1 ws rest \<Longrightarrow>
    ber_reads eoc inp (Ber_primitive (elem_tag e) (contents_of e) # ws) rest"

text \<open>A constructed string is the concatenation of its pieces; everything else keeps its structure.\<close>

fun string_contents :: "ber_value \<Rightarrow> bytes" where
  "string_contents (Ber_primitive tag contents) = contents"
| "string_contents (Ber_constructed tag vs) = concat (map string_contents vs)"

fun to_der :: "ber_value \<Rightarrow> der_value" where
  "to_der (Ber_primitive tag contents) = Primitive tag contents"
| "to_der (Ber_constructed tag vs) =
     (if is_string_type tag then Primitive (tag AND NOT CBS_ASN1_CONSTRUCTED) (concat (map string_contents vs))
      else Constructed tag (map to_der vs))"

definition converted :: "CBS_ASN1_TAG \<Rightarrow> ber_value list \<Rightarrow> bytes" where
  "converted string_tag vs =
     (if string_tag \<noteq> 0 then concat (map string_contents vs) else der_sequence (map to_der vs))"

lemma converted_Nil [simp]: "converted st [] = []"
  by (simp add: converted_def)

lemma converted_append: "converted st (vs @ ws) = converted st vs @ converted st ws"
  by (simp add: converted_def)

text \<open>
  The values the conversion accepts: at most 128 levels, pieces of a string with its tag, and contents whose length the
  builder can encode.
\<close>

definition child_string_tag :: "CBS_ASN1_TAG \<Rightarrow> CBS_ASN1_TAG \<Rightarrow> CBS_ASN1_TAG" where
  "child_string_tag st tag =
     (if st \<noteq> 0 then st else if constructed tag \<and> is_string_type tag then tag AND NOT CBS_ASN1_CONSTRUCTED else 0)"

fun convertible :: "CBS_ASN1_TAG \<Rightarrow> nat \<Rightarrow> ber_value \<Rightarrow> bool" where
  "convertible st depth (Ber_primitive tag contents) \<longleftrightarrow>
     (if st \<noteq> 0 then tag AND NOT CBS_ASN1_CONSTRUCTED = st else length contents < 2 ^ 32 - 1)"
| "convertible st depth (Ber_constructed tag vs) \<longleftrightarrow>
     depth < 128 \<and> list_all (convertible (child_string_tag st tag) (depth + 1)) vs
     \<and> (if st \<noteq> 0 then tag AND NOT CBS_ASN1_CONSTRUCTED = st else length (converted (child_string_tag st tag) vs) < 2 ^ 32 - 1)"

definition converts_to :: "CBS_ASN1_TAG \<Rightarrow> bool \<Rightarrow> nat \<Rightarrow> CBS \<Rightarrow> ber_value list \<Rightarrow> CBS \<Rightarrow> bool" where
  "converts_to st eoc depth inp vs rest \<longleftrightarrow>
     ber_reads eoc inp vs rest \<and> depth \<le> 128 \<and> list_all (convertible st depth) vs
     \<and> (st = 0 \<longrightarrow> list_all (der_ok (128 - depth)) (map to_der vs))"

lemma ber_element_facts:
  assumes "CBS_get_any_ber_asn1_element cbs = (Some e, rest)"
  shows "valid_tag (elem_tag e)" "length (contents_of e) < 2 ^ 32"
proof -
  obtain tag header len k ber indef where tag: "parse_asn1_tag cbs = (Some tag, header)"
      and l: "asn1_len_read True tag header = Some (len, k, ber, indef)"
      and out: "length (elem_out e) = length (der_tag tag) + k + len"
        "e = \<lparr> elem_out = elem_out e, elem_tag = tag, elem_header_len = length (der_tag tag) + k,
             elem_ber_found = ber, elem_indefinite = indef \<rparr>"
    using assms unfolding CBS_get_any_ber_asn1_element_def by (elim elementE)
  have e: "elem_tag e = tag" "elem_header_len e = length (der_tag tag) + k" by (subst out(2), simp)+
  show "valid_tag (elem_tag e)" using tag by (simp add: e parse_asn1_tag_iff)
  have "len < 2 ^ 32"
  proof -
    have "unat v < 2 ^ 32" if "cbs_get_u n h = (Some v, h')" "n \<le> 4" for n h v h'
      using that cbs_get_u_codec [of n h v h'] power_increasing [of n 4 "256 :: nat"] by simp
    moreover have "unat (b :: u8) < 2 ^ 32" for b using less_trans [OF unat_u8_less [of b], of "2 ^ 32"] by simp
    ultimately show ?thesis using l by (auto simp: asn1_len_read_def Let_def split: if_splits prod.splits option.splits)
  qed
  then show "length (contents_of e) < 2 ^ 32" using out(1) by (simp add: e)
qed

lemma string_tag: "constructed tag \<Longrightarrow> valid_tag tag \<Longrightarrow>
    valid_tag (tag AND NOT CBS_ASN1_CONSTRUCTED) \<and> \<not> constructed (tag AND NOT CBS_ASN1_CONSTRUCTED) \<and> tag AND NOT CBS_ASN1_CONSTRUCTED \<noteq> 0"
  unfolding valid_tag_def by (simp add: and.assoc)

definition out_tag_of :: "CBS_ASN1_TAG \<Rightarrow> CBS_ASN1_TAG" where
  "out_tag_of tag = (if constructed tag \<and> is_string_type tag then tag AND NOT CBS_ASN1_CONSTRUCTED else tag)"

definition piece :: "CBS_ASN1_TAG \<Rightarrow> CBS_ASN1_TAG \<Rightarrow> bytes \<Rightarrow> bytes" where
  "piece st tag data = (if st \<noteq> 0 then data else der_element (out_tag_of tag) data)"

lemma cbb_implements_True:
  assumes "cbb_implements env f F" "f cbb = (True, cbb')" "cbb_rep cbb t"
  obtains u where "F t = Some u" "cbb_rep cbb' u"
  using cbb_implementsD(2) [OF assms(1,3)] assms(2) by (auto simp: cbb_outcome_def)

lemma add_bytes_True:
  assumes "CBB_add_bytes env h data cbb = (True, cbb')" "cbb_rep cbb t" "length (snd t) = h" "length data < 2 ^ 64"
  shows "cbb_rep cbb' (tree_append data t)"
  using cbb_implements_True [OF cbb_implements_CBB_add_bytes [OF assms(4)] assms(1,2)] assms(3)
  by (auto simp: tree_add_def tree_flush_flushed)

text \<open>Where an element goes, and what closing it adds to the output.\<close>

lemma ber_out_contents_True:
  assumes "ber_out_contents env h st tag cbb = (Some (h', st'), cbb1)" "cbb_rep cbb t" "length (snd t) = h"
  obtains t1 where "cbb_rep cbb1 t1" "length (snd t1) = h'" "st \<noteq> 0 \<longrightarrow> tag AND NOT CBS_ASN1_CONSTRUCTED = st"
    "st' = child_string_tag st tag"
    "\<And>cbb2 cbb3 data. cbb_rep cbb2 (tree_append data t1) \<Longrightarrow> CBB_flush env h cbb2 = (True, cbb3) \<Longrightarrow>
       cbb_rep cbb3 (tree_append (piece st tag data) t) \<and> (st = 0 \<longrightarrow> length data < 2 ^ 32 - 1)"
proof (cases "st = 0")
  case False
  then have *: "cbb1 = cbb" "h' = h" "st' = st" using assms(1) by (auto simp: ber_out_contents_def split: if_splits)
  have "cbb_rep cbb3 (tree_append data t)" if "cbb_rep cbb2 (tree_append data t)" "CBB_flush env h cbb2 = (True, cbb3)" for cbb2 cbb3 data
    using cbb_implements_True [OF cbb_implements_CBB_flush that(2,1)] assms(3) by (auto simp: tree_flush_flushed)
  then show thesis using that [of t] * False assms by (simp add: piece_def child_string_tag_def ber_out_contents_def split: if_splits)
next
  case True
  then have *: "CBB_add_asn1 env h (out_tag_of tag) cbb = (True, cbb1)" "h' = h + 1"
      "st' = (if constructed tag \<and> is_string_type tag then tag AND NOT CBS_ASN1_CONSTRUCTED else 0)"
    using assms(1) by (auto simp: ber_out_contents_def out_tag_of_def Let_def split: if_splits prod.splits bool.splits)
  then obtain t1 where t1: "tree_add_asn1 h (out_tag_of tag) t = Some t1" "cbb_rep cbb1 t1"
    using cbb_implements_True [OF cbb_implements_CBB_add_asn1 *(1) assms(2)] by metis
  then have len: "length (snd t1) = h + 1" using tree_add_len [of h "der_tag (out_tag_of tag)" t] by (auto simp: tree_add_asn1_def tree_open_def)
  have "cbb_rep cbb3 (tree_append (piece st tag data) t) \<and> (st = 0 \<longrightarrow> length data < 2 ^ 32 - 1)"
    if data: "cbb_rep cbb2 (tree_append data t1)" "CBB_flush env h cbb2 = (True, cbb3)" for cbb2 cbb3 data
  proof -
    obtain w where w: "tree_flush h (tree_append data t1) = Some w" "cbb_rep cbb3 w"
      using cbb_implements_True [OF cbb_implements_CBB_flush data(2,1)] by metis
    have "tree_add (h + 1) data t1 = Some (tree_append data t1)" using len by (simp add: tree_add_def tree_flush_flushed)
    then have "tree_add_element h (out_tag_of tag) data t = Some w" using tree_element [of h "out_tag_of tag" t data] t1 w by simp
    then show ?thesis using w(2) True assms(3)
      by (auto simp: tree_add_element_def tree_add_def tree_flush_flushed piece_def split: if_splits)
  qed
  then show thesis using that [of t1] t1 len * True by (simp add: child_string_tag_def)
qed

lemma ber_reads_all: "ber_reads eoc inp vs rest \<Longrightarrow> \<not> eoc \<Longrightarrow> rest = []"
  by (induction rule: ber_reads.induct) auto

lemma converted_constructed:
  assumes "valid_tag tag" "constructed tag"
    and "st' = child_string_tag st tag"
    and "converts_to st' eoc' (depth + 1) contents vs r" "st = 0 \<longrightarrow> length (converted st' vs) < 2 ^ 32 - 1"
    and "st \<noteq> 0 \<longrightarrow> tag AND NOT CBS_ASN1_CONSTRUCTED = st"
  shows "piece st tag (converted st' vs) = converted st [Ber_constructed tag vs]"
    "(st = 0 \<longrightarrow> der_ok (128 - depth) (to_der (Ber_constructed tag vs))) \<and> convertible st depth (Ber_constructed tag vs)"
  using assms string_tag [OF assms(2,1)] by (auto simp: child_string_tag_def converted_def piece_def out_tag_of_def converts_to_def o_def list_all_iff)

lemma converted_primitive:
  assumes "valid_tag tag" "\<not> constructed tag" "length data < 2 ^ 32" "st = 0 \<longrightarrow> length data < 2 ^ 32 - 1"
    and "st \<noteq> 0 \<longrightarrow> tag AND NOT CBS_ASN1_CONSTRUCTED = st"
  shows "piece st tag data = converted st [Ber_primitive tag data]"
    "(st = 0 \<longrightarrow> der_ok k (to_der (Ber_primitive tag data))) \<and> convertible st d (Ber_primitive tag data)"
  using assms by (auto simp: converted_def piece_def out_tag_of_def)


text \<open>The conversion appends the encoding of the values it reads.\<close>

lemma cbs_convert_ber_step:
  assumes e: "CBS_get_any_ber_asn1_element inp = (Some e, inp1)" "eoc \<longrightarrow> cbs_get_eoc inp = None"
    and tail: "converts_to st eoc depth inp2 ws rest"
    and v: "(\<exists>st' vs. v = Ber_constructed (elem_tag e) vs \<and> constructed (elem_tag e)
          \<and> (if elem_indefinite e then converts_to st' True (depth + 1) inp1 vs inp2
             else converts_to st' False (depth + 1) (contents_of e) vs [] \<and> inp2 = inp1))
        \<or> v = Ber_primitive (elem_tag e) (contents_of e) \<and> \<not> constructed (elem_tag e) \<and> \<not> elem_indefinite e \<and> inp2 = inp1"
    and ok: "(st = 0 \<longrightarrow> der_ok (128 - depth) (to_der v)) \<and> convertible st depth v"
  shows "converts_to st eoc depth inp (v # ws) rest"
proof -
  have "ber_reads eoc inp (v # ws) rest"
    using v tail ber_indefinite [OF e(2,1)] ber_definite [OF e(2,1)] ber_primitive [OF e(2,1)]
    unfolding converts_to_def by (cases "elem_indefinite e") auto
  then show ?thesis using tail ok by (simp add: converts_to_def)
qed

lemma cbs_convert_ber_converts:
  "cbs_convert_ber fuel env h st eoc depth inp cbb = Some (True, rest, cbb') \<Longrightarrow> cbb_rep cbb t \<Longrightarrow> length (snd t) = h \<Longrightarrow>
    \<exists>vs. converts_to st eoc depth inp vs rest \<and> cbb_rep cbb' (tree_append (converted st vs) t)"
proof (induction fuel arbitrary: h st eoc depth inp cbb rest cbb' t)
  case (Suc fuel)
  note run = Suc.prems(1) [unfolded cbs_convert_ber.simps(2)]
  have depth: "depth \<le> 128" using run by (auto split: if_splits)
  consider "inp = []" "\<not> eoc" | rest' where "inp \<noteq> []" "eoc" "cbs_get_eoc inp = Some rest'" | "inp \<noteq> []" "eoc \<longrightarrow> cbs_get_eoc inp = None"
    using run by (cases "cbs_get_eoc inp") (auto split: if_splits)
  then show ?case
  proof cases
    case 1
    then show ?thesis using run Suc.prems(2) depth by (intro exI [of _ "[]"]) (auto simp: converts_to_def intro: ber_reads.intros)
  next
    case (2 rest')
    then show ?thesis using run Suc.prems(2) depth by (intro exI [of _ "[]"]) (auto simp: converts_to_def intro: ber_reads.intros)
  next
    case 3
    then have none: "(if eoc then cbs_get_eoc inp else None) = None" by simp
    obtain e inp1 where e: "CBS_get_any_ber_asn1_element inp = (Some e, inp1)"
      using run 3 none by (cases "CBS_get_any_ber_asn1_element inp"; cases "fst (CBS_get_any_ber_asn1_element inp)") (auto split: if_splits)
    obtain h' st' cbb1 where oc: "ber_out_contents env h st (elem_tag e) cbb = (Some (h', st'), cbb1)"
      using run 3 none e by (cases "ber_out_contents env h st (elem_tag e) cbb"; cases "fst (ber_out_contents env h st (elem_tag e) cbb)") (auto split: if_splits)
    note facts = ber_element_facts [OF e]
    obtain t1 where t1: "cbb_rep cbb1 t1" "length (snd t1) = h'" "st \<noteq> 0 \<longrightarrow> elem_tag e AND NOT CBS_ASN1_CONSTRUCTED = st"
      "st' = child_string_tag st (elem_tag e)"
      "\<And>cbb2 cbb3 data. cbb_rep cbb2 (tree_append data t1) \<Longrightarrow> CBB_flush env h cbb2 = (True, cbb3) \<Longrightarrow>
         cbb_rep cbb3 (tree_append (piece st (elem_tag e) data) t) \<and> (st = 0 \<longrightarrow> length data < 2 ^ 32 - 1)"
      by (rule ber_out_contents_True [OF oc Suc.prems(2,3)]) blast
    obtain v inp2 cbb2 cbb3 data where v: "cbb_rep cbb2 (tree_append data t1)" "CBB_flush env h cbb2 = (True, cbb3)"
        "cbs_convert_ber fuel env h st eoc depth inp2 cbb3 = Some (True, rest, cbb')"
        "piece st (elem_tag e) data = converted st [v]" "(st = 0 \<longrightarrow> der_ok (128 - depth) (to_der v)) \<and> convertible st depth v"
        "(\<exists>st' vs. v = Ber_constructed (elem_tag e) vs \<and> constructed (elem_tag e)
          \<and> (if elem_indefinite e then converts_to st' True (depth + 1) inp1 vs inp2
             else converts_to st' False (depth + 1) (contents_of e) vs [] \<and> inp2 = inp1))
        \<or> v = Ber_primitive (elem_tag e) (contents_of e) \<and> \<not> constructed (elem_tag e) \<and> \<not> elem_indefinite e \<and> inp2 = inp1"
    proof (cases "elem_indefinite e")
      case True
      obtain inp2 cbb2 where inner: "cbs_convert_ber fuel env h' st' True (depth + 1) inp1 cbb1 = Some (True, inp2, cbb2)"
        using run 3 none e oc True by (auto split: if_splits option.splits bool.splits)
      obtain cbb3 where flush: "CBB_flush env h cbb2 = (True, cbb3)"
        using run 3 none e oc True inner by (auto split: if_splits prod.splits bool.splits)
      have next_round: "cbs_convert_ber fuel env h st eoc depth inp2 cbb3 = Some (True, rest, cbb')"
        using run 3 none e oc True inner flush by (auto split: if_splits)
      obtain vs where vs: "converts_to st' True (depth + 1) inp1 vs inp2" "cbb_rep cbb2 (tree_append (converted st' vs) t1)"
        using Suc.IH [OF inner t1(1,2)] by blast
      have c: "constructed (elem_tag e)" using indefinite_element [OF e True] by simp
      note enc = converted_constructed [OF facts(1) c t1(4) vs(1) conjunct2 [OF t1(5) [OF vs(2) flush]] t1(3)]
      show thesis
        by (rule that [OF vs(2) flush next_round enc], rule disjI1, intro exI [of _ st'] exI [of _ vs]) (use True vs(1) c in simp)
    next
      case False
      obtain contents where contents: "CBS_skip (elem_header_len e) (elem_out e) = (Some (), contents)"
        using run 3 none e oc False by (cases "CBS_skip (elem_header_len e) (elem_out e)"; cases "fst (CBS_skip (elem_header_len e) (elem_out e))") (auto split: if_splits)
      have contents_of: "contents = contents_of e" using skip_contents [OF contents] .
      obtain cbb2 where inner: "(if constructed (elem_tag e)
          then map_option (\<lambda>(ok, _, cbb). (ok, cbb)) (cbs_convert_ber fuel env h' st' False (depth + 1) contents cbb1)
          else Some (CBB_add_bytes env h' contents cbb1)) = Some (True, cbb2)"  (is "?inner = _")
        using run 3 none e oc False contents by (cases ?inner) (auto split: if_splits bool.splits)
      obtain cbb3 where flush: "CBB_flush env h cbb2 = (True, cbb3)"
        using run 3 none e oc False contents inner by (auto split: if_splits prod.splits bool.splits)
      have next_round: "cbs_convert_ber fuel env h st eoc depth inp1 cbb3 = Some (True, rest, cbb')"
        using run 3 none e oc False contents inner flush by (auto split: if_splits)
      show thesis
      proof (cases "constructed (elem_tag e)")
        case c: True
        obtain r where r: "cbs_convert_ber fuel env h' st' False (depth + 1) contents cbb1 = Some (True, r, cbb2)"
          using inner c by auto
        obtain vs where vs: "converts_to st' False (depth + 1) contents vs r" "cbb_rep cbb2 (tree_append (converted st' vs) t1)"
          using Suc.IH [OF r t1(1,2)] by blast
        have "r = []" using vs(1) ber_reads_all by (auto simp: converts_to_def)
        then have vs': "converts_to st' False (depth + 1) (contents_of e) vs []" using vs(1) contents_of by simp
        note enc = converted_constructed [OF facts(1) c t1(4) vs(1) conjunct2 [OF t1(5) [OF vs(2) flush]] t1(3)]
        show thesis
          by (rule that [OF vs(2) flush next_round enc], rule disjI1, intro exI [of _ st'] exI [of _ vs]) (use False vs' c in simp)
      next
        case p: False
        then have "CBB_add_bytes env h' contents cbb1 = (True, cbb2)" using inner by simp
        then have rep: "cbb_rep cbb2 (tree_append (contents_of e) t1)" using add_bytes_True [OF _ t1(1,2)] facts(2) contents_of by simp
        note enc = converted_primitive [OF facts(1) p facts(2) conjunct2 [OF t1(5) [OF rep flush]] t1(3)]
        show thesis
          by (rule that [OF rep flush next_round enc], rule disjI2) (use False p in simp)
      qed
    qed
    have "length (snd t) = h" by (fact Suc.prems(3))
    then obtain ws where ws: "converts_to st eoc depth inp2 ws rest"
        "cbb_rep cbb' (tree_append (converted st ws) (tree_append (piece st (elem_tag e) data) t))"
      using Suc.IH [OF v(3)] t1(5) [OF v(1,2)] by fastforce
    have "converts_to st eoc depth inp (v # ws) rest" using cbs_convert_ber_step [OF e 3(2) ws(1) v(6,5)] .
    moreover have "converted st (v # ws) = piece st (elem_tag e) data @ converted st ws"
      using v(4) converted_append [of st "[v]" ws] by simp
    ultimately show ?thesis using ws(2) by (metis tree_append_append)
  qed
qed simp

subsection \<open>Nothing else fails\<close>

definition keeps_room :: "cbb_env \<Rightarrow> CBB \<Rightarrow> CBB \<Rightarrow> bool" where
  "keeps_room env cbb cbb' \<longleftrightarrow> (\<forall>n. cbb_room env (cbb_base cbb) n \<longrightarrow> cbb_room env (cbb_base cbb') n)"

lemma keeps_room_refl [simp]: "keeps_room env cbb cbb"
  by (simp add: keeps_room_def)

lemma keeps_room_trans [trans]: "keeps_room env a b \<Longrightarrow> keeps_room env b c \<Longrightarrow> keeps_room env a c"
  by (simp add: keeps_room_def)

lemma keeps_roomD: "keeps_room env cbb cbb' \<Longrightarrow> cbb_room env (cbb_base cbb) n \<Longrightarrow> m \<le> n \<Longrightarrow> cbb_room env (cbb_base cbb') m"
  unfolding keeps_room_def by (meson cbb_room_mono)

lemma cbb_implements_succeeds:
  assumes "cbb_implements env f F" "cbb_rep cbb t" "F t = Some u" "cbb_room env (cbb_base cbb) (tree_size u)"
  obtains cbb' where "f cbb = (True, cbb')" "cbb_rep cbb' u" "keeps_room env cbb cbb'"
  using cbb_implementsD(2) [OF assms(1,2)] assms(3,4)
  by (cases "f cbb") (auto simp: cbb_outcome_def keeps_room_def split: if_splits)

lemma ber_out_contents_succeeds:
  assumes "cbb_rep cbb t" "length (snd t) = h" "cbb_room env (cbb_base cbb) (tree_size t + length (piece st tag data))"
    and "if st \<noteq> 0 then tag AND NOT CBS_ASN1_CONSTRUCTED = st else length data < 2 ^ 32 - 1"
  obtains h' cbb1 t1 where "ber_out_contents env h st tag cbb = (Some (h', child_string_tag st tag), cbb1)"
    "cbb_rep cbb1 t1" "length (snd t1) = h'" "tree_size t1 + length data \<le> tree_size t + length (piece st tag data)" "keeps_room env cbb cbb1"
    "\<And>cbb2. cbb_rep cbb2 (tree_append data t1) \<Longrightarrow> cbb_room env (cbb_base cbb2) (tree_size t + length (piece st tag data)) \<Longrightarrow>
       \<exists>cbb3. CBB_flush env h cbb2 = (True, cbb3) \<and> cbb_rep cbb3 (tree_append (piece st tag data) t) \<and> keeps_room env cbb2 cbb3"
proof (cases "st = 0")
  case False
  have "\<exists>cbb3. CBB_flush env h cbb2 = (True, cbb3) \<and> cbb_rep cbb3 (tree_append data t) \<and> keeps_room env cbb2 cbb3"
    if "cbb_rep cbb2 (tree_append data t)" "cbb_room env (cbb_base cbb2) (tree_size t + length data)" for cbb2
    using cbb_implements_succeeds [OF cbb_implements_CBB_flush that(1), of h "tree_append data t"] that(2) assms(2)
    by (auto simp: tree_flush_flushed)
  then show thesis
    using that [of h cbb t] False assms by (simp add: ber_out_contents_def child_string_tag_def piece_def)
next
  case True
  let ?tag = "out_tag_of tag"
  define t1 where "t1 = tree_open Asn1_Length (tree_append (der_tag ?tag) t)"
  have open1: "tree_add_asn1 h ?tag t = Some t1"
    using assms(2) by (simp add: tree_add_asn1_def tree_add_def tree_flush_flushed t1_def)
  have size1: "tree_size t1 + length data \<le> tree_size t + length (piece st tag data)" "length (snd t1) = h + 1"
    using True assms(2) by (simp_all add: t1_def tree_open_def piece_def der_element_def der_length_def)
  have room1: "cbb_room env (cbb_base cbb) (tree_size t1)" by (rule cbb_room_mono [OF assms(3)]) (use size1(1) in simp)
  obtain cbb1 where cbb1: "CBB_add_asn1 env h ?tag cbb = (True, cbb1)" "cbb_rep cbb1 t1" "keeps_room env cbb cbb1"
    by (rule cbb_implements_succeeds [OF cbb_implements_CBB_add_asn1 assms(1) open1 room1])
  have "tree_add (h + 1) data t1 = Some (tree_append data t1)" using size1(2) by (simp add: tree_add_def tree_flush_flushed)
  then have "tree_flush h (tree_append data t1) = tree_add_element h ?tag data t" using tree_element [of h ?tag t data] open1 by simp
  then have "tree_flush h (tree_append data t1) = Some (tree_append (piece st tag data) t)"
    using True assms(2,4) by (simp add: tree_add_element_def tree_add_def tree_flush_flushed piece_def)
  then have "\<exists>cbb3. CBB_flush env h cbb2 = (True, cbb3) \<and> cbb_rep cbb3 (tree_append (piece st tag data) t) \<and> keeps_room env cbb2 cbb3"
    if "cbb_rep cbb2 (tree_append data t1)" "cbb_room env (cbb_base cbb2) (tree_size t + length (piece st tag data))" for cbb2
    using cbb_implements_succeeds [OF cbb_implements_CBB_flush that(1)] that(2) by (metis length_append tree_append_bytes(1))
  moreover have "ber_out_contents env h st tag cbb = (Some (h + 1, child_string_tag st tag), cbb1)"
    using True cbb1(1) by (auto simp: ber_out_contents_def child_string_tag_def out_tag_of_def Let_def)
  ultimately show thesis using that cbb1(2,3) size1 by metis
qed

text \<open>One round of the conversion, from what its inner part does.\<close>

lemma convert_indefinite:
  assumes "depth \<le> 128" "inp \<noteq> []" "eoc \<longrightarrow> cbs_get_eoc inp = None" "CBS_get_any_ber_asn1_element inp = (Some e, inp1)"
    and "ber_out_contents env h st (elem_tag e) cbb = (Some (h', st'), cbb1)" "elem_indefinite e"
    and "cbs_convert_ber fuel env h' st' True (depth + 1) inp1 cbb1 = Some (True, inp2, cbb2)" "CBB_flush env h cbb2 = (True, cbb3)"
  shows "cbs_convert_ber (Suc fuel) env h st eoc depth inp cbb = cbs_convert_ber fuel env h st eoc depth inp2 cbb3"
  using assms by (cases eoc) (simp_all add: cbs_convert_ber.simps(2))

lemma convert_definite:
  assumes "depth \<le> 128" "inp \<noteq> []" "eoc \<longrightarrow> cbs_get_eoc inp = None" "CBS_get_any_ber_asn1_element inp = (Some e, inp1)"
    and "ber_out_contents env h st (elem_tag e) cbb = (Some (h', st'), cbb1)" "\<not> elem_indefinite e"
    and "if constructed (elem_tag e) then cbs_convert_ber fuel env h' st' False (depth + 1) (contents_of e) cbb1 = Some (True, [], cbb2)
      else CBB_add_bytes env h' (contents_of e) cbb1 = (True, cbb2)" "CBB_flush env h cbb2 = (True, cbb3)"
  shows "cbs_convert_ber (Suc fuel) env h st eoc depth inp cbb = cbs_convert_ber fuel env h st eoc depth inp1 cbb3"
proof -
  have "CBS_skip (elem_header_len e) (elem_out e) = (Some (), contents_of e)"
    using ber_element_cases [OF assms(4)] by (simp add: CBS_skip_def cbs_get_def rd_bind_def rd_return_def)
  then show ?thesis using assms by (cases eoc) (simp_all add: cbs_convert_ber.simps(2) split: if_splits)
qed

lemma piece_constructed:
  "valid_tag tag \<Longrightarrow> constructed tag \<Longrightarrow> piece st tag (converted (child_string_tag st tag) vs) = converted st [Ber_constructed tag vs]"
  using string_tag [of tag] by (auto simp: child_string_tag_def converted_def piece_def out_tag_of_def o_def)

lemma piece_primitive: "\<not> constructed tag \<Longrightarrow> piece st tag data = converted st [Ber_primitive tag data]"
  by (auto simp: converted_def piece_def out_tag_of_def)

lemma converted_Cons: "converted st (v # vs) = converted st [v] @ converted st vs"
  using converted_append [of st "[v]" vs] by simp

lemma ber_reads_shorter: "ber_reads eoc inp vs rest \<Longrightarrow> length rest \<le> length inp"
proof (induction rule: ber_reads.induct)
  case (ber_eoc inp rest)
  then show ?case using suffix_length_le [OF cbs_get_eoc_suffix] by blast
qed (use ber_element_lengths(1) in fastforce)+

lemma add_bytes_succeeds:
  assumes "cbb_rep cbb t" "length (snd t) = h" "cbb_room env (cbb_base cbb) (tree_size t + length data)" "length data < 2 ^ 64"
  shows "\<exists>cbb'. CBB_add_bytes env h data cbb = (True, cbb') \<and> cbb_rep cbb' (tree_append data t) \<and> keeps_room env cbb cbb'"
  by (rule cbb_implements_succeeds [OF cbb_implements_CBB_add_bytes [OF assms(4)] assms(1), of h "tree_append data t"])
    (use assms(2,3) in \<open>auto simp: tree_add_def tree_flush_flushed\<close>)

lemma convert_round:
  assumes "cbb_rep cbb t" "length (snd t) = h" "cbb_room env (cbb_base cbb) (tree_size t + length (piece st tag data))"
    and "if st \<noteq> 0 then tag AND NOT CBS_ASN1_CONSTRUCTED = st else length data < 2 ^ 32 - 1"
    and inner: "\<And>h' cbb1 t1. cbb_rep cbb1 t1 \<Longrightarrow> length (snd t1) = h' \<Longrightarrow> cbb_room env (cbb_base cbb1) (tree_size t1 + length data) \<Longrightarrow>
      \<exists>cbb2. Inner h' cbb1 cbb2 \<and> cbb_rep cbb2 (tree_append data t1) \<and> keeps_room env cbb1 cbb2"
    and tail: "\<And>cbb3. cbb_rep cbb3 (tree_append (piece st tag data) t) \<Longrightarrow> keeps_room env cbb cbb3 \<Longrightarrow>
      \<exists>cbb4. Tail cbb3 cbb4 \<and> cbb_rep cbb4 u \<and> keeps_room env cbb3 cbb4"
  obtains h' cbb1 cbb2 cbb3 cbb4 where "ber_out_contents env h st tag cbb = (Some (h', child_string_tag st tag), cbb1)"
    "Inner h' cbb1 cbb2" "CBB_flush env h cbb2 = (True, cbb3)" "Tail cbb3 cbb4" "cbb_rep cbb4 u" "keeps_room env cbb cbb4"
proof -
  note room = assms(3)
  obtain h' cbb1 t1 where o: "ber_out_contents env h st tag cbb = (Some (h', child_string_tag st tag), cbb1)"
      "cbb_rep cbb1 t1" "length (snd t1) = h'" "tree_size t1 + length data \<le> tree_size t + length (piece st tag data)"
      "keeps_room env cbb cbb1"
    and flush: "\<And>cbb2. cbb_rep cbb2 (tree_append data t1) \<Longrightarrow> cbb_room env (cbb_base cbb2) (tree_size t + length (piece st tag data)) \<Longrightarrow>
       \<exists>cbb3. CBB_flush env h cbb2 = (True, cbb3) \<and> cbb_rep cbb3 (tree_append (piece st tag data) t) \<and> keeps_room env cbb2 cbb3"
    by (rule ber_out_contents_succeeds [OF assms(1-4)]) blast
  obtain cbb2 where r: "Inner h' cbb1 cbb2" "cbb_rep cbb2 (tree_append data t1)" "keeps_room env cbb1 cbb2"
    using inner [OF o(2,3) keeps_roomD [OF o(5) room o(4)]] by blast
  have keep2: "keeps_room env cbb cbb2" using o(5) r(3) by (rule keeps_room_trans)
  obtain cbb3 where f: "CBB_flush env h cbb2 = (True, cbb3)" "cbb_rep cbb3 (tree_append (piece st tag data) t)" "keeps_room env cbb2 cbb3"
    using flush [OF r(2) keeps_roomD [OF keep2 room order.refl]] by blast
  have keep3: "keeps_room env cbb cbb3" using keep2 f(3) by (rule keeps_room_trans)
  obtain cbb4 where "Tail cbb3 cbb4" "cbb_rep cbb4 u" "keeps_room env cbb3 cbb4"
    using tail [OF f(2) keep3] by blast
  then show thesis using that [OF o(1) r(1) f(1)] keep3 keeps_room_trans by blast
qed

lemma cbs_convert_ber_succeeds:
  "ber_reads eoc inp vs rest \<Longrightarrow> list_all (convertible st depth) vs \<Longrightarrow> depth \<le> 128 \<Longrightarrow> cbb_rep cbb t \<Longrightarrow> length (snd t) = h \<Longrightarrow>
    cbb_room env (cbb_base cbb) (tree_size t + length (converted st vs)) \<Longrightarrow> length inp < fuel \<Longrightarrow>
    \<exists>cbb'. cbs_convert_ber fuel env h st eoc depth inp cbb = Some (True, rest, cbb')
      \<and> cbb_rep cbb' (tree_append (converted st vs) t) \<and> keeps_room env cbb cbb'"
proof (induction arbitrary: st depth cbb t h fuel rule: ber_reads.induct)
  case ber_end
  then show ?case by (cases fuel) (auto simp: cbs_convert_ber.simps(2))
next
  case (ber_eoc inp rest)
  moreover have "inp \<noteq> []" using ber_eoc(1) by (auto simp: cbs_get_eoc_def split: if_splits)
  ultimately show ?case by (cases fuel) (auto simp: cbs_convert_ber.simps(2))
next
  case (ber_indefinite eoc inp e inp1 vs inp2 ws rest)
  let ?v = "Ber_constructed (elem_tag e) vs" and ?st = "child_string_tag st (elem_tag e)"
  note facts = ber_element_facts(1) [OF ber_indefinite(2)] ber_element_lengths(1) [OF ber_indefinite(2)]
  have c: "constructed (elem_tag e)" using indefinite_element [OF ber_indefinite(2,3)] by simp
  let ?piece = "piece st (elem_tag e) (converted ?st vs)"
  have conv: "converted st (?v # ws) = ?piece @ converted st ws"
    using converted_Cons [of st ?v ws] piece_constructed [OF facts(1) c, of st vs] by simp
  have room: "cbb_room env (cbb_base cbb) (tree_size t + length ?piece + length (converted st ws))"
    using ber_indefinite.prems(5) conv by (simp add: add.assoc)
  obtain n where n: "fuel = Suc n" "length inp1 < n" "length inp2 < n"
    using ber_indefinite.prems(6) facts(2) ber_reads_shorter [OF ber_indefinite(4)] by (cases fuel) auto
  note v = ber_indefinite.prems(1) [unfolded list.pred_inject(2) convertible.simps]
  obtain h' cbb1 cbb2 cbb3 cbb4 where r: "ber_out_contents env h st (elem_tag e) cbb = (Some (h', ?st), cbb1)"
    "cbs_convert_ber n env h' ?st True (depth + 1) inp1 cbb1 = Some (True, inp2, cbb2)" "CBB_flush env h cbb2 = (True, cbb3)"
    "cbs_convert_ber n env h st eoc depth inp2 cbb3 = Some (True, rest, cbb4)"
    "cbb_rep cbb4 (tree_append (converted st ws) (tree_append ?piece t))" "keeps_room env cbb cbb4"
  proof (rule convert_round [OF ber_indefinite.prems(3,4) cbb_room_mono [OF room]])
    show "if st \<noteq> 0 then elem_tag e AND NOT CBS_ASN1_CONSTRUCTED = st else length (converted ?st vs) < 2 ^ 32 - 1" using v by blast
    show "\<exists>cbb2. cbs_convert_ber n env h' ?st True (depth + 1) inp1 cbb1 = Some (True, inp2, cbb2) \<and>
        cbb_rep cbb2 (tree_append (converted ?st vs) t1) \<and> keeps_room env cbb1 cbb2"
      if "cbb_rep cbb1 t1" "length (snd t1) = h'" "cbb_room env (cbb_base cbb1) (tree_size t1 + length (converted ?st vs))" for h' cbb1 t1
      using ber_indefinite.IH(1) [OF _ _ that n(2)] v by simp
    show "\<exists>cbb4. cbs_convert_ber n env h st eoc depth inp2 cbb3 = Some (True, rest, cbb4) \<and>
        cbb_rep cbb4 (tree_append (converted st ws) (tree_append ?piece t)) \<and> keeps_room env cbb3 cbb4"
      if "cbb_rep cbb3 (tree_append ?piece t)" "keeps_room env cbb cbb3" for cbb3
      using ber_indefinite.IH(2) [OF _ ber_indefinite.prems(2) that(1) _ keeps_roomD [OF that(2) room] n(3)] v ber_indefinite.prems(4) by simp
  qed simp_all
  have "inp \<noteq> []" using facts(2) by auto
  then have "cbs_convert_ber fuel env h st eoc depth inp cbb = Some (True, rest, cbb4)"
    using convert_indefinite [OF ber_indefinite.prems(2) _ ber_indefinite(1,2) r(1) ber_indefinite(3) r(2,3)] r(4) n(1) by simp
  then show ?case using r(5,6) conv by simp
next
  case (ber_definite eoc inp e inp1 vs ws rest)
  let ?v = "Ber_constructed (elem_tag e) vs" and ?st = "child_string_tag st (elem_tag e)"
  let ?data = "converted ?st vs"
  let ?piece = "piece st (elem_tag e) ?data"
  note facts = ber_element_facts [OF ber_definite(2)] ber_element_lengths(1) [OF ber_definite(2)]
  have conv: "converted st (?v # ws) = ?piece @ converted st ws"
    using converted_Cons [of st ?v ws] piece_constructed [OF facts(1) ber_definite(4), of st vs] by simp
  have room: "cbb_room env (cbb_base cbb) (tree_size t + length ?piece + length (converted st ws))"
    using ber_definite.prems(5) conv by (simp add: add.assoc)
  obtain n where n: "fuel = Suc n" "length inp1 < n" "length (contents_of e) < n"
    using ber_definite.prems(6) facts(3) ber_element_cases [OF ber_definite(2)] by (cases fuel) auto
  note v = ber_definite.prems(1) [unfolded list.pred_inject(2) convertible.simps]
  obtain h' cbb1 cbb2 cbb3 cbb4 where r: "ber_out_contents env h st (elem_tag e) cbb = (Some (h', child_string_tag st (elem_tag e)), cbb1)"
    "cbs_convert_ber n env h' ?st False (depth + 1) (contents_of e) cbb1 = Some (True, [], cbb2)" "CBB_flush env h cbb2 = (True, cbb3)"
    "cbs_convert_ber n env h st eoc depth inp1 cbb3 = Some (True, rest, cbb4)"
    "cbb_rep cbb4 (tree_append (converted st ws) (tree_append ?piece t))" "keeps_room env cbb cbb4"
  proof (rule convert_round [OF ber_definite.prems(3,4) cbb_room_mono [OF room]])
    show "if st \<noteq> 0 then elem_tag e AND NOT CBS_ASN1_CONSTRUCTED = st else length ?data < 2 ^ 32 - 1" using v by (simp split: if_splits)
    show "\<exists>cbb2. cbs_convert_ber n env h' ?st False (depth + 1) (contents_of e) cbb1 = Some (True, [], cbb2) \<and>
        cbb_rep cbb2 (tree_append ?data t1) \<and> keeps_room env cbb1 cbb2"
      if "cbb_rep cbb1 t1" "length (snd t1) = h'" "cbb_room env (cbb_base cbb1) (tree_size t1 + length ?data)" for h' cbb1 t1
      using ber_definite.IH(1) [OF _ _ that n(3)] v by simp
    show "\<exists>cbb4. cbs_convert_ber n env h st eoc depth inp1 cbb3 = Some (True, rest, cbb4) \<and>
        cbb_rep cbb4 (tree_append (converted st ws) (tree_append ?piece t)) \<and> keeps_room env cbb3 cbb4"
      if "cbb_rep cbb3 (tree_append ?piece t)" "keeps_room env cbb cbb3" for cbb3
      using ber_definite.IH(2) [OF _ ber_definite.prems(2) that(1) _ keeps_roomD [OF that(2) room] n(2)] v ber_definite.prems(4) by simp
  qed simp_all
  have "inp \<noteq> []" using facts(3) by auto
  then have "cbs_convert_ber fuel env h st eoc depth inp cbb = Some (True, rest, cbb4)"
    using convert_definite [OF ber_definite.prems(2) _ ber_definite(1,2) r(1) ber_definite(3) _ r(3)] ber_definite(4) r(2,4) n(1) by simp
  then show ?case using r(5,6) conv by simp
next
  case (ber_primitive eoc inp e inp1 ws rest)
  let ?v = "Ber_primitive (elem_tag e) (contents_of e)"
  let ?data = "contents_of e"
  let ?piece = "piece st (elem_tag e) ?data"
  note facts = ber_element_facts [OF ber_primitive(2)] ber_element_lengths(1) [OF ber_primitive(2)]
  have conv: "converted st (?v # ws) = ?piece @ converted st ws"
    using converted_Cons [of st ?v ws] piece_primitive [OF ber_primitive(4), of st "contents_of e"] by simp
  have room: "cbb_room env (cbb_base cbb) (tree_size t + length ?piece + length (converted st ws))"
    using ber_primitive.prems(5) conv by (simp add: add.assoc)
  obtain n where n: "fuel = Suc n" "length inp1 < n" "length (contents_of e) < n"
    using ber_primitive.prems(6) facts(3) ber_element_cases [OF ber_primitive(2)] by (cases fuel) auto
  note v = ber_primitive.prems(1) [unfolded list.pred_inject(2) convertible.simps]
  obtain h' cbb1 cbb2 cbb3 cbb4 where r: "ber_out_contents env h st (elem_tag e) cbb = (Some (h', child_string_tag st (elem_tag e)), cbb1)"
    "CBB_add_bytes env h' (contents_of e) cbb1 = (True, cbb2)" "CBB_flush env h cbb2 = (True, cbb3)"
    "cbs_convert_ber n env h st eoc depth inp1 cbb3 = Some (True, rest, cbb4)"
    "cbb_rep cbb4 (tree_append (converted st ws) (tree_append ?piece t))" "keeps_room env cbb cbb4"
  proof (rule convert_round [OF ber_primitive.prems(3,4) cbb_room_mono [OF room]])
    show "if st \<noteq> 0 then elem_tag e AND NOT CBS_ASN1_CONSTRUCTED = st else length ?data < 2 ^ 32 - 1" using v by (simp split: if_splits)
    show "\<exists>cbb2. CBB_add_bytes env h' (contents_of e) cbb1 = (True, cbb2) \<and>
        cbb_rep cbb2 (tree_append ?data t1) \<and> keeps_room env cbb1 cbb2"
      if "cbb_rep cbb1 t1" "length (snd t1) = h'" "cbb_room env (cbb_base cbb1) (tree_size t1 + length ?data)" for h' cbb1 t1
      using add_bytes_succeeds [OF that] facts(2) by auto
    show "\<exists>cbb4. cbs_convert_ber n env h st eoc depth inp1 cbb3 = Some (True, rest, cbb4) \<and>
        cbb_rep cbb4 (tree_append (converted st ws) (tree_append ?piece t)) \<and> keeps_room env cbb3 cbb4"
      if "cbb_rep cbb3 (tree_append ?piece t)" "keeps_room env cbb cbb3" for cbb3
      using ber_primitive.IH [OF _ ber_primitive.prems(2) that(1) _ keeps_roomD [OF that(2) room] n(2)] v ber_primitive.prems(4) by simp
  qed simp_all
  have "inp \<noteq> []" using facts(3) by auto
  then have "cbs_convert_ber fuel env h st eoc depth inp cbb = Some (True, rest, cbb4)"
    using convert_definite [OF ber_primitive.prems(2) _ ber_primitive(1,2) r(1) ber_primitive(3) _ r(3)] ber_primitive(4) r(2,4) n(1) by simp
  then show ?case using r(5,6) conv by simp
qed

subsection \<open>The size of the output\<close>

lemma length_der_length_le: "n < 2 ^ 32 \<Longrightarrow> length (der_length n) \<le> 5"
  using octets_le_iff [of n 4] by (simp add: der_length_def)

lemma length_der_tag_pos: "1 \<le> length (der_tag tag)"
  by (simp add: der_tag_def Let_def)

lemma length_out_tag: "length (der_tag (out_tag_of tag)) = length (der_tag tag)"
proof -
  have "take_bit 29 (NOT 0x20000000 :: u32) = mask 29" by (simp add: mask_eq_exp_minus_1)
  then have "take_bit 29 (tag AND NOT CBS_ASN1_CONSTRUCTED) = take_bit 29 tag AND mask 29" by (simp only: take_bit_and)
  also have "\<dots> = take_bit 29 tag" by (simp only: take_bit_eq_mask and.assoc and.idem)
  finally have "take_bit 29 (tag AND NOT CBS_ASN1_CONSTRUCTED) = take_bit 29 tag" .
  then have "unat (tag AND NOT CBS_ASN1_CONSTRUCTED) mod 2 ^ 29 = unat tag mod 2 ^ 29"
    by (metis take_bit_eq_mod unsigned_take_bit_eq)
  then show ?thesis by (simp add: out_tag_of_def der_tag_def Let_def)
qed

lemma length_piece: "st = 0 \<longrightarrow> length data < 2 ^ 32 \<Longrightarrow> length (piece st tag data) \<le> length (der_tag tag) + 5 + length data"
  using length_der_length_le [of "length data"] by (auto simp: piece_def der_element_def length_out_tag)

lemma ber_element_size:
  assumes "CBS_get_any_ber_asn1_element inp = (Some e, inp1)"
  shows "length (der_tag (elem_tag e)) + 1 + length (contents_of e) + length inp1 \<le> length inp"
proof -
  obtain tag header len k ber indef where l: "asn1_len_read True tag header = Some (len, k, ber, indef)"
      and out: "inp = elem_out e @ inp1" "length (elem_out e) = length (der_tag tag) + k + len"
        "e = \<lparr> elem_out = elem_out e, elem_tag = tag, elem_header_len = length (der_tag tag) + k,
             elem_ber_found = ber, elem_indefinite = indef \<rparr>"
    using assms unfolding CBS_get_any_ber_asn1_element_def by (elim elementE)
  have e: "elem_tag e = tag" "elem_header_len e = length (der_tag tag) + k" by (subst out(3), simp)+
  have "1 \<le> k" using l by (auto simp: asn1_len_read_def Let_def split: if_splits prod.splits option.splits)
  moreover have "length inp = length (elem_out e) + length inp1" by (subst out(1)) simp
  ultimately show ?thesis using out(2) by (simp add: e)
qed

lemma converted_size:
  "ber_reads eoc inp vs rest \<Longrightarrow> list_all (convertible st depth) vs \<Longrightarrow> length (converted st vs) + 3 * length rest \<le> 3 * length inp"
proof (induction arbitrary: st depth rule: ber_reads.induct)
  case (ber_eoc inp rest)
  then show ?case using suffix_length_le [OF cbs_get_eoc_suffix] by simp
next
  case (ber_indefinite eoc inp e inp1 vs inp2 ws rest)
  let ?st = "child_string_tag st (elem_tag e)"
  have c: "constructed (elem_tag e)" using indefinite_element [OF ber_indefinite(2,3)] by simp
  note v = ber_indefinite.prems [unfolded list.pred_inject(2) convertible.simps]
  have "length (converted ?st vs) + 3 * length inp2 \<le> 3 * length inp1" "length (converted st ws) + 3 * length rest \<le> 3 * length inp2"
    using ber_indefinite.IH v by blast+
  moreover have "length (piece st (elem_tag e) (converted ?st vs)) \<le> length (der_tag (elem_tag e)) + 5 + length (converted ?st vs)"
    using v by (intro length_piece) (auto split: if_splits)
  ultimately show ?case
    using converted_Cons [of st "Ber_constructed (elem_tag e) vs" ws] piece_constructed [OF ber_element_facts(1) [OF ber_indefinite(2)] c, of st vs]
      ber_element_size [OF ber_indefinite(2)] length_der_tag_pos [of "elem_tag e"] by simp
next
  case (ber_definite eoc inp e inp1 vs ws rest)
  let ?st = "child_string_tag st (elem_tag e)"
  note v = ber_definite.prems [unfolded list.pred_inject(2) convertible.simps]
  have "length (converted ?st vs) + 3 * length ([] :: CBS) \<le> 3 * length (contents_of e)" "length (converted st ws) + 3 * length rest \<le> 3 * length inp1"
    using ber_definite.IH v by blast+
  moreover have "length (piece st (elem_tag e) (converted ?st vs)) \<le> length (der_tag (elem_tag e)) + 5 + length (converted ?st vs)"
    using v by (intro length_piece) (auto split: if_splits)
  ultimately show ?case
    using converted_Cons [of st "Ber_constructed (elem_tag e) vs" ws] piece_constructed [OF ber_element_facts(1) [OF ber_definite(2)] ber_definite(4), of st vs]
      ber_element_size [OF ber_definite(2)] length_der_tag_pos [of "elem_tag e"] by simp
next
  case (ber_primitive eoc inp e inp1 ws rest)
  note v = ber_primitive.prems [unfolded list.pred_inject(2) convertible.simps]
  have "length (converted st ws) + 3 * length rest \<le> 3 * length inp1" using ber_primitive.IH v by blast
  moreover have "length (piece st (elem_tag e) (contents_of e)) \<le> length (der_tag (elem_tag e)) + 5 + length (contents_of e)"
    using ber_element_facts(2) [OF ber_primitive(2)] by (intro length_piece) simp
  ultimately show ?case
    using converted_Cons [of st "Ber_primitive (elem_tag e) (contents_of e)" ws] piece_primitive [OF ber_primitive(4), of st "contents_of e"]
      ber_element_size [OF ber_primitive(2)] length_der_tag_pos [of "elem_tag e"] by simp
qed simp

section \<open>The whole conversion\<close>

lemma ber_to_der_converted:
  assumes "cbs_find_ber inp 0 = Some True"
  shows "CBS_asn1_ber_to_der env inp = (Some (out, owned), rest) \<Longrightarrow>
      owned \<and> rest = [] \<and> (\<exists>vs. converts_to 0 False 0 inp vs [] \<and> out = der_sequence (map to_der vs))"
    and "converts_to 0 False 0 inp vs [] \<Longrightarrow> \<forall>k. env_malloc env k \<Longrightarrow> length inp \<le> 2 ^ 59 \<Longrightarrow>
      CBS_asn1_ber_to_der env inp = (Some (der_sequence (map to_der vs), True), [])"
proof -
  assume run: "CBS_asn1_ber_to_der env inp = (Some (out, owned), rest)"
  then obtain cbb where cbb: "CBB_init env (length inp) = Some cbb"
    using assms by (auto simp: CBS_asn1_ber_to_der_def split: option.splits)
  obtain cbb' where conv: "cbs_convert_ber (length inp + 1) env 0 0 False 0 inp cbb = Some (True, rest, cbb')"
    and fin: "CBB_finish env 0 cbb' = Some out" "owned"
    using run assms cbb unfolding CBS_asn1_ber_to_der_def by (auto split: option.splits prod.splits bool.splits if_splits)
  obtain vs where vs: "converts_to 0 False 0 inp vs rest" "cbb_rep cbb' (tree_append (converted 0 vs) ([], []))"
    using cbs_convert_ber_converts [OF conv, of "([], [])"] CBB_init_rep [OF cbb] by auto
  have "tree_flush 0 (converted 0 vs, []) = Some (out, [])" using CBB_finish_rep(1) [OF vs(2) fin(1)] by simp
  then have "out = converted 0 vs" by (simp add: tree_flush_def)
  moreover have "rest = []" using vs(1) ber_reads_all by (auto simp: converts_to_def)
  ultimately show "owned \<and> rest = [] \<and> (\<exists>vs. converts_to 0 False 0 inp vs [] \<and> out = der_sequence (map to_der vs))"
    using vs(1) fin(2) by (auto simp: converted_def)
next
  assume vs: "converts_to 0 False 0 inp vs []" and mem: "\<forall>k. env_malloc env k" and len: "length inp \<le> 2 ^ 59"
  obtain cbb where cbb: "CBB_init env (length inp) = Some cbb"
    using mem len by (auto simp: CBB_init_def OPENSSL_malloc_def size_add_def)
  have room: "cbb_room env (cbb_base cbb) n" if "n \<le> 2 ^ 61" for n
    using CBB_init_room [OF cbb _ _ that] mem len by simp
  have size: "length (converted 0 vs) \<le> 2 ^ 61"
    using converted_size [of False inp vs "[]" 0 0] vs len by (simp add: converts_to_def)
  obtain cbb' where conv: "cbs_convert_ber (length inp + 1) env 0 0 False 0 inp cbb = Some (True, [], cbb')"
      "cbb_rep cbb' (converted 0 vs, [])" "keeps_room env cbb cbb'"
    using cbs_convert_ber_succeeds [of False inp vs "[]" 0 0 cbb "([], [])" 0 env "length inp + 1"] vs CBB_init_rep [OF cbb] room [OF size]
    by (auto simp: converts_to_def)
  have "CBB_finish env 0 cbb' = Some (converted 0 vs)"
    by (rule CBB_finish_rep(2) [OF conv(2)]) (use keeps_roomD [OF conv(3) room [OF size]] in \<open>simp_all add: tree_flush_def\<close>)
  then show "CBS_asn1_ber_to_der env inp = (Some (der_sequence (map to_der vs), True), [])"
    using assms cbb conv(1) by (simp add: CBS_asn1_ber_to_der_def converted_def)
qed

lemma ber_to_der_kept:
  assumes "cbs_find_ber inp 0 = Some False"
  shows "CBS_asn1_ber_to_der env inp = (Some (out, owned), rest) \<longleftrightarrow>
    \<not> owned \<and> inp = out @ rest \<and> (\<exists>tag contents. valid_tag tag \<and> length contents < 2 ^ 32 \<and> out = der_element tag contents)"
proof -
  have "CBS_asn1_ber_to_der env inp = (Some (out, owned), rest) \<longleftrightarrow>
      \<not> owned \<and> (\<exists>e. CBS_get_any_asn1_element inp = (Some e, rest) \<and> elem_out e = out)"
    using assms by (auto simp: CBS_asn1_ber_to_der_def split: prod.splits option.splits)
  also have "\<dots> \<longleftrightarrow> \<not> owned \<and> inp = out @ rest \<and> (\<exists>tag contents. valid_tag tag \<and> length contents < 2 ^ 32 \<and> out = der_element tag contents)"
    unfolding CBS_get_any_asn1_element_iff by (metis (no_types, lifting) elem_of_sels(2))
  finally show ?thesis .
qed

lemma converts_to_nested: "converts_to 0 False 0 inp vs [] \<Longrightarrow> der_nested 128 (der_sequence (map to_der vs))"
  unfolding converts_to_def der_nested_def by (auto intro!: exI [of _ "map to_der vs"])

text \<open>Well-formedness of the result follows from the readings.\<close>

lemma convertible_der_ok:
  "ber_reads eoc inp vs rest \<Longrightarrow> list_all (convertible 0 depth) vs \<Longrightarrow> list_all (der_ok (128 - depth)) (map to_der vs)"
proof (induction arbitrary: depth rule: ber_reads.induct)
  case (ber_indefinite eoc inp e inp1 vs inp2 ws rest)
  have c: "constructed (elem_tag e)" using indefinite_element [OF ber_indefinite(2,3)] by simp
  show ?case using ber_indefinite.IH [of "depth + 1"] ber_indefinite.IH(2) [of depth] ber_indefinite.prems c
      string_tag [OF c ber_element_facts(1) [OF ber_indefinite(2)]] ber_element_facts(1) [OF ber_indefinite(2)]
    by (auto simp: child_string_tag_def converted_def)
next
  case (ber_definite eoc inp e inp1 vs ws rest)
  show ?case using ber_definite.IH(1) [of "depth + 1"] ber_definite.IH(2) [of depth] ber_definite.prems ber_definite(4)
      string_tag [OF ber_definite(4) ber_element_facts(1) [OF ber_definite(2)]] ber_element_facts(1) [OF ber_definite(2)]
    by (auto simp: child_string_tag_def converted_def)
next
  case (ber_primitive eoc inp e inp1 ws rest)
  show ?case using ber_primitive.IH [of depth] ber_primitive.prems ber_primitive(4) ber_element_facts [OF ber_primitive(2)] by auto
qed simp_all

lemma converts_to_iff: "converts_to 0 False 0 inp vs [] \<longleftrightarrow> ber_reads False inp vs [] \<and> list_all (convertible 0 0) vs"
  using convertible_der_ok [of False inp vs "[]" 0] by (auto simp: converts_to_def)

text \<open>An OCTET STRING followed by a constructed one of indefinite length.\<close>

definition ber_sample :: CBS where
  "ber_sample = [4, 1, 1, 0x24, 0x80, 4, 1, 0x61, 0, 0]"

definition ber_sample_values :: "ber_value list" where
  "ber_sample_values = [Ber_primitive 4 [1], Ber_constructed 0x20000004 [Ber_primitive 4 [0x61]]]"

abbreviation (input) all_memory :: cbb_env where
  "all_memory \<equiv> \<lparr> env_malloc = (\<lambda>_. True), env_fill = 0 \<rparr>"

lemma tag_octets: "parse_asn1_tag (0x24 # cs) = (Some 0x20000004, cs)"
  by (simp add: parse_asn1_tag_iff valid_tag_def der_tag_def)

lemma ber_octet_string:
  "CBS_get_any_ber_asn1_element (4 # 1 # b # rest) = (Some (elem_of 4 [b]), rest)"
  using get_der_element [of 4 "[b]" rest] by (simp add: ber_found_iff valid_tag_def der_element_def der_tag_def der_length_def)

lemma ber_open_octets:
  "CBS_get_any_ber_asn1_element (0x24 # 0x80 # rest) = (Some \<lparr> elem_out = [0x24, 0x80], elem_tag = 0x20000004, elem_header_len = 2,
     elem_ber_found = True, elem_indefinite = True \<rparr>, rest)"
  unfolding CBS_get_any_ber_asn1_element_def element_unfold [OF tag_octets]
  by (simp add: asn1_len_read_def der_tag_def CBS_get_bytes_def cbs_get_def rd_bind_def rd_return_def)

lemma elem_of_octet [simp]: "drop (elem_header_len (elem_of 4 [b])) (der_element 4 [b]) = [b]" "\<not> elem_indefinite (elem_of 4 [b])" "\<not> elem_ber_found (elem_of 4 [b])"
  by (simp_all add: elem_of_def der_element_def der_tag_def der_length_def)

lemma ber_sample_found: "cbs_find_ber ber_sample 0 = Some True"
  using ber_octet_string [of 1 "[0x24, 0x80, 4, 1, 0x61, 0, 0]"] ber_open_octets [of "[4, 1, 0x61, 0, 0]"]
  by (simp add: ber_sample_def cbs_find_ber.simps)

lemma ber_sample_reads: "ber_reads False ber_sample ber_sample_values []" "list_all (convertible 0 0) ber_sample_values"
proof -
  have "ber_reads True [0, 0] [] []" by (rule ber_eoc) (simp add: cbs_get_eoc_def)
  from ber_primitive [OF _ ber_octet_string [of 97 "[0, 0]"] _ _ this] have "ber_reads True [4, 1, 0x61, 0, 0] [Ber_primitive 4 [0x61]] []"
    by (simp add: cbs_get_eoc_def)
  from ber_indefinite [OF _ ber_open_octets _ this ber_end]
  have "ber_reads False [0x24, 0x80, 4, 1, 0x61, 0, 0] [Ber_constructed 0x20000004 [Ber_primitive 4 [0x61]]] []" by simp
  from ber_primitive [OF _ ber_octet_string _ _ this] show "ber_reads False ber_sample ber_sample_values []"
    by (simp add: ber_sample_values_def ber_sample_def)
  show "list_all (convertible 0 0) ber_sample_values"
    by (simp add: ber_sample_values_def child_string_tag_def is_string_type_def converted_def)
qed

lemma ber_sample_der: "der_sequence (map to_der ber_sample_values) = [4, 1, 1, 4, 1, 0x61]"
  by (simp add: ber_sample_values_def is_string_type_def der_element_def der_tag_def der_length_def)

section \<open>Properties\<close>

text \<open>C23: The search for BER accepts an input, with \<open>*ber_found\<close> clear, if and only if it is a sequence of DER values nested
  at most 128 levels deep from the outermost call, none of them a constructed string.\<close>

theorem cbs_find_ber_exact:
  "cbs_find_ber inp depth = Some False \<longleftrightarrow>
     depth \<le> 128 \<and> (\<exists>vs. inp = der_sequence vs \<and> list_all (der_ok (128 - depth)) vs)"
  by (simp add: cbs_find_ber_iff der_nested_def)

text \<open>C24: The conversion returns. One unit of fuel more than the length of the input is enough for \<open>cbs_convert_ber\<close>, whose recursive
  calls consume the input through nested levels: it then has a result, more fuel does not change it, and what it leaves
  is a suffix of its input.\<close>

theorem cbs_convert_ber_terminates:
  "\<exists>ok in' cbb'. (\<forall>k. cbs_convert_ber (length inp + 1 + k) env h string_tag looking_for_eoc depth inp cbb = Some (ok, in', cbb'))
     \<and> (\<exists>consumed. inp = consumed @ in')"
  using cbs_convert_ber_returns [of inp "length inp + 1" env h string_tag looking_for_eoc depth cbb]
    cbs_convert_ber_enough_fuel [of inp _ env h string_tag looking_for_eoc depth cbb]
  by (auto simp: convert_returns_def suffix_def)

text \<open>C21: With an allocator that does not fail, \<open>CBS_asn1_ber_to_der\<close> succeeds in exactly two cases. Where all of the input
  is nested DER, the output is its first element, which is not copied. Where BER is found, all of the input must be BER values that
  can be converted, to its end, and the output is their DER encoding with every constructed string made primitive.\<close>

theorem CBS_asn1_ber_to_der_exact:
  assumes "\<forall>k. env_malloc env k" "length inp \<le> 2 ^ 59"
  shows "CBS_asn1_ber_to_der env inp = (Some (out, owned), rest) \<longleftrightarrow>
    (if owned then cbs_find_ber inp 0 = Some True \<and> rest = []
       \<and> (\<exists>vs. ber_reads False inp vs [] \<and> list_all (convertible 0 0) vs \<and> out = der_sequence (map to_der vs))
     else cbs_find_ber inp 0 = Some False \<and> inp = out @ rest
       \<and> (\<exists>tag contents. valid_tag tag \<and> length contents < 2 ^ 32 \<and> out = der_element tag contents))"
proof -
  consider "cbs_find_ber inp 0 = None" | "cbs_find_ber inp 0 = Some False" | "cbs_find_ber inp 0 = Some True"
    by (cases "cbs_find_ber inp 0") auto
  then show ?thesis
  proof cases
    case 1
    then show ?thesis by (simp add: CBS_asn1_ber_to_der_def)
  next
    case 2
    then show ?thesis using ber_to_der_kept [OF 2, of env out owned rest] by auto
  next
    case 3
    show ?thesis
      using ber_to_der_converted(1) [OF 3, of env out owned rest] ber_to_der_converted(2) [OF 3, of _ env] converts_to_iff [of inp] 3 assms
      by (cases owned; simp; blast)
  qed
qed

theorem CBS_asn1_ber_to_der_exact_witness:
  "(\<forall>k. env_malloc all_memory k) \<and> CBS_asn1_ber_to_der all_memory ber_sample = (Some ([4, 1, 1, 4, 1, 0x61], True), [])"
proof -
  have "length ber_sample \<le> 2 ^ 59" by (simp add: ber_sample_def)
  then show ?thesis
    using CBS_asn1_ber_to_der_exact [of all_memory ber_sample "[4, 1, 1, 4, 1, 0x61]" True "[]"] ber_sample_found ber_sample_reads
      ber_sample_der by auto
qed

text \<open>C22: What \<open>CBS_asn1_ber_to_der\<close> returns has no BER left in it, whatever memory there was: the search finds none in the output.
  An output in new memory stands for all of the input, one without for a prefix of it.\<close>

theorem CBS_asn1_ber_to_der_output:
  assumes "CBS_asn1_ber_to_der env inp = (Some (out, owned), rest)"
  shows "cbs_find_ber out 0 = Some False \<and> (if owned then rest = [] else inp = out @ rest)"
proof (cases "cbs_find_ber inp 0")
  case None
  then show ?thesis using assms by (simp add: CBS_asn1_ber_to_der_def)
next
  case (Some found)
  show ?thesis
  proof (cases found)
    case True
    then show ?thesis
      using ber_to_der_converted(1) [OF _ assms] Some converts_to_nested by (auto simp: cbs_find_ber_iff)
  next
    case False
    then have 0: "cbs_find_ber inp 0 = Some False" using Some by simp
    then obtain tag contents where c: "valid_tag tag" "length contents < 2 ^ 32" "out = der_element tag contents" "\<not> owned" "inp = out @ rest"
      using assms ber_to_der_kept [OF 0] by blast
    then show ?thesis
      using 0 find_ber_element [OF c(1,2), of 0 rest] find_ber_element [OF c(1,2), of 0 "[]"] by (simp add: cbs_find_ber.simps [of "[]"])
  qed
qed

theorem CBS_asn1_ber_to_der_output_witness:
  "CBS_asn1_ber_to_der all_memory ber_sample = (Some ([4, 1, 1, 4, 1, 0x61], True), [])
   \<and> cbs_find_ber [4, 1, 1, 4, 1, 0x61] 0 = Some False"
proof -
  have "length ber_sample \<le> 2 ^ 59" by (simp add: ber_sample_def)
  then have run: "CBS_asn1_ber_to_der all_memory ber_sample = (Some ([4, 1, 1, 4, 1, 0x61], True), [])"
    using ber_to_der_converted(2) [OF ber_sample_found, of ber_sample_values all_memory] ber_sample_reads ber_sample_der
    by (simp add: converts_to_iff)
  then show ?thesis using CBS_asn1_ber_to_der_output [OF run] by simp
qed

end
