(* ===== verification/OidText.thy ===== *)
theory OidText
  imports CbbState
begin

text \<open>
  \<open>CBS_asn1_oid_to_text\<close> of \<open>crypto/bytestring/cbs.c\<close>, which writes the dotted form of the contents octets of an
  object identifier through the builder of \<open>cbb.c\<close>. Shown below: with memory it returns a text for exactly the octets of
  object identifiers with components below \<open>2 ^ 64\<close>, the text is their dotted form, and \<open>CBB_add_asn1_oid_from_text\<close> is
  its inverse.
\<close>

section \<open>The code\<close>

text \<open>\<open>snprintf\<close> with \<open>PRIu64\<close> is the decimal numeral.\<close>

definition add_decimal :: "cbb_env \<Rightarrow> nat \<Rightarrow> u64 \<Rightarrow> cbb_op" where
  "add_decimal env h v = CBB_add_bytes env h (decimal (unat v))"

function oid_to_text_loop :: "cbb_env \<Rightarrow> CBS \<Rightarrow> cbb_op" where
  "oid_to_text_loop env copy cbb =
     (if length copy \<noteq> 0 then
        case parse_base128_integer copy of
          (None, _) \<Rightarrow> (False, cbb)
        | (Some v, copy) \<Rightarrow>
            (case CBB_add_u8 env 0 46 cbb of
               (False, cbb) \<Rightarrow> (False, cbb)
             | (True, cbb) \<Rightarrow>
                 case add_decimal env 0 v cbb of
                   (False, cbb) \<Rightarrow> (False, cbb)
                 | (True, cbb) \<Rightarrow> oid_to_text_loop env copy cbb)
      else (True, cbb))"
  by pat_completeness auto
termination
proof (relation "measure (\<lambda>(env, copy, cbb). length copy)", goal_cases)
  case (2 env copy cbb p rest v q cbb' r cbb'')
  then have "parse_base128_integer copy = (Some v, rest)" by simp
  then show ?case by (simp add: parse_base128_integer_iff base128_def)
qed simp

declare oid_to_text_loop.simps [simp del]

definition CBS_asn1_oid_to_text :: "cbb_env \<Rightarrow> CBS \<Rightarrow> bytes option" where
  "CBS_asn1_oid_to_text env cbs =
     (case CBB_init env 32 of None \<Rightarrow> None | Some cbb \<Rightarrow>
      case parse_base128_integer cbs of (None, _) \<Rightarrow> None | (Some v, copy) \<Rightarrow>
      case cbb_then
             (if v \<ge> 80 then cbb_then (CBB_add_bytes env 0 [50, 46]) (add_decimal env 0 (v - 80))
              else cbb_then (add_decimal env 0 (v div 40)) (cbb_then (CBB_add_u8 env 0 46) (add_decimal env 0 (v mod 40))))
             (cbb_then (oid_to_text_loop env copy) (CBB_add_u8 env 0 0)) cbb of
        (False, _) \<Rightarrow> None
      | (True, cbb) \<Rightarrow> CBB_finish env 0 cbb)"

section \<open>The text as dotted components\<close>

definition dot_decimals :: "nat list \<Rightarrow> bytes" where
  "dot_decimals ms = concat (map (\<lambda>m. 46 # decimal m) ms)"

lemma dot_decimals_simps [simp]: "dot_decimals [] = []" "dot_decimals (m # ms) = 46 # decimal m @ dot_decimals ms"
  by (simp_all add: dot_decimals_def)

lemma dotted_eq: "dotted (n # ms) = decimal n @ dot_decimals ms"
  by (induction ms arbitrary: n) simp_all

lemma length_decimal_le: "n < 1000 ^ k \<Longrightarrow> length (decimal n) \<le> max 1 (3 * k)"
proof (induction k arbitrary: n)
  case 0
  then show ?case by (subst decimal.simps) simp
next
  case (Suc k)
  have "n div 10 div 10 div 10 < 1000 ^ k" using Suc.prems by (simp add: div_mult2_eq [symmetric] less_mult_imp_div_less)
  then have "length (decimal (n div 10 div 10 div 10)) \<le> max 1 (3 * k)" by (rule Suc.IH)
  moreover have "length (decimal n) \<le> length (decimal (n div 10 div 10 div 10)) + 3" if "1000 \<le> n"
    using that by (subst decimal.simps, subst decimal.simps, subst decimal.simps) (simp add: div_mult2_eq [symmetric])
  moreover have "length (decimal n) \<le> 3" if "n < 1000"
    using that by (subst decimal.simps, subst decimal.simps, subst decimal.simps) simp
  moreover have "k \<noteq> 0" if "1000 \<le> n" using that Suc.prems by (cases k) auto
  ultimately show ?case by (cases "n < 1000") auto
qed

lemma length_decimal_u64: "n < 2 ^ 64 \<Longrightarrow> length (decimal n) < 2 ^ 64"
  using length_decimal_le [of n 7] by simp

lemma base128_bound: "n < 128 ^ length (base128 n)"
proof (induction n rule: less_induct)
  case (less n)
  show ?case
  proof (cases "n < 128")
    case True
    then show ?thesis by (simp add: base128_def)
  next
    case False
    then have "base128_high (n div 128) = base128_high (n div 128 div 128) @ [of_nat (128 + n div 128 mod 128)]"
      by (subst base128_high.simps) simp
    then have l: "length (base128 n) = Suc (length (base128 (n div 128)))" by (simp add: base128_def)
    have "n div 128 < 128 ^ length (base128 (n div 128))" using False by (intro less) simp
    then show ?thesis unfolding l power_Suc by linarith
  qed
qed

lemma length_decimal_base128: "length (decimal n) \<le> 3 * length (base128 n)"
proof -
  have "n < 1000 ^ length (base128 n)"
    using base128_bound [of n] power_mono [of "128 :: nat" 1000 "length (base128 n)"] by linarith
  then have "length (decimal n) \<le> max 1 (3 * length (base128 n))" by (rule length_decimal_le)
  moreover have "1 \<le> length (base128 n)" by (simp add: base128_def)
  ultimately show ?thesis by linarith
qed

lemma length_dot_decimals: "length (dot_decimals ms) \<le> 4 * length (concat (map base128 ms))"
proof (induction ms)
  case (Cons m ms)
  moreover have "1 \<le> length (base128 m)" by (simp add: base128_def)
  ultimately show ?case using length_decimal_base128 [of m] by simp
qed simp

section \<open>The text is written through the builder\<close>

lemma cbb_implements_add_decimal: "cbb_implements env (add_decimal env h v) (tree_add h (decimal (unat v)))"
proof -
  have "unat v < 2 ^ 64" using unsigned_less [of v, where ?'a = nat] by simp
  then show ?thesis unfolding add_decimal_def by (intro cbb_implements_CBB_add_bytes length_decimal_u64)
qed

lemma oid_to_text_step:
  assumes "m < 2 ^ 64"
  shows "oid_to_text_loop env (base128 m @ copy) =
    cbb_then (cbb_then (CBB_add_u8 env 0 46) (add_decimal env 0 (of_nat m))) (oid_to_text_loop env copy)"
proof
  fix cbb
  have "parse_base128_integer (base128 m @ copy) = (Some (of_nat m), copy)"
    using assms by (simp add: parse_base128_integer_iff unat_of_nat_u64)
  moreover have "base128 m \<noteq> []" by (simp add: base128_def)
  ultimately show "oid_to_text_loop env (base128 m @ copy) cbb =
      cbb_then (cbb_then (CBB_add_u8 env 0 46) (add_decimal env 0 (of_nat m))) (oid_to_text_loop env copy) cbb"
    by (simp add: oid_to_text_loop.simps [of env "base128 m @ copy"] cbb_then_def split: prod.split bool.split)
qed

lemma oid_to_text_loop_outcome:
  assumes "u64_components ms" "cbb_rep cbb t" "length (snd t) = 0"
  shows "cbb_outcome env cbb (Some (tree_append (dot_decimals ms) t)) (oid_to_text_loop env (concat (map base128 ms)) cbb)"
  using assms
proof (induction ms arbitrary: cbb t)
  case Nil
  then show ?case by (simp add: oid_to_text_loop.simps cbb_outcome_def)
next
  case (Cons m ms)
  let ?f = "cbb_then (CBB_add_u8 env 0 46) (add_decimal env 0 (of_nat m))"
  define G where "G v = (if length (snd v) = 0 then Some (tree_append (dot_decimals ms) v) else None)" for v :: cbb_tree
  have m: "m < 2 ^ 64" "unat (of_nat m :: u64) = m" using Cons.prems(1) by (simp_all add: unat_of_nat_u64)
  have "cbb_outcome env cbb (Option.bind (Some (tree_append (46 # decimal m) t)) G)
      (cbb_then ?f (oid_to_text_loop env (concat (map base128 ms))) cbb)"
  proof (rule cbb_outcome_then)
    have "cbb_implements env ?f (tree_add 0 ([46] @ decimal m))"
      using cbb_implements_seq [OF cbb_implements_CBB_add_u8 cbb_implements_add_decimal [of env 0 "of_nat m"]] m(2) by simp
    from cbb_implementsD(2) [OF this Cons.prems(2)] show "cbb_outcome env cbb (Some (tree_append (46 # decimal m) t)) (?f cbb)"
      using Cons.prems(3) by (simp add: tree_add_def tree_flush_flushed)
    show "tree_size v \<le> tree_size v'" if "G v = Some v'" for v v' using that by (auto simp: G_def split: if_splits)
    fix v assume v: "Some (tree_append (46 # decimal m) t) = Some v" "cbb_rep (snd (?f cbb)) v"
    then have "length (snd v) = 0" using Cons.prems(3) tree_append_bytes(3) [of "46 # decimal m" t] by simp
    then show "cbb_outcome env (snd (?f cbb)) (G v) (oid_to_text_loop env (concat (map base128 ms)) (snd (?f cbb)))"
      using Cons.IH [of "snd (?f cbb)" v] Cons.prems(1) v(2) by (simp add: G_def)
  qed
  then show ?case using Cons.prems(3) oid_to_text_step [OF m(1), of env "concat (map base128 ms)"] by (simp add: G_def)
qed

lemma oid_to_text_loop_bad: "fst (oid_to_text_loop env copy cbb) \<Longrightarrow> \<exists>ms. u64_components ms \<and> copy = concat (map base128 ms)"
proof (induction "length copy" arbitrary: copy cbb rule: less_induct)
  case less
  show ?case
  proof (cases "copy = []")
    case True
    then show ?thesis by (intro exI [of _ "[]"]) simp
  next
    case False
    obtain r rest where p: "parse_base128_integer copy = (r, rest)" by fastforce
    obtain v where r: "r = Some v" using less.prems False p by (cases r) (auto simp: oid_to_text_loop.simps [of env copy])
    have copy: "copy = base128 (unat v) @ rest" using p r by (simp add: parse_base128_integer_iff)
    have v: "unat v < 2 ^ 64" using unsigned_less [of v, where ?'a = nat] by simp
    have "fst (oid_to_text_loop env rest (snd (cbb_then (CBB_add_u8 env 0 46) (add_decimal env 0 (of_nat (unat v))) cbb)))"
      using cbb_then_TrueD less.prems unfolding copy oid_to_text_step [OF v] by blast
    moreover have "length rest < length copy" unfolding copy by (simp add: base128_def)
    ultimately obtain ms where "u64_components ms" "rest = concat (map base128 ms)" using less.hyps by blast
    then show ?thesis using v copy by (intro exI [of _ "unat v # ms"]) simp
  qed
qed

text \<open>The first subidentifier holds two components.\<close>

definition first_components :: "nat \<Rightarrow> nat list" where
  "first_components v = (if v \<ge> 80 then [2, v - 80] else [v div 40, v mod 40])"

lemma valid_oid_first:
  "valid_oid ns \<and> oid_octets ns = cbs \<longleftrightarrow>
     (\<exists>v ms. v < 2 ^ 64 \<and> u64_components ms \<and> ns = first_components v @ ms \<and> cbs = concat (map base128 (v # ms)))" (is "?L \<longleftrightarrow> ?R")
proof
  assume L: ?L
  then obtain a b ms where ns: "ns = a # b # ms" "valid_oid [a, b]" "u64_components ms" using valid_oid_cases by metis
  then have "a = 0 \<or> a = 1 \<or> a = 2" by auto
  then have "first_components (40 * a + b) = [a, b]" "40 * a + b < 2 ^ 64"
    using ns by (auto simp: first_components_def)
  then show ?R using L ns by (intro exI [of _ "40 * a + b"] exI [of _ ms]) simp
next
  assume ?R
  then obtain v ms where v: "v < 2 ^ 64" "u64_components ms" "ns = first_components v @ ms" "cbs = concat (map base128 (v # ms))" by blast
  have "40 * (v div 40) + v mod 40 = v" by simp
  then show ?L using v by (auto simp: first_components_def)
qed

lemma oid_to_text_first:
  "cbb_implements env
     (if v \<ge> 80 then cbb_then (CBB_add_bytes env 0 [50, 46]) (add_decimal env 0 (v - 80))
      else cbb_then (add_decimal env 0 (v div 40)) (cbb_then (CBB_add_u8 env 0 46) (add_decimal env 0 (v mod 40))))
     (tree_add 0 (dotted (first_components (unat v))))"
proof (cases "v \<ge> 80")
  case True
  then have u: "unat v \<ge> 80" "unat (v - 80) = unat v - 80" by (simp_all add: word_le_nat_alt unat_sub)
  have "dotted (first_components (unat v)) = [50, 46] @ decimal (unat v - 80)"
    using u(1) by (simp add: first_components_def decimal.simps [of 2])
  then show ?thesis
    using cbb_implements_seq [OF cbb_implements_CBB_add_bytes [of "[50, 46]"] cbb_implements_add_decimal [of env 0 "v - 80"]] u True by simp
next
  case False
  then have "\<not> unat v \<ge> 80" by (simp add: word_le_nat_alt)
  then have "dotted (first_components (unat v)) = decimal (unat (v div 40)) @ [46] @ decimal (unat (v mod 40))"
    by (simp add: first_components_def unat_div unat_mod)
  then show ?thesis
    using False cbb_implements_seq [OF cbb_implements_add_decimal cbb_implements_seq [OF cbb_implements_CBB_add_u8 cbb_implements_add_decimal]]
    by simp
qed

lemma dotted_first: "dotted (first_components v @ ms) = dotted (first_components v) @ dot_decimals ms"
  by (simp add: first_components_def dotted_eq)

lemma tree_flush_root: "tree_flush 0 (xs, []) = Some (xs, [])"
  by (simp add: tree_flush_def)

lemma oid_to_text_outcome:
  assumes "u64_components ms" "cbb_rep cbb ([], [])" "cbb_implements env f (tree_add 0 d)"
  shows "cbb_outcome env cbb (Some (d @ dot_decimals ms @ [0], []))
    (cbb_then f (cbb_then (oid_to_text_loop env (concat (map base128 ms))) (CBB_add_u8 env 0 0)) cbb)"
proof -
  define G where "G v = (if length (snd v) = 0 then Some (tree_append (dot_decimals ms) v) else None)" for v :: cbb_tree
  let ?loop = "oid_to_text_loop env (concat (map base128 ms))"
  have size: "tree_size v \<le> tree_size v'" if "G v = Some v'" for v v' using that by (auto simp: G_def split: if_splits)
  have size0: "tree_size v \<le> tree_size v'" if "tree_add 0 b v = Some v'" for b v v'
    using that by (auto simp: tree_add_def dest!: tree_flush_size)
  have "cbb_outcome env cbb (Option.bind (tree_add 0 d ([], [])) (\<lambda>v. Option.bind (G v) (tree_add 0 [0]))) (cbb_then f (cbb_then ?loop (CBB_add_u8 env 0 0)) cbb)"
  proof (rule cbb_outcome_then)
    show "cbb_outcome env cbb (tree_add 0 d ([], [])) (f cbb)" by (rule cbb_implementsD(2) [OF assms(3,2)])
    show "tree_size v \<le> tree_size v'" if v: "Option.bind (G v) (tree_add 0 [0]) = Some v'" for v v'
    proof -
      obtain w where w: "G v = Some w" "tree_add 0 [0] w = Some v'" using v by (auto simp: bind_eq_Some_conv)
      from size [OF w(1)] size0 [OF w(2)] show ?thesis by (rule order.trans)
    qed
    fix v assume v: "tree_add 0 d ([], []) = Some v" "cbb_rep (snd (f cbb)) v"
    show "cbb_outcome env (snd (f cbb)) (Option.bind (G v) (tree_add 0 [0])) (cbb_then ?loop (CBB_add_u8 env 0 0) (snd (f cbb)))"
    proof (rule cbb_outcome_then)
      show "cbb_outcome env (snd (f cbb)) (G v) (?loop (snd (f cbb)))"
        using oid_to_text_loop_outcome [OF assms(1) v(2)] tree_add_len [OF v(1)] by (simp add: G_def)
      show "cbb_outcome env (snd (?loop (snd (f cbb)))) (tree_add 0 [0] w) (CBB_add_u8 env 0 0 (snd (?loop (snd (f cbb)))))"
        if "cbb_rep (snd (?loop (snd (f cbb)))) w" for w
        using cbb_implementsD(2) [OF cbb_implements_CBB_add_u8 that] .
      show "tree_size w \<le> tree_size w'" if "tree_add 0 [0] w = Some w'" for w w' using that by (rule size0)
    qed
  qed
  then show ?thesis by (simp add: tree_add_def tree_flush_def G_def)
qed

lemma CBS_asn1_oid_to_text_Some:
  assumes "CBS_asn1_oid_to_text env cbs = Some str"
  shows "\<exists>ns. valid_oid ns \<and> cbs = oid_octets ns \<and> str = dotted ns @ [0]"
proof -
  obtain cbb where cbb: "CBB_init env 32 = Some cbb" using assms by (auto simp: CBS_asn1_oid_to_text_def split: option.splits)
  obtain v copy where v: "parse_base128_integer cbs = (Some v, copy)"
    using assms cbb by (cases "parse_base128_integer cbs"; cases "fst (parse_base128_integer cbs)") (auto simp: CBS_asn1_oid_to_text_def)
  let ?f = "if v \<ge> 80 then cbb_then (CBB_add_bytes env 0 [50, 46]) (add_decimal env 0 (v - 80))
      else cbb_then (add_decimal env 0 (v div 40)) (cbb_then (CBB_add_u8 env 0 46) (add_decimal env 0 (v mod 40)))"
  obtain cbb' where run: "cbb_then ?f (cbb_then (oid_to_text_loop env copy) (CBB_add_u8 env 0 0)) cbb = (True, cbb')"
    and fin: "CBB_finish env 0 cbb' = Some str"
    using assms cbb v by (auto simp: CBS_asn1_oid_to_text_def simp del: if_split split: prod.splits bool.splits)
  have "fst (oid_to_text_loop env copy (snd (?f cbb)))"
    using cbb_then_TrueD [of ?f _ cbb] cbb_then_TrueD [of "oid_to_text_loop env copy" "CBB_add_u8 env 0 0" "snd (?f cbb)"] run by simp
  then obtain ms where ms: "u64_components ms" "copy = concat (map base128 ms)" using oid_to_text_loop_bad by blast
  have "cbb_outcome env cbb (Some (dotted (first_components (unat v)) @ dot_decimals ms @ [0], [])) (True, cbb')"
    using oid_to_text_outcome [OF ms(1) conjunct1 [OF CBB_init_rep [OF cbb]] oid_to_text_first [of env v]] unfolding ms(2) [symmetric] run .
  then have str: "str = dotted (first_components (unat v) @ ms) @ [0]"
    using CBB_finish_rep(1) [OF _ fin, of "(dotted (first_components (unat v)) @ dot_decimals ms @ [0], [])"]
    by (simp add: cbb_outcome_def tree_flush_root dotted_first)
  have "unat v < 2 ^ 64" using unsigned_less [of v, where ?'a = nat] by simp
  moreover have "cbs = concat (map base128 (unat v # ms))" using v ms(2) by (simp add: parse_base128_integer_iff)
  ultimately have "valid_oid (first_components (unat v) @ ms) \<and> oid_octets (first_components (unat v) @ ms) = cbs"
    unfolding valid_oid_first using ms(1) by metis
  then show ?thesis using str by metis
qed

lemma length_first_components: "length (dotted (first_components v)) \<le> 3 * length (base128 v) + 4"
proof -
  have bound: "length (decimal k) \<le> 2" if "k < 100" for k using that less_mult_imp_div_less [of k 10 10] by (subst decimal.simps, subst decimal.simps) simp
  have "length (decimal (v - 80)) \<le> 3 * length (base128 v)"
  proof -
    have "v - 80 < 128 ^ length (base128 v)" using base128_bound [of v] by linarith
    then have "v - 80 < 1000 ^ length (base128 v)" using power_mono [of "128 :: nat" 1000 "length (base128 v)"] by linarith
    then have "length (decimal (v - 80)) \<le> max 1 (3 * length (base128 v))" by (rule length_decimal_le)
    moreover have "1 \<le> length (base128 v)" by (simp add: base128_def)
    ultimately show ?thesis by linarith
  qed
  moreover have "length (decimal (v div 40)) \<le> 2 \<and> length (decimal (v mod 40)) \<le> 2" if "v < 80"
    using that by (intro conjI bound) auto
  moreover have "length (decimal 2) = 1" by (simp add: decimal.simps)
  moreover have "1 \<le> length (base128 v)" by (simp add: base128_def)
  ultimately show ?thesis by (cases "v < 80") (auto simp: first_components_def)
qed

lemma CBS_asn1_oid_to_text_succeeds:
  assumes "valid_oid ns" "\<And>k. env_malloc env k" "length (oid_octets ns) \<le> 2 ^ 57"
  shows "CBS_asn1_oid_to_text env (oid_octets ns) = Some (dotted ns @ [0])"
proof -
  obtain v ms where v: "v < 2 ^ 64" "u64_components ms" "ns = first_components v @ ms" "oid_octets ns = concat (map base128 (v # ms))"
    using valid_oid_first [of ns "oid_octets ns"] assms(1) by blast
  have parse: "parse_base128_integer (oid_octets ns) = (Some (of_nat v), concat (map base128 ms))"
    using v(1,4) by (simp add: parse_base128_integer_iff unat_of_nat_u64)
  obtain cbb where cbb: "CBB_init env 32 = Some cbb" using assms(2) by (auto simp: CBB_init_def OPENSSL_malloc_def size_add_def)
  let ?v = "of_nat v :: u64"
  have u: "unat ?v = v" using v(1) by (simp add: unat_of_nat_u64)
  let ?f = "if ?v \<ge> 80 then cbb_then (CBB_add_bytes env 0 [50, 46]) (add_decimal env 0 (?v - 80))
      else cbb_then (add_decimal env 0 (?v div 40)) (cbb_then (CBB_add_u8 env 0 46) (add_decimal env 0 (?v mod 40)))"
  obtain ok cbb' where run: "cbb_then ?f (cbb_then (oid_to_text_loop env (concat (map base128 ms))) (CBB_add_u8 env 0 0)) cbb = (ok, cbb')" by fastforce
  have parts: "dotted (first_components v) @ dot_decimals ms @ [0] = dotted ns @ [0]" using v(3) dotted_first by simp
  have o: "cbb_outcome env cbb (Some (dotted ns @ [0], [])) (ok, cbb')"
    using oid_to_text_outcome [OF v(2) conjunct1 [OF CBB_init_rep [OF cbb]] oid_to_text_first [of env ?v]] unfolding run parts u .
  have "length (dotted ns @ [0]) \<le> 4 * length (oid_octets ns) + 5"
    using length_first_components [of v] length_dot_decimals [of ms] unfolding v(4) parts [symmetric] by simp
  then have room: "cbb_room env (cbb_base cbb) (length (dotted ns @ [0]))"
    using CBB_init_room [OF cbb _ assms(2)] assms(3) by simp
  then have ok and "cbb_rep cbb' (dotted ns @ [0], [])" "cbb_room env (cbb_base cbb') (length (dotted ns @ [0]))"
    using o by (auto simp: cbb_outcome_def split: if_splits)
  then have "CBB_finish env 0 cbb' = Some (dotted ns @ [0])" using CBB_finish_rep(2) [of cbb' "(dotted ns @ [0], [])"] by (simp add: tree_flush_root)
  then show ?thesis using cbb parse run \<open>ok\<close> by (simp add: CBS_asn1_oid_to_text_def)
qed

section \<open>Properties\<close>

text \<open>C25: With an allocator that does not fail, \<open>CBS_asn1_oid_to_text\<close> returns a text for exactly the contents octets of object
  identifiers whose components are below \<open>2 ^ 64\<close> (and the first two joined as X.690 joins them): the dotted decimal form with its
  terminator. That form read back by \<open>CBB_add_asn1_oid_from_text\<close> gives the octets again.\<close>
theorem CBS_asn1_oid_to_text_exact:
  assumes "\<forall>k. env_malloc env k" "length cbs \<le> 2 ^ 57" "CBB_init env n = Some cbb" "n \<le> 2 ^ 62"
  shows "(CBS_asn1_oid_to_text env cbs = Some str \<longleftrightarrow> (\<exists>ns. valid_oid ns \<and> cbs = oid_octets ns \<and> str = dotted ns @ [0]))
    \<and> (CBS_asn1_oid_to_text env cbs = Some str \<longrightarrow>
        (\<exists>cbb'. CBB_add_asn1_oid_from_text env 0 (butlast str) cbb = (True, cbb') \<and> CBB_finish env 0 cbb' = Some cbs))"
proof -
  have "\<exists>cbb'. CBB_add_asn1_oid_from_text env 0 (dotted ns) cbb = (True, cbb') \<and> CBB_finish env 0 cbb' = Some cbs"
    if ns: "valid_oid ns" "cbs = oid_octets ns" for ns
  proof -
    have room: "cbb_room env (cbb_base cbb) (length cbs)"
      by (rule CBB_init_room [OF assms(3,4)]) (use assms(1,2) in simp_all)
    obtain ok cbb' where run: "CBB_add_asn1_oid_from_text env 0 (dotted ns) cbb = (ok, cbb')" by fastforce
    have "cbb_outcome env cbb (Some (cbs, [])) (ok, cbb')"
      using cbb_implementsD(2) [OF CBB_add_asn1_oid_from_text_ok [OF ns(1), of env 0], of cbb "([], [])"] CBB_init_rep [OF assms(3)] run ns(2)
      by (simp add: tree_add_def tree_flush_def)
    then have ok and "cbb_rep cbb' (cbs, [])" "cbb_room env (cbb_base cbb') (length cbs)"
      using room by (auto simp: cbb_outcome_def split: if_splits)
    then show ?thesis using run CBB_finish_rep(2) [of cbb' "(cbs, [])" cbs env] by (simp add: tree_flush_def)
  qed
  then show ?thesis
    using CBS_asn1_oid_to_text_Some [of env cbs str] CBS_asn1_oid_to_text_succeeds [of _ env] assms(1,2) by (metis butlast_snoc)
qed

text \<open>1.2.840: the octets 2a 86 48.\<close>

theorem CBS_asn1_oid_to_text_exact_witness:
  "CBS_asn1_oid_to_text \<lparr> env_malloc = (\<lambda>_. True), env_fill = 0 \<rparr> [0x2a, 0x86, 0x48] = Some [49, 46, 50, 46, 56, 52, 48, 0]"
proof -
  let ?env = "\<lparr> env_malloc = (\<lambda>_. True), env_fill = 0 \<rparr>"
  have octets: "oid_octets [1, 2, 840] = [0x2a, 0x86, 0x48]" by (simp add: base128_def base128_high.simps)
  have dots: "dotted [1, 2, 840] = [49, 46, 50, 46, 56, 52, 48]" by (simp add: decimal.simps)
  have "CBB_init ?env 0 = Some (cbb_init [] 0 True)" by (simp add: CBB_init_def)
  note exact = CBS_asn1_oid_to_text_exact [OF _ _ this, of "[0x2a, 0x86, 0x48]" "[49, 46, 50, 46, 56, 52, 48, 0]"]
  have "\<exists>ns. valid_oid ns \<and> [0x2a, 0x86, 0x48] = oid_octets ns \<and> [49, 46, 50, 46, 56, 52, 48, 0] = dotted ns @ [0]"
  proof (intro exI conjI)
    show "valid_oid [1, 2, 840]" by simp
    show "[0x2a, 0x86, 0x48] = oid_octets [1, 2, 840]" by (rule octets [symmetric])
    show "[49, 46, 50, 46, 56, 52, 48, 0] = dotted [1, 2, 840] @ [0]" unfolding dots by simp
  qed
  then show ?thesis using exact by simp
qed

end
