(* ===== verification/Buf.thy ===== *)
theory Buf
  imports Cbb
begin

text \<open>
  \<open>crypto/buf/buf.c\<close>, the growable buffer \<open>BUF_MEM\<close>, and the string helpers of \<open>crypto/mem.c\<close> that it and the object
  tables call. Here a C string is the list of its bytes before the terminator. The memory a pointer to \<open>char\<close> leads to is a
  list that starts at the pointer; it must hold the \<open>dst_size\<close> bytes the caller gives.
\<close>

unbundle bit_operations_syntax

type_synonym c_string = bytes

section \<open>Strings\<close>

fun strcmp :: "c_string \<Rightarrow> c_string \<Rightarrow> int" where
  "strcmp [] [] = 0"
| "strcmp [] (b # bs) = - 1"
| "strcmp (a # as) [] = 1"
| "strcmp (a # as) (b # bs) = (if a = b then strcmp as bs else if a < b then - 1 else 1)"

definition OPENSSL_strhash :: "c_string \<Rightarrow> u32" where
  "OPENSSL_strhash s = OPENSSL_hash32 s"

definition OPENSSL_strdup :: "malloc \<Rightarrow> c_string option \<Rightarrow> c_string option" where
  "OPENSSL_strdup malloc_ok s =
     (case s of None \<Rightarrow> None | Some s \<Rightarrow> map_option butlast (OPENSSL_memdup malloc_ok (s @ [0])))"

text \<open>The return value, \<open>strlen(src)\<close>, and the memory at \<open>dst\<close>.\<close>

fun OPENSSL_strlcpy :: "bytes \<Rightarrow> c_string \<Rightarrow> nat \<Rightarrow> nat \<times> bytes" where
  "OPENSSL_strlcpy dst src 0 = (length src, dst)"
| "OPENSSL_strlcpy dst [] (Suc n) = (0, dst[0 := 0])"
| "OPENSSL_strlcpy dst (c # src) (Suc n) =
     (if Suc n > 1 then (case OPENSSL_strlcpy (tl dst) src n of (l, dst') \<Rightarrow> (l + 1, c # dst'))
      else (length (c # src), dst[0 := 0]))"

fun OPENSSL_strlcat :: "bytes \<Rightarrow> c_string \<Rightarrow> nat \<Rightarrow> nat \<times> bytes" where
  "OPENSSL_strlcat (d # dst) src (Suc n) =
     (if d \<noteq> 0 then (case OPENSSL_strlcat dst src n of (l, dst') \<Rightarrow> (l + 1, d # dst'))
      else OPENSSL_strlcpy (d # dst) src (Suc n))"
| "OPENSSL_strlcat dst src n = OPENSSL_strlcpy dst src n"

text \<open>What they promise: \<open>src\<close> cut to the room there is, with a terminator, and the length wanted.\<close>

lemma OPENSSL_strlcpy_eq:
  "n \<le> length dst \<Longrightarrow> OPENSSL_strlcpy dst src n =
    (length src, if n = 0 then dst else take (n - 1) src @ 0 # drop (min (n - 1) (length src) + 1) dst)"
proof (induction dst src n rule: OPENSSL_strlcpy.induct)
  case (2 dst n)
  then show ?case by (cases dst) simp_all
next
  case (3 dst c src n)
  then obtain d dst' where "dst = d # dst'" by (cases dst) auto
  then show ?case using 3 by (cases n) auto
qed simp

lemma OPENSSL_strlcat_eq:
  assumes "n \<le> length (s @ 0 # rest)" "0 \<notin> set s"
  shows "OPENSSL_strlcat (s @ 0 # rest) src n =
    (if n \<le> length s then (n + length src, s @ 0 # rest)
     else (length s + length src, s @ snd (OPENSSL_strlcpy (0 # rest) src (n - length s))))"
  using assms
proof (induction s arbitrary: n)
  case Nil
  then show ?case by (cases n) (simp_all add: OPENSSL_strlcpy_eq)
next
  case (Cons c s)
  show ?case
  proof (cases n)
    case (Suc m)
    then show ?thesis using Cons.IH [of m] Cons.prems by simp
  qed simp
qed

section \<open>Growable buffers\<close>

record BUF_MEM =
  bm_length :: nat
  bm_data :: bytes
  bm_max :: nat

abbreviation (input) sizeof_BUF_MEM :: nat where "sizeof_BUF_MEM \<equiv> 24"

definition BUF_MEM_new :: "malloc \<Rightarrow> BUF_MEM option" where
  "BUF_MEM_new malloc_ok =
     (case OPENSSL_zalloc malloc_ok sizeof_BUF_MEM of None \<Rightarrow> None
      | Some _ \<Rightarrow> Some \<lparr> bm_length = 0, bm_data = [], bm_max = 0 \<rparr>)"

definition BUF_MEM_reserve :: "cbb_env \<Rightarrow> BUF_MEM \<Rightarrow> nat \<Rightarrow> bool \<times> BUF_MEM" where
  "BUF_MEM_reserve env buf cap =
     (if bm_max buf \<ge> cap then (True, buf)
      else let n = size_add cap 3 in
        if n < cap then (False, buf)
        else let n = n div 3; alloc_size = size_mul n 4 in
          if alloc_size div 4 \<noteq> n then (False, buf)
          else case OPENSSL_realloc (env_malloc env) (env_fill env) (bm_data buf) 1 alloc_size of
            None \<Rightarrow> (False, buf)
          | Some new_buf \<Rightarrow> (True, buf\<lparr> bm_data := new_buf, bm_max := alloc_size \<rparr>))"

definition BUF_MEM_grow :: "cbb_env \<Rightarrow> BUF_MEM \<Rightarrow> nat \<Rightarrow> nat \<times> BUF_MEM" where
  "BUF_MEM_grow env buf len =
     (case BUF_MEM_reserve env buf len of
        (False, buf) \<Rightarrow> (0, buf)
      | (True, buf) \<Rightarrow>
          let data = (if bm_length buf < len
                      then buf_write (bm_length buf) (replicate (len - bm_length buf) 0) (bm_data buf) else bm_data buf)
          in (len, buf\<lparr> bm_data := data, bm_length := len \<rparr>))"

definition BUF_MEM_grow_clean :: "cbb_env \<Rightarrow> BUF_MEM \<Rightarrow> nat \<Rightarrow> nat \<times> BUF_MEM" where
  "BUF_MEM_grow_clean env buf len = BUF_MEM_grow env buf len"

definition BUF_MEM_append :: "cbb_env \<Rightarrow> BUF_MEM \<Rightarrow> bytes \<Rightarrow> bool \<times> BUF_MEM" where
  "BUF_MEM_append env buf inp =
     (if length inp = 0 then (True, buf)
      else let new_len = size_add (bm_length buf) (length inp) in
        if new_len < length inp then (False, buf)
        else case BUF_MEM_reserve env buf new_len of
          (False, buf) \<Rightarrow> (False, buf)
        | (True, buf) \<Rightarrow>
            (True, buf\<lparr> bm_data := buf_write (bm_length buf) inp (bm_data buf), bm_length := new_len \<rparr>))"

text \<open>The bytes a buffer holds, and its invariant.\<close>

definition buf_bytes :: "BUF_MEM \<Rightarrow> bytes" where
  "buf_bytes buf = take (bm_length buf) (bm_data buf)"

definition buf_ok :: "BUF_MEM \<Rightarrow> bool" where
  "buf_ok buf \<longleftrightarrow> length (bm_data buf) = bm_max buf \<and> bm_length buf \<le> bm_max buf \<and> bm_max buf < 2 ^ 64"

lemma buf_bytes_update [simp]:
  "buf_bytes (b\<lparr> bm_data := d, bm_length := n \<rparr>) = take n d" "buf_bytes (b\<lparr> bm_length := n \<rparr>) = take n (bm_data b)"
  by (simp_all add: buf_bytes_def)

lemma BUF_MEM_reserve_spec:
  assumes "buf_ok buf" "cap < 2 ^ 64" "BUF_MEM_reserve env buf cap = (ok, buf')"
  shows "buf_ok buf' \<and> bm_length buf' = bm_length buf \<and> buf_bytes buf' = buf_bytes buf
    \<and> (if ok then cap \<le> bm_max buf' else buf' = buf)"
proof (cases "bm_max buf \<ge> cap")
  case True
  then show ?thesis using assms by (simp add: BUF_MEM_reserve_def)
next
  case False
  let ?n = "size_add cap 3 div 3"
  let ?bad = "size_add cap 3 < cap \<or> size_mul ?n 4 div 4 \<noteq> ?n \<or> \<not> OPENSSL_malloc (env_malloc env) (size_mul ?n 4)"
  let ?data = "take (size_mul ?n 4) (bm_data buf) @ replicate (size_mul ?n 4 - length (bm_data buf)) (env_fill env)"
  have run: "(ok, buf') = (if ?bad then (False, buf) else (True, buf\<lparr> bm_data := ?data, bm_max := size_mul ?n 4 \<rparr>))"
    using False assms(3) unfolding BUF_MEM_reserve_def Let_def OPENSSL_realloc_def by (cases ?bad) (auto split: if_splits)
  show ?thesis
  proof (cases ?bad)
    case True
    then show ?thesis using run assms(1) by simp
  next
    case good: False
    then have n: "?n = (cap + 3) div 3" using assms(2) size_add_overflow_iff [of cap 3] by (simp add: size_add_def)
    have "size_mul ?n 4 = ?n * 4"
    proof (rule ccontr)
      assume "size_mul ?n 4 \<noteq> ?n * 4"
      then have "2 ^ 64 \<le> ?n * 4" by (auto simp: size_mul_def intro: ccontr)
      moreover have "size_mul ?n 4 < 2 ^ 64" by (simp add: size_mul_def)
      ultimately have "size_mul ?n 4 div 4 < ?n" by linarith
      then show False using good by simp
    qed
    moreover have "size_mul ?n 4 < 2 ^ 64" by (simp add: size_mul_def)
    moreover have "cap \<le> ?n * 4" unfolding n by linarith
    ultimately have m: "cap \<le> size_mul ?n 4" "size_mul ?n 4 < 2 ^ 64" by simp_all
    have "ok" "buf' = buf\<lparr> bm_data := ?data, bm_max := size_mul ?n 4 \<rparr>" using run good by simp_all
    then show ?thesis using False m assms(1) unfolding buf_ok_def buf_bytes_def by (simp add: min_def)
  qed
qed

lemma BUF_MEM_append_spec:
  assumes "buf_ok buf" "length inp < 2 ^ 64" "BUF_MEM_append env buf inp = (ok, buf')"
  shows "buf_ok buf' \<and> buf_bytes buf' = (if ok then buf_bytes buf @ inp else buf_bytes buf)"
proof (cases "inp = [] \<or> size_add (bm_length buf) (length inp) < length inp")
  case True
  then show ?thesis using assms by (auto simp: BUF_MEM_append_def split: if_splits)
next
  case False
  let ?n = "size_add (bm_length buf) (length inp)"
  have len: "bm_length buf < 2 ^ 64" using assms(1) by (simp add: buf_ok_def)
  then have n: "?n = bm_length buf + length inp"
    using False assms(2) size_add_overflow_iff [of "length inp" "bm_length buf"] by (auto simp: size_add_def add.commute)
  have "?n < 2 ^ 64" by (simp add: size_add_def)
  obtain r b where b: "BUF_MEM_reserve env buf ?n = (r, b)" by fastforce
  note spec = BUF_MEM_reserve_spec [OF assms(1) \<open>?n < 2 ^ 64\<close> b]
  have run: "(ok, buf') = (if r then (True, b\<lparr> bm_data := buf_write (bm_length b) inp (bm_data b), bm_length := ?n \<rparr>) else (False, b))"
    using False b assms(3) by (cases r) (simp_all add: BUF_MEM_append_def)
  show ?thesis
  proof (cases r)
    case True
    then have l: "length (bm_data b) = bm_max b" "bm_max b < 2 ^ 64" "?n \<le> bm_max b" "bm_length b = bm_length buf"
      "take (bm_length buf) (bm_data b) = buf_bytes buf" "length (buf_bytes buf) = bm_length buf"
      using spec assms(1) by (auto simp: buf_ok_def buf_bytes_def)
    then show ?thesis using run True n by (simp add: buf_ok_def buf_write_def)
  next
    case False
    then show ?thesis using run spec assms(1) by simp
  qed
qed

lemma BUF_MEM_grow_spec:
  assumes "buf_ok buf" "len < 2 ^ 64" "BUF_MEM_grow env buf len = (r, buf')"
  shows "buf_ok buf' \<and> (if bm_length buf' = len then buf_bytes buf' = take len (buf_bytes buf) @ replicate (len - bm_length buf) 0
    else r = 0 \<and> buf' = buf)"
proof -
  obtain ok b where b: "BUF_MEM_reserve env buf len = (ok, b)" by fastforce
  note spec = BUF_MEM_reserve_spec [OF assms(1,2) b]
  have run: "(r, buf') = (if ok then (len, b\<lparr> bm_data := (if bm_length b < len
      then buf_write (bm_length b) (replicate (len - bm_length b) 0) (bm_data b) else bm_data b), bm_length := len \<rparr>) else (0, b))"
    using assms(3) by (cases ok) (auto simp: BUF_MEM_grow_def b Let_def)
  show ?thesis
  proof (cases ok)
    case True
    then have l: "length (bm_data b) = bm_max b" "bm_length b \<le> bm_max b" "bm_max b < 2 ^ 64" "len \<le> bm_max b" "bm_length b = bm_length buf"
      "take (bm_length buf) (bm_data b) = buf_bytes buf"
      using spec by (auto simp: buf_ok_def buf_bytes_def)
    show ?thesis
    proof (cases "bm_length buf < len")
      case True
      moreover have "length (buf_bytes buf) = bm_length buf" using assms(1) by (simp add: buf_ok_def buf_bytes_def)
      ultimately show ?thesis using run \<open>ok\<close> l by (simp add: buf_ok_def buf_write_def)
    next
      case False
      then have "take len (bm_data b) = take len (buf_bytes buf)" using l(6) by (metis min.absorb1 not_less take_take)
      then show ?thesis using run \<open>ok\<close> l False by (simp add: buf_ok_def)
    qed
  next
    case False
    then show ?thesis using run spec by (auto simp: buf_bytes_def)
  qed
qed

end
