(* ===== verification/Obj.thy ===== *)
theory Obj
  imports Lhash Ber OidText Buf
begin

text \<open>
  The object identifiers of \<open>crypto/obj/obj.c\<close> and \<open>crypto/asn1/a_object.c\<close>: the built-in tables, the hash tables of
  objects added at run time, the lookups in both, and objects from and to text and DER. The tables of
  \<open>obj_dat.h\<close> are the argument \<open>T\<close>, which \<open>ObjDat\<close> supplies, and the globals of \<open>obj.c\<close> a state; callers run one after the
  other, as the locks of the code see to. Shown below: what \<open>OBJ_create\<close> adds is found by every lookup, the rest being
  unchanged; in tables as \<open>tables_ok\<close> asks for, the binary searches find the built-in objects; and an object identifier
  comes back from its DER.
\<close>

unbundle bit_operations_syntax

section \<open>The code\<close>

record obj_tables =
  kObjects :: "asn1_object list"
  kNIDsInShortNameOrder :: "nat list"
  kNIDsInLongNameOrder :: "nat list"
  kNIDsInOIDOrder :: "nat list"

abbreviation (input) NUM_NID :: "obj_tables \<Rightarrow> nat" where "NUM_NID T \<equiv> length (kObjects T)"

record obj_globals =
  added_by_data :: "asn1_object lhash option"
  added_by_nid :: "asn1_object lhash option"
  added_by_short_name :: "asn1_object lhash option"
  added_by_long_name :: "asn1_object lhash option"
  next_nid :: u32

definition obj_start :: "obj_tables \<Rightarrow> obj_globals" where
  "obj_start T = \<lparr> added_by_data = None, added_by_nid = None, added_by_short_name = None, added_by_long_name = None,
     next_nid = of_nat (NUM_NID T) \<rparr>"

abbreviation (input) NID_undef :: int where "NID_undef \<equiv> 0"
abbreviation (input) ASN1_OBJECT_FLAG_DYNAMIC :: u32 where "ASN1_OBJECT_FLAG_DYNAMIC \<equiv> 1"
abbreviation (input) ASN1_OBJECT_FLAG_DYNAMIC_STRINGS :: u32 where "ASN1_OBJECT_FLAG_DYNAMIC_STRINGS \<equiv> 4"
abbreviation (input) ASN1_OBJECT_FLAG_DYNAMIC_DATA :: u32 where "ASN1_OBJECT_FLAG_DYNAMIC_DATA \<equiv> 8"
abbreviation (input) sizeof_ASN1_OBJECT :: nat where "sizeof_ASN1_OBJECT \<equiv> 40"

text \<open>
  What a pointer leads to, null read as nothing; the code follows no null name, since the tables by name hold only objects that
  have one.
\<close>

definition bytes_of :: "bytes option \<Rightarrow> bytes" where
  "bytes_of s = (case s of Some s \<Rightarrow> s | None \<Rightarrow> [])"

subsection \<open>Objects\<close>

definition obj_next_nid :: "obj_globals \<Rightarrow> int \<times> obj_globals" where
  "obj_next_nid g = (sint (next_nid g), g\<lparr> next_nid := next_nid g + 1 \<rparr>)"

definition ASN1_OBJECT_new :: "malloc \<Rightarrow> asn1_object option" where
  "ASN1_OBJECT_new malloc_ok =
     (if \<not> OPENSSL_malloc malloc_ok sizeof_ASN1_OBJECT then None
      else Some \<lparr> obj_sn = None, obj_ln = None, obj_nid = 0, obj_data = [], obj_flags = ASN1_OBJECT_FLAG_DYNAMIC \<rparr>)"

definition OBJ_dup :: "malloc \<Rightarrow> asn1_object option \<Rightarrow> asn1_object option" where
  "OBJ_dup malloc_ok obj =
     (case obj of None \<Rightarrow> None | Some obj \<Rightarrow>
      if obj_flags obj AND ASN1_OBJECT_FLAG_DYNAMIC = 0 then Some obj
      else case ASN1_OBJECT_new malloc_ok of None \<Rightarrow> None | Some r \<Rightarrow>
        let data = OPENSSL_memdup malloc_ok (obj_data obj) in
        if length (obj_data obj) \<noteq> 0 \<and> data = None then None
        else
          let r = r\<lparr> obj_data := bytes_of data, obj_nid := obj_nid obj \<rparr>;
              ln = OPENSSL_strdup malloc_ok (obj_ln obj)
          in if obj_ln obj \<noteq> None \<and> ln = None then None
             else let sn = OPENSSL_strdup malloc_ok (obj_sn obj) in
               if obj_sn obj \<noteq> None \<and> sn = None then None
               else Some (r\<lparr> obj_sn := sn, obj_ln := ln,
                      obj_flags := obj_flags obj OR (ASN1_OBJECT_FLAG_DYNAMIC OR ASN1_OBJECT_FLAG_DYNAMIC_STRINGS
                        OR ASN1_OBJECT_FLAG_DYNAMIC_DATA) \<rparr>))"

definition ASN1_OBJECT_create ::
    "malloc \<Rightarrow> int \<Rightarrow> bytes \<Rightarrow> c_string option \<Rightarrow> c_string option \<Rightarrow> asn1_object option" where
  "ASN1_OBJECT_create malloc_ok nid data sn ln =
     (if length data > INT_MAX then None
      else OBJ_dup malloc_ok (Some \<lparr> obj_sn = sn, obj_ln = ln, obj_nid = nid, obj_data = data,
             obj_flags = ASN1_OBJECT_FLAG_DYNAMIC OR ASN1_OBJECT_FLAG_DYNAMIC_STRINGS OR ASN1_OBJECT_FLAG_DYNAMIC_DATA \<rparr>))"

definition OBJ_get0_data :: "asn1_object option \<Rightarrow> bytes option" where
  "OBJ_get0_data obj = map_option obj_data obj"

definition OBJ_length :: "asn1_object option \<Rightarrow> nat" where
  "OBJ_length obj = (case obj of None \<Rightarrow> 0 | Some obj \<Rightarrow> length (obj_data obj))"

subsection \<open>Lookups\<close>

text \<open>The \<open>bsearch\<close> of the C library.\<close>

function bsearch :: "('e \<Rightarrow> int) \<Rightarrow> 'e list \<Rightarrow> nat \<Rightarrow> nat \<Rightarrow> 'e option" where
  "bsearch cmp arr lo hi =
     (if lo < hi then
        let mid = (lo + hi) div 2; r = cmp (arr ! mid)
        in if r < 0 then bsearch cmp arr lo mid else if r > 0 then bsearch cmp arr (mid + 1) hi else Some (arr ! mid)
      else None)"
  by auto
termination by (relation "measure (\<lambda>(cmp, arr, lo, hi). hi - lo)") auto

declare bsearch.simps [simp del]

text \<open>
  The code aborts (\<open>BSSL_CHECK\<close>) on a NID that is not built in; \<open>OBJ_nid2obj\<close> tests for this before the call, and the orders of the tables list only
  built-in NIDs (\<open>tables_ok\<close>, which \<open>ObjDat\<close> shows of the tables of the repository).
\<close>

definition get_builtin_object :: "obj_tables \<Rightarrow> nat \<Rightarrow> asn1_object" where
  "get_builtin_object T nid = kObjects T ! (nid - 1)"

definition obj_cmp :: "obj_tables \<Rightarrow> asn1_object \<Rightarrow> nat \<Rightarrow> int" where
  "obj_cmp T key nid = OBJ_cmp key (get_builtin_object T nid)"

definition short_name_cmp :: "obj_tables \<Rightarrow> c_string \<Rightarrow> nat \<Rightarrow> int" where
  "short_name_cmp T name nid = strcmp name (bytes_of (obj_sn (get_builtin_object T nid)))"

definition long_name_cmp :: "obj_tables \<Rightarrow> c_string \<Rightarrow> nat \<Rightarrow> int" where
  "long_name_cmp T name nid = strcmp name (bytes_of (obj_ln (get_builtin_object T nid)))"

definition hash_short_name :: "asn1_object \<Rightarrow> u32" where
  "hash_short_name obj = OPENSSL_strhash (bytes_of (obj_sn obj))"

definition cmp_short_name :: "asn1_object \<Rightarrow> asn1_object \<Rightarrow> int" where
  "cmp_short_name a b = strcmp (bytes_of (obj_sn a)) (bytes_of (obj_sn b))"

definition hash_long_name :: "asn1_object \<Rightarrow> u32" where
  "hash_long_name obj = OPENSSL_strhash (bytes_of (obj_ln obj))"

definition cmp_long_name :: "asn1_object \<Rightarrow> asn1_object \<Rightarrow> int" where
  "cmp_long_name a b = strcmp (bytes_of (obj_ln a)) (bytes_of (obj_ln b))"

text \<open>\<open>lh_ASN1_OBJECT_retrieve\<close> on a table that may not exist.\<close>

definition lh_lookup ::
    "('d \<Rightarrow> u32) \<Rightarrow> ('d \<Rightarrow> 'd \<Rightarrow> int) \<Rightarrow> 'd lhash option \<Rightarrow> 'd \<Rightarrow> 'd option" where
  "lh_lookup hash cmp lh key = (case lh of None \<Rightarrow> None | Some lh \<Rightarrow> OPENSSL_lh_retrieve hash cmp lh key)"

definition OBJ_obj2nid :: "obj_tables \<Rightarrow> obj_globals \<Rightarrow> asn1_object option \<Rightarrow> int" where
  "OBJ_obj2nid T g obj =
     (case obj of None \<Rightarrow> NID_undef | Some obj \<Rightarrow>
      if obj_nid obj \<noteq> 0 then obj_nid obj
      else case lh_lookup hash_data OBJ_cmp (added_by_data g) obj of
        Some match \<Rightarrow> obj_nid match
      | None \<Rightarrow>
          (case bsearch (obj_cmp T obj) (kNIDsInOIDOrder T) 0 (length (kNIDsInOIDOrder T)) of
             None \<Rightarrow> NID_undef
           | Some nid \<Rightarrow> obj_nid (get_builtin_object T nid)))"

text \<open>An \<open>ASN1_OBJECT\<close> on the stack, as far as it is set.\<close>

definition key_object :: asn1_object where
  "key_object = \<lparr> obj_sn = None, obj_ln = None, obj_nid = 0, obj_data = [], obj_flags = 0 \<rparr>"

definition OBJ_cbs2nid :: "obj_tables \<Rightarrow> obj_globals \<Rightarrow> CBS \<Rightarrow> int" where
  "OBJ_cbs2nid T g cbs =
     (if length cbs > INT_MAX then NID_undef
      else OBJ_obj2nid T g (Some (key_object\<lparr> obj_data := cbs \<rparr>)))"

definition OBJ_sn2nid :: "obj_tables \<Rightarrow> obj_globals \<Rightarrow> c_string \<Rightarrow> int" where
  "OBJ_sn2nid T g short_name =
     (case lh_lookup hash_short_name cmp_short_name (added_by_short_name g) (key_object\<lparr> obj_sn := Some short_name \<rparr>) of
        Some match \<Rightarrow> obj_nid match
      | None \<Rightarrow>
          (case bsearch (short_name_cmp T short_name) (kNIDsInShortNameOrder T) 0 (length (kNIDsInShortNameOrder T)) of
             None \<Rightarrow> NID_undef
           | Some nid \<Rightarrow> obj_nid (get_builtin_object T nid)))"

definition OBJ_ln2nid :: "obj_tables \<Rightarrow> obj_globals \<Rightarrow> c_string \<Rightarrow> int" where
  "OBJ_ln2nid T g long_name =
     (case lh_lookup hash_long_name cmp_long_name (added_by_long_name g) (key_object\<lparr> obj_ln := Some long_name \<rparr>) of
        Some match \<Rightarrow> obj_nid match
      | None \<Rightarrow>
          (case bsearch (long_name_cmp T long_name) (kNIDsInLongNameOrder T) 0 (length (kNIDsInLongNameOrder T)) of
             None \<Rightarrow> NID_undef
           | Some nid \<Rightarrow> obj_nid (get_builtin_object T nid)))"

definition OBJ_get_undef :: asn1_object where
  "OBJ_get_undef = \<lparr> obj_sn = Some [85, 78, 68, 69, 70], obj_ln = Some [117, 110, 100, 101, 102, 105, 110, 101, 100],
     obj_nid = NID_undef, obj_data = [], obj_flags = 0 \<rparr>"

definition OBJ_nid2obj :: "obj_tables \<Rightarrow> obj_globals \<Rightarrow> int \<Rightarrow> asn1_object option" where
  "OBJ_nid2obj T g nid =
     (if nid = NID_undef then Some OBJ_get_undef
      else if nid > 0 \<and> nid < int (NUM_NID T) then
        let obj = get_builtin_object T (nat nid) in if obj_nid obj = NID_undef then None else Some obj
      else lh_lookup hash_nid cmp_nid (added_by_nid g) (key_object\<lparr> obj_nid := nid \<rparr>))"

definition OBJ_nid2sn :: "obj_tables \<Rightarrow> obj_globals \<Rightarrow> int \<Rightarrow> c_string option" where
  "OBJ_nid2sn T g nid = (case OBJ_nid2obj T g nid of None \<Rightarrow> None | Some obj \<Rightarrow> obj_sn obj)"

definition OBJ_nid2ln :: "obj_tables \<Rightarrow> obj_globals \<Rightarrow> int \<Rightarrow> c_string option" where
  "OBJ_nid2ln T g nid = (case OBJ_nid2obj T g nid of None \<Rightarrow> None | Some obj \<Rightarrow> obj_ln obj)"

definition OBJ_nid2cbb :: "obj_tables \<Rightarrow> obj_globals \<Rightarrow> cbb_env \<Rightarrow> nat \<Rightarrow> int \<Rightarrow> cbb_op" where
  "OBJ_nid2cbb T g env h nid cbb =
     (case OBJ_nid2obj T g nid of None \<Rightarrow> (False, cbb)
      | Some obj \<Rightarrow> cbb_then (CBB_add_asn1 env h CBS_ASN1_OBJECT)
          (cbb_then (CBB_add_bytes env (h + 1) (obj_data obj)) (CBB_flush env h)) cbb)"

subsection \<open>Adding objects, and text\<close>

text \<open>\<open>get_nid\<close> is \<open>obj_next_nid\<close> or null.\<close>

definition create_object_with_text_oid ::
    "cbb_env \<Rightarrow> bool \<Rightarrow> c_string \<Rightarrow> c_string option \<Rightarrow> c_string option \<Rightarrow> obj_globals \<Rightarrow> asn1_object option \<times> obj_globals" where
  "create_object_with_text_oid env get_nid oid short_name long_name g =
     (case CBB_init env 32 of None \<Rightarrow> (None, g) | Some cbb \<Rightarrow>
      case CBB_add_asn1_oid_from_text env 0 oid cbb of (False, _) \<Rightarrow> (None, g) | (True, cbb) \<Rightarrow>
      case CBB_finish env 0 cbb of None \<Rightarrow> (None, g) | Some buf \<Rightarrow>
      case (if get_nid then obj_next_nid g else (NID_undef, g)) of (nid, g) \<Rightarrow>
        (ASN1_OBJECT_create (env_malloc env) nid buf short_name long_name, g))"

definition OBJ_txt2obj :: "obj_tables \<Rightarrow> obj_globals \<Rightarrow> cbb_env \<Rightarrow> c_string \<Rightarrow> bool \<Rightarrow> asn1_object option" where
  "OBJ_txt2obj T g env s dont_search_names =
     (let nid = (if \<not> dont_search_names then
                   let nid = OBJ_sn2nid T g s in if nid = NID_undef then OBJ_ln2nid T g s else nid
                 else NID_undef)
      in if nid \<noteq> NID_undef then OBJ_nid2obj T g nid
         else fst (create_object_with_text_oid env False s None None g))"

definition OBJ_txt2nid :: "obj_tables \<Rightarrow> obj_globals \<Rightarrow> cbb_env \<Rightarrow> c_string \<Rightarrow> int" where
  "OBJ_txt2nid T g env s = OBJ_obj2nid T g (OBJ_txt2obj T g env s False)"

definition strlcpy_int :: "bytes \<Rightarrow> c_string \<Rightarrow> int \<Rightarrow> int \<times> bytes" where
  "strlcpy_int dst src dst_size =
     (case OPENSSL_strlcpy dst src (if dst_size < 0 then 0 else nat dst_size) of
        (ret, dst) \<Rightarrow> (if ret > INT_MAX then - 1 else int ret, dst))"

definition OBJ_obj2txt ::
    "obj_tables \<Rightarrow> obj_globals \<Rightarrow> cbb_env \<Rightarrow> bytes \<Rightarrow> int \<Rightarrow> asn1_object option \<Rightarrow> bool \<Rightarrow> int \<times> bytes" where
  "OBJ_obj2txt T g env out out_len obj always_return_oid =
     (if OBJ_length obj = 0 then strlcpy_int out [] out_len
      else
        let nid = (if \<not> always_return_oid then OBJ_obj2nid T g obj else NID_undef);
            name = (if nid \<noteq> NID_undef then
                      (case OBJ_nid2ln T g nid of Some name \<Rightarrow> Some name | None \<Rightarrow> OBJ_nid2sn T g nid)
                    else None)
        in case name of Some name \<Rightarrow> strlcpy_int out name out_len
           | None \<Rightarrow>
               (case CBS_asn1_oid_to_text env (bytes_of (OBJ_get0_data obj)) of
                  None \<Rightarrow> (- 1, if out_len > 0 then out[0 := 0] else out)
                | Some txt \<Rightarrow> strlcpy_int out (butlast txt) out_len))"

text \<open>Creating a table that does not exist yet, and inserting into one.\<close>

definition lh_ensure :: "malloc \<Rightarrow> 'd lhash option \<Rightarrow> 'd lhash option" where
  "lh_ensure malloc_ok lh = (case lh of None \<Rightarrow> OPENSSL_lh_new malloc_ok | Some lh \<Rightarrow> Some lh)"

definition lh_add ::
    "malloc \<Rightarrow> ('d \<Rightarrow> u32) \<Rightarrow> ('d \<Rightarrow> 'd \<Rightarrow> int) \<Rightarrow> 'd lhash option \<Rightarrow> 'd \<Rightarrow> bool \<times> 'd lhash option" where
  "lh_add malloc_ok hash cmp lh obj =
     (case lh of None \<Rightarrow> (False, None)
      | Some lh \<Rightarrow> (case OPENSSL_lh_insert malloc_ok hash cmp lh obj of (ok, old_object, lh) \<Rightarrow> (ok, Some lh)))"

text \<open>
  \<open>malloc_ok i\<close> is the allocator as the \<open>i\<close>-th of the eight calls below meets it, so that each may fail by itself.
\<close>

definition obj_add_object :: "(nat \<Rightarrow> malloc) \<Rightarrow> asn1_object \<Rightarrow> obj_globals \<Rightarrow> bool \<times> obj_globals" where
  "obj_add_object malloc_ok obj g =
     (let obj = obj\<lparr> obj_flags := obj_flags obj AND NOT (ASN1_OBJECT_FLAG_DYNAMIC OR ASN1_OBJECT_FLAG_DYNAMIC_STRINGS
            OR ASN1_OBJECT_FLAG_DYNAMIC_DATA) \<rparr>;
          g = g\<lparr> added_by_nid := lh_ensure (malloc_ok 0) (added_by_nid g), added_by_data := lh_ensure (malloc_ok 1) (added_by_data g),
                added_by_short_name := lh_ensure (malloc_ok 2) (added_by_short_name g),
                added_by_long_name := lh_ensure (malloc_ok 3) (added_by_long_name g) \<rparr>
      in if added_by_nid g = None \<or> added_by_data g = None \<or> added_by_short_name g = None \<or> added_by_long_name g = None
         then (False, g)
         else
           let (ok1, by_nid) = lh_add (malloc_ok 4) hash_nid cmp_nid (added_by_nid g) obj;
               (ok2, by_data) = (if length (obj_data obj) \<noteq> 0 then lh_add (malloc_ok 5) hash_data OBJ_cmp (added_by_data g) obj
                                 else (True, added_by_data g));
               (ok3, by_sn) = (if obj_sn obj \<noteq> None then lh_add (malloc_ok 6) hash_short_name cmp_short_name (added_by_short_name g) obj
                               else (True, added_by_short_name g));
               (ok4, by_ln) = (if obj_ln obj \<noteq> None then lh_add (malloc_ok 7) hash_long_name cmp_long_name (added_by_long_name g) obj
                               else (True, added_by_long_name g))
           in (ok1 \<and> ok2 \<and> ok3 \<and> ok4,
               g\<lparr> added_by_nid := by_nid, added_by_data := by_data, added_by_short_name := by_sn, added_by_long_name := by_ln \<rparr>))"

definition OBJ_create ::
    "cbb_env \<Rightarrow> (nat \<Rightarrow> malloc) \<Rightarrow> c_string \<Rightarrow> c_string option \<Rightarrow> c_string option \<Rightarrow> obj_globals \<Rightarrow> int \<times> obj_globals" where
  "OBJ_create env add_malloc oid short_name long_name g =
     (case create_object_with_text_oid env True oid short_name long_name g of
        (None, g) \<Rightarrow> (NID_undef, g)
      | (Some op, g) \<Rightarrow>
          (case obj_add_object add_malloc op g of
             (False, g) \<Rightarrow> (NID_undef, g)
           | (True, g) \<Rightarrow> (obj_nid op, g)))"

subsection \<open>DER, in \<open>a_object.c\<close>\<close>

definition i2d_ASN1_OBJECT :: "cbb_env \<Rightarrow> asn1_object option \<Rightarrow> i2d_outp \<Rightarrow> int \<times> i2d_outp" where
  "i2d_ASN1_OBJECT env obj outp =
     (case obj of None \<Rightarrow> (- 1, outp) | Some obj \<Rightarrow>
      if length (obj_data obj) \<le> 0 then (- 1, outp)
      else case CBB_init env (size_add (length (obj_data obj)) 2) of None \<Rightarrow> (- 1, outp) | Some cbb \<Rightarrow>
        case cbb_then (CBB_add_asn1 env 0 CBS_ASN1_OBJECT) (CBB_add_bytes env 1 (obj_data obj)) cbb of
          (False, _) \<Rightarrow> (- 1, outp)
        | (True, cbb) \<Rightarrow> CBB_finish_i2d env cbb outp)"

definition i2t_ASN1_OBJECT ::
    "obj_tables \<Rightarrow> obj_globals \<Rightarrow> cbb_env \<Rightarrow> bytes \<Rightarrow> int \<Rightarrow> asn1_object option \<Rightarrow> int \<times> bytes" where
  "i2t_ASN1_OBJECT T g env buf buf_len a = OBJ_obj2txt T g env buf buf_len a False"

text \<open>The object, and \<open>*inp\<close> after it; \<open>len\<close> is the length of the input.\<close>

definition c2i_ASN1_OBJECT :: "malloc \<Rightarrow> asn1_object reader" where
  "c2i_ASN1_OBJECT malloc_ok inp =
     (if \<not> CBS_is_valid_asn1_oid inp then (None, inp)
      else case ASN1_OBJECT_create malloc_ok NID_undef inp None None of
        None \<Rightarrow> (None, inp) | Some ret \<Rightarrow> (Some ret, []))"

definition d2i_ASN1_OBJECT :: "malloc \<Rightarrow> asn1_object reader" where
  "d2i_ASN1_OBJECT malloc_ok inp =
     (case CBS_get_asn1 CBS_ASN1_OBJECT inp of
        (None, _) \<Rightarrow> (None, inp)
      | (Some child, cbs) \<Rightarrow>
          (case c2i_ASN1_OBJECT malloc_ok child of (None, _) \<Rightarrow> (None, inp) | (Some ret, _) \<Rightarrow> (Some ret, cbs)))"


section \<open>Orders\<close>

lemma strcmp_eq_0 [simp]: "strcmp a b = 0 \<longleftrightarrow> a = b"
  by (induction a b rule: strcmp.induct) auto

lemma strcmp_neg: "strcmp b a = - strcmp a b"
  by (induction a b rule: strcmp.induct) auto

lemma strcmp_trans: "strcmp a b < 0 \<Longrightarrow> strcmp b c \<le> 0 \<Longrightarrow> strcmp a c < 0"
proof (induction a b arbitrary: c rule: strcmp.induct)
  case (2 b bs)
  then show ?case by (cases c) auto
next
  case (4 a as b bs)
  then show ?case by (cases c) (auto split: if_splits)
qed auto

lemma memcmp_neg: "memcmp b a = - memcmp a b"
proof (induction a arbitrary: b)
  case Nil
  then show ?case by (cases b) auto
next
  case (Cons x a)
  then show ?case by (cases b) auto
qed

lemma memcmp_trans: "length a = length b \<Longrightarrow> length b = length c \<Longrightarrow> memcmp a b < 0 \<Longrightarrow> memcmp b c \<le> 0 \<Longrightarrow> memcmp a c < 0"
  by (induction a b c rule: list_induct3) (auto split: if_splits)

lemma OBJ_cmp_neg: "OBJ_cmp b a = - OBJ_cmp a b"
  using memcmp_neg [of "obj_data b" "obj_data a"] by (auto simp: OBJ_cmp_def)

lemma OBJ_cmp_trans: "OBJ_cmp a b < 0 \<Longrightarrow> OBJ_cmp b c \<le> 0 \<Longrightarrow> OBJ_cmp a c < 0"
  using memcmp_trans [of "obj_data a" "obj_data b" "obj_data c"] by (auto simp: OBJ_cmp_def split: if_splits)

lemma OBJ_cmp_trans_le: "OBJ_cmp a b \<le> 0 \<Longrightarrow> OBJ_cmp b c < 0 \<Longrightarrow> OBJ_cmp a c < 0"
proof (cases "OBJ_cmp a b = 0")
  case True
  then have "obj_data a = obj_data b" by (simp only: OBJ_cmp_eq_0)
  then have "OBJ_cmp a c = OBJ_cmp b c" by (simp add: OBJ_cmp_def)
  then show "OBJ_cmp a b \<le> 0 \<Longrightarrow> OBJ_cmp b c < 0 \<Longrightarrow> OBJ_cmp a c < 0" by simp
qed (use OBJ_cmp_trans [of a b c] in simp)

text \<open>
  A binary search, as a contract on the comparison with the key: along the array it is first positive, then zero, then negative. It
  finds an element that compares equal if there is one; with several, the C library leaves open which.
\<close>

locale search_order =
  fixes cmp :: "'k \<Rightarrow> 'e \<Rightarrow> int" and before :: "'e \<Rightarrow> 'e \<Rightarrow> bool"
  assumes pos_before: "before x y \<Longrightarrow> 0 < cmp k y \<Longrightarrow> 0 < cmp k x"
    and neg_after: "before x y \<Longrightarrow> cmp k x < 0 \<Longrightarrow> cmp k y < 0"
begin

lemma bsearch_found: "hi \<le> length arr \<Longrightarrow> bsearch (cmp k) arr lo hi = Some x \<Longrightarrow> x \<in> set arr \<and> cmp k x = 0"
proof (induction "cmp k" arr lo hi rule: bsearch.induct)
  case (1 arr lo hi)
  show ?case
  proof (cases "lo < hi")
    case True
    let ?m = "(lo + hi) div 2"
    have m: "?m < length arr" "?m \<le> length arr" using True "1.prems"(1) by linarith+
    note run = "1.prems"(2) [unfolded bsearch.simps [of "cmp k" arr lo hi] Let_def]
    consider "cmp k (arr ! ?m) < 0" | "cmp k (arr ! ?m) > 0" | "cmp k (arr ! ?m) = 0" by linarith
    then show ?thesis
    proof cases
      case 1
      then have "bsearch (cmp k) arr lo ?m = Some x" using run True by simp
      then show ?thesis using "1.hyps"(1) [OF True refl refl 1 m(2)] by blast
    next
      case 2
      then have "bsearch (cmp k) arr (?m + 1) hi = Some x" using run True by simp
      then show ?thesis using "1.hyps"(2) [OF True refl refl _ 2 "1.prems"(1)] 2 by simp
    next
      case 3
      then show ?thesis using run True m by auto
    qed
  qed (use "1.prems" in \<open>simp add: bsearch.simps\<close>)
qed

lemma bsearch_complete:
  "sorted_wrt before arr \<Longrightarrow> hi \<le> length arr \<Longrightarrow> lo \<le> i \<Longrightarrow> i < hi \<Longrightarrow> cmp k (arr ! i) = 0 \<Longrightarrow> bsearch (cmp k) arr lo hi \<noteq> None"
proof (induction "cmp k" arr lo hi rule: bsearch.induct)
  case (1 arr lo hi)
  let ?m = "(lo + hi) div 2"
  have lt: "lo < hi" "?m < length arr" using "1.prems" by linarith+
  consider "cmp k (arr ! ?m) < 0" | "cmp k (arr ! ?m) > 0" | "cmp k (arr ! ?m) = 0" by linarith
  then show ?case
  proof cases
    case 1
    have "i < ?m"
    proof (rule ccontr)
      assume "\<not> i < ?m"
      then have "i = ?m \<or> before (arr ! ?m) (arr ! i)" using sorted_wrt_nth_less [OF "1.prems"(1), of ?m i] "1.prems" by linarith
      then show False using neg_after 1 "1.prems"(5) by fastforce
    qed
    then show ?thesis
      using "1.hyps"(1) [OF lt(1) refl refl 1 "1.prems"(1)] "1.prems"(3,5) 1 lt by (subst bsearch.simps) (simp add: Let_def)
  next
    case 2
    have "?m < i"
    proof (rule ccontr)
      assume "\<not> ?m < i"
      then have "i = ?m \<or> before (arr ! i) (arr ! ?m)" using sorted_wrt_nth_less [OF "1.prems"(1), of i ?m] lt by linarith
      then show False using pos_before 2 "1.prems"(5) by fastforce
    qed
    then show ?thesis
      using "1.hyps"(2) [OF lt(1) refl refl _ 2 "1.prems"(1,2)] "1.prems"(4,5) 2 lt by (subst bsearch.simps) (simp add: Let_def)
  next
    case 3
    then show ?thesis using lt by (subst bsearch.simps) (simp add: Let_def)
  qed
qed

lemma bsearch_None:
  assumes "sorted_wrt before arr"
  shows "bsearch (cmp k) arr 0 (length arr) = None \<longleftrightarrow> (\<forall>x\<in>set arr. cmp k x \<noteq> 0)"
proof (cases "bsearch (cmp k) arr 0 (length arr)")
  case None
  then show ?thesis using bsearch_complete [OF assms order.refl, of 0 _ k] by (auto simp: in_set_conv_nth)
next
  case (Some x)
  then show ?thesis using bsearch_found [OF order.refl Some] by auto
qed

end

interpretation oid_order: search_order "obj_cmp T" "\<lambda>m n. OBJ_cmp (get_builtin_object T m) (get_builtin_object T n) \<le> 0" for T
proof
  fix m n k assume le: "OBJ_cmp (get_builtin_object T m) (get_builtin_object T n) \<le> 0"
  show "0 < obj_cmp T k m" if "0 < obj_cmp T k n"
    using that le OBJ_cmp_trans_le [of "get_builtin_object T m" "get_builtin_object T n" k] OBJ_cmp_neg [of k "get_builtin_object T n"]
      OBJ_cmp_neg [of k "get_builtin_object T m"] by (simp add: obj_cmp_def)
  show "obj_cmp T k n < 0" if "obj_cmp T k m < 0"
    using that le OBJ_cmp_trans [of k "get_builtin_object T m" "get_builtin_object T n"] by (simp add: obj_cmp_def)
qed

interpretation short_name_order: search_order "short_name_cmp T"
  "\<lambda>m n. strcmp (bytes_of (obj_sn (get_builtin_object T m))) (bytes_of (obj_sn (get_builtin_object T n))) < 0" for T
proof
  fix m n k assume lt: "strcmp (bytes_of (obj_sn (get_builtin_object T m))) (bytes_of (obj_sn (get_builtin_object T n))) < 0"
  show "0 < short_name_cmp T k m" if "0 < short_name_cmp T k n"
    using that lt strcmp_trans [of "bytes_of (obj_sn (get_builtin_object T m))" _ k] strcmp_neg [of k] by (fastforce simp: short_name_cmp_def)
  show "short_name_cmp T k n < 0" if "short_name_cmp T k m < 0"
    using that lt strcmp_trans [of k] by (fastforce simp: short_name_cmp_def)
qed

interpretation long_name_order: search_order "long_name_cmp T"
  "\<lambda>m n. strcmp (bytes_of (obj_ln (get_builtin_object T m))) (bytes_of (obj_ln (get_builtin_object T n))) < 0" for T
proof
  fix m n k assume lt: "strcmp (bytes_of (obj_ln (get_builtin_object T m))) (bytes_of (obj_ln (get_builtin_object T n))) < 0"
  show "0 < long_name_cmp T k m" if "0 < long_name_cmp T k n"
    using that lt strcmp_trans [of "bytes_of (obj_ln (get_builtin_object T m))" _ k] strcmp_neg [of k] by (fastforce simp: long_name_cmp_def)
  show "long_name_cmp T k n < 0" if "long_name_cmp T k m < 0"
    using that lt strcmp_trans [of k] by (fastforce simp: long_name_cmp_def)
qed

section \<open>The tables of added objects\<close>

interpretation by_short_name: lhash_callbacks hash_short_name cmp_short_name
  by unfold_locales (auto simp: hash_short_name_def cmp_short_name_def)

interpretation by_long_name: lhash_callbacks hash_long_name cmp_long_name
  by unfold_locales (auto simp: hash_long_name_def cmp_long_name_def)

context lhash_callbacks begin

definition table_ok :: "nat \<Rightarrow> 'd lhash option \<Rightarrow> bool" where
  "table_ok n lh \<longleftrightarrow> (\<forall>l. lh = Some l \<longrightarrow> lh_inv l \<and> num_items l \<le> n)"

lemma table_ok_mono: "table_ok n lh \<Longrightarrow> n \<le> m \<Longrightarrow> table_ok m lh"
  by (auto simp: table_ok_def)

lemma lh_ensure_spec:
  assumes "table_ok n lh"
  shows "table_ok n (lh_ensure malloc_ok lh) \<and> lh_lookup hash cmp (lh_ensure malloc_ok lh) e = lh_lookup hash cmp lh e"
proof (cases lh)
  case None
  show ?thesis
  proof (cases "OPENSSL_lh_new malloc_ok :: 'd lhash option")
    case (Some l)
    then have l: "lh_inv l" "num_items l = 0" "lh_mset l = {#}"
      using lh_reach_inv [OF lh_reach.reach_new [OF Some]] by (auto simp: OPENSSL_lh_new_def lh_mset_def split: option.splits)
    then have "OPENSSL_lh_retrieve hash cmp l e = None"
      using retrieve_iff [OF l(1), of e] by (cases "OPENSSL_lh_retrieve hash cmp l e") auto
    then show ?thesis using l None Some by (simp add: lh_ensure_def lh_lookup_def table_ok_def)
  qed (simp add: None lh_ensure_def lh_lookup_def table_ok_def)
next
  case (Some l)
  then show ?thesis using assms by (simp add: lh_ensure_def)
qed

lemma lh_add_spec:
  assumes "table_ok n lh" "n + 1 < 2 ^ 64" "lh_add malloc_ok hash cmp lh d = (ok, lh')"
  shows "table_ok (n + 1) lh' \<and>
    (\<forall>e. lh_lookup hash cmp lh' e = (if ok \<and> cmp d e = 0 then Some d else lh_lookup hash cmp lh e))"
proof (cases lh)
  case None
  then show ?thesis using assms(3) by (auto simp: lh_add_def table_ok_def)
next
  case (Some l)
  obtain old l' where run: "OPENSSL_lh_insert malloc_ok hash cmp l d = (ok, old, l')" "lh' = Some l'"
    using assms(3) Some by (auto simp: lh_add_def split: prod.splits)
  have l: "lh_inv l" "num_items l + 1 < 2 ^ 64" "num_items l \<le> n" using assms(1,2) Some by (auto simp: table_ok_def)
  note spec = OPENSSL_lh_insert_spec [OF l(1,2) run(1)]
  show ?thesis using spec l(3) run(2) Some by (auto simp: table_ok_def lh_lookup_def split: if_splits)
qed

end

section \<open>The registry\<close>

definition obj_inv :: "nat \<Rightarrow> obj_globals \<Rightarrow> bool" where
  "obj_inv n g \<longleftrightarrow> by_nid.table_ok n (added_by_nid g) \<and> by_data.table_ok n (added_by_data g)
     \<and> by_short_name.table_ok n (added_by_short_name g) \<and> by_long_name.table_ok n (added_by_long_name g)"

text \<open>The four lookups in the tables of added objects.\<close>

definition find_nid :: "obj_globals \<Rightarrow> int \<Rightarrow> asn1_object option" where
  "find_nid g nid = lh_lookup hash_nid cmp_nid (added_by_nid g) (key_object\<lparr> obj_nid := nid \<rparr>)"

definition find_data :: "obj_globals \<Rightarrow> bytes \<Rightarrow> asn1_object option" where
  "find_data g data = lh_lookup hash_data OBJ_cmp (added_by_data g) (key_object\<lparr> obj_data := data \<rparr>)"

definition find_short_name :: "obj_globals \<Rightarrow> c_string \<Rightarrow> asn1_object option" where
  "find_short_name g s = lh_lookup hash_short_name cmp_short_name (added_by_short_name g) (key_object\<lparr> obj_sn := Some s \<rparr>)"

definition find_long_name :: "obj_globals \<Rightarrow> c_string \<Rightarrow> asn1_object option" where
  "find_long_name g s = lh_lookup hash_long_name cmp_long_name (added_by_long_name g) (key_object\<lparr> obj_ln := Some s \<rparr>)"

lemma key_object_sels [simp]:
  "obj_sn key_object = None" "obj_ln key_object = None" "obj_nid key_object = 0" "obj_data key_object = []"
  by (simp_all add: key_object_def)

definition static_object :: "asn1_object \<Rightarrow> asn1_object" where
  "static_object obj = obj\<lparr> obj_flags := obj_flags obj AND NOT (1 OR 4 OR 8) \<rparr>"

lemma static_object_sels [simp]:
  "obj_sn (static_object p) = obj_sn p" "obj_ln (static_object p) = obj_ln p" "obj_nid (static_object p) = obj_nid p"
  "obj_data (static_object p) = obj_data p"
  by (simp_all add: static_object_def)

lemma obj_add_object_spec:
  assumes inv: "obj_inv n g" and n: "n + 1 < 2 ^ 64" and run: "obj_add_object malloc_ok obj g = (ok, g')"
  shows "obj_inv (n + 1) g' \<and> next_nid g' = next_nid g \<and> (\<forall>m. m \<noteq> obj_nid obj \<longrightarrow> find_nid g' m = find_nid g m) \<and>
    (ok \<longrightarrow> (\<forall>m. find_nid g' m = (if m = obj_nid obj then Some (static_object obj) else find_nid g m))
      \<and> (\<forall>d. find_data g' d = (if d \<noteq> [] \<and> d = obj_data obj then Some (static_object obj) else find_data g d))
      \<and> (\<forall>s. find_short_name g' s = (if obj_sn obj = Some s then Some (static_object obj) else find_short_name g s))
      \<and> (\<forall>s. find_long_name g' s = (if obj_ln obj = Some s then Some (static_object obj) else find_long_name g s)))"
proof -
  define o' where "o' = static_object obj"
  define g0 where "g0 = g\<lparr> added_by_nid := lh_ensure (malloc_ok 0) (added_by_nid g), added_by_data := lh_ensure (malloc_ok 1) (added_by_data g),
                added_by_short_name := lh_ensure (malloc_ok 2) (added_by_short_name g),
                added_by_long_name := lh_ensure (malloc_ok 3) (added_by_long_name g) \<rparr>"
  have inv0: "obj_inv n g0" and find0: "find_nid g0 = find_nid g" "find_data g0 = find_data g"
      "find_short_name g0 = find_short_name g" "find_long_name g0 = find_long_name g" and nid0: "next_nid g0 = next_nid g"
    using inv by_nid.lh_ensure_spec by_data.lh_ensure_spec by_short_name.lh_ensure_spec by_long_name.lh_ensure_spec
    by (auto simp: g0_def obj_inv_def find_nid_def find_data_def find_short_name_def find_long_name_def fun_eq_iff)
  show ?thesis
  proof (cases "added_by_nid g0 = None \<or> added_by_data g0 = None \<or> added_by_short_name g0 = None \<or> added_by_long_name g0 = None")
    case True
    have "g' = g0" "\<not> ok" using run True unfolding obj_add_object_def Let_def g0_def [symmetric] by auto
    moreover have "obj_inv (n + 1) g0"
      using inv0 by_nid.table_ok_mono by_data.table_ok_mono by_short_name.table_ok_mono by_long_name.table_ok_mono
      unfolding obj_inv_def by (meson le_add1)
    ultimately show ?thesis using nid0 find0 by simp
  next
    case False
    obtain ok1 a1 where r1: "lh_add (malloc_ok 4) hash_nid cmp_nid (added_by_nid g0) o' = (ok1, a1)" by fastforce
    obtain ok2 a2 where r2: "(if length (obj_data o') \<noteq> 0 then lh_add (malloc_ok 5) hash_data OBJ_cmp (added_by_data g0) o'
                                 else (True, added_by_data g0)) = (ok2, a2)" by fastforce
    obtain ok3 a3 where r3: "(if obj_sn o' \<noteq> None then lh_add (malloc_ok 6) hash_short_name cmp_short_name (added_by_short_name g0) o'
                               else (True, added_by_short_name g0)) = (ok3, a3)" by fastforce
    obtain ok4 a4 where r4: "(if obj_ln o' \<noteq> None then lh_add (malloc_ok 7) hash_long_name cmp_long_name (added_by_long_name g0) o'
                               else (True, added_by_long_name g0)) = (ok4, a4)" by fastforce
    have res: "ok = (ok1 \<and> ok2 \<and> ok3 \<and> ok4)"
      "g' = g0\<lparr> added_by_nid := a1, added_by_data := a2, added_by_short_name := a3, added_by_long_name := a4 \<rparr>"
      using run False r1 r2 r3 r4 unfolding obj_add_object_def Let_def g0_def [symmetric] static_object_def [symmetric] o'_def [symmetric] by auto
    note t = inv0 [unfolded obj_inv_def]
    have s1: "by_nid.table_ok (n + 1) a1 \<and> (\<forall>e. lh_lookup hash_nid cmp_nid a1 e =
        (if ok1 \<and> cmp_nid o' e = 0 then Some o' else lh_lookup hash_nid cmp_nid (added_by_nid g0) e))"
      using by_nid.lh_add_spec [OF _ n r1] t by blast
    have s2: "by_data.table_ok (n + 1) a2 \<and> (ok2 \<longrightarrow> (\<forall>e. lh_lookup hash_data OBJ_cmp a2 e =
        (if obj_data o' \<noteq> [] \<and> OBJ_cmp o' e = 0 then Some o' else lh_lookup hash_data OBJ_cmp (added_by_data g0) e)))"
      using by_data.lh_add_spec [OF _ n, of "added_by_data g0" "malloc_ok 5" o' ok2 a2] by_data.table_ok_mono [of n _ "n + 1"] t r2
      by (cases "obj_data o' = []") auto
    have s3: "by_short_name.table_ok (n + 1) a3 \<and> (ok3 \<longrightarrow> (\<forall>e. lh_lookup hash_short_name cmp_short_name a3 e =
        (if obj_sn o' \<noteq> None \<and> cmp_short_name o' e = 0 then Some o' else lh_lookup hash_short_name cmp_short_name (added_by_short_name g0) e)))"
      using by_short_name.lh_add_spec [OF _ n, of "added_by_short_name g0" "malloc_ok 6" o' ok3 a3] by_short_name.table_ok_mono [of n _ "n + 1"] t r3
      by (cases "obj_sn o' = None") auto
    have s4: "by_long_name.table_ok (n + 1) a4 \<and> (ok4 \<longrightarrow> (\<forall>e. lh_lookup hash_long_name cmp_long_name a4 e =
        (if obj_ln o' \<noteq> None \<and> cmp_long_name o' e = 0 then Some o' else lh_lookup hash_long_name cmp_long_name (added_by_long_name g0) e)))"
      using by_long_name.lh_add_spec [OF _ n, of "added_by_long_name g0" "malloc_ok 7" o' ok4 a4] by_long_name.table_ok_mono [of n _ "n + 1"] t r4
      by (cases "obj_ln o' = None") auto
    have "obj_inv (n + 1) g'" "next_nid g' = next_nid g" using res(2) s1 s2 s3 s4 nid0 by (simp_all add: obj_inv_def)
    moreover have "find_nid g' m = find_nid g m" if "m \<noteq> obj_nid obj" for m
      using s1 that res unfolding find0 [symmetric] find_nid_def by (auto simp: cmp_nid_def o'_def)
    moreover have "find_nid g' m = (if m = obj_nid obj then Some o' else find_nid g m)" if ok for m
      using s1 that res unfolding find0 [symmetric] find_nid_def by (auto simp: cmp_nid_def o'_def)
    moreover have "find_data g' d = (if d \<noteq> [] \<and> d = obj_data obj then Some o' else find_data g d)" if ok for d
      using s2 that res unfolding find0 [symmetric] find_data_def by (auto simp: OBJ_cmp_eq_0 o'_def)
    moreover have "find_short_name g' s = (if obj_sn obj = Some s then Some o' else find_short_name g s)" if ok for s
      using s3 that res unfolding find0 [symmetric] find_short_name_def by (auto simp: cmp_short_name_def bytes_of_def o'_def split: option.splits)
    moreover have "find_long_name g' s = (if obj_ln obj = Some s then Some o' else find_long_name g s)" if ok for s
      using s4 that res unfolding find0 [symmetric] find_long_name_def by (auto simp: cmp_long_name_def bytes_of_def o'_def split: option.splits)
    ultimately show ?thesis unfolding o'_def by blast
  qed
qed

text \<open>
  The states that callers of \<open>OBJ_create\<close> can bring about, as long as the counter of NIDs, which each call may increase by one, is
  still in the range of \<open>int\<close>.
\<close>

inductive obj_reach :: "obj_tables \<Rightarrow> obj_globals \<Rightarrow> bool" for T where
  obj_reach_start: "NUM_NID T < 2 ^ 31 \<Longrightarrow> obj_reach T (obj_start T)"
| obj_reach_create: "obj_reach T g \<Longrightarrow> unat (next_nid g) < 2 ^ 31 - 1 \<Longrightarrow> OBJ_create env add_malloc oid sn ln g = (nid, g') \<Longrightarrow> obj_reach T g'"

lemma OBJ_dup_dynamic:
  assumes "OBJ_dup malloc_ok (Some obj) = Some r"
  shows "obj_sn r = obj_sn obj \<and> obj_ln r = obj_ln obj \<and> obj_nid r = obj_nid obj \<and> obj_data r = obj_data obj"
  using assms
  by (auto simp: OBJ_dup_def Let_def OPENSSL_strdup_def OPENSSL_memdup_def bytes_of_def split: if_splits option.splits)

lemma ASN1_OBJECT_create_Some:
  "ASN1_OBJECT_create malloc_ok nid data sn ln = Some obj \<Longrightarrow>
     obj_sn obj = sn \<and> obj_ln obj = ln \<and> obj_nid obj = nid \<and> obj_data obj = data \<and> length data \<le> INT_MAX"
  unfolding ASN1_OBJECT_create_def by (auto dest!: OBJ_dup_dynamic split: if_splits)

lemma oid_from_text_finish:
  assumes "CBB_init env n = Some cbb" "CBB_add_asn1_oid_from_text env 0 str cbb = (True, cbb')" "CBB_finish env 0 cbb' = Some out"
  shows "\<exists>ns. valid_oid ns \<and> str = dotted ns \<and> out = oid_octets ns"
proof -
  obtain ns where ns: "valid_oid ns" "str = dotted ns"
    using CBB_add_asn1_oid_from_text_bad [of env 0 str cbb] assms(2) by auto
  have rep: "cbb_rep cbb' (oid_octets ns, [])"
    using cbb_implementsD(2) [OF CBB_add_asn1_oid_from_text_ok [OF ns(1), of env 0], of cbb "([], [])"] CBB_init_rep [OF assms(1)] assms(2) ns(2)
    by (simp add: cbb_outcome_def tree_add_def tree_flush_def)
  have "out = oid_octets ns" using CBB_finish_rep(1) [OF rep assms(3)] by (simp add: tree_flush_root)
  then show ?thesis using ns by blast
qed

lemma create_object_cases:
  assumes "create_object_with_text_oid env get_nid oid sn ln g = (obj, g')"
  shows "(g' = g \<or> get_nid \<and> g' = g\<lparr> next_nid := next_nid g + 1 \<rparr>) \<and>
    (\<forall>p. obj = Some p \<longrightarrow> (\<exists>ns. valid_oid ns \<and> oid = dotted ns \<and> obj_data p = oid_octets ns \<and> length (obj_data p) \<le> INT_MAX
      \<and> obj_sn p = sn \<and> obj_ln p = ln \<and> obj_nid p = (if get_nid then sint (next_nid g) else 0)
      \<and> (get_nid \<longrightarrow> g' = g\<lparr> next_nid := next_nid g + 1 \<rparr>)))"
proof (cases "CBB_init env 32")
  case None
  then show ?thesis using assms by (simp add: create_object_with_text_oid_def)
next
  case (Some cbb)
  obtain ok cbb' where a: "CBB_add_asn1_oid_from_text env 0 oid cbb = (ok, cbb')" by fastforce
  show ?thesis
  proof (cases "ok \<and> CBB_finish env 0 cbb' \<noteq> None")
    case False
    then show ?thesis using assms Some a by (cases ok) (auto simp: create_object_with_text_oid_def)
  next
    case True
    then obtain out where out: "CBB_finish env 0 cbb' = Some out" by blast
    obtain ns where ns: "valid_oid ns" "oid = dotted ns" "out = oid_octets ns"
      using oid_from_text_finish [OF Some _ out] a True by metis
    have "obj = ASN1_OBJECT_create (env_malloc env) (if get_nid then sint (next_nid g) else 0) out sn ln"
      "g' = (if get_nid then g\<lparr> next_nid := next_nid g + 1 \<rparr> else g)"
      using assms Some a True out by (auto simp: create_object_with_text_oid_def obj_next_nid_def split: if_splits)
    then show ?thesis using ASN1_OBJECT_create_Some ns by (auto split: if_splits)
  qed
qed

lemma obj_inv_next [simp]: "obj_inv n (g\<lparr> next_nid := k \<rparr>) = obj_inv n g"
  by (simp add: obj_inv_def)

lemma obj_inv_mono: "obj_inv n g \<Longrightarrow> n \<le> m \<Longrightarrow> obj_inv m g"
  using by_nid.table_ok_mono by_data.table_ok_mono by_short_name.table_ok_mono by_long_name.table_ok_mono unfolding obj_inv_def by meson

lemma next_nid_step: "unat (w :: u32) < 2 ^ 31 - 1 \<Longrightarrow> unat (w + 1) = unat w + 1"
  by (subst unat_add_lem [THEN iffD1]) auto

text \<open>The invariant: no more objects were added than NIDs given out, and these follow the built-in ones.\<close>

definition nids_fresh :: "obj_globals \<Rightarrow> bool" where
  "nids_fresh g \<longleftrightarrow> (\<forall>m. unat (next_nid g) \<le> nat m \<longrightarrow> find_nid g m = None)"

lemma sint_of_small:
  assumes "unat (w :: u32) < 2147483647"
  shows "sint w = int (unat w)"
proof -
  have "uint w < 2147483647" using assms uint_nat [of w] by linarith
  moreover have "- (2 ^ 31) \<le> uint w" by (rule order.trans [of _ 0]) simp_all
  ultimately have "signed_take_bit 31 (uint w) = uint w" by (intro signed_take_bit_int_eq_self) simp_all
  moreover have "sint w = signed_take_bit 31 (uint w)" by (simp add: sint_uint)
  ultimately show ?thesis using uint_nat [of w] by linarith
qed

lemma obj_reach_inv:
  "obj_reach T g \<Longrightarrow> obj_inv (unat (next_nid g)) g \<and> NUM_NID T \<le> unat (next_nid g) \<and> unat (next_nid g) < 2 ^ 31 \<and> nids_fresh g"
proof (induction rule: obj_reach.induct)
  case obj_reach_start
  have "unat (of_nat (NUM_NID T) :: u32) = NUM_NID T"
    using obj_reach_start by (simp add: unat_of_nat)
  then show ?case using obj_reach_start
    by (simp add: obj_start_def obj_inv_def by_nid.table_ok_def by_data.table_ok_def by_short_name.table_ok_def by_long_name.table_ok_def
        nids_fresh_def find_nid_def lh_lookup_def)
next
  case (obj_reach_create g env add_malloc oid sn ln nid g')
  obtain obj g1 where c: "create_object_with_text_oid env True oid sn ln g = (obj, g1)" by fastforce
  note cc = create_object_cases [OF c]
  note step = next_nid_step [OF obj_reach_create.hyps(2)]
  have inv1: "obj_inv (unat (next_nid g)) g1" using cc obj_reach_create.IH by auto
  have find1: "find_nid g1 = find_nid g" using cc by (auto simp: find_nid_def fun_eq_iff)
  show ?case
  proof (cases obj)
    case None
    then have "g' = g1" using obj_reach_create.hyps(3) c by (simp add: OBJ_create_def)
    then show ?thesis using cc step obj_reach_create.IH obj_inv_mono [OF inv1, of "unat (next_nid g) + 1"] obj_reach_create.hyps(2) find1
      by (auto simp: nids_fresh_def)
  next
    case (Some p)
    obtain ok g2 where a: "obj_add_object add_malloc p g1 = (ok, g2)" by fastforce
    have n: "unat (next_nid g) + 1 < 2 ^ 64" using obj_reach_create.hyps(2) by simp
    have g1: "g1 = g\<lparr> next_nid := next_nid g + 1 \<rparr>" and p: "obj_nid p = sint (next_nid g)" using cc Some by auto
    have nid: "obj_nid p = int (unat (next_nid g))" using sint_of_small [of "next_nid g"] obj_reach_create.hyps(2) p by simp
    have g': "g' = g2" using obj_reach_create.hyps(3) c Some a by (cases ok) (simp_all add: OBJ_create_def)
    note add = obj_add_object_spec [OF inv1 n a]
    have "nids_fresh g'" unfolding nids_fresh_def
    proof (intro allI impI)
      fix m assume "unat (next_nid g') \<le> nat m"
      then have m: "unat (next_nid g) < nat m" using add g1 g' step by simp
      then have "m \<noteq> obj_nid p" using nid by auto
      then have "find_nid g' m = find_nid g m" using add g' find1 by simp
      then show "find_nid g' m = None" using m obj_reach_create.IH by (simp add: nids_fresh_def)
    qed
    then show ?thesis using add g' g1 step obj_reach_create.IH obj_reach_create.hyps(2) by simp
  qed
qed

lemma OBJ_create_spec:
  assumes reach: "obj_reach T g" and room: "unat (next_nid g) < 2 ^ 31 - 1" and run: "OBJ_create env add_malloc oid sn ln g = (nid, g')" and ok: "nid \<noteq> 0"
  obtains ns obj where "valid_oid ns" "oid = dotted ns" "obj_data obj = oid_octets ns" "obj_sn obj = sn" "obj_ln obj = ln"
    "obj_nid obj = nid" "nid = int (unat (next_nid g))" "int (NUM_NID T) \<le> nid" "find_nid g nid = None" "length (oid_octets ns) \<le> INT_MAX"
    "\<And>m. find_nid g' m = (if m = nid then Some obj else find_nid g m)"
    "\<And>d. find_data g' d = (if d = oid_octets ns then Some obj else find_data g d)"
    "\<And>s. find_short_name g' s = (if sn = Some s then Some obj else find_short_name g s)"
    "\<And>s. find_long_name g' s = (if ln = Some s then Some obj else find_long_name g s)"
proof -
  note inv = obj_reach_inv [OF reach]
  obtain op g1 where c: "create_object_with_text_oid env True oid sn ln g = (op, g1)" by fastforce
  obtain p where p: "op = Some p" using run ok c by (cases op) (simp_all add: OBJ_create_def)
  obtain g2 where a: "obj_add_object add_malloc p g1 = (True, g2)" "g' = g2" "nid = obj_nid p"
    using run ok c p by (cases "obj_add_object add_malloc p g1") (auto simp: OBJ_create_def split: bool.splits)
  obtain ns where ns: "valid_oid ns" "oid = dotted ns" "obj_data p = oid_octets ns" "length (obj_data p) \<le> INT_MAX" "obj_sn p = sn" "obj_ln p = ln"
      "obj_nid p = sint (next_nid g)" "g1 = g\<lparr> next_nid := next_nid g + 1 \<rparr>"
    using create_object_cases [OF c] p by auto
  have n: "unat (next_nid g) + 1 < 2 ^ 64" using room by simp
  have inv1: "obj_inv (unat (next_nid g)) g1" using inv ns(8) by simp
  note add = obj_add_object_spec [OF inv1 n a(1), simplified, THEN conjunct2, THEN conjunct2, THEN conjunct2]
  have finds: "find_nid g1 = find_nid g" "find_data g1 = find_data g" "find_short_name g1 = find_short_name g" "find_long_name g1 = find_long_name g"
    unfolding ns(8) by (simp_all add: fun_eq_iff find_nid_def find_data_def find_short_name_def find_long_name_def)
  have small: "unat (next_nid g) < 2147483647" using room by simp
  have "sint (next_nid g) = int (unat (next_nid g))" by (rule sint_of_small [OF small])
  then have nid: "nid = int (unat (next_nid g))" using a(3) ns(7) by simp
  have ne: "oid_octets ns \<noteq> []" using ns(1) by (rule valid_oid_cases) (simp add: base128_def)
  show thesis
  proof (rule that [of ns "static_object p"])
    show "find_nid g' m = (if m = nid then Some (static_object p) else find_nid g m)" for m using add a(2,3) finds by metis
    show "find_data g' d = (if d = oid_octets ns then Some (static_object p) else find_data g d)" for d
      using add a(2) finds(2) ne unfolding ns(3) by metis
    show "find_short_name g' s = (if sn = Some s then Some (static_object p) else find_short_name g s)" for s
      using add a(2) finds(3) unfolding ns(5) by metis
    show "find_long_name g' s = (if ln = Some s then Some (static_object p) else find_long_name g s)" for s
      using add a(2) finds(4) unfolding ns(6) by metis
    show "int (NUM_NID T) \<le> nid" unfolding nid using inv by (simp only: of_nat_le_iff)
    show "find_nid g nid = None" unfolding nid using inv by (simp add: nids_fresh_def)
  qed (use ns nid a(3) in simp_all)
qed


section \<open>Built-in objects\<close>

text \<open>
  What the searches need of the tables. Each order lists the built-in NIDs of the objects with a name, or with octets, and is
  ascending. Names are unique; two objects may have the same octets.
\<close>

definition lists_objects :: "obj_tables \<Rightarrow> (asn1_object \<Rightarrow> bool) \<Rightarrow> nat list \<Rightarrow> bool" where
  "lists_objects T p ns \<longleftrightarrow>
     (\<forall>n. n \<in> set ns \<longleftrightarrow> 0 < n \<and> n < NUM_NID T \<and> p (get_builtin_object T n)) \<and> (\<forall>n \<in> set ns. obj_nid (get_builtin_object T n) = int n)"

definition tables_ok :: "obj_tables \<Rightarrow> bool" where
  "tables_ok T \<longleftrightarrow>
     lists_objects T (\<lambda>obj. obj_sn obj \<noteq> None) (kNIDsInShortNameOrder T)
     \<and> lists_objects T (\<lambda>obj. obj_ln obj \<noteq> None) (kNIDsInLongNameOrder T)
     \<and> lists_objects T (\<lambda>obj. obj_data obj \<noteq> []) (kNIDsInOIDOrder T)
     \<and> sorted_wrt (\<lambda>m n. OBJ_cmp (get_builtin_object T m) (get_builtin_object T n) \<le> 0) (kNIDsInOIDOrder T)
     \<and> sorted_wrt (\<lambda>m n. strcmp (bytes_of (obj_sn (get_builtin_object T m))) (bytes_of (obj_sn (get_builtin_object T n))) < 0)
         (kNIDsInShortNameOrder T)
     \<and> sorted_wrt (\<lambda>m n. strcmp (bytes_of (obj_ln (get_builtin_object T m))) (bytes_of (obj_ln (get_builtin_object T n))) < 0)
         (kNIDsInLongNameOrder T)"

text \<open>From what \<open>bsearch\<close> returns on an order to what a lookup returns.\<close>

lemma search_result:
  assumes lists: "lists_objects T p ns" and found: "\<And>x. b = Some x \<Longrightarrow> x \<in> set ns \<and> c x" and none: "b = None \<longleftrightarrow> (\<forall>x\<in>set ns. \<not> c x)"
    and key: "\<And>n. n \<in> set ns \<Longrightarrow> c n \<longleftrightarrow> key n" "\<And>n. key n \<Longrightarrow> p (get_builtin_object T n)"
    and res: "r = (case b of None \<Rightarrow> 0 | Some x \<Rightarrow> obj_nid (get_builtin_object T x))"
  shows "(r = 0 \<longleftrightarrow> (\<forall>n. 0 < n \<and> n < NUM_NID T \<longrightarrow> \<not> key n)) \<and> (r \<noteq> 0 \<longrightarrow> (\<exists>n. 0 < n \<and> n < NUM_NID T \<and> key n \<and> r = int n))"
proof -
  have mem: "n \<in> set ns" if "0 < n" "n < NUM_NID T" "key n" for n using lists key(2) [OF that(3)] that unfolding lists_objects_def by blast
  show ?thesis
  proof (cases b)
    case None
    then show ?thesis using none key(1) mem res by auto
  next
    case (Some x)
    have x: "x \<in> set ns" "key x" using found [OF Some] key(1) by auto
    then have "0 < x" "x < NUM_NID T" "obj_nid (get_builtin_object T x) = int x" using lists unfolding lists_objects_def by auto
    then show ?thesis using x res Some by auto
  qed
qed

text \<open>The keys of a strictly ascending order are different.\<close>

lemma strcmp_order_unique:
  "sorted_wrt (\<lambda>m n. strcmp (f m) (f n) < 0) ns \<Longrightarrow> x \<in> set ns \<Longrightarrow> y \<in> set ns \<Longrightarrow> f x = f y \<Longrightarrow> x = y"
proof (induction ns)
  case (Cons z ns)
  have ne: "f z \<noteq> f v" if "v \<in> set ns" for v
  proof -
    have "strcmp (f z) (f v) < 0" using Cons.prems(1) that by simp
    then show ?thesis using strcmp_eq_0 [of "f z" "f v"] by linarith
  qed
  then show ?case using Cons ne [symmetric] by auto
qed simp

lemma builtin_by_data:
  assumes "tables_ok T" "find_data g d = None" "length d \<le> INT_MAX" "d \<noteq> []"
  defines "key \<equiv> \<lambda>n. obj_data (get_builtin_object T n) = d"
  shows "(OBJ_cbs2nid T g d = 0 \<longleftrightarrow> (\<forall>n. 0 < n \<and> n < NUM_NID T \<longrightarrow> \<not> key n))
    \<and> (OBJ_cbs2nid T g d \<noteq> 0 \<longrightarrow> (\<exists>n. 0 < n \<and> n < NUM_NID T \<and> key n \<and> OBJ_cbs2nid T g d = int n))"
proof -
  let ?key = "key_object\<lparr> obj_data := d \<rparr>" and ?L = "kNIDsInOIDOrder T"
  have ok: "lists_objects T (\<lambda>obj. obj_data obj \<noteq> []) ?L"
    "sorted_wrt (\<lambda>m n. OBJ_cmp (get_builtin_object T m) (get_builtin_object T n) \<le> 0) ?L" using assms(1) by (simp_all add: tables_ok_def)
  show ?thesis
  proof (rule search_result [OF ok(1)])
    show "OBJ_cbs2nid T g d = (case bsearch (obj_cmp T ?key) ?L 0 (length ?L) of None \<Rightarrow> 0 | Some n \<Rightarrow> obj_nid (get_builtin_object T n))"
      using assms(2,3) by (simp add: OBJ_cbs2nid_def OBJ_obj2nid_def find_data_def)
    show "x \<in> set ?L \<and> obj_cmp T ?key x = 0" if "bsearch (obj_cmp T ?key) ?L 0 (length ?L) = Some x" for x
      using oid_order.bsearch_found [OF order.refl that] .
    show "bsearch (obj_cmp T ?key) ?L 0 (length ?L) = None \<longleftrightarrow> (\<forall>x\<in>set ?L. obj_cmp T ?key x \<noteq> 0)" by (rule oid_order.bsearch_None [OF ok(2)])
  qed (use assms(4) in \<open>auto simp: key_def obj_cmp_def OBJ_cmp_eq_0\<close>)
qed

lemma builtin_by_short_name:
  assumes "tables_ok T" "find_short_name g s = None"
  defines "key \<equiv> \<lambda>n. obj_sn (get_builtin_object T n) = Some s"
  shows "(OBJ_sn2nid T g s = 0 \<longleftrightarrow> (\<forall>n. 0 < n \<and> n < NUM_NID T \<longrightarrow> \<not> key n))
    \<and> (OBJ_sn2nid T g s \<noteq> 0 \<longrightarrow> (\<exists>n. 0 < n \<and> n < NUM_NID T \<and> key n \<and> OBJ_sn2nid T g s = int n))"
proof -
  let ?L = "kNIDsInShortNameOrder T"
  have ok: "lists_objects T (\<lambda>obj. obj_sn obj \<noteq> None) ?L"
    "sorted_wrt (\<lambda>m n. strcmp (bytes_of (obj_sn (get_builtin_object T m))) (bytes_of (obj_sn (get_builtin_object T n))) < 0) ?L"
    using assms(1) by (simp_all add: tables_ok_def)
  show ?thesis
  proof (rule search_result [OF ok(1)])
    show "OBJ_sn2nid T g s = (case bsearch (short_name_cmp T s) ?L 0 (length ?L) of None \<Rightarrow> 0 | Some n \<Rightarrow> obj_nid (get_builtin_object T n))"
      using assms(2) by (simp add: OBJ_sn2nid_def find_short_name_def)
    show "x \<in> set ?L \<and> short_name_cmp T s x = 0" if "bsearch (short_name_cmp T s) ?L 0 (length ?L) = Some x" for x
      using short_name_order.bsearch_found [OF order.refl that] .
    show "bsearch (short_name_cmp T s) ?L 0 (length ?L) = None \<longleftrightarrow> (\<forall>x\<in>set ?L. short_name_cmp T s x \<noteq> 0)"
      by (rule short_name_order.bsearch_None [OF ok(2)])
    show "short_name_cmp T s n = 0 \<longleftrightarrow> key n" if "n \<in> set ?L" for n
      using ok(1) that by (auto simp: key_def short_name_cmp_def lists_objects_def bytes_of_def split: option.splits)
  qed (auto simp: key_def)
qed

lemma builtin_by_long_name:
  assumes "tables_ok T" "find_long_name g s = None"
  defines "key \<equiv> \<lambda>n. obj_ln (get_builtin_object T n) = Some s"
  shows "(OBJ_ln2nid T g s = 0 \<longleftrightarrow> (\<forall>n. 0 < n \<and> n < NUM_NID T \<longrightarrow> \<not> key n))
    \<and> (OBJ_ln2nid T g s \<noteq> 0 \<longrightarrow> (\<exists>n. 0 < n \<and> n < NUM_NID T \<and> key n \<and> OBJ_ln2nid T g s = int n))"
proof -
  let ?L = "kNIDsInLongNameOrder T"
  have ok: "lists_objects T (\<lambda>obj. obj_ln obj \<noteq> None) ?L"
    "sorted_wrt (\<lambda>m n. strcmp (bytes_of (obj_ln (get_builtin_object T m))) (bytes_of (obj_ln (get_builtin_object T n))) < 0) ?L"
    using assms(1) by (simp_all add: tables_ok_def)
  show ?thesis
  proof (rule search_result [OF ok(1)])
    show "OBJ_ln2nid T g s = (case bsearch (long_name_cmp T s) ?L 0 (length ?L) of None \<Rightarrow> 0 | Some n \<Rightarrow> obj_nid (get_builtin_object T n))"
      using assms(2) by (simp add: OBJ_ln2nid_def find_long_name_def)
    show "x \<in> set ?L \<and> long_name_cmp T s x = 0" if "bsearch (long_name_cmp T s) ?L 0 (length ?L) = Some x" for x
      using long_name_order.bsearch_found [OF order.refl that] .
    show "bsearch (long_name_cmp T s) ?L 0 (length ?L) = None \<longleftrightarrow> (\<forall>x\<in>set ?L. long_name_cmp T s x \<noteq> 0)"
      by (rule long_name_order.bsearch_None [OF ok(2)])
    show "long_name_cmp T s n = 0 \<longleftrightarrow> key n" if "n \<in> set ?L" for n
      using ok(1) that by (auto simp: key_def long_name_cmp_def lists_objects_def bytes_of_def split: option.splits)
  qed (auto simp: key_def)
qed

lemma builtin_names_unique:
  assumes "tables_ok T" "0 < m" "m < NUM_NID T" "0 < n" "n < NUM_NID T"
  shows "obj_sn (get_builtin_object T m) = Some s \<Longrightarrow> obj_sn (get_builtin_object T n) = Some s \<Longrightarrow> m = n"
    "obj_ln (get_builtin_object T m) = Some s \<Longrightarrow> obj_ln (get_builtin_object T n) = Some s \<Longrightarrow> m = n"
  using assms strcmp_order_unique [of "\<lambda>n. bytes_of (obj_sn (get_builtin_object T n))" "kNIDsInShortNameOrder T" m n]
    strcmp_order_unique [of "\<lambda>n. bytes_of (obj_ln (get_builtin_object T n))" "kNIDsInLongNameOrder T" m n]
  by (simp_all add: tables_ok_def lists_objects_def)

section \<open>DER of an object\<close>

definition names_fit :: "c_string option \<Rightarrow> c_string option \<Rightarrow> bool" where
  "names_fit sn ln \<longleftrightarrow> (\<forall>s. sn = Some s \<or> ln = Some s \<longrightarrow> length s < 2 ^ 62)"

lemma ASN1_OBJECT_create_succeeds:
  assumes "\<And>k. malloc_ok k" "length data \<le> INT_MAX" "names_fit sn ln"
  shows "ASN1_OBJECT_create malloc_ok nid data sn ln =
    Some \<lparr> obj_sn = sn, obj_ln = ln, obj_nid = nid, obj_data = data, obj_flags = 13 \<rparr>"
proof -
  have m: "OPENSSL_malloc malloc_ok n" if "n < 2 ^ 63" for n using OPENSSL_malloc_all [of malloc_ok n] assms(1) that by blast
  have "OPENSSL_memdup malloc_ok data = (if data = [] then None else Some data)"
    using m [of "length data"] assms(2) by (simp add: OPENSSL_memdup_def)
  moreover have "OPENSSL_strdup malloc_ok s = s" if "s = sn \<or> s = ln" for s
  proof (cases s)
    case (Some t)
    then have "length t < 2 ^ 62" using assms(3) that by (auto simp: names_fit_def)
    then have "size_add (length t) 1 = length t + 1" "OPENSSL_malloc malloc_ok (length t + 1)" using m [of "length t + 1"] by (simp_all add: size_add_small)
    then show ?thesis using Some by (simp add: OPENSSL_strdup_def OPENSSL_memdup_def)
  qed (simp add: OPENSSL_strdup_def)
  ultimately show ?thesis using assms(2) m [of 40]
    by (cases sn; cases ln) (simp_all add: ASN1_OBJECT_create_def OBJ_dup_def ASN1_OBJECT_new_def bytes_of_def Let_def)
qed

lemma valid_asn1_oid_nonempty: "CBS_is_valid_asn1_oid data \<Longrightarrow> data \<noteq> []"
  by (auto simp: CBS_is_valid_asn1_oid_def)

lemma d2i_ASN1_OBJECT_iff:
  assumes "\<And>k. malloc_ok k"
  shows "d2i_ASN1_OBJECT malloc_ok inp = (Some obj, rest) \<longleftrightarrow>
    CBS_is_valid_asn1_oid (obj_data obj) \<and> length (obj_data obj) \<le> INT_MAX
      \<and> obj = \<lparr> obj_sn = None, obj_ln = None, obj_nid = 0, obj_data = obj_data obj, obj_flags = 13 \<rparr>
      \<and> inp = der_element CBS_ASN1_OBJECT (obj_data obj) @ rest" (is "?L \<longleftrightarrow> ?R")
proof
  assume ?L
  then obtain child x where c: "CBS_get_asn1 CBS_ASN1_OBJECT inp = (Some child, rest)" "c2i_ASN1_OBJECT malloc_ok child = (Some obj, x)"
    by (auto simp: d2i_ASN1_OBJECT_def split: prod.splits option.splits)
  have v: "CBS_is_valid_asn1_oid child" "ASN1_OBJECT_create malloc_ok 0 child None None = Some obj"
    using c(2) by (auto simp: c2i_ASN1_OBJECT_def split: if_splits option.splits)
  have "length child \<le> INT_MAX" using ASN1_OBJECT_create_Some [OF v(2)] by simp
  then show ?R using ASN1_OBJECT_create_succeeds [of malloc_ok child None None 0] v c(1) assms by (auto simp: CBS_get_asn1_iff names_fit_def)
next
  assume R: ?R
  then have "CBS_get_asn1 CBS_ASN1_OBJECT inp = (Some (obj_data obj), rest)" by (simp add: CBS_get_asn1_iff valid_tag_def)
  moreover have "ASN1_OBJECT_create malloc_ok 0 (obj_data obj) None None = Some obj"
    using ASN1_OBJECT_create_succeeds [of malloc_ok "obj_data obj" None None 0] R assms by (simp add: names_fit_def)
  ultimately show ?L using R by (simp add: d2i_ASN1_OBJECT_def c2i_ASN1_OBJECT_def)
qed

lemma i2d_ASN1_OBJECT_spec:
  assumes "\<And>k. env_malloc env k" "length (obj_data obj) \<le> INT_MAX"
  shows "i2d_ASN1_OBJECT env (Some obj) (Outp_buffer mem pos) =
    (let der = der_element CBS_ASN1_OBJECT (obj_data obj)
     in if obj_data obj = [] \<or> length der > INT_MAX then (- 1, Outp_buffer mem pos)
        else (int (length der), Outp_buffer (buf_write pos der mem) (pos + length der)))"
proof (cases "obj_data obj = []")
  case True
  then show ?thesis by (simp add: i2d_ASN1_OBJECT_def)
next
  case False
  let ?data = "obj_data obj" let ?der = "der_element CBS_ASN1_OBJECT (obj_data obj)"
  let ?f = "cbb_then (CBB_add_asn1 env 0 CBS_ASN1_OBJECT) (CBB_add_bytes env 1 ?data)"
  have len: "size_add (length ?data) 2 = length ?data + 2" using assms(2) by (simp add: size_add_small)
  obtain cbb where cbb: "CBB_init env (length ?data + 2) = Some cbb"
    using OPENSSL_malloc_all [of "env_malloc env" "length ?data + 2"] assms by (auto simp: CBB_init_def)
  obtain ok cbb' where run: "?f cbb = (ok, cbb')" by fastforce
  have i: "cbb_implements env ?f (\<lambda>t. Option.bind (tree_add_asn1 0 CBS_ASN1_OBJECT t) (tree_add 1 ?data))"
    using assms(2) by (intro cbb_implements_then cbb_implements_CBB_add_asn1 cbb_implements_CBB_add_bytes) simp
  let ?t = "Option.bind (tree_add_asn1 0 CBS_ASN1_OBJECT ([], [])) (tree_add 1 ?data)"
  have el: "Option.bind ?t (tree_flush 0) = Some (?der, [])"
    using tree_element [of 0 CBS_ASN1_OBJECT "([], [])" ?data] assms(2)
    by (simp add: tree_add_element_def tree_add_def tree_flush_def)
  then obtain t where t: "?t = Some t" "tree_flush 0 t = Some (?der, [])" by (auto simp: bind_eq_Some_conv)
  have o: "cbb_outcome env cbb (Some t) (ok, cbb')"
    using cbb_implementsD(2) [OF i conjunct1 [OF CBB_init_rep [OF cbb]]] unfolding run t(1) .
  have size: "length ?der \<le> 2 ^ 32"
    using length_der_length_le [of "length ?data"] assms(2) by (simp add: der_element_def der_tag_def)
  have room: "cbb_room env (cbb_base cbb) m" if "m \<le> 2 ^ 32" for m
    using CBB_init_room [OF cbb, of m] assms that by simp
  have "tree_size t \<le> length ?der" using tree_flush_size [OF t(2)] by simp
  then have ok and rep: "cbb_rep cbb' t" and "cbb_room env (cbb_base cbb') (length ?der)"
    using o room [of "tree_size t"] room [OF size] size by (auto simp: cbb_outcome_def split: if_splits)
  then have "CBB_finish env 0 cbb' = Some ?der" using CBB_finish_rep(2) [OF rep t(2)] by simp
  then show ?thesis using False len cbb run \<open>ok\<close> by (simp add: i2d_ASN1_OBJECT_def CBB_finish_i2d_def Let_def)
qed

section \<open>Success of \<open>OBJ_create\<close>\<close>

lemma oid_from_text_succeeds:
  assumes "\<And>k. env_malloc env k" "valid_oid ns" "length (oid_octets ns) \<le> 2 ^ 61"
  obtains cbb cbb' where "CBB_init env 32 = Some cbb" "CBB_add_asn1_oid_from_text env 0 (dotted ns) cbb = (True, cbb')"
    "CBB_finish env 0 cbb' = Some (oid_octets ns)"
proof -
  obtain cbb where cbb: "CBB_init env 32 = Some cbb" using assms(1) by (auto simp: CBB_init_def OPENSSL_malloc_def size_add_def)
  obtain ok cbb' where run: "CBB_add_asn1_oid_from_text env 0 (dotted ns) cbb = (ok, cbb')" by fastforce
  have o: "cbb_outcome env cbb (Some (oid_octets ns, [])) (ok, cbb')"
    using cbb_implementsD(2) [OF CBB_add_asn1_oid_from_text_ok [OF assms(2)], of cbb "([], [])" env 0] CBB_init_rep [OF cbb] run
    by (simp add: tree_add_def tree_flush_def)
  have "cbb_room env (cbb_base cbb) (length (oid_octets ns))" by (rule CBB_init_room [OF cbb]) (use assms in simp_all)
  then have ok and rep: "cbb_rep cbb' (oid_octets ns, [])" and room: "cbb_room env (cbb_base cbb') (length (oid_octets ns))"
    using o by (auto simp: cbb_outcome_def split: if_splits)
  have "CBB_finish env 0 cbb' = Some (oid_octets ns)" using CBB_finish_rep(2) [OF rep _ room] by (simp add: tree_flush_root)
  then show thesis using that cbb run \<open>ok\<close> by simp
qed

lemma lh_ensure_succeeds: "(\<And>k. malloc_ok k) \<Longrightarrow> lh_ensure malloc_ok lh \<noteq> None"
  by (auto simp: lh_ensure_def OPENSSL_lh_new_def OPENSSL_zalloc_def OPENSSL_calloc_def OPENSSL_malloc_def size_add_def size_mul_def
      split: option.splits)

lemma lh_add_succeeds: "(\<And>k. malloc_ok k) \<Longrightarrow> lh \<noteq> None \<Longrightarrow> fst (lh_add malloc_ok hash cmp lh obj)"
  by (auto simp: lh_add_def OPENSSL_lh_insert_def OPENSSL_malloc_def size_add_def split: prod.splits option.splits)

lemma obj_add_object_succeeds: "(\<And>i k. malloc_ok i k) \<Longrightarrow> fst (obj_add_object malloc_ok obj g)"
  by (simp add: obj_add_object_def Let_def split_def lh_ensure_succeeds lh_add_succeeds)

lemma OBJ_create_succeeds:
  assumes "\<And>k. env_malloc env k" "valid_oid ns" "length (oid_octets ns) \<le> INT_MAX" "names_fit sn ln" "\<And>i k. add_malloc i k"
  shows "fst (OBJ_create env add_malloc (dotted ns) sn ln g) = sint (next_nid g)"
proof -
  let ?obj = "\<lparr> obj_sn = sn, obj_ln = ln, obj_nid = sint (next_nid g), obj_data = oid_octets ns, obj_flags = 13 \<rparr>"
  let ?g1 = "g\<lparr> next_nid := next_nid g + 1 \<rparr>"
  have "length (oid_octets ns) \<le> 2 ^ 61" using assms(3) by (rule order.trans) simp
  with assms(1,2) obtain cbb cbb' where run: "CBB_init env 32 = Some cbb" "CBB_add_asn1_oid_from_text env 0 (dotted ns) cbb = (True, cbb')"
    "CBB_finish env 0 cbb' = Some (oid_octets ns)" by (rule oid_from_text_succeeds)
  have "create_object_with_text_oid env True (dotted ns) sn ln g = (Some ?obj, ?g1)"
    unfolding create_object_with_text_oid_def run option.case prod.case bool.case if_True obj_next_nid_def
    by (simp only: ASN1_OBJECT_create_succeeds [OF assms(1,3,4)])
  moreover have "fst (obj_add_object add_malloc ?obj ?g1)" using obj_add_object_succeeds assms(5) by blast
  moreover obtain g2 where "obj_add_object add_malloc ?obj ?g1 = (True, g2)"
    using calculation(2) by (cases "obj_add_object add_malloc ?obj ?g1") simp
  ultimately show ?thesis unfolding OBJ_create_def by (simp del: oid_octets.simps)
qed

section \<open>Properties\<close>

lemma OBJ_nid2obj_added: "NUM_NID T \<le> nat m \<Longrightarrow> OBJ_nid2obj T g m = (if m = 0 then Some OBJ_get_undef else find_nid g m)"
  by (auto simp: OBJ_nid2obj_def find_nid_def)

lemma OBJ_nid2obj_cong: "find_nid g' m = find_nid g m \<Longrightarrow> OBJ_nid2obj T g' m = OBJ_nid2obj T g m"
  by (simp add: OBJ_nid2obj_def find_nid_def)

lemma lookups_by_key:
  "OBJ_cbs2nid T g d = (if length d > INT_MAX then 0 else case find_data g d of Some obj \<Rightarrow> obj_nid obj
     | None \<Rightarrow> OBJ_cbs2nid T (g\<lparr> added_by_data := None \<rparr>) d)"
  "OBJ_sn2nid T g s = (case find_short_name g s of Some obj \<Rightarrow> obj_nid obj | None \<Rightarrow> OBJ_sn2nid T (g\<lparr> added_by_short_name := None \<rparr>) s)"
  "OBJ_ln2nid T g s = (case find_long_name g s of Some obj \<Rightarrow> obj_nid obj | None \<Rightarrow> OBJ_ln2nid T (g\<lparr> added_by_long_name := None \<rparr>) s)"
  by (simp_all add: OBJ_cbs2nid_def OBJ_obj2nid_def OBJ_sn2nid_def OBJ_ln2nid_def find_data_def find_short_name_def find_long_name_def
      lh_lookup_def split: option.splits)

lemma builtin_only:
  "OBJ_cbs2nid T (g\<lparr> added_by_data := None \<rparr>) d = OBJ_cbs2nid T (obj_start T) d"
  "OBJ_sn2nid T (g\<lparr> added_by_short_name := None \<rparr>) s = OBJ_sn2nid T (obj_start T) s"
  "OBJ_ln2nid T (g\<lparr> added_by_long_name := None \<rparr>) s = OBJ_ln2nid T (obj_start T) s"
  by (simp_all add: OBJ_cbs2nid_def OBJ_obj2nid_def OBJ_sn2nid_def OBJ_ln2nid_def obj_start_def lh_lookup_def)

text \<open>C26: \<open>OBJ_create\<close>, from every state that calls of it bring about. With an allocator that does not fail it succeeds exactly for
  the dotted form of an object identifier whose octets fit in an \<open>int\<close>. When it succeeds, the NID it returns had no object before,
  and afterwards the NID, the contents octets and both names lead to the new object, also where they led to another one before;
  every other NID, octets or name leads where it did.\<close>
theorem OBJ_create_registers:
  assumes "obj_reach T g" "0 < NUM_NID T" "unat (next_nid g) < 2 ^ 31 - 1" "OBJ_create env add_malloc oid sn ln g = (nid, g')" "names_fit sn ln"
  shows "((\<forall>k. env_malloc env k) \<and> (\<forall>i k. add_malloc i k) \<longrightarrow> (nid \<noteq> 0 \<longleftrightarrow> (\<exists>ns. valid_oid ns \<and> oid = dotted ns \<and> length (oid_octets ns) \<le> INT_MAX)))
    \<and> (nid \<noteq> 0 \<longrightarrow> (\<exists>ns obj. valid_oid ns \<and> oid = dotted ns
          \<and> obj_data obj = oid_octets ns \<and> obj_sn obj = sn \<and> obj_ln obj = ln \<and> obj_nid obj = nid \<and> OBJ_nid2obj T g nid = None
          \<and> (\<forall>m. OBJ_nid2obj T g' m = (if m = nid then Some obj else OBJ_nid2obj T g m))
          \<and> (\<forall>d. OBJ_cbs2nid T g' d = (if d = oid_octets ns then nid else OBJ_cbs2nid T g d))
          \<and> (\<forall>s. OBJ_sn2nid T g' s = (if sn = Some s then nid else OBJ_sn2nid T g s))
          \<and> (\<forall>s. OBJ_ln2nid T g' s = (if ln = Some s then nid else OBJ_ln2nid T g s))))"
proof (intro conjI impI)
  assume nid: "nid \<noteq> 0"
  obtain ns obj where c: "valid_oid ns" "oid = dotted ns" "obj_data obj = oid_octets ns" "obj_sn obj = sn" "obj_ln obj = ln"
    "obj_nid obj = nid" "nid = int (unat (next_nid g))" "int (NUM_NID T) \<le> nid" "find_nid g nid = None" "length (oid_octets ns) \<le> INT_MAX"
    and f: "\<And>m. find_nid g' m = (if m = nid then Some obj else find_nid g m)"
    "\<And>d. find_data g' d = (if d = oid_octets ns then Some obj else find_data g d)"
    "\<And>s. find_short_name g' s = (if sn = Some s then Some obj else find_short_name g s)"
    "\<And>s. find_long_name g' s = (if ln = Some s then Some obj else find_long_name g s)"
    by (rule OBJ_create_spec [OF assms(1,3,4) nid]) (rule that)
  have n: "NUM_NID T \<le> nat nid" using c(8) by simp
  have "OBJ_nid2obj T g nid = None" using OBJ_nid2obj_added [OF n] nid c(9) by simp
  moreover have "OBJ_nid2obj T g' m = (if m = nid then Some obj else OBJ_nid2obj T g m)" for m
    using OBJ_nid2obj_added [OF n] OBJ_nid2obj_cong [of g' m g T] nid f(1) [of m] by (cases "m = nid") simp_all
  moreover have "OBJ_cbs2nid T g' d = (if d = oid_octets ns then nid else OBJ_cbs2nid T g d)" for d
    using f(2) [of d] c(6,10) unfolding lookups_by_key(1) [of T g'] lookups_by_key(1) [of T g] builtin_only by (cases "d = oid_octets ns") simp_all
  moreover have "OBJ_sn2nid T g' s = (if sn = Some s then nid else OBJ_sn2nid T g s)" for s
    using f(3) [of s] c(6) unfolding lookups_by_key(2) [of T g'] lookups_by_key(2) [of T g] builtin_only by (cases "sn = Some s") simp_all
  moreover have "OBJ_ln2nid T g' s = (if ln = Some s then nid else OBJ_ln2nid T g s)" for s
    using f(4) [of s] c(6) unfolding lookups_by_key(3) [of T g'] lookups_by_key(3) [of T g] builtin_only by (cases "ln = Some s") simp_all
  ultimately show "\<exists>ns obj. valid_oid ns \<and> oid = dotted ns
          \<and> obj_data obj = oid_octets ns \<and> obj_sn obj = sn \<and> obj_ln obj = ln \<and> obj_nid obj = nid \<and> OBJ_nid2obj T g nid = None
          \<and> (\<forall>m. OBJ_nid2obj T g' m = (if m = nid then Some obj else OBJ_nid2obj T g m))
          \<and> (\<forall>d. OBJ_cbs2nid T g' d = (if d = oid_octets ns then nid else OBJ_cbs2nid T g d))
          \<and> (\<forall>s. OBJ_sn2nid T g' s = (if sn = Some s then nid else OBJ_sn2nid T g s))
          \<and> (\<forall>s. OBJ_ln2nid T g' s = (if ln = Some s then nid else OBJ_ln2nid T g s))"
    using c(1-6) by blast
next
  assume m: "(\<forall>k. env_malloc env k) \<and> (\<forall>i k. add_malloc i k)"
  show "nid \<noteq> 0 \<longleftrightarrow> (\<exists>ns. valid_oid ns \<and> oid = dotted ns \<and> length (oid_octets ns) \<le> INT_MAX)"
  proof
    assume nid: "nid \<noteq> 0"
    obtain ns where "valid_oid ns" "oid = dotted ns" "length (oid_octets ns) \<le> INT_MAX"
      by (rule OBJ_create_spec [OF assms(1,3,4) nid]) (rule that)
    then show "\<exists>ns. valid_oid ns \<and> oid = dotted ns \<and> length (oid_octets ns) \<le> INT_MAX" by blast
  next
    assume "\<exists>ns. valid_oid ns \<and> oid = dotted ns \<and> length (oid_octets ns) \<le> INT_MAX"
    then obtain ns where "valid_oid ns" "oid = dotted ns" "length (oid_octets ns) \<le> INT_MAX" by blast
    then have "nid = sint (next_nid g)" using OBJ_create_succeeds [of env ns sn ln add_malloc g] m assms(4,5) by simp
    moreover have "sint (next_nid g) = int (unat (next_nid g))" using sint_of_small assms(3) by simp
    moreover have "0 < unat (next_nid g)" using obj_reach_inv [OF assms(1)] assms(2) by linarith
    ultimately show "nid \<noteq> 0" by linarith
  qed
qed

definition one_object :: obj_tables where
  "one_object = \<lparr> kObjects = [\<lparr> obj_sn = Some [65], obj_ln = Some [66], obj_nid = 1, obj_data = [42], obj_flags = 0 \<rparr>, key_object],
     kNIDsInShortNameOrder = [1], kNIDsInLongNameOrder = [1], kNIDsInOIDOrder = [1] \<rparr>"

theorem OBJ_create_registers_witness:
  "\<exists>nid g'. nid \<noteq> 0 \<and> OBJ_create \<lparr> env_malloc = \<lambda>_. True, env_fill = 0 \<rparr> (\<lambda>_ _. True) [50, 46, 53] (Some [65]) None (obj_start one_object) = (nid, g')
     \<and> OBJ_sn2nid one_object g' [65] = nid \<and> OBJ_ln2nid one_object g' [66] = OBJ_ln2nid one_object (obj_start one_object) [66]"
proof -
  let ?env = "\<lparr> env_malloc = \<lambda>_. True, env_fill = 0 \<rparr>"
  obtain nid g' where run: "OBJ_create ?env (\<lambda>_ _. True) [50, 46, 53] (Some [65]) None (obj_start one_object) = (nid, g')" by fastforce
  have reach: "obj_reach one_object (obj_start one_object)" by (rule obj_reach_start) (simp add: one_object_def)
  have n: "0 < NUM_NID one_object" "unat (next_nid (obj_start one_object)) < 2 ^ 31 - 1" by (simp_all add: one_object_def obj_start_def)
  note r = OBJ_create_registers [OF reach n run]
  have fit: "names_fit (Some [65]) None" by (simp add: names_fit_def)
  have d: "dotted [2, 5] = [50, 46, 53]" by (simp add: decimal.simps)
  have v: "valid_oid [2, 5]" "length (oid_octets [2, 5]) \<le> INT_MAX" "oid_octets [2, 5] = [85]" by (simp_all add: base128_def)
  have "nid \<noteq> 0" using r [OF fit, THEN conjunct1] v d by fastforce
  with r [OF fit, THEN conjunct2] have "OBJ_sn2nid one_object g' [65] = nid"
    "OBJ_ln2nid one_object g' [66] = OBJ_ln2nid one_object (obj_start one_object) [66]" by auto
  then show ?thesis using run \<open>nid \<noteq> 0\<close> by blast
qed

lemma find_start:
  "find_data (obj_start T) d = None" "find_short_name (obj_start T) s = None" "find_long_name (obj_start T) s = None"
  by (simp_all add: obj_start_def find_short_name_def find_long_name_def find_data_def lh_lookup_def)

text \<open>C28: With an allocator that does not fail, \<open>d2i_ASN1_OBJECT\<close> reads exactly the DER of an OBJECT IDENTIFIER with valid contents
  of at most \<open>INT_MAX\<close> octets, into an object without names or NID, and \<open>i2d_ASN1_OBJECT\<close> writes the same DER back from every
  object that has octets, unless the DER is longer than an \<open>int\<close> can say.\<close>
theorem ASN1_OBJECT_der_roundtrip:
  assumes "\<And>k. env_malloc env k"
  shows "(d2i_ASN1_OBJECT (env_malloc env) inp = (Some obj, rest) \<longleftrightarrow>
      CBS_is_valid_asn1_oid (obj_data obj) \<and> length (obj_data obj) \<le> INT_MAX
      \<and> obj = \<lparr> obj_sn = None, obj_ln = None, obj_nid = 0, obj_data = obj_data obj, obj_flags = 13 \<rparr>
      \<and> inp = der_element CBS_ASN1_OBJECT (obj_data obj) @ rest)
    \<and> (length (obj_data obj) \<le> INT_MAX \<longrightarrow> i2d_ASN1_OBJECT env (Some obj) (Outp_buffer mem pos) =
        (let der = der_element CBS_ASN1_OBJECT (obj_data obj)
         in if obj_data obj = [] \<or> length der > INT_MAX then (- 1, Outp_buffer mem pos)
            else (int (length der), Outp_buffer (buf_write pos der mem) (pos + length der))))"
  using d2i_ASN1_OBJECT_iff [of "env_malloc env" inp obj rest] i2d_ASN1_OBJECT_spec [of env obj mem pos] assms by blast

theorem ASN1_OBJECT_der_roundtrip_witness:
  "let obj = \<lparr> obj_sn = None, obj_ln = None, obj_nid = 0, obj_data = [42, 3], obj_flags = 13 \<rparr>
   in d2i_ASN1_OBJECT (\<lambda>_. True) [6, 2, 42, 3, 9] = (Some obj, [9])
     \<and> i2d_ASN1_OBJECT \<lparr> env_malloc = \<lambda>_. True, env_fill = 0 \<rparr> (Some obj) (Outp_buffer [0, 0, 0, 0, 0] 1)
       = (4, Outp_buffer [0, 6, 2, 42, 3] 5)"
proof -
  have v: "CBS_is_valid_asn1_oid [42, 3]" by code_simp
  have e: "der_element 6 [42, 3] = [6, 2, 42, 3]" by (simp add: der_element_def der_tag_def der_length_def)
  show ?thesis
    using ASN1_OBJECT_der_roundtrip [of "\<lparr> env_malloc = \<lambda>_. True, env_fill = 0 \<rparr>" "[6, 2, 42, 3, 9]"
        "\<lparr> obj_sn = None, obj_ln = None, obj_nid = 0, obj_data = [42, 3], obj_flags = 13 \<rparr>" "[9]" "[0, 0, 0, 0, 0]" 1] v e
    by (simp add: buf_write_def)
qed

end
