(* ===== verification/ObjDat.thy ===== *)
theory ObjDat
  imports Obj
begin

text \<open>
  The tables of \<open>crypto/obj/obj_dat.h\<close> in parts: \<open>kObjects\<close> by twenty objects and the three orders by a hundred NIDs. The octets an
  object points to in \<open>kObjectData\<close> are written out in it, and the last entry of \<open>kObjects\<close>, which has no initialiser, is zero. Shown
  below: the tables are what the binary searches of \<open>obj.c\<close> need, and so what these return.
\<close>

section \<open>The tables\<close>

definition c_str :: "string \<Rightarrow> c_string" where
  "c_str = map of_char"

definition built_in :: "string \<Rightarrow> string \<Rightarrow> nat \<Rightarrow> bytes \<Rightarrow> asn1_object" where
  "built_in sn ln nid data =
     \<lparr> obj_sn = Some (c_str sn), obj_ln = Some (c_str ln), obj_nid = int nid, obj_data = data, obj_flags = 0 \<rparr>"

definition no_object :: asn1_object where
  "no_object = \<lparr> obj_sn = None, obj_ln = None, obj_nid = 0, obj_data = [], obj_flags = 0 \<rparr>"

definition kObjects_0 :: "asn1_object list" where
  "kObjects_0 = [
    built_in ''rsadsi'' ''RSA Data Security, Inc.'' 1 [0x2a, 0x86, 0x48, 0x86, 0xf7, 0x0d],
    built_in ''pkcs'' ''RSA Data Security, Inc. PKCS'' 2 [0x2a, 0x86, 0x48, 0x86, 0xf7, 0x0d, 0x01],
    built_in ''MD2'' ''md2'' 3 [0x2a, 0x86, 0x48, 0x86, 0xf7, 0x0d, 0x02, 0x02],
    built_in ''MD5'' ''md5'' 4 [0x2a, 0x86, 0x48, 0x86, 0xf7, 0x0d, 0x02, 0x05],
    built_in ''RC4'' ''rc4'' 5 [0x2a, 0x86, 0x48, 0x86, 0xf7, 0x0d, 0x03, 0x04],
    built_in ''rsaEncryption'' ''rsaEncryption'' 6 [0x2a, 0x86, 0x48, 0x86, 0xf7, 0x0d, 0x01, 0x01, 0x01],
    built_in ''RSA-MD2'' ''md2WithRSAEncryption'' 7 [0x2a, 0x86, 0x48, 0x86, 0xf7, 0x0d, 0x01, 0x01, 0x02],
    built_in ''RSA-MD5'' ''md5WithRSAEncryption'' 8 [0x2a, 0x86, 0x48, 0x86, 0xf7, 0x0d, 0x01, 0x01, 0x04],
    built_in ''PBE-MD2-DES'' ''pbeWithMD2AndDES-CBC'' 9 [0x2a, 0x86, 0x48, 0x86, 0xf7, 0x0d, 0x01, 0x05, 0x01],
    built_in ''PBE-MD5-DES'' ''pbeWithMD5AndDES-CBC'' 10 [0x2a, 0x86, 0x48, 0x86, 0xf7, 0x0d, 0x01, 0x05, 0x03],
    built_in ''X500'' ''directory services (X.500)'' 11 [0x55],
    built_in ''X509'' ''X509'' 12 [0x55, 0x04],
    built_in ''CN'' ''commonName'' 13 [0x55, 0x04, 0x03],
    built_in ''C'' ''countryName'' 14 [0x55, 0x04, 0x06],
    built_in ''L'' ''localityName'' 15 [0x55, 0x04, 0x07],
    built_in ''ST'' ''stateOrProvinceName'' 16 [0x55, 0x04, 0x08],
    built_in ''O'' ''organizationName'' 17 [0x55, 0x04, 0x0a],
    built_in ''OU'' ''organizationalUnitName'' 18 [0x55, 0x04, 0x0b],
    built_in ''RSA'' ''rsa'' 19 [0x55, 0x08, 0x01, 0x01],
    built_in ''pkcs7'' ''pkcs7'' 20 [0x2a, 0x86, 0x48, 0x86, 0xf7, 0x0d, 0x01, 0x07]]"

definition kObjects_1 :: "asn1_object list" where
  "kObjects_1 = [
    built_in ''pkcs7-data'' ''pkcs7-data'' 21 [0x2a, 0x86, 0x48, 0x86, 0xf7, 0x0d, 0x01, 0x07, 0x01],
    built_in ''pkcs7-signedData'' ''pkcs7-signedData'' 22 [0x2a, 0x86, 0x48, 0x86, 0xf7, 0x0d, 0x01, 0x07, 0x02],
    built_in ''pkcs7-envelopedData'' ''pkcs7-envelopedData'' 23 [0x2a, 0x86, 0x48, 0x86, 0xf7, 0x0d, 0x01, 0x07, 0x03],
    built_in ''pkcs7-signedAndEnvelopedData'' ''pkcs7-signedAndEnvelopedData'' 24 [0x2a, 0x86, 0x48, 0x86, 0xf7, 0x0d, 0x01, 0x07, 0x04],
    built_in ''pkcs7-digestData'' ''pkcs7-digestData'' 25 [0x2a, 0x86, 0x48, 0x86, 0xf7, 0x0d, 0x01, 0x07, 0x05],
    built_in ''pkcs7-encryptedData'' ''pkcs7-encryptedData'' 26 [0x2a, 0x86, 0x48, 0x86, 0xf7, 0x0d, 0x01, 0x07, 0x06],
    built_in ''pkcs3'' ''pkcs3'' 27 [0x2a, 0x86, 0x48, 0x86, 0xf7, 0x0d, 0x01, 0x03],
    built_in ''dhKeyAgreement'' ''dhKeyAgreement'' 28 [0x2a, 0x86, 0x48, 0x86, 0xf7, 0x0d, 0x01, 0x03, 0x01],
    built_in ''DES-ECB'' ''des-ecb'' 29 [0x2b, 0x0e, 0x03, 0x02, 0x06],
    built_in ''DES-CFB'' ''des-cfb'' 30 [0x2b, 0x0e, 0x03, 0x02, 0x09],
    built_in ''DES-CBC'' ''des-cbc'' 31 [0x2b, 0x0e, 0x03, 0x02, 0x07],
    built_in ''DES-EDE'' ''des-ede'' 32 [0x2b, 0x0e, 0x03, 0x02, 0x11],
    built_in ''DES-EDE3'' ''des-ede3'' 33 [],
    built_in ''IDEA-CBC'' ''idea-cbc'' 34 [0x2b, 0x06, 0x01, 0x04, 0x01, 0x81, 0x3c, 0x07, 0x01, 0x01, 0x02],
    built_in ''IDEA-CFB'' ''idea-cfb'' 35 [],
    built_in ''IDEA-ECB'' ''idea-ecb'' 36 [],
    built_in ''RC2-CBC'' ''rc2-cbc'' 37 [0x2a, 0x86, 0x48, 0x86, 0xf7, 0x0d, 0x03, 0x02],
    built_in ''RC2-ECB'' ''rc2-ecb'' 38 [],
    built_in ''RC2-CFB'' ''rc2-cfb'' 39 [],
    built_in ''RC2-OFB'' ''rc2-ofb'' 40 []]"

definition kObjects_2 :: "asn1_object list" where
  "kObjects_2 = [
    built_in ''SHA'' ''sha'' 41 [0x2b, 0x0e, 0x03, 0x02, 0x12],
    built_in ''RSA-SHA'' ''shaWithRSAEncryption'' 42 [0x2b, 0x0e, 0x03, 0x02, 0x0f],
    built_in ''DES-EDE-CBC'' ''des-ede-cbc'' 43 [],
    built_in ''DES-EDE3-CBC'' ''des-ede3-cbc'' 44 [0x2a, 0x86, 0x48, 0x86, 0xf7, 0x0d, 0x03, 0x07],
    built_in ''DES-OFB'' ''des-ofb'' 45 [0x2b, 0x0e, 0x03, 0x02, 0x08],
    built_in ''IDEA-OFB'' ''idea-ofb'' 46 [],
    built_in ''pkcs9'' ''pkcs9'' 47 [0x2a, 0x86, 0x48, 0x86, 0xf7, 0x0d, 0x01, 0x09],
    built_in ''emailAddress'' ''emailAddress'' 48 [0x2a, 0x86, 0x48, 0x86, 0xf7, 0x0d, 0x01, 0x09, 0x01],
    built_in ''unstructuredName'' ''unstructuredName'' 49 [0x2a, 0x86, 0x48, 0x86, 0xf7, 0x0d, 0x01, 0x09, 0x02],
    built_in ''contentType'' ''contentType'' 50 [0x2a, 0x86, 0x48, 0x86, 0xf7, 0x0d, 0x01, 0x09, 0x03],
    built_in ''messageDigest'' ''messageDigest'' 51 [0x2a, 0x86, 0x48, 0x86, 0xf7, 0x0d, 0x01, 0x09, 0x04],
    built_in ''signingTime'' ''signingTime'' 52 [0x2a, 0x86, 0x48, 0x86, 0xf7, 0x0d, 0x01, 0x09, 0x05],
    built_in ''countersignature'' ''countersignature'' 53 [0x2a, 0x86, 0x48, 0x86, 0xf7, 0x0d, 0x01, 0x09, 0x06],
    built_in ''challengePassword'' ''challengePassword'' 54 [0x2a, 0x86, 0x48, 0x86, 0xf7, 0x0d, 0x01, 0x09, 0x07],
    built_in ''unstructuredAddress'' ''unstructuredAddress'' 55 [0x2a, 0x86, 0x48, 0x86, 0xf7, 0x0d, 0x01, 0x09, 0x08],
    built_in ''extendedCertificateAttributes'' ''extendedCertificateAttributes'' 56 [0x2a, 0x86, 0x48, 0x86, 0xf7, 0x0d, 0x01, 0x09, 0x09],
    built_in ''Netscape'' ''Netscape Communications Corp.'' 57 [0x60, 0x86, 0x48, 0x01, 0x86, 0xf8, 0x42],
    built_in ''nsCertExt'' ''Netscape Certificate Extension'' 58 [0x60, 0x86, 0x48, 0x01, 0x86, 0xf8, 0x42, 0x01],
    built_in ''nsDataType'' ''Netscape Data Type'' 59 [0x60, 0x86, 0x48, 0x01, 0x86, 0xf8, 0x42, 0x02],
    built_in ''DES-EDE-CFB'' ''des-ede-cfb'' 60 []]"

definition kObjects_3 :: "asn1_object list" where
  "kObjects_3 = [
    built_in ''DES-EDE3-CFB'' ''des-ede3-cfb'' 61 [],
    built_in ''DES-EDE-OFB'' ''des-ede-ofb'' 62 [],
    built_in ''DES-EDE3-OFB'' ''des-ede3-ofb'' 63 [],
    built_in ''SHA1'' ''sha1'' 64 [0x2b, 0x0e, 0x03, 0x02, 0x1a],
    built_in ''RSA-SHA1'' ''sha1WithRSAEncryption'' 65 [0x2a, 0x86, 0x48, 0x86, 0xf7, 0x0d, 0x01, 0x01, 0x05],
    built_in ''DSA-SHA'' ''dsaWithSHA'' 66 [0x2b, 0x0e, 0x03, 0x02, 0x0d],
    built_in ''DSA-old'' ''dsaEncryption-old'' 67 [0x2b, 0x0e, 0x03, 0x02, 0x0c],
    built_in ''PBE-SHA1-RC2-64'' ''pbeWithSHA1AndRC2-CBC'' 68 [0x2a, 0x86, 0x48, 0x86, 0xf7, 0x0d, 0x01, 0x05, 0x0b],
    built_in ''PBKDF2'' ''PBKDF2'' 69 [0x2a, 0x86, 0x48, 0x86, 0xf7, 0x0d, 0x01, 0x05, 0x0c],
    built_in ''DSA-SHA1-old'' ''dsaWithSHA1-old'' 70 [0x2b, 0x0e, 0x03, 0x02, 0x1b],
    built_in ''nsCertType'' ''Netscape Cert Type'' 71 [0x60, 0x86, 0x48, 0x01, 0x86, 0xf8, 0x42, 0x01, 0x01],
    built_in ''nsBaseUrl'' ''Netscape Base Url'' 72 [0x60, 0x86, 0x48, 0x01, 0x86, 0xf8, 0x42, 0x01, 0x02],
    built_in ''nsRevocationUrl'' ''Netscape Revocation Url'' 73 [0x60, 0x86, 0x48, 0x01, 0x86, 0xf8, 0x42, 0x01, 0x03],
    built_in ''nsCaRevocationUrl'' ''Netscape CA Revocation Url'' 74 [0x60, 0x86, 0x48, 0x01, 0x86, 0xf8, 0x42, 0x01, 0x04],
    built_in ''nsRenewalUrl'' ''Netscape Renewal Url'' 75 [0x60, 0x86, 0x48, 0x01, 0x86, 0xf8, 0x42, 0x01, 0x07],
    built_in ''nsCaPolicyUrl'' ''Netscape CA Policy Url'' 76 [0x60, 0x86, 0x48, 0x01, 0x86, 0xf8, 0x42, 0x01, 0x08],
    built_in ''nsSslServerName'' ''Netscape SSL Server Name'' 77 [0x60, 0x86, 0x48, 0x01, 0x86, 0xf8, 0x42, 0x01, 0x0c],
    built_in ''nsComment'' ''Netscape Comment'' 78 [0x60, 0x86, 0x48, 0x01, 0x86, 0xf8, 0x42, 0x01, 0x0d],
    built_in ''nsCertSequence'' ''Netscape Certificate Sequence'' 79 [0x60, 0x86, 0x48, 0x01, 0x86, 0xf8, 0x42, 0x02, 0x05],
    built_in ''DESX-CBC'' ''desx-cbc'' 80 []]"

definition kObjects_4 :: "asn1_object list" where
  "kObjects_4 = [
    built_in ''id-ce'' ''id-ce'' 81 [0x55, 0x1d],
    built_in ''subjectKeyIdentifier'' ''X509v3 Subject Key Identifier'' 82 [0x55, 0x1d, 0x0e],
    built_in ''keyUsage'' ''X509v3 Key Usage'' 83 [0x55, 0x1d, 0x0f],
    built_in ''privateKeyUsagePeriod'' ''X509v3 Private Key Usage Period'' 84 [0x55, 0x1d, 0x10],
    built_in ''subjectAltName'' ''X509v3 Subject Alternative Name'' 85 [0x55, 0x1d, 0x11],
    built_in ''issuerAltName'' ''X509v3 Issuer Alternative Name'' 86 [0x55, 0x1d, 0x12],
    built_in ''basicConstraints'' ''X509v3 Basic Constraints'' 87 [0x55, 0x1d, 0x13],
    built_in ''crlNumber'' ''X509v3 CRL Number'' 88 [0x55, 0x1d, 0x14],
    built_in ''certificatePolicies'' ''X509v3 Certificate Policies'' 89 [0x55, 0x1d, 0x20],
    built_in ''authorityKeyIdentifier'' ''X509v3 Authority Key Identifier'' 90 [0x55, 0x1d, 0x23],
    built_in ''BF-CBC'' ''bf-cbc'' 91 [0x2b, 0x06, 0x01, 0x04, 0x01, 0x97, 0x55, 0x01, 0x02],
    built_in ''BF-ECB'' ''bf-ecb'' 92 [],
    built_in ''BF-CFB'' ''bf-cfb'' 93 [],
    built_in ''BF-OFB'' ''bf-ofb'' 94 [],
    built_in ''MDC2'' ''mdc2'' 95 [0x55, 0x08, 0x03, 0x65],
    built_in ''RSA-MDC2'' ''mdc2WithRSA'' 96 [0x55, 0x08, 0x03, 0x64],
    built_in ''RC4-40'' ''rc4-40'' 97 [],
    built_in ''RC2-40-CBC'' ''rc2-40-cbc'' 98 [],
    built_in ''GN'' ''givenName'' 99 [0x55, 0x04, 0x2a],
    built_in ''SN'' ''surname'' 100 [0x55, 0x04, 0x04]]"

definition kObjects_5 :: "asn1_object list" where
  "kObjects_5 = [
    built_in ''initials'' ''initials'' 101 [0x55, 0x04, 0x2b],
    no_object,
    built_in ''crlDistributionPoints'' ''X509v3 CRL Distribution Points'' 103 [0x55, 0x1d, 0x1f],
    built_in ''RSA-NP-MD5'' ''md5WithRSA'' 104 [0x2b, 0x0e, 0x03, 0x02, 0x03],
    built_in ''serialNumber'' ''serialNumber'' 105 [0x55, 0x04, 0x05],
    built_in ''title'' ''title'' 106 [0x55, 0x04, 0x0c],
    built_in ''description'' ''description'' 107 [0x55, 0x04, 0x0d],
    built_in ''CAST5-CBC'' ''cast5-cbc'' 108 [0x2a, 0x86, 0x48, 0x86, 0xf6, 0x7d, 0x07, 0x42, 0x0a],
    built_in ''CAST5-ECB'' ''cast5-ecb'' 109 [],
    built_in ''CAST5-CFB'' ''cast5-cfb'' 110 [],
    built_in ''CAST5-OFB'' ''cast5-ofb'' 111 [],
    built_in ''pbeWithMD5AndCast5CBC'' ''pbeWithMD5AndCast5CBC'' 112 [0x2a, 0x86, 0x48, 0x86, 0xf6, 0x7d, 0x07, 0x42, 0x0c],
    built_in ''DSA-SHA1'' ''dsaWithSHA1'' 113 [0x2a, 0x86, 0x48, 0xce, 0x38, 0x04, 0x03],
    built_in ''MD5-SHA1'' ''md5-sha1'' 114 [],
    built_in ''RSA-SHA1-2'' ''sha1WithRSA'' 115 [0x2b, 0x0e, 0x03, 0x02, 0x1d],
    built_in ''DSA'' ''dsaEncryption'' 116 [0x2a, 0x86, 0x48, 0xce, 0x38, 0x04, 0x01],
    built_in ''RIPEMD160'' ''ripemd160'' 117 [0x2b, 0x24, 0x03, 0x02, 0x01],
    no_object,
    built_in ''RSA-RIPEMD160'' ''ripemd160WithRSA'' 119 [0x2b, 0x24, 0x03, 0x03, 0x01, 0x02],
    built_in ''RC5-CBC'' ''rc5-cbc'' 120 [0x2a, 0x86, 0x48, 0x86, 0xf7, 0x0d, 0x03, 0x08]]"

definition kObjects_6 :: "asn1_object list" where
  "kObjects_6 = [
    built_in ''RC5-ECB'' ''rc5-ecb'' 121 [],
    built_in ''RC5-CFB'' ''rc5-cfb'' 122 [],
    built_in ''RC5-OFB'' ''rc5-ofb'' 123 [],
    no_object,
    built_in ''ZLIB'' ''zlib compression'' 125 [0x2a, 0x86, 0x48, 0x86, 0xf7, 0x0d, 0x01, 0x09, 0x10, 0x03, 0x08],
    built_in ''extendedKeyUsage'' ''X509v3 Extended Key Usage'' 126 [0x55, 0x1d, 0x25],
    built_in ''PKIX'' ''PKIX'' 127 [0x2b, 0x06, 0x01, 0x05, 0x05, 0x07],
    built_in ''id-kp'' ''id-kp'' 128 [0x2b, 0x06, 0x01, 0x05, 0x05, 0x07, 0x03],
    built_in ''serverAuth'' ''TLS Web Server Authentication'' 129 [0x2b, 0x06, 0x01, 0x05, 0x05, 0x07, 0x03, 0x01],
    built_in ''clientAuth'' ''TLS Web Client Authentication'' 130 [0x2b, 0x06, 0x01, 0x05, 0x05, 0x07, 0x03, 0x02],
    built_in ''codeSigning'' ''Code Signing'' 131 [0x2b, 0x06, 0x01, 0x05, 0x05, 0x07, 0x03, 0x03],
    built_in ''emailProtection'' ''E-mail Protection'' 132 [0x2b, 0x06, 0x01, 0x05, 0x05, 0x07, 0x03, 0x04],
    built_in ''timeStamping'' ''Time Stamping'' 133 [0x2b, 0x06, 0x01, 0x05, 0x05, 0x07, 0x03, 0x08],
    built_in ''msCodeInd'' ''Microsoft Individual Code Signing'' 134 [0x2b, 0x06, 0x01, 0x04, 0x01, 0x82, 0x37, 0x02, 0x01, 0x15],
    built_in ''msCodeCom'' ''Microsoft Commercial Code Signing'' 135 [0x2b, 0x06, 0x01, 0x04, 0x01, 0x82, 0x37, 0x02, 0x01, 0x16],
    built_in ''msCTLSign'' ''Microsoft Trust List Signing'' 136 [0x2b, 0x06, 0x01, 0x04, 0x01, 0x82, 0x37, 0x0a, 0x03, 0x01],
    built_in ''msSGC'' ''Microsoft Server Gated Crypto'' 137 [0x2b, 0x06, 0x01, 0x04, 0x01, 0x82, 0x37, 0x0a, 0x03, 0x03],
    built_in ''msEFS'' ''Microsoft Encrypted File System'' 138 [0x2b, 0x06, 0x01, 0x04, 0x01, 0x82, 0x37, 0x0a, 0x03, 0x04],
    built_in ''nsSGC'' ''Netscape Server Gated Crypto'' 139 [0x60, 0x86, 0x48, 0x01, 0x86, 0xf8, 0x42, 0x04, 0x01],
    built_in ''deltaCRL'' ''X509v3 Delta CRL Indicator'' 140 [0x55, 0x1d, 0x1b]]"

definition kObjects_7 :: "asn1_object list" where
  "kObjects_7 = [
    built_in ''CRLReason'' ''X509v3 CRL Reason Code'' 141 [0x55, 0x1d, 0x15],
    built_in ''invalidityDate'' ''Invalidity Date'' 142 [0x55, 0x1d, 0x18],
    built_in ''SXNetID'' ''Strong Extranet ID'' 143 [0x2b, 0x65, 0x01, 0x04, 0x01],
    built_in ''PBE-SHA1-RC4-128'' ''pbeWithSHA1And128BitRC4'' 144 [0x2a, 0x86, 0x48, 0x86, 0xf7, 0x0d, 0x01, 0x0c, 0x01, 0x01],
    built_in ''PBE-SHA1-RC4-40'' ''pbeWithSHA1And40BitRC4'' 145 [0x2a, 0x86, 0x48, 0x86, 0xf7, 0x0d, 0x01, 0x0c, 0x01, 0x02],
    built_in ''PBE-SHA1-3DES'' ''pbeWithSHA1And3-KeyTripleDES-CBC'' 146 [0x2a, 0x86, 0x48, 0x86, 0xf7, 0x0d, 0x01, 0x0c, 0x01, 0x03],
    built_in ''PBE-SHA1-2DES'' ''pbeWithSHA1And2-KeyTripleDES-CBC'' 147 [0x2a, 0x86, 0x48, 0x86, 0xf7, 0x0d, 0x01, 0x0c, 0x01, 0x04],
    built_in ''PBE-SHA1-RC2-128'' ''pbeWithSHA1And128BitRC2-CBC'' 148 [0x2a, 0x86, 0x48, 0x86, 0xf7, 0x0d, 0x01, 0x0c, 0x01, 0x05],
    built_in ''PBE-SHA1-RC2-40'' ''pbeWithSHA1And40BitRC2-CBC'' 149 [0x2a, 0x86, 0x48, 0x86, 0xf7, 0x0d, 0x01, 0x0c, 0x01, 0x06],
    built_in ''keyBag'' ''keyBag'' 150 [0x2a, 0x86, 0x48, 0x86, 0xf7, 0x0d, 0x01, 0x0c, 0x0a, 0x01, 0x01],
    built_in ''pkcs8ShroudedKeyBag'' ''pkcs8ShroudedKeyBag'' 151 [0x2a, 0x86, 0x48, 0x86, 0xf7, 0x0d, 0x01, 0x0c, 0x0a, 0x01, 0x02],
    built_in ''certBag'' ''certBag'' 152 [0x2a, 0x86, 0x48, 0x86, 0xf7, 0x0d, 0x01, 0x0c, 0x0a, 0x01, 0x03],
    built_in ''crlBag'' ''crlBag'' 153 [0x2a, 0x86, 0x48, 0x86, 0xf7, 0x0d, 0x01, 0x0c, 0x0a, 0x01, 0x04],
    built_in ''secretBag'' ''secretBag'' 154 [0x2a, 0x86, 0x48, 0x86, 0xf7, 0x0d, 0x01, 0x0c, 0x0a, 0x01, 0x05],
    built_in ''safeContentsBag'' ''safeContentsBag'' 155 [0x2a, 0x86, 0x48, 0x86, 0xf7, 0x0d, 0x01, 0x0c, 0x0a, 0x01, 0x06],
    built_in ''friendlyName'' ''friendlyName'' 156 [0x2a, 0x86, 0x48, 0x86, 0xf7, 0x0d, 0x01, 0x09, 0x14],
    built_in ''localKeyID'' ''localKeyID'' 157 [0x2a, 0x86, 0x48, 0x86, 0xf7, 0x0d, 0x01, 0x09, 0x15],
    built_in ''x509Certificate'' ''x509Certificate'' 158 [0x2a, 0x86, 0x48, 0x86, 0xf7, 0x0d, 0x01, 0x09, 0x16, 0x01],
    built_in ''sdsiCertificate'' ''sdsiCertificate'' 159 [0x2a, 0x86, 0x48, 0x86, 0xf7, 0x0d, 0x01, 0x09, 0x16, 0x02],
    built_in ''x509Crl'' ''x509Crl'' 160 [0x2a, 0x86, 0x48, 0x86, 0xf7, 0x0d, 0x01, 0x09, 0x17, 0x01]]"

definition kObjects_8 :: "asn1_object list" where
  "kObjects_8 = [
    built_in ''PBES2'' ''PBES2'' 161 [0x2a, 0x86, 0x48, 0x86, 0xf7, 0x0d, 0x01, 0x05, 0x0d],
    built_in ''PBMAC1'' ''PBMAC1'' 162 [0x2a, 0x86, 0x48, 0x86, 0xf7, 0x0d, 0x01, 0x05, 0x0e],
    built_in ''hmacWithSHA1'' ''hmacWithSHA1'' 163 [0x2a, 0x86, 0x48, 0x86, 0xf7, 0x0d, 0x02, 0x07],
    built_in ''id-qt-cps'' ''Policy Qualifier CPS'' 164 [0x2b, 0x06, 0x01, 0x05, 0x05, 0x07, 0x02, 0x01],
    built_in ''id-qt-unotice'' ''Policy Qualifier User Notice'' 165 [0x2b, 0x06, 0x01, 0x05, 0x05, 0x07, 0x02, 0x02],
    built_in ''RC2-64-CBC'' ''rc2-64-cbc'' 166 [],
    built_in ''SMIME-CAPS'' ''S/MIME Capabilities'' 167 [0x2a, 0x86, 0x48, 0x86, 0xf7, 0x0d, 0x01, 0x09, 0x0f],
    built_in ''PBE-MD2-RC2-64'' ''pbeWithMD2AndRC2-CBC'' 168 [0x2a, 0x86, 0x48, 0x86, 0xf7, 0x0d, 0x01, 0x05, 0x04],
    built_in ''PBE-MD5-RC2-64'' ''pbeWithMD5AndRC2-CBC'' 169 [0x2a, 0x86, 0x48, 0x86, 0xf7, 0x0d, 0x01, 0x05, 0x06],
    built_in ''PBE-SHA1-DES'' ''pbeWithSHA1AndDES-CBC'' 170 [0x2a, 0x86, 0x48, 0x86, 0xf7, 0x0d, 0x01, 0x05, 0x0a],
    built_in ''msExtReq'' ''Microsoft Extension Request'' 171 [0x2b, 0x06, 0x01, 0x04, 0x01, 0x82, 0x37, 0x02, 0x01, 0x0e],
    built_in ''extReq'' ''Extension Request'' 172 [0x2a, 0x86, 0x48, 0x86, 0xf7, 0x0d, 0x01, 0x09, 0x0e],
    built_in ''name'' ''name'' 173 [0x55, 0x04, 0x29],
    built_in ''dnQualifier'' ''dnQualifier'' 174 [0x55, 0x04, 0x2e],
    built_in ''id-pe'' ''id-pe'' 175 [0x2b, 0x06, 0x01, 0x05, 0x05, 0x07, 0x01],
    built_in ''id-ad'' ''id-ad'' 176 [0x2b, 0x06, 0x01, 0x05, 0x05, 0x07, 0x30],
    built_in ''authorityInfoAccess'' ''Authority Information Access'' 177 [0x2b, 0x06, 0x01, 0x05, 0x05, 0x07, 0x01, 0x01],
    built_in ''OCSP'' ''OCSP'' 178 [0x2b, 0x06, 0x01, 0x05, 0x05, 0x07, 0x30, 0x01],
    built_in ''caIssuers'' ''CA Issuers'' 179 [0x2b, 0x06, 0x01, 0x05, 0x05, 0x07, 0x30, 0x02],
    built_in ''OCSPSigning'' ''OCSP Signing'' 180 [0x2b, 0x06, 0x01, 0x05, 0x05, 0x07, 0x03, 0x09]]"

definition kObjects_9 :: "asn1_object list" where
  "kObjects_9 = [
    built_in ''ISO'' ''iso'' 181 [],
    built_in ''member-body'' ''ISO Member Body'' 182 [0x2a],
    built_in ''ISO-US'' ''ISO US Member Body'' 183 [0x2a, 0x86, 0x48],
    built_in ''X9-57'' ''X9.57'' 184 [0x2a, 0x86, 0x48, 0xce, 0x38],
    built_in ''X9cm'' ''X9.57 CM ?'' 185 [0x2a, 0x86, 0x48, 0xce, 0x38, 0x04],
    built_in ''pkcs1'' ''pkcs1'' 186 [0x2a, 0x86, 0x48, 0x86, 0xf7, 0x0d, 0x01, 0x01],
    built_in ''pkcs5'' ''pkcs5'' 187 [0x2a, 0x86, 0x48, 0x86, 0xf7, 0x0d, 0x01, 0x05],
    built_in ''SMIME'' ''S/MIME'' 188 [0x2a, 0x86, 0x48, 0x86, 0xf7, 0x0d, 0x01, 0x09, 0x10],
    built_in ''id-smime-mod'' ''id-smime-mod'' 189 [0x2a, 0x86, 0x48, 0x86, 0xf7, 0x0d, 0x01, 0x09, 0x10, 0x00],
    built_in ''id-smime-ct'' ''id-smime-ct'' 190 [0x2a, 0x86, 0x48, 0x86, 0xf7, 0x0d, 0x01, 0x09, 0x10, 0x01],
    built_in ''id-smime-aa'' ''id-smime-aa'' 191 [0x2a, 0x86, 0x48, 0x86, 0xf7, 0x0d, 0x01, 0x09, 0x10, 0x02],
    built_in ''id-smime-alg'' ''id-smime-alg'' 192 [0x2a, 0x86, 0x48, 0x86, 0xf7, 0x0d, 0x01, 0x09, 0x10, 0x03],
    built_in ''id-smime-cd'' ''id-smime-cd'' 193 [0x2a, 0x86, 0x48, 0x86, 0xf7, 0x0d, 0x01, 0x09, 0x10, 0x04],
    built_in ''id-smime-spq'' ''id-smime-spq'' 194 [0x2a, 0x86, 0x48, 0x86, 0xf7, 0x0d, 0x01, 0x09, 0x10, 0x05],
    built_in ''id-smime-cti'' ''id-smime-cti'' 195 [0x2a, 0x86, 0x48, 0x86, 0xf7, 0x0d, 0x01, 0x09, 0x10, 0x06],
    built_in ''id-smime-mod-cms'' ''id-smime-mod-cms'' 196 [0x2a, 0x86, 0x48, 0x86, 0xf7, 0x0d, 0x01, 0x09, 0x10, 0x00, 0x01],
    built_in ''id-smime-mod-ess'' ''id-smime-mod-ess'' 197 [0x2a, 0x86, 0x48, 0x86, 0xf7, 0x0d, 0x01, 0x09, 0x10, 0x00, 0x02],
    built_in ''id-smime-mod-oid'' ''id-smime-mod-oid'' 198 [0x2a, 0x86, 0x48, 0x86, 0xf7, 0x0d, 0x01, 0x09, 0x10, 0x00, 0x03],
    built_in ''id-smime-mod-msg-v3'' ''id-smime-mod-msg-v3'' 199 [0x2a, 0x86, 0x48, 0x86, 0xf7, 0x0d, 0x01, 0x09, 0x10, 0x00, 0x04],
    built_in ''id-smime-mod-ets-eSignature-88'' ''id-smime-mod-ets-eSignature-88'' 200 [0x2a, 0x86, 0x48, 0x86, 0xf7, 0x0d, 0x01, 0x09, 0x10, 0x00, 0x05]]"

definition kObjects_10 :: "asn1_object list" where
  "kObjects_10 = [
    built_in ''id-smime-mod-ets-eSignature-97'' ''id-smime-mod-ets-eSignature-97'' 201 [0x2a, 0x86, 0x48, 0x86, 0xf7, 0x0d, 0x01, 0x09, 0x10, 0x00, 0x06],
    built_in ''id-smime-mod-ets-eSigPolicy-88'' ''id-smime-mod-ets-eSigPolicy-88'' 202 [0x2a, 0x86, 0x48, 0x86, 0xf7, 0x0d, 0x01, 0x09, 0x10, 0x00, 0x07],
    built_in ''id-smime-mod-ets-eSigPolicy-97'' ''id-smime-mod-ets-eSigPolicy-97'' 203 [0x2a, 0x86, 0x48, 0x86, 0xf7, 0x0d, 0x01, 0x09, 0x10, 0x00, 0x08],
    built_in ''id-smime-ct-receipt'' ''id-smime-ct-receipt'' 204 [0x2a, 0x86, 0x48, 0x86, 0xf7, 0x0d, 0x01, 0x09, 0x10, 0x01, 0x01],
    built_in ''id-smime-ct-authData'' ''id-smime-ct-authData'' 205 [0x2a, 0x86, 0x48, 0x86, 0xf7, 0x0d, 0x01, 0x09, 0x10, 0x01, 0x02],
    built_in ''id-smime-ct-publishCert'' ''id-smime-ct-publishCert'' 206 [0x2a, 0x86, 0x48, 0x86, 0xf7, 0x0d, 0x01, 0x09, 0x10, 0x01, 0x03],
    built_in ''id-smime-ct-TSTInfo'' ''id-smime-ct-TSTInfo'' 207 [0x2a, 0x86, 0x48, 0x86, 0xf7, 0x0d, 0x01, 0x09, 0x10, 0x01, 0x04],
    built_in ''id-smime-ct-TDTInfo'' ''id-smime-ct-TDTInfo'' 208 [0x2a, 0x86, 0x48, 0x86, 0xf7, 0x0d, 0x01, 0x09, 0x10, 0x01, 0x05],
    built_in ''id-smime-ct-contentInfo'' ''id-smime-ct-contentInfo'' 209 [0x2a, 0x86, 0x48, 0x86, 0xf7, 0x0d, 0x01, 0x09, 0x10, 0x01, 0x06],
    built_in ''id-smime-ct-DVCSRequestData'' ''id-smime-ct-DVCSRequestData'' 210 [0x2a, 0x86, 0x48, 0x86, 0xf7, 0x0d, 0x01, 0x09, 0x10, 0x01, 0x07],
    built_in ''id-smime-ct-DVCSResponseData'' ''id-smime-ct-DVCSResponseData'' 211 [0x2a, 0x86, 0x48, 0x86, 0xf7, 0x0d, 0x01, 0x09, 0x10, 0x01, 0x08],
    built_in ''id-smime-aa-receiptRequest'' ''id-smime-aa-receiptRequest'' 212 [0x2a, 0x86, 0x48, 0x86, 0xf7, 0x0d, 0x01, 0x09, 0x10, 0x02, 0x01],
    built_in ''id-smime-aa-securityLabel'' ''id-smime-aa-securityLabel'' 213 [0x2a, 0x86, 0x48, 0x86, 0xf7, 0x0d, 0x01, 0x09, 0x10, 0x02, 0x02],
    built_in ''id-smime-aa-mlExpandHistory'' ''id-smime-aa-mlExpandHistory'' 214 [0x2a, 0x86, 0x48, 0x86, 0xf7, 0x0d, 0x01, 0x09, 0x10, 0x02, 0x03],
    built_in ''id-smime-aa-contentHint'' ''id-smime-aa-contentHint'' 215 [0x2a, 0x86, 0x48, 0x86, 0xf7, 0x0d, 0x01, 0x09, 0x10, 0x02, 0x04],
    built_in ''id-smime-aa-msgSigDigest'' ''id-smime-aa-msgSigDigest'' 216 [0x2a, 0x86, 0x48, 0x86, 0xf7, 0x0d, 0x01, 0x09, 0x10, 0x02, 0x05],
    built_in ''id-smime-aa-encapContentType'' ''id-smime-aa-encapContentType'' 217 [0x2a, 0x86, 0x48, 0x86, 0xf7, 0x0d, 0x01, 0x09, 0x10, 0x02, 0x06],
    built_in ''id-smime-aa-contentIdentifier'' ''id-smime-aa-contentIdentifier'' 218 [0x2a, 0x86, 0x48, 0x86, 0xf7, 0x0d, 0x01, 0x09, 0x10, 0x02, 0x07],
    built_in ''id-smime-aa-macValue'' ''id-smime-aa-macValue'' 219 [0x2a, 0x86, 0x48, 0x86, 0xf7, 0x0d, 0x01, 0x09, 0x10, 0x02, 0x08],
    built_in ''id-smime-aa-equivalentLabels'' ''id-smime-aa-equivalentLabels'' 220 [0x2a, 0x86, 0x48, 0x86, 0xf7, 0x0d, 0x01, 0x09, 0x10, 0x02, 0x09]]"

definition kObjects_11 :: "asn1_object list" where
  "kObjects_11 = [
    built_in ''id-smime-aa-contentReference'' ''id-smime-aa-contentReference'' 221 [0x2a, 0x86, 0x48, 0x86, 0xf7, 0x0d, 0x01, 0x09, 0x10, 0x02, 0x0a],
    built_in ''id-smime-aa-encrypKeyPref'' ''id-smime-aa-encrypKeyPref'' 222 [0x2a, 0x86, 0x48, 0x86, 0xf7, 0x0d, 0x01, 0x09, 0x10, 0x02, 0x0b],
    built_in ''id-smime-aa-signingCertificate'' ''id-smime-aa-signingCertificate'' 223 [0x2a, 0x86, 0x48, 0x86, 0xf7, 0x0d, 0x01, 0x09, 0x10, 0x02, 0x0c],
    built_in ''id-smime-aa-smimeEncryptCerts'' ''id-smime-aa-smimeEncryptCerts'' 224 [0x2a, 0x86, 0x48, 0x86, 0xf7, 0x0d, 0x01, 0x09, 0x10, 0x02, 0x0d],
    built_in ''id-smime-aa-timeStampToken'' ''id-smime-aa-timeStampToken'' 225 [0x2a, 0x86, 0x48, 0x86, 0xf7, 0x0d, 0x01, 0x09, 0x10, 0x02, 0x0e],
    built_in ''id-smime-aa-ets-sigPolicyId'' ''id-smime-aa-ets-sigPolicyId'' 226 [0x2a, 0x86, 0x48, 0x86, 0xf7, 0x0d, 0x01, 0x09, 0x10, 0x02, 0x0f],
    built_in ''id-smime-aa-ets-commitmentType'' ''id-smime-aa-ets-commitmentType'' 227 [0x2a, 0x86, 0x48, 0x86, 0xf7, 0x0d, 0x01, 0x09, 0x10, 0x02, 0x10],
    built_in ''id-smime-aa-ets-signerLocation'' ''id-smime-aa-ets-signerLocation'' 228 [0x2a, 0x86, 0x48, 0x86, 0xf7, 0x0d, 0x01, 0x09, 0x10, 0x02, 0x11],
    built_in ''id-smime-aa-ets-signerAttr'' ''id-smime-aa-ets-signerAttr'' 229 [0x2a, 0x86, 0x48, 0x86, 0xf7, 0x0d, 0x01, 0x09, 0x10, 0x02, 0x12],
    built_in ''id-smime-aa-ets-otherSigCert'' ''id-smime-aa-ets-otherSigCert'' 230 [0x2a, 0x86, 0x48, 0x86, 0xf7, 0x0d, 0x01, 0x09, 0x10, 0x02, 0x13],
    built_in ''id-smime-aa-ets-contentTimestamp'' ''id-smime-aa-ets-contentTimestamp'' 231 [0x2a, 0x86, 0x48, 0x86, 0xf7, 0x0d, 0x01, 0x09, 0x10, 0x02, 0x14],
    built_in ''id-smime-aa-ets-CertificateRefs'' ''id-smime-aa-ets-CertificateRefs'' 232 [0x2a, 0x86, 0x48, 0x86, 0xf7, 0x0d, 0x01, 0x09, 0x10, 0x02, 0x15],
    built_in ''id-smime-aa-ets-RevocationRefs'' ''id-smime-aa-ets-RevocationRefs'' 233 [0x2a, 0x86, 0x48, 0x86, 0xf7, 0x0d, 0x01, 0x09, 0x10, 0x02, 0x16],
    built_in ''id-smime-aa-ets-certValues'' ''id-smime-aa-ets-certValues'' 234 [0x2a, 0x86, 0x48, 0x86, 0xf7, 0x0d, 0x01, 0x09, 0x10, 0x02, 0x17],
    built_in ''id-smime-aa-ets-revocationValues'' ''id-smime-aa-ets-revocationValues'' 235 [0x2a, 0x86, 0x48, 0x86, 0xf7, 0x0d, 0x01, 0x09, 0x10, 0x02, 0x18],
    built_in ''id-smime-aa-ets-escTimeStamp'' ''id-smime-aa-ets-escTimeStamp'' 236 [0x2a, 0x86, 0x48, 0x86, 0xf7, 0x0d, 0x01, 0x09, 0x10, 0x02, 0x19],
    built_in ''id-smime-aa-ets-certCRLTimestamp'' ''id-smime-aa-ets-certCRLTimestamp'' 237 [0x2a, 0x86, 0x48, 0x86, 0xf7, 0x0d, 0x01, 0x09, 0x10, 0x02, 0x1a],
    built_in ''id-smime-aa-ets-archiveTimeStamp'' ''id-smime-aa-ets-archiveTimeStamp'' 238 [0x2a, 0x86, 0x48, 0x86, 0xf7, 0x0d, 0x01, 0x09, 0x10, 0x02, 0x1b],
    built_in ''id-smime-aa-signatureType'' ''id-smime-aa-signatureType'' 239 [0x2a, 0x86, 0x48, 0x86, 0xf7, 0x0d, 0x01, 0x09, 0x10, 0x02, 0x1c],
    built_in ''id-smime-aa-dvcs-dvc'' ''id-smime-aa-dvcs-dvc'' 240 [0x2a, 0x86, 0x48, 0x86, 0xf7, 0x0d, 0x01, 0x09, 0x10, 0x02, 0x1d]]"

definition kObjects_12 :: "asn1_object list" where
  "kObjects_12 = [
    built_in ''id-smime-alg-ESDHwith3DES'' ''id-smime-alg-ESDHwith3DES'' 241 [0x2a, 0x86, 0x48, 0x86, 0xf7, 0x0d, 0x01, 0x09, 0x10, 0x03, 0x01],
    built_in ''id-smime-alg-ESDHwithRC2'' ''id-smime-alg-ESDHwithRC2'' 242 [0x2a, 0x86, 0x48, 0x86, 0xf7, 0x0d, 0x01, 0x09, 0x10, 0x03, 0x02],
    built_in ''id-smime-alg-3DESwrap'' ''id-smime-alg-3DESwrap'' 243 [0x2a, 0x86, 0x48, 0x86, 0xf7, 0x0d, 0x01, 0x09, 0x10, 0x03, 0x03],
    built_in ''id-smime-alg-RC2wrap'' ''id-smime-alg-RC2wrap'' 244 [0x2a, 0x86, 0x48, 0x86, 0xf7, 0x0d, 0x01, 0x09, 0x10, 0x03, 0x04],
    built_in ''id-smime-alg-ESDH'' ''id-smime-alg-ESDH'' 245 [0x2a, 0x86, 0x48, 0x86, 0xf7, 0x0d, 0x01, 0x09, 0x10, 0x03, 0x05],
    built_in ''id-smime-alg-CMS3DESwrap'' ''id-smime-alg-CMS3DESwrap'' 246 [0x2a, 0x86, 0x48, 0x86, 0xf7, 0x0d, 0x01, 0x09, 0x10, 0x03, 0x06],
    built_in ''id-smime-alg-CMSRC2wrap'' ''id-smime-alg-CMSRC2wrap'' 247 [0x2a, 0x86, 0x48, 0x86, 0xf7, 0x0d, 0x01, 0x09, 0x10, 0x03, 0x07],
    built_in ''id-smime-cd-ldap'' ''id-smime-cd-ldap'' 248 [0x2a, 0x86, 0x48, 0x86, 0xf7, 0x0d, 0x01, 0x09, 0x10, 0x04, 0x01],
    built_in ''id-smime-spq-ets-sqt-uri'' ''id-smime-spq-ets-sqt-uri'' 249 [0x2a, 0x86, 0x48, 0x86, 0xf7, 0x0d, 0x01, 0x09, 0x10, 0x05, 0x01],
    built_in ''id-smime-spq-ets-sqt-unotice'' ''id-smime-spq-ets-sqt-unotice'' 250 [0x2a, 0x86, 0x48, 0x86, 0xf7, 0x0d, 0x01, 0x09, 0x10, 0x05, 0x02],
    built_in ''id-smime-cti-ets-proofOfOrigin'' ''id-smime-cti-ets-proofOfOrigin'' 251 [0x2a, 0x86, 0x48, 0x86, 0xf7, 0x0d, 0x01, 0x09, 0x10, 0x06, 0x01],
    built_in ''id-smime-cti-ets-proofOfReceipt'' ''id-smime-cti-ets-proofOfReceipt'' 252 [0x2a, 0x86, 0x48, 0x86, 0xf7, 0x0d, 0x01, 0x09, 0x10, 0x06, 0x02],
    built_in ''id-smime-cti-ets-proofOfDelivery'' ''id-smime-cti-ets-proofOfDelivery'' 253 [0x2a, 0x86, 0x48, 0x86, 0xf7, 0x0d, 0x01, 0x09, 0x10, 0x06, 0x03],
    built_in ''id-smime-cti-ets-proofOfSender'' ''id-smime-cti-ets-proofOfSender'' 254 [0x2a, 0x86, 0x48, 0x86, 0xf7, 0x0d, 0x01, 0x09, 0x10, 0x06, 0x04],
    built_in ''id-smime-cti-ets-proofOfApproval'' ''id-smime-cti-ets-proofOfApproval'' 255 [0x2a, 0x86, 0x48, 0x86, 0xf7, 0x0d, 0x01, 0x09, 0x10, 0x06, 0x05],
    built_in ''id-smime-cti-ets-proofOfCreation'' ''id-smime-cti-ets-proofOfCreation'' 256 [0x2a, 0x86, 0x48, 0x86, 0xf7, 0x0d, 0x01, 0x09, 0x10, 0x06, 0x06],
    built_in ''MD4'' ''md4'' 257 [0x2a, 0x86, 0x48, 0x86, 0xf7, 0x0d, 0x02, 0x04],
    built_in ''id-pkix-mod'' ''id-pkix-mod'' 258 [0x2b, 0x06, 0x01, 0x05, 0x05, 0x07, 0x00],
    built_in ''id-qt'' ''id-qt'' 259 [0x2b, 0x06, 0x01, 0x05, 0x05, 0x07, 0x02],
    built_in ''id-it'' ''id-it'' 260 [0x2b, 0x06, 0x01, 0x05, 0x05, 0x07, 0x04]]"

definition kObjects_13 :: "asn1_object list" where
  "kObjects_13 = [
    built_in ''id-pkip'' ''id-pkip'' 261 [0x2b, 0x06, 0x01, 0x05, 0x05, 0x07, 0x05],
    built_in ''id-alg'' ''id-alg'' 262 [0x2b, 0x06, 0x01, 0x05, 0x05, 0x07, 0x06],
    built_in ''id-cmc'' ''id-cmc'' 263 [0x2b, 0x06, 0x01, 0x05, 0x05, 0x07, 0x07],
    built_in ''id-on'' ''id-on'' 264 [0x2b, 0x06, 0x01, 0x05, 0x05, 0x07, 0x08],
    built_in ''id-pda'' ''id-pda'' 265 [0x2b, 0x06, 0x01, 0x05, 0x05, 0x07, 0x09],
    built_in ''id-aca'' ''id-aca'' 266 [0x2b, 0x06, 0x01, 0x05, 0x05, 0x07, 0x0a],
    built_in ''id-qcs'' ''id-qcs'' 267 [0x2b, 0x06, 0x01, 0x05, 0x05, 0x07, 0x0b],
    built_in ''id-cct'' ''id-cct'' 268 [0x2b, 0x06, 0x01, 0x05, 0x05, 0x07, 0x0c],
    built_in ''id-pkix1-explicit-88'' ''id-pkix1-explicit-88'' 269 [0x2b, 0x06, 0x01, 0x05, 0x05, 0x07, 0x00, 0x01],
    built_in ''id-pkix1-implicit-88'' ''id-pkix1-implicit-88'' 270 [0x2b, 0x06, 0x01, 0x05, 0x05, 0x07, 0x00, 0x02],
    built_in ''id-pkix1-explicit-93'' ''id-pkix1-explicit-93'' 271 [0x2b, 0x06, 0x01, 0x05, 0x05, 0x07, 0x00, 0x03],
    built_in ''id-pkix1-implicit-93'' ''id-pkix1-implicit-93'' 272 [0x2b, 0x06, 0x01, 0x05, 0x05, 0x07, 0x00, 0x04],
    built_in ''id-mod-crmf'' ''id-mod-crmf'' 273 [0x2b, 0x06, 0x01, 0x05, 0x05, 0x07, 0x00, 0x05],
    built_in ''id-mod-cmc'' ''id-mod-cmc'' 274 [0x2b, 0x06, 0x01, 0x05, 0x05, 0x07, 0x00, 0x06],
    built_in ''id-mod-kea-profile-88'' ''id-mod-kea-profile-88'' 275 [0x2b, 0x06, 0x01, 0x05, 0x05, 0x07, 0x00, 0x07],
    built_in ''id-mod-kea-profile-93'' ''id-mod-kea-profile-93'' 276 [0x2b, 0x06, 0x01, 0x05, 0x05, 0x07, 0x00, 0x08],
    built_in ''id-mod-cmp'' ''id-mod-cmp'' 277 [0x2b, 0x06, 0x01, 0x05, 0x05, 0x07, 0x00, 0x09],
    built_in ''id-mod-qualified-cert-88'' ''id-mod-qualified-cert-88'' 278 [0x2b, 0x06, 0x01, 0x05, 0x05, 0x07, 0x00, 0x0a],
    built_in ''id-mod-qualified-cert-93'' ''id-mod-qualified-cert-93'' 279 [0x2b, 0x06, 0x01, 0x05, 0x05, 0x07, 0x00, 0x0b],
    built_in ''id-mod-attribute-cert'' ''id-mod-attribute-cert'' 280 [0x2b, 0x06, 0x01, 0x05, 0x05, 0x07, 0x00, 0x0c]]"

definition kObjects_14 :: "asn1_object list" where
  "kObjects_14 = [
    built_in ''id-mod-timestamp-protocol'' ''id-mod-timestamp-protocol'' 281 [0x2b, 0x06, 0x01, 0x05, 0x05, 0x07, 0x00, 0x0d],
    built_in ''id-mod-ocsp'' ''id-mod-ocsp'' 282 [0x2b, 0x06, 0x01, 0x05, 0x05, 0x07, 0x00, 0x0e],
    built_in ''id-mod-dvcs'' ''id-mod-dvcs'' 283 [0x2b, 0x06, 0x01, 0x05, 0x05, 0x07, 0x00, 0x0f],
    built_in ''id-mod-cmp2000'' ''id-mod-cmp2000'' 284 [0x2b, 0x06, 0x01, 0x05, 0x05, 0x07, 0x00, 0x10],
    built_in ''biometricInfo'' ''Biometric Info'' 285 [0x2b, 0x06, 0x01, 0x05, 0x05, 0x07, 0x01, 0x02],
    built_in ''qcStatements'' ''qcStatements'' 286 [0x2b, 0x06, 0x01, 0x05, 0x05, 0x07, 0x01, 0x03],
    built_in ''ac-auditEntity'' ''ac-auditEntity'' 287 [0x2b, 0x06, 0x01, 0x05, 0x05, 0x07, 0x01, 0x04],
    built_in ''ac-targeting'' ''ac-targeting'' 288 [0x2b, 0x06, 0x01, 0x05, 0x05, 0x07, 0x01, 0x05],
    built_in ''aaControls'' ''aaControls'' 289 [0x2b, 0x06, 0x01, 0x05, 0x05, 0x07, 0x01, 0x06],
    built_in ''sbgp-ipAddrBlock'' ''sbgp-ipAddrBlock'' 290 [0x2b, 0x06, 0x01, 0x05, 0x05, 0x07, 0x01, 0x07],
    built_in ''sbgp-autonomousSysNum'' ''sbgp-autonomousSysNum'' 291 [0x2b, 0x06, 0x01, 0x05, 0x05, 0x07, 0x01, 0x08],
    built_in ''sbgp-routerIdentifier'' ''sbgp-routerIdentifier'' 292 [0x2b, 0x06, 0x01, 0x05, 0x05, 0x07, 0x01, 0x09],
    built_in ''textNotice'' ''textNotice'' 293 [0x2b, 0x06, 0x01, 0x05, 0x05, 0x07, 0x02, 0x03],
    built_in ''ipsecEndSystem'' ''IPSec End System'' 294 [0x2b, 0x06, 0x01, 0x05, 0x05, 0x07, 0x03, 0x05],
    built_in ''ipsecTunnel'' ''IPSec Tunnel'' 295 [0x2b, 0x06, 0x01, 0x05, 0x05, 0x07, 0x03, 0x06],
    built_in ''ipsecUser'' ''IPSec User'' 296 [0x2b, 0x06, 0x01, 0x05, 0x05, 0x07, 0x03, 0x07],
    built_in ''DVCS'' ''dvcs'' 297 [0x2b, 0x06, 0x01, 0x05, 0x05, 0x07, 0x03, 0x0a],
    built_in ''id-it-caProtEncCert'' ''id-it-caProtEncCert'' 298 [0x2b, 0x06, 0x01, 0x05, 0x05, 0x07, 0x04, 0x01],
    built_in ''id-it-signKeyPairTypes'' ''id-it-signKeyPairTypes'' 299 [0x2b, 0x06, 0x01, 0x05, 0x05, 0x07, 0x04, 0x02],
    built_in ''id-it-encKeyPairTypes'' ''id-it-encKeyPairTypes'' 300 [0x2b, 0x06, 0x01, 0x05, 0x05, 0x07, 0x04, 0x03]]"

definition kObjects_15 :: "asn1_object list" where
  "kObjects_15 = [
    built_in ''id-it-preferredSymmAlg'' ''id-it-preferredSymmAlg'' 301 [0x2b, 0x06, 0x01, 0x05, 0x05, 0x07, 0x04, 0x04],
    built_in ''id-it-caKeyUpdateInfo'' ''id-it-caKeyUpdateInfo'' 302 [0x2b, 0x06, 0x01, 0x05, 0x05, 0x07, 0x04, 0x05],
    built_in ''id-it-currentCRL'' ''id-it-currentCRL'' 303 [0x2b, 0x06, 0x01, 0x05, 0x05, 0x07, 0x04, 0x06],
    built_in ''id-it-unsupportedOIDs'' ''id-it-unsupportedOIDs'' 304 [0x2b, 0x06, 0x01, 0x05, 0x05, 0x07, 0x04, 0x07],
    built_in ''id-it-subscriptionRequest'' ''id-it-subscriptionRequest'' 305 [0x2b, 0x06, 0x01, 0x05, 0x05, 0x07, 0x04, 0x08],
    built_in ''id-it-subscriptionResponse'' ''id-it-subscriptionResponse'' 306 [0x2b, 0x06, 0x01, 0x05, 0x05, 0x07, 0x04, 0x09],
    built_in ''id-it-keyPairParamReq'' ''id-it-keyPairParamReq'' 307 [0x2b, 0x06, 0x01, 0x05, 0x05, 0x07, 0x04, 0x0a],
    built_in ''id-it-keyPairParamRep'' ''id-it-keyPairParamRep'' 308 [0x2b, 0x06, 0x01, 0x05, 0x05, 0x07, 0x04, 0x0b],
    built_in ''id-it-revPassphrase'' ''id-it-revPassphrase'' 309 [0x2b, 0x06, 0x01, 0x05, 0x05, 0x07, 0x04, 0x0c],
    built_in ''id-it-implicitConfirm'' ''id-it-implicitConfirm'' 310 [0x2b, 0x06, 0x01, 0x05, 0x05, 0x07, 0x04, 0x0d],
    built_in ''id-it-confirmWaitTime'' ''id-it-confirmWaitTime'' 311 [0x2b, 0x06, 0x01, 0x05, 0x05, 0x07, 0x04, 0x0e],
    built_in ''id-it-origPKIMessage'' ''id-it-origPKIMessage'' 312 [0x2b, 0x06, 0x01, 0x05, 0x05, 0x07, 0x04, 0x0f],
    built_in ''id-regCtrl'' ''id-regCtrl'' 313 [0x2b, 0x06, 0x01, 0x05, 0x05, 0x07, 0x05, 0x01],
    built_in ''id-regInfo'' ''id-regInfo'' 314 [0x2b, 0x06, 0x01, 0x05, 0x05, 0x07, 0x05, 0x02],
    built_in ''id-regCtrl-regToken'' ''id-regCtrl-regToken'' 315 [0x2b, 0x06, 0x01, 0x05, 0x05, 0x07, 0x05, 0x01, 0x01],
    built_in ''id-regCtrl-authenticator'' ''id-regCtrl-authenticator'' 316 [0x2b, 0x06, 0x01, 0x05, 0x05, 0x07, 0x05, 0x01, 0x02],
    built_in ''id-regCtrl-pkiPublicationInfo'' ''id-regCtrl-pkiPublicationInfo'' 317 [0x2b, 0x06, 0x01, 0x05, 0x05, 0x07, 0x05, 0x01, 0x03],
    built_in ''id-regCtrl-pkiArchiveOptions'' ''id-regCtrl-pkiArchiveOptions'' 318 [0x2b, 0x06, 0x01, 0x05, 0x05, 0x07, 0x05, 0x01, 0x04],
    built_in ''id-regCtrl-oldCertID'' ''id-regCtrl-oldCertID'' 319 [0x2b, 0x06, 0x01, 0x05, 0x05, 0x07, 0x05, 0x01, 0x05],
    built_in ''id-regCtrl-protocolEncrKey'' ''id-regCtrl-protocolEncrKey'' 320 [0x2b, 0x06, 0x01, 0x05, 0x05, 0x07, 0x05, 0x01, 0x06]]"

definition kObjects_16 :: "asn1_object list" where
  "kObjects_16 = [
    built_in ''id-regInfo-utf8Pairs'' ''id-regInfo-utf8Pairs'' 321 [0x2b, 0x06, 0x01, 0x05, 0x05, 0x07, 0x05, 0x02, 0x01],
    built_in ''id-regInfo-certReq'' ''id-regInfo-certReq'' 322 [0x2b, 0x06, 0x01, 0x05, 0x05, 0x07, 0x05, 0x02, 0x02],
    built_in ''id-alg-des40'' ''id-alg-des40'' 323 [0x2b, 0x06, 0x01, 0x05, 0x05, 0x07, 0x06, 0x01],
    built_in ''id-alg-noSignature'' ''id-alg-noSignature'' 324 [0x2b, 0x06, 0x01, 0x05, 0x05, 0x07, 0x06, 0x02],
    built_in ''id-alg-dh-sig-hmac-sha1'' ''id-alg-dh-sig-hmac-sha1'' 325 [0x2b, 0x06, 0x01, 0x05, 0x05, 0x07, 0x06, 0x03],
    built_in ''id-alg-dh-pop'' ''id-alg-dh-pop'' 326 [0x2b, 0x06, 0x01, 0x05, 0x05, 0x07, 0x06, 0x04],
    built_in ''id-cmc-statusInfo'' ''id-cmc-statusInfo'' 327 [0x2b, 0x06, 0x01, 0x05, 0x05, 0x07, 0x07, 0x01],
    built_in ''id-cmc-identification'' ''id-cmc-identification'' 328 [0x2b, 0x06, 0x01, 0x05, 0x05, 0x07, 0x07, 0x02],
    built_in ''id-cmc-identityProof'' ''id-cmc-identityProof'' 329 [0x2b, 0x06, 0x01, 0x05, 0x05, 0x07, 0x07, 0x03],
    built_in ''id-cmc-dataReturn'' ''id-cmc-dataReturn'' 330 [0x2b, 0x06, 0x01, 0x05, 0x05, 0x07, 0x07, 0x04],
    built_in ''id-cmc-transactionId'' ''id-cmc-transactionId'' 331 [0x2b, 0x06, 0x01, 0x05, 0x05, 0x07, 0x07, 0x05],
    built_in ''id-cmc-senderNonce'' ''id-cmc-senderNonce'' 332 [0x2b, 0x06, 0x01, 0x05, 0x05, 0x07, 0x07, 0x06],
    built_in ''id-cmc-recipientNonce'' ''id-cmc-recipientNonce'' 333 [0x2b, 0x06, 0x01, 0x05, 0x05, 0x07, 0x07, 0x07],
    built_in ''id-cmc-addExtensions'' ''id-cmc-addExtensions'' 334 [0x2b, 0x06, 0x01, 0x05, 0x05, 0x07, 0x07, 0x08],
    built_in ''id-cmc-encryptedPOP'' ''id-cmc-encryptedPOP'' 335 [0x2b, 0x06, 0x01, 0x05, 0x05, 0x07, 0x07, 0x09],
    built_in ''id-cmc-decryptedPOP'' ''id-cmc-decryptedPOP'' 336 [0x2b, 0x06, 0x01, 0x05, 0x05, 0x07, 0x07, 0x0a],
    built_in ''id-cmc-lraPOPWitness'' ''id-cmc-lraPOPWitness'' 337 [0x2b, 0x06, 0x01, 0x05, 0x05, 0x07, 0x07, 0x0b],
    built_in ''id-cmc-getCert'' ''id-cmc-getCert'' 338 [0x2b, 0x06, 0x01, 0x05, 0x05, 0x07, 0x07, 0x0f],
    built_in ''id-cmc-getCRL'' ''id-cmc-getCRL'' 339 [0x2b, 0x06, 0x01, 0x05, 0x05, 0x07, 0x07, 0x10],
    built_in ''id-cmc-revokeRequest'' ''id-cmc-revokeRequest'' 340 [0x2b, 0x06, 0x01, 0x05, 0x05, 0x07, 0x07, 0x11]]"

definition kObjects_17 :: "asn1_object list" where
  "kObjects_17 = [
    built_in ''id-cmc-regInfo'' ''id-cmc-regInfo'' 341 [0x2b, 0x06, 0x01, 0x05, 0x05, 0x07, 0x07, 0x12],
    built_in ''id-cmc-responseInfo'' ''id-cmc-responseInfo'' 342 [0x2b, 0x06, 0x01, 0x05, 0x05, 0x07, 0x07, 0x13],
    built_in ''id-cmc-queryPending'' ''id-cmc-queryPending'' 343 [0x2b, 0x06, 0x01, 0x05, 0x05, 0x07, 0x07, 0x15],
    built_in ''id-cmc-popLinkRandom'' ''id-cmc-popLinkRandom'' 344 [0x2b, 0x06, 0x01, 0x05, 0x05, 0x07, 0x07, 0x16],
    built_in ''id-cmc-popLinkWitness'' ''id-cmc-popLinkWitness'' 345 [0x2b, 0x06, 0x01, 0x05, 0x05, 0x07, 0x07, 0x17],
    built_in ''id-cmc-confirmCertAcceptance'' ''id-cmc-confirmCertAcceptance'' 346 [0x2b, 0x06, 0x01, 0x05, 0x05, 0x07, 0x07, 0x18],
    built_in ''id-on-personalData'' ''id-on-personalData'' 347 [0x2b, 0x06, 0x01, 0x05, 0x05, 0x07, 0x08, 0x01],
    built_in ''id-pda-dateOfBirth'' ''id-pda-dateOfBirth'' 348 [0x2b, 0x06, 0x01, 0x05, 0x05, 0x07, 0x09, 0x01],
    built_in ''id-pda-placeOfBirth'' ''id-pda-placeOfBirth'' 349 [0x2b, 0x06, 0x01, 0x05, 0x05, 0x07, 0x09, 0x02],
    no_object,
    built_in ''id-pda-gender'' ''id-pda-gender'' 351 [0x2b, 0x06, 0x01, 0x05, 0x05, 0x07, 0x09, 0x03],
    built_in ''id-pda-countryOfCitizenship'' ''id-pda-countryOfCitizenship'' 352 [0x2b, 0x06, 0x01, 0x05, 0x05, 0x07, 0x09, 0x04],
    built_in ''id-pda-countryOfResidence'' ''id-pda-countryOfResidence'' 353 [0x2b, 0x06, 0x01, 0x05, 0x05, 0x07, 0x09, 0x05],
    built_in ''id-aca-authenticationInfo'' ''id-aca-authenticationInfo'' 354 [0x2b, 0x06, 0x01, 0x05, 0x05, 0x07, 0x0a, 0x01],
    built_in ''id-aca-accessIdentity'' ''id-aca-accessIdentity'' 355 [0x2b, 0x06, 0x01, 0x05, 0x05, 0x07, 0x0a, 0x02],
    built_in ''id-aca-chargingIdentity'' ''id-aca-chargingIdentity'' 356 [0x2b, 0x06, 0x01, 0x05, 0x05, 0x07, 0x0a, 0x03],
    built_in ''id-aca-group'' ''id-aca-group'' 357 [0x2b, 0x06, 0x01, 0x05, 0x05, 0x07, 0x0a, 0x04],
    built_in ''id-aca-role'' ''id-aca-role'' 358 [0x2b, 0x06, 0x01, 0x05, 0x05, 0x07, 0x0a, 0x05],
    built_in ''id-qcs-pkixQCSyntax-v1'' ''id-qcs-pkixQCSyntax-v1'' 359 [0x2b, 0x06, 0x01, 0x05, 0x05, 0x07, 0x0b, 0x01],
    built_in ''id-cct-crs'' ''id-cct-crs'' 360 [0x2b, 0x06, 0x01, 0x05, 0x05, 0x07, 0x0c, 0x01]]"

definition kObjects_18 :: "asn1_object list" where
  "kObjects_18 = [
    built_in ''id-cct-PKIData'' ''id-cct-PKIData'' 361 [0x2b, 0x06, 0x01, 0x05, 0x05, 0x07, 0x0c, 0x02],
    built_in ''id-cct-PKIResponse'' ''id-cct-PKIResponse'' 362 [0x2b, 0x06, 0x01, 0x05, 0x05, 0x07, 0x0c, 0x03],
    built_in ''ad_timestamping'' ''AD Time Stamping'' 363 [0x2b, 0x06, 0x01, 0x05, 0x05, 0x07, 0x30, 0x03],
    built_in ''AD_DVCS'' ''ad dvcs'' 364 [0x2b, 0x06, 0x01, 0x05, 0x05, 0x07, 0x30, 0x04],
    built_in ''basicOCSPResponse'' ''Basic OCSP Response'' 365 [0x2b, 0x06, 0x01, 0x05, 0x05, 0x07, 0x30, 0x01, 0x01],
    built_in ''Nonce'' ''OCSP Nonce'' 366 [0x2b, 0x06, 0x01, 0x05, 0x05, 0x07, 0x30, 0x01, 0x02],
    built_in ''CrlID'' ''OCSP CRL ID'' 367 [0x2b, 0x06, 0x01, 0x05, 0x05, 0x07, 0x30, 0x01, 0x03],
    built_in ''acceptableResponses'' ''Acceptable OCSP Responses'' 368 [0x2b, 0x06, 0x01, 0x05, 0x05, 0x07, 0x30, 0x01, 0x04],
    built_in ''noCheck'' ''OCSP No Check'' 369 [0x2b, 0x06, 0x01, 0x05, 0x05, 0x07, 0x30, 0x01, 0x05],
    built_in ''archiveCutoff'' ''OCSP Archive Cutoff'' 370 [0x2b, 0x06, 0x01, 0x05, 0x05, 0x07, 0x30, 0x01, 0x06],
    built_in ''serviceLocator'' ''OCSP Service Locator'' 371 [0x2b, 0x06, 0x01, 0x05, 0x05, 0x07, 0x30, 0x01, 0x07],
    built_in ''extendedStatus'' ''Extended OCSP Status'' 372 [0x2b, 0x06, 0x01, 0x05, 0x05, 0x07, 0x30, 0x01, 0x08],
    built_in ''valid'' ''valid'' 373 [0x2b, 0x06, 0x01, 0x05, 0x05, 0x07, 0x30, 0x01, 0x09],
    built_in ''path'' ''path'' 374 [0x2b, 0x06, 0x01, 0x05, 0x05, 0x07, 0x30, 0x01, 0x0a],
    built_in ''trustRoot'' ''Trust Root'' 375 [0x2b, 0x06, 0x01, 0x05, 0x05, 0x07, 0x30, 0x01, 0x0b],
    built_in ''algorithm'' ''algorithm'' 376 [0x2b, 0x0e, 0x03, 0x02],
    built_in ''rsaSignature'' ''rsaSignature'' 377 [0x2b, 0x0e, 0x03, 0x02, 0x0b],
    built_in ''X500algorithms'' ''directory services - algorithms'' 378 [0x55, 0x08],
    built_in ''ORG'' ''org'' 379 [0x2b],
    built_in ''DOD'' ''dod'' 380 [0x2b, 0x06]]"

definition kObjects_19 :: "asn1_object list" where
  "kObjects_19 = [
    built_in ''IANA'' ''iana'' 381 [0x2b, 0x06, 0x01],
    built_in ''directory'' ''Directory'' 382 [0x2b, 0x06, 0x01, 0x01],
    built_in ''mgmt'' ''Management'' 383 [0x2b, 0x06, 0x01, 0x02],
    built_in ''experimental'' ''Experimental'' 384 [0x2b, 0x06, 0x01, 0x03],
    built_in ''private'' ''Private'' 385 [0x2b, 0x06, 0x01, 0x04],
    built_in ''security'' ''Security'' 386 [0x2b, 0x06, 0x01, 0x05],
    built_in ''snmpv2'' ''SNMPv2'' 387 [0x2b, 0x06, 0x01, 0x06],
    built_in ''Mail'' ''Mail'' 388 [0x2b, 0x06, 0x01, 0x07],
    built_in ''enterprises'' ''Enterprises'' 389 [0x2b, 0x06, 0x01, 0x04, 0x01],
    built_in ''dcobject'' ''dcObject'' 390 [0x2b, 0x06, 0x01, 0x04, 0x01, 0x8b, 0x3a, 0x82, 0x58],
    built_in ''DC'' ''domainComponent'' 391 [0x09, 0x92, 0x26, 0x89, 0x93, 0xf2, 0x2c, 0x64, 0x01, 0x19],
    built_in ''domain'' ''Domain'' 392 [0x09, 0x92, 0x26, 0x89, 0x93, 0xf2, 0x2c, 0x64, 0x04, 0x0d],
    no_object,
    built_in ''selected-attribute-types'' ''Selected Attribute Types'' 394 [0x55, 0x01, 0x05],
    built_in ''clearance'' ''clearance'' 395 [0x55, 0x01, 0x05, 0x37],
    built_in ''RSA-MD4'' ''md4WithRSAEncryption'' 396 [0x2a, 0x86, 0x48, 0x86, 0xf7, 0x0d, 0x01, 0x01, 0x03],
    built_in ''ac-proxying'' ''ac-proxying'' 397 [0x2b, 0x06, 0x01, 0x05, 0x05, 0x07, 0x01, 0x0a],
    built_in ''subjectInfoAccess'' ''Subject Information Access'' 398 [0x2b, 0x06, 0x01, 0x05, 0x05, 0x07, 0x01, 0x0b],
    built_in ''id-aca-encAttrs'' ''id-aca-encAttrs'' 399 [0x2b, 0x06, 0x01, 0x05, 0x05, 0x07, 0x0a, 0x06],
    built_in ''role'' ''role'' 400 [0x55, 0x04, 0x48]]"

definition kObjects_20 :: "asn1_object list" where
  "kObjects_20 = [
    built_in ''policyConstraints'' ''X509v3 Policy Constraints'' 401 [0x55, 0x1d, 0x24],
    built_in ''targetInformation'' ''X509v3 AC Targeting'' 402 [0x55, 0x1d, 0x37],
    built_in ''noRevAvail'' ''X509v3 No Revocation Available'' 403 [0x55, 0x1d, 0x38],
    no_object,
    built_in ''ansi-X9-62'' ''ANSI X9.62'' 405 [0x2a, 0x86, 0x48, 0xce, 0x3d],
    built_in ''prime-field'' ''prime-field'' 406 [0x2a, 0x86, 0x48, 0xce, 0x3d, 0x01, 0x01],
    built_in ''characteristic-two-field'' ''characteristic-two-field'' 407 [0x2a, 0x86, 0x48, 0xce, 0x3d, 0x01, 0x02],
    built_in ''id-ecPublicKey'' ''id-ecPublicKey'' 408 [0x2a, 0x86, 0x48, 0xce, 0x3d, 0x02, 0x01],
    built_in ''prime192v1'' ''prime192v1'' 409 [0x2a, 0x86, 0x48, 0xce, 0x3d, 0x03, 0x01, 0x01],
    built_in ''prime192v2'' ''prime192v2'' 410 [0x2a, 0x86, 0x48, 0xce, 0x3d, 0x03, 0x01, 0x02],
    built_in ''prime192v3'' ''prime192v3'' 411 [0x2a, 0x86, 0x48, 0xce, 0x3d, 0x03, 0x01, 0x03],
    built_in ''prime239v1'' ''prime239v1'' 412 [0x2a, 0x86, 0x48, 0xce, 0x3d, 0x03, 0x01, 0x04],
    built_in ''prime239v2'' ''prime239v2'' 413 [0x2a, 0x86, 0x48, 0xce, 0x3d, 0x03, 0x01, 0x05],
    built_in ''prime239v3'' ''prime239v3'' 414 [0x2a, 0x86, 0x48, 0xce, 0x3d, 0x03, 0x01, 0x06],
    built_in ''prime256v1'' ''prime256v1'' 415 [0x2a, 0x86, 0x48, 0xce, 0x3d, 0x03, 0x01, 0x07],
    built_in ''ecdsa-with-SHA1'' ''ecdsa-with-SHA1'' 416 [0x2a, 0x86, 0x48, 0xce, 0x3d, 0x04, 0x01],
    built_in ''CSPName'' ''Microsoft CSP Name'' 417 [0x2b, 0x06, 0x01, 0x04, 0x01, 0x82, 0x37, 0x11, 0x01],
    built_in ''AES-128-ECB'' ''aes-128-ecb'' 418 [0x60, 0x86, 0x48, 0x01, 0x65, 0x03, 0x04, 0x01, 0x01],
    built_in ''AES-128-CBC'' ''aes-128-cbc'' 419 [0x60, 0x86, 0x48, 0x01, 0x65, 0x03, 0x04, 0x01, 0x02],
    built_in ''AES-128-OFB'' ''aes-128-ofb'' 420 [0x60, 0x86, 0x48, 0x01, 0x65, 0x03, 0x04, 0x01, 0x03]]"

definition kObjects_21 :: "asn1_object list" where
  "kObjects_21 = [
    built_in ''AES-128-CFB'' ''aes-128-cfb'' 421 [0x60, 0x86, 0x48, 0x01, 0x65, 0x03, 0x04, 0x01, 0x04],
    built_in ''AES-192-ECB'' ''aes-192-ecb'' 422 [0x60, 0x86, 0x48, 0x01, 0x65, 0x03, 0x04, 0x01, 0x15],
    built_in ''AES-192-CBC'' ''aes-192-cbc'' 423 [0x60, 0x86, 0x48, 0x01, 0x65, 0x03, 0x04, 0x01, 0x16],
    built_in ''AES-192-OFB'' ''aes-192-ofb'' 424 [0x60, 0x86, 0x48, 0x01, 0x65, 0x03, 0x04, 0x01, 0x17],
    built_in ''AES-192-CFB'' ''aes-192-cfb'' 425 [0x60, 0x86, 0x48, 0x01, 0x65, 0x03, 0x04, 0x01, 0x18],
    built_in ''AES-256-ECB'' ''aes-256-ecb'' 426 [0x60, 0x86, 0x48, 0x01, 0x65, 0x03, 0x04, 0x01, 0x29],
    built_in ''AES-256-CBC'' ''aes-256-cbc'' 427 [0x60, 0x86, 0x48, 0x01, 0x65, 0x03, 0x04, 0x01, 0x2a],
    built_in ''AES-256-OFB'' ''aes-256-ofb'' 428 [0x60, 0x86, 0x48, 0x01, 0x65, 0x03, 0x04, 0x01, 0x2b],
    built_in ''AES-256-CFB'' ''aes-256-cfb'' 429 [0x60, 0x86, 0x48, 0x01, 0x65, 0x03, 0x04, 0x01, 0x2c],
    built_in ''holdInstructionCode'' ''Hold Instruction Code'' 430 [0x55, 0x1d, 0x17],
    built_in ''holdInstructionNone'' ''Hold Instruction None'' 431 [0x2a, 0x86, 0x48, 0xce, 0x38, 0x02, 0x01],
    built_in ''holdInstructionCallIssuer'' ''Hold Instruction Call Issuer'' 432 [0x2a, 0x86, 0x48, 0xce, 0x38, 0x02, 0x02],
    built_in ''holdInstructionReject'' ''Hold Instruction Reject'' 433 [0x2a, 0x86, 0x48, 0xce, 0x38, 0x02, 0x03],
    built_in ''data'' ''data'' 434 [0x09],
    built_in ''pss'' ''pss'' 435 [0x09, 0x92, 0x26],
    built_in ''ucl'' ''ucl'' 436 [0x09, 0x92, 0x26, 0x89, 0x93, 0xf2, 0x2c],
    built_in ''pilot'' ''pilot'' 437 [0x09, 0x92, 0x26, 0x89, 0x93, 0xf2, 0x2c, 0x64],
    built_in ''pilotAttributeType'' ''pilotAttributeType'' 438 [0x09, 0x92, 0x26, 0x89, 0x93, 0xf2, 0x2c, 0x64, 0x01],
    built_in ''pilotAttributeSyntax'' ''pilotAttributeSyntax'' 439 [0x09, 0x92, 0x26, 0x89, 0x93, 0xf2, 0x2c, 0x64, 0x03],
    built_in ''pilotObjectClass'' ''pilotObjectClass'' 440 [0x09, 0x92, 0x26, 0x89, 0x93, 0xf2, 0x2c, 0x64, 0x04]]"

definition kObjects_22 :: "asn1_object list" where
  "kObjects_22 = [
    built_in ''pilotGroups'' ''pilotGroups'' 441 [0x09, 0x92, 0x26, 0x89, 0x93, 0xf2, 0x2c, 0x64, 0x0a],
    built_in ''iA5StringSyntax'' ''iA5StringSyntax'' 442 [0x09, 0x92, 0x26, 0x89, 0x93, 0xf2, 0x2c, 0x64, 0x03, 0x04],
    built_in ''caseIgnoreIA5StringSyntax'' ''caseIgnoreIA5StringSyntax'' 443 [0x09, 0x92, 0x26, 0x89, 0x93, 0xf2, 0x2c, 0x64, 0x03, 0x05],
    built_in ''pilotObject'' ''pilotObject'' 444 [0x09, 0x92, 0x26, 0x89, 0x93, 0xf2, 0x2c, 0x64, 0x04, 0x03],
    built_in ''pilotPerson'' ''pilotPerson'' 445 [0x09, 0x92, 0x26, 0x89, 0x93, 0xf2, 0x2c, 0x64, 0x04, 0x04],
    built_in ''account'' ''account'' 446 [0x09, 0x92, 0x26, 0x89, 0x93, 0xf2, 0x2c, 0x64, 0x04, 0x05],
    built_in ''document'' ''document'' 447 [0x09, 0x92, 0x26, 0x89, 0x93, 0xf2, 0x2c, 0x64, 0x04, 0x06],
    built_in ''room'' ''room'' 448 [0x09, 0x92, 0x26, 0x89, 0x93, 0xf2, 0x2c, 0x64, 0x04, 0x07],
    built_in ''documentSeries'' ''documentSeries'' 449 [0x09, 0x92, 0x26, 0x89, 0x93, 0xf2, 0x2c, 0x64, 0x04, 0x09],
    built_in ''rFC822localPart'' ''rFC822localPart'' 450 [0x09, 0x92, 0x26, 0x89, 0x93, 0xf2, 0x2c, 0x64, 0x04, 0x0e],
    built_in ''dNSDomain'' ''dNSDomain'' 451 [0x09, 0x92, 0x26, 0x89, 0x93, 0xf2, 0x2c, 0x64, 0x04, 0x0f],
    built_in ''domainRelatedObject'' ''domainRelatedObject'' 452 [0x09, 0x92, 0x26, 0x89, 0x93, 0xf2, 0x2c, 0x64, 0x04, 0x11],
    built_in ''friendlyCountry'' ''friendlyCountry'' 453 [0x09, 0x92, 0x26, 0x89, 0x93, 0xf2, 0x2c, 0x64, 0x04, 0x12],
    built_in ''simpleSecurityObject'' ''simpleSecurityObject'' 454 [0x09, 0x92, 0x26, 0x89, 0x93, 0xf2, 0x2c, 0x64, 0x04, 0x13],
    built_in ''pilotOrganization'' ''pilotOrganization'' 455 [0x09, 0x92, 0x26, 0x89, 0x93, 0xf2, 0x2c, 0x64, 0x04, 0x14],
    built_in ''pilotDSA'' ''pilotDSA'' 456 [0x09, 0x92, 0x26, 0x89, 0x93, 0xf2, 0x2c, 0x64, 0x04, 0x15],
    built_in ''qualityLabelledData'' ''qualityLabelledData'' 457 [0x09, 0x92, 0x26, 0x89, 0x93, 0xf2, 0x2c, 0x64, 0x04, 0x16],
    built_in ''UID'' ''userId'' 458 [0x09, 0x92, 0x26, 0x89, 0x93, 0xf2, 0x2c, 0x64, 0x01, 0x01],
    built_in ''textEncodedORAddress'' ''textEncodedORAddress'' 459 [0x09, 0x92, 0x26, 0x89, 0x93, 0xf2, 0x2c, 0x64, 0x01, 0x02],
    built_in ''mail'' ''rfc822Mailbox'' 460 [0x09, 0x92, 0x26, 0x89, 0x93, 0xf2, 0x2c, 0x64, 0x01, 0x03]]"

definition kObjects_23 :: "asn1_object list" where
  "kObjects_23 = [
    built_in ''info'' ''info'' 461 [0x09, 0x92, 0x26, 0x89, 0x93, 0xf2, 0x2c, 0x64, 0x01, 0x04],
    built_in ''favouriteDrink'' ''favouriteDrink'' 462 [0x09, 0x92, 0x26, 0x89, 0x93, 0xf2, 0x2c, 0x64, 0x01, 0x05],
    built_in ''roomNumber'' ''roomNumber'' 463 [0x09, 0x92, 0x26, 0x89, 0x93, 0xf2, 0x2c, 0x64, 0x01, 0x06],
    built_in ''photo'' ''photo'' 464 [0x09, 0x92, 0x26, 0x89, 0x93, 0xf2, 0x2c, 0x64, 0x01, 0x07],
    built_in ''userClass'' ''userClass'' 465 [0x09, 0x92, 0x26, 0x89, 0x93, 0xf2, 0x2c, 0x64, 0x01, 0x08],
    built_in ''host'' ''host'' 466 [0x09, 0x92, 0x26, 0x89, 0x93, 0xf2, 0x2c, 0x64, 0x01, 0x09],
    built_in ''manager'' ''manager'' 467 [0x09, 0x92, 0x26, 0x89, 0x93, 0xf2, 0x2c, 0x64, 0x01, 0x0a],
    built_in ''documentIdentifier'' ''documentIdentifier'' 468 [0x09, 0x92, 0x26, 0x89, 0x93, 0xf2, 0x2c, 0x64, 0x01, 0x0b],
    built_in ''documentTitle'' ''documentTitle'' 469 [0x09, 0x92, 0x26, 0x89, 0x93, 0xf2, 0x2c, 0x64, 0x01, 0x0c],
    built_in ''documentVersion'' ''documentVersion'' 470 [0x09, 0x92, 0x26, 0x89, 0x93, 0xf2, 0x2c, 0x64, 0x01, 0x0d],
    built_in ''documentAuthor'' ''documentAuthor'' 471 [0x09, 0x92, 0x26, 0x89, 0x93, 0xf2, 0x2c, 0x64, 0x01, 0x0e],
    built_in ''documentLocation'' ''documentLocation'' 472 [0x09, 0x92, 0x26, 0x89, 0x93, 0xf2, 0x2c, 0x64, 0x01, 0x0f],
    built_in ''homeTelephoneNumber'' ''homeTelephoneNumber'' 473 [0x09, 0x92, 0x26, 0x89, 0x93, 0xf2, 0x2c, 0x64, 0x01, 0x14],
    built_in ''secretary'' ''secretary'' 474 [0x09, 0x92, 0x26, 0x89, 0x93, 0xf2, 0x2c, 0x64, 0x01, 0x15],
    built_in ''otherMailbox'' ''otherMailbox'' 475 [0x09, 0x92, 0x26, 0x89, 0x93, 0xf2, 0x2c, 0x64, 0x01, 0x16],
    built_in ''lastModifiedTime'' ''lastModifiedTime'' 476 [0x09, 0x92, 0x26, 0x89, 0x93, 0xf2, 0x2c, 0x64, 0x01, 0x17],
    built_in ''lastModifiedBy'' ''lastModifiedBy'' 477 [0x09, 0x92, 0x26, 0x89, 0x93, 0xf2, 0x2c, 0x64, 0x01, 0x18],
    built_in ''aRecord'' ''aRecord'' 478 [0x09, 0x92, 0x26, 0x89, 0x93, 0xf2, 0x2c, 0x64, 0x01, 0x1a],
    built_in ''pilotAttributeType27'' ''pilotAttributeType27'' 479 [0x09, 0x92, 0x26, 0x89, 0x93, 0xf2, 0x2c, 0x64, 0x01, 0x1b],
    built_in ''mXRecord'' ''mXRecord'' 480 [0x09, 0x92, 0x26, 0x89, 0x93, 0xf2, 0x2c, 0x64, 0x01, 0x1c]]"

definition kObjects_24 :: "asn1_object list" where
  "kObjects_24 = [
    built_in ''nSRecord'' ''nSRecord'' 481 [0x09, 0x92, 0x26, 0x89, 0x93, 0xf2, 0x2c, 0x64, 0x01, 0x1d],
    built_in ''sOARecord'' ''sOARecord'' 482 [0x09, 0x92, 0x26, 0x89, 0x93, 0xf2, 0x2c, 0x64, 0x01, 0x1e],
    built_in ''cNAMERecord'' ''cNAMERecord'' 483 [0x09, 0x92, 0x26, 0x89, 0x93, 0xf2, 0x2c, 0x64, 0x01, 0x1f],
    built_in ''associatedDomain'' ''associatedDomain'' 484 [0x09, 0x92, 0x26, 0x89, 0x93, 0xf2, 0x2c, 0x64, 0x01, 0x25],
    built_in ''associatedName'' ''associatedName'' 485 [0x09, 0x92, 0x26, 0x89, 0x93, 0xf2, 0x2c, 0x64, 0x01, 0x26],
    built_in ''homePostalAddress'' ''homePostalAddress'' 486 [0x09, 0x92, 0x26, 0x89, 0x93, 0xf2, 0x2c, 0x64, 0x01, 0x27],
    built_in ''personalTitle'' ''personalTitle'' 487 [0x09, 0x92, 0x26, 0x89, 0x93, 0xf2, 0x2c, 0x64, 0x01, 0x28],
    built_in ''mobileTelephoneNumber'' ''mobileTelephoneNumber'' 488 [0x09, 0x92, 0x26, 0x89, 0x93, 0xf2, 0x2c, 0x64, 0x01, 0x29],
    built_in ''pagerTelephoneNumber'' ''pagerTelephoneNumber'' 489 [0x09, 0x92, 0x26, 0x89, 0x93, 0xf2, 0x2c, 0x64, 0x01, 0x2a],
    built_in ''friendlyCountryName'' ''friendlyCountryName'' 490 [0x09, 0x92, 0x26, 0x89, 0x93, 0xf2, 0x2c, 0x64, 0x01, 0x2b],
    built_in ''organizationalStatus'' ''organizationalStatus'' 491 [0x09, 0x92, 0x26, 0x89, 0x93, 0xf2, 0x2c, 0x64, 0x01, 0x2d],
    built_in ''janetMailbox'' ''janetMailbox'' 492 [0x09, 0x92, 0x26, 0x89, 0x93, 0xf2, 0x2c, 0x64, 0x01, 0x2e],
    built_in ''mailPreferenceOption'' ''mailPreferenceOption'' 493 [0x09, 0x92, 0x26, 0x89, 0x93, 0xf2, 0x2c, 0x64, 0x01, 0x2f],
    built_in ''buildingName'' ''buildingName'' 494 [0x09, 0x92, 0x26, 0x89, 0x93, 0xf2, 0x2c, 0x64, 0x01, 0x30],
    built_in ''dSAQuality'' ''dSAQuality'' 495 [0x09, 0x92, 0x26, 0x89, 0x93, 0xf2, 0x2c, 0x64, 0x01, 0x31],
    built_in ''singleLevelQuality'' ''singleLevelQuality'' 496 [0x09, 0x92, 0x26, 0x89, 0x93, 0xf2, 0x2c, 0x64, 0x01, 0x32],
    built_in ''subtreeMinimumQuality'' ''subtreeMinimumQuality'' 497 [0x09, 0x92, 0x26, 0x89, 0x93, 0xf2, 0x2c, 0x64, 0x01, 0x33],
    built_in ''subtreeMaximumQuality'' ''subtreeMaximumQuality'' 498 [0x09, 0x92, 0x26, 0x89, 0x93, 0xf2, 0x2c, 0x64, 0x01, 0x34],
    built_in ''personalSignature'' ''personalSignature'' 499 [0x09, 0x92, 0x26, 0x89, 0x93, 0xf2, 0x2c, 0x64, 0x01, 0x35],
    built_in ''dITRedirect'' ''dITRedirect'' 500 [0x09, 0x92, 0x26, 0x89, 0x93, 0xf2, 0x2c, 0x64, 0x01, 0x36]]"

definition kObjects_25 :: "asn1_object list" where
  "kObjects_25 = [
    built_in ''audio'' ''audio'' 501 [0x09, 0x92, 0x26, 0x89, 0x93, 0xf2, 0x2c, 0x64, 0x01, 0x37],
    built_in ''documentPublisher'' ''documentPublisher'' 502 [0x09, 0x92, 0x26, 0x89, 0x93, 0xf2, 0x2c, 0x64, 0x01, 0x38],
    built_in ''x500UniqueIdentifier'' ''x500UniqueIdentifier'' 503 [0x55, 0x04, 0x2d],
    built_in ''mime-mhs'' ''MIME MHS'' 504 [0x2b, 0x06, 0x01, 0x07, 0x01],
    built_in ''mime-mhs-headings'' ''mime-mhs-headings'' 505 [0x2b, 0x06, 0x01, 0x07, 0x01, 0x01],
    built_in ''mime-mhs-bodies'' ''mime-mhs-bodies'' 506 [0x2b, 0x06, 0x01, 0x07, 0x01, 0x02],
    built_in ''id-hex-partial-message'' ''id-hex-partial-message'' 507 [0x2b, 0x06, 0x01, 0x07, 0x01, 0x01, 0x01],
    built_in ''id-hex-multipart-message'' ''id-hex-multipart-message'' 508 [0x2b, 0x06, 0x01, 0x07, 0x01, 0x01, 0x02],
    built_in ''generationQualifier'' ''generationQualifier'' 509 [0x55, 0x04, 0x2c],
    built_in ''pseudonym'' ''pseudonym'' 510 [0x55, 0x04, 0x41],
    no_object,
    built_in ''id-set'' ''Secure Electronic Transactions'' 512 [0x67, 0x2a],
    built_in ''set-ctype'' ''content types'' 513 [0x67, 0x2a, 0x00],
    built_in ''set-msgExt'' ''message extensions'' 514 [0x67, 0x2a, 0x01],
    built_in ''set-attr'' ''set-attr'' 515 [0x67, 0x2a, 0x03],
    built_in ''set-policy'' ''set-policy'' 516 [0x67, 0x2a, 0x05],
    built_in ''set-certExt'' ''certificate extensions'' 517 [0x67, 0x2a, 0x07],
    built_in ''set-brand'' ''set-brand'' 518 [0x67, 0x2a, 0x08],
    built_in ''setct-PANData'' ''setct-PANData'' 519 [0x67, 0x2a, 0x00, 0x00],
    built_in ''setct-PANToken'' ''setct-PANToken'' 520 [0x67, 0x2a, 0x00, 0x01]]"

definition kObjects_26 :: "asn1_object list" where
  "kObjects_26 = [
    built_in ''setct-PANOnly'' ''setct-PANOnly'' 521 [0x67, 0x2a, 0x00, 0x02],
    built_in ''setct-OIData'' ''setct-OIData'' 522 [0x67, 0x2a, 0x00, 0x03],
    built_in ''setct-PI'' ''setct-PI'' 523 [0x67, 0x2a, 0x00, 0x04],
    built_in ''setct-PIData'' ''setct-PIData'' 524 [0x67, 0x2a, 0x00, 0x05],
    built_in ''setct-PIDataUnsigned'' ''setct-PIDataUnsigned'' 525 [0x67, 0x2a, 0x00, 0x06],
    built_in ''setct-HODInput'' ''setct-HODInput'' 526 [0x67, 0x2a, 0x00, 0x07],
    built_in ''setct-AuthResBaggage'' ''setct-AuthResBaggage'' 527 [0x67, 0x2a, 0x00, 0x08],
    built_in ''setct-AuthRevReqBaggage'' ''setct-AuthRevReqBaggage'' 528 [0x67, 0x2a, 0x00, 0x09],
    built_in ''setct-AuthRevResBaggage'' ''setct-AuthRevResBaggage'' 529 [0x67, 0x2a, 0x00, 0x0a],
    built_in ''setct-CapTokenSeq'' ''setct-CapTokenSeq'' 530 [0x67, 0x2a, 0x00, 0x0b],
    built_in ''setct-PInitResData'' ''setct-PInitResData'' 531 [0x67, 0x2a, 0x00, 0x0c],
    built_in ''setct-PI-TBS'' ''setct-PI-TBS'' 532 [0x67, 0x2a, 0x00, 0x0d],
    built_in ''setct-PResData'' ''setct-PResData'' 533 [0x67, 0x2a, 0x00, 0x0e],
    built_in ''setct-AuthReqTBS'' ''setct-AuthReqTBS'' 534 [0x67, 0x2a, 0x00, 0x10],
    built_in ''setct-AuthResTBS'' ''setct-AuthResTBS'' 535 [0x67, 0x2a, 0x00, 0x11],
    built_in ''setct-AuthResTBSX'' ''setct-AuthResTBSX'' 536 [0x67, 0x2a, 0x00, 0x12],
    built_in ''setct-AuthTokenTBS'' ''setct-AuthTokenTBS'' 537 [0x67, 0x2a, 0x00, 0x13],
    built_in ''setct-CapTokenData'' ''setct-CapTokenData'' 538 [0x67, 0x2a, 0x00, 0x14],
    built_in ''setct-CapTokenTBS'' ''setct-CapTokenTBS'' 539 [0x67, 0x2a, 0x00, 0x15],
    built_in ''setct-AcqCardCodeMsg'' ''setct-AcqCardCodeMsg'' 540 [0x67, 0x2a, 0x00, 0x16]]"

definition kObjects_27 :: "asn1_object list" where
  "kObjects_27 = [
    built_in ''setct-AuthRevReqTBS'' ''setct-AuthRevReqTBS'' 541 [0x67, 0x2a, 0x00, 0x17],
    built_in ''setct-AuthRevResData'' ''setct-AuthRevResData'' 542 [0x67, 0x2a, 0x00, 0x18],
    built_in ''setct-AuthRevResTBS'' ''setct-AuthRevResTBS'' 543 [0x67, 0x2a, 0x00, 0x19],
    built_in ''setct-CapReqTBS'' ''setct-CapReqTBS'' 544 [0x67, 0x2a, 0x00, 0x1a],
    built_in ''setct-CapReqTBSX'' ''setct-CapReqTBSX'' 545 [0x67, 0x2a, 0x00, 0x1b],
    built_in ''setct-CapResData'' ''setct-CapResData'' 546 [0x67, 0x2a, 0x00, 0x1c],
    built_in ''setct-CapRevReqTBS'' ''setct-CapRevReqTBS'' 547 [0x67, 0x2a, 0x00, 0x1d],
    built_in ''setct-CapRevReqTBSX'' ''setct-CapRevReqTBSX'' 548 [0x67, 0x2a, 0x00, 0x1e],
    built_in ''setct-CapRevResData'' ''setct-CapRevResData'' 549 [0x67, 0x2a, 0x00, 0x1f],
    built_in ''setct-CredReqTBS'' ''setct-CredReqTBS'' 550 [0x67, 0x2a, 0x00, 0x20],
    built_in ''setct-CredReqTBSX'' ''setct-CredReqTBSX'' 551 [0x67, 0x2a, 0x00, 0x21],
    built_in ''setct-CredResData'' ''setct-CredResData'' 552 [0x67, 0x2a, 0x00, 0x22],
    built_in ''setct-CredRevReqTBS'' ''setct-CredRevReqTBS'' 553 [0x67, 0x2a, 0x00, 0x23],
    built_in ''setct-CredRevReqTBSX'' ''setct-CredRevReqTBSX'' 554 [0x67, 0x2a, 0x00, 0x24],
    built_in ''setct-CredRevResData'' ''setct-CredRevResData'' 555 [0x67, 0x2a, 0x00, 0x25],
    built_in ''setct-PCertReqData'' ''setct-PCertReqData'' 556 [0x67, 0x2a, 0x00, 0x26],
    built_in ''setct-PCertResTBS'' ''setct-PCertResTBS'' 557 [0x67, 0x2a, 0x00, 0x27],
    built_in ''setct-BatchAdminReqData'' ''setct-BatchAdminReqData'' 558 [0x67, 0x2a, 0x00, 0x28],
    built_in ''setct-BatchAdminResData'' ''setct-BatchAdminResData'' 559 [0x67, 0x2a, 0x00, 0x29],
    built_in ''setct-CardCInitResTBS'' ''setct-CardCInitResTBS'' 560 [0x67, 0x2a, 0x00, 0x2a]]"

definition kObjects_28 :: "asn1_object list" where
  "kObjects_28 = [
    built_in ''setct-MeAqCInitResTBS'' ''setct-MeAqCInitResTBS'' 561 [0x67, 0x2a, 0x00, 0x2b],
    built_in ''setct-RegFormResTBS'' ''setct-RegFormResTBS'' 562 [0x67, 0x2a, 0x00, 0x2c],
    built_in ''setct-CertReqData'' ''setct-CertReqData'' 563 [0x67, 0x2a, 0x00, 0x2d],
    built_in ''setct-CertReqTBS'' ''setct-CertReqTBS'' 564 [0x67, 0x2a, 0x00, 0x2e],
    built_in ''setct-CertResData'' ''setct-CertResData'' 565 [0x67, 0x2a, 0x00, 0x2f],
    built_in ''setct-CertInqReqTBS'' ''setct-CertInqReqTBS'' 566 [0x67, 0x2a, 0x00, 0x30],
    built_in ''setct-ErrorTBS'' ''setct-ErrorTBS'' 567 [0x67, 0x2a, 0x00, 0x31],
    built_in ''setct-PIDualSignedTBE'' ''setct-PIDualSignedTBE'' 568 [0x67, 0x2a, 0x00, 0x32],
    built_in ''setct-PIUnsignedTBE'' ''setct-PIUnsignedTBE'' 569 [0x67, 0x2a, 0x00, 0x33],
    built_in ''setct-AuthReqTBE'' ''setct-AuthReqTBE'' 570 [0x67, 0x2a, 0x00, 0x34],
    built_in ''setct-AuthResTBE'' ''setct-AuthResTBE'' 571 [0x67, 0x2a, 0x00, 0x35],
    built_in ''setct-AuthResTBEX'' ''setct-AuthResTBEX'' 572 [0x67, 0x2a, 0x00, 0x36],
    built_in ''setct-AuthTokenTBE'' ''setct-AuthTokenTBE'' 573 [0x67, 0x2a, 0x00, 0x37],
    built_in ''setct-CapTokenTBE'' ''setct-CapTokenTBE'' 574 [0x67, 0x2a, 0x00, 0x38],
    built_in ''setct-CapTokenTBEX'' ''setct-CapTokenTBEX'' 575 [0x67, 0x2a, 0x00, 0x39],
    built_in ''setct-AcqCardCodeMsgTBE'' ''setct-AcqCardCodeMsgTBE'' 576 [0x67, 0x2a, 0x00, 0x3a],
    built_in ''setct-AuthRevReqTBE'' ''setct-AuthRevReqTBE'' 577 [0x67, 0x2a, 0x00, 0x3b],
    built_in ''setct-AuthRevResTBE'' ''setct-AuthRevResTBE'' 578 [0x67, 0x2a, 0x00, 0x3c],
    built_in ''setct-AuthRevResTBEB'' ''setct-AuthRevResTBEB'' 579 [0x67, 0x2a, 0x00, 0x3d],
    built_in ''setct-CapReqTBE'' ''setct-CapReqTBE'' 580 [0x67, 0x2a, 0x00, 0x3e]]"

definition kObjects_29 :: "asn1_object list" where
  "kObjects_29 = [
    built_in ''setct-CapReqTBEX'' ''setct-CapReqTBEX'' 581 [0x67, 0x2a, 0x00, 0x3f],
    built_in ''setct-CapResTBE'' ''setct-CapResTBE'' 582 [0x67, 0x2a, 0x00, 0x40],
    built_in ''setct-CapRevReqTBE'' ''setct-CapRevReqTBE'' 583 [0x67, 0x2a, 0x00, 0x41],
    built_in ''setct-CapRevReqTBEX'' ''setct-CapRevReqTBEX'' 584 [0x67, 0x2a, 0x00, 0x42],
    built_in ''setct-CapRevResTBE'' ''setct-CapRevResTBE'' 585 [0x67, 0x2a, 0x00, 0x43],
    built_in ''setct-CredReqTBE'' ''setct-CredReqTBE'' 586 [0x67, 0x2a, 0x00, 0x44],
    built_in ''setct-CredReqTBEX'' ''setct-CredReqTBEX'' 587 [0x67, 0x2a, 0x00, 0x45],
    built_in ''setct-CredResTBE'' ''setct-CredResTBE'' 588 [0x67, 0x2a, 0x00, 0x46],
    built_in ''setct-CredRevReqTBE'' ''setct-CredRevReqTBE'' 589 [0x67, 0x2a, 0x00, 0x47],
    built_in ''setct-CredRevReqTBEX'' ''setct-CredRevReqTBEX'' 590 [0x67, 0x2a, 0x00, 0x48],
    built_in ''setct-CredRevResTBE'' ''setct-CredRevResTBE'' 591 [0x67, 0x2a, 0x00, 0x49],
    built_in ''setct-BatchAdminReqTBE'' ''setct-BatchAdminReqTBE'' 592 [0x67, 0x2a, 0x00, 0x4a],
    built_in ''setct-BatchAdminResTBE'' ''setct-BatchAdminResTBE'' 593 [0x67, 0x2a, 0x00, 0x4b],
    built_in ''setct-RegFormReqTBE'' ''setct-RegFormReqTBE'' 594 [0x67, 0x2a, 0x00, 0x4c],
    built_in ''setct-CertReqTBE'' ''setct-CertReqTBE'' 595 [0x67, 0x2a, 0x00, 0x4d],
    built_in ''setct-CertReqTBEX'' ''setct-CertReqTBEX'' 596 [0x67, 0x2a, 0x00, 0x4e],
    built_in ''setct-CertResTBE'' ''setct-CertResTBE'' 597 [0x67, 0x2a, 0x00, 0x4f],
    built_in ''setct-CRLNotificationTBS'' ''setct-CRLNotificationTBS'' 598 [0x67, 0x2a, 0x00, 0x50],
    built_in ''setct-CRLNotificationResTBS'' ''setct-CRLNotificationResTBS'' 599 [0x67, 0x2a, 0x00, 0x51],
    built_in ''setct-BCIDistributionTBS'' ''setct-BCIDistributionTBS'' 600 [0x67, 0x2a, 0x00, 0x52]]"

definition kObjects_30 :: "asn1_object list" where
  "kObjects_30 = [
    built_in ''setext-genCrypt'' ''generic cryptogram'' 601 [0x67, 0x2a, 0x01, 0x01],
    built_in ''setext-miAuth'' ''merchant initiated auth'' 602 [0x67, 0x2a, 0x01, 0x03],
    built_in ''setext-pinSecure'' ''setext-pinSecure'' 603 [0x67, 0x2a, 0x01, 0x04],
    built_in ''setext-pinAny'' ''setext-pinAny'' 604 [0x67, 0x2a, 0x01, 0x05],
    built_in ''setext-track2'' ''setext-track2'' 605 [0x67, 0x2a, 0x01, 0x07],
    built_in ''setext-cv'' ''additional verification'' 606 [0x67, 0x2a, 0x01, 0x08],
    built_in ''set-policy-root'' ''set-policy-root'' 607 [0x67, 0x2a, 0x05, 0x00],
    built_in ''setCext-hashedRoot'' ''setCext-hashedRoot'' 608 [0x67, 0x2a, 0x07, 0x00],
    built_in ''setCext-certType'' ''setCext-certType'' 609 [0x67, 0x2a, 0x07, 0x01],
    built_in ''setCext-merchData'' ''setCext-merchData'' 610 [0x67, 0x2a, 0x07, 0x02],
    built_in ''setCext-cCertRequired'' ''setCext-cCertRequired'' 611 [0x67, 0x2a, 0x07, 0x03],
    built_in ''setCext-tunneling'' ''setCext-tunneling'' 612 [0x67, 0x2a, 0x07, 0x04],
    built_in ''setCext-setExt'' ''setCext-setExt'' 613 [0x67, 0x2a, 0x07, 0x05],
    built_in ''setCext-setQualf'' ''setCext-setQualf'' 614 [0x67, 0x2a, 0x07, 0x06],
    built_in ''setCext-PGWYcapabilities'' ''setCext-PGWYcapabilities'' 615 [0x67, 0x2a, 0x07, 0x07],
    built_in ''setCext-TokenIdentifier'' ''setCext-TokenIdentifier'' 616 [0x67, 0x2a, 0x07, 0x08],
    built_in ''setCext-Track2Data'' ''setCext-Track2Data'' 617 [0x67, 0x2a, 0x07, 0x09],
    built_in ''setCext-TokenType'' ''setCext-TokenType'' 618 [0x67, 0x2a, 0x07, 0x0a],
    built_in ''setCext-IssuerCapabilities'' ''setCext-IssuerCapabilities'' 619 [0x67, 0x2a, 0x07, 0x0b],
    built_in ''setAttr-Cert'' ''setAttr-Cert'' 620 [0x67, 0x2a, 0x03, 0x00]]"

definition kObjects_31 :: "asn1_object list" where
  "kObjects_31 = [
    built_in ''setAttr-PGWYcap'' ''payment gateway capabilities'' 621 [0x67, 0x2a, 0x03, 0x01],
    built_in ''setAttr-TokenType'' ''setAttr-TokenType'' 622 [0x67, 0x2a, 0x03, 0x02],
    built_in ''setAttr-IssCap'' ''issuer capabilities'' 623 [0x67, 0x2a, 0x03, 0x03],
    built_in ''set-rootKeyThumb'' ''set-rootKeyThumb'' 624 [0x67, 0x2a, 0x03, 0x00, 0x00],
    built_in ''set-addPolicy'' ''set-addPolicy'' 625 [0x67, 0x2a, 0x03, 0x00, 0x01],
    built_in ''setAttr-Token-EMV'' ''setAttr-Token-EMV'' 626 [0x67, 0x2a, 0x03, 0x02, 0x01],
    built_in ''setAttr-Token-B0Prime'' ''setAttr-Token-B0Prime'' 627 [0x67, 0x2a, 0x03, 0x02, 0x02],
    built_in ''setAttr-IssCap-CVM'' ''setAttr-IssCap-CVM'' 628 [0x67, 0x2a, 0x03, 0x03, 0x03],
    built_in ''setAttr-IssCap-T2'' ''setAttr-IssCap-T2'' 629 [0x67, 0x2a, 0x03, 0x03, 0x04],
    built_in ''setAttr-IssCap-Sig'' ''setAttr-IssCap-Sig'' 630 [0x67, 0x2a, 0x03, 0x03, 0x05],
    built_in ''setAttr-GenCryptgrm'' ''generate cryptogram'' 631 [0x67, 0x2a, 0x03, 0x03, 0x03, 0x01],
    built_in ''setAttr-T2Enc'' ''encrypted track 2'' 632 [0x67, 0x2a, 0x03, 0x03, 0x04, 0x01],
    built_in ''setAttr-T2cleartxt'' ''cleartext track 2'' 633 [0x67, 0x2a, 0x03, 0x03, 0x04, 0x02],
    built_in ''setAttr-TokICCsig'' ''ICC or token signature'' 634 [0x67, 0x2a, 0x03, 0x03, 0x05, 0x01],
    built_in ''setAttr-SecDevSig'' ''secure device signature'' 635 [0x67, 0x2a, 0x03, 0x03, 0x05, 0x02],
    built_in ''set-brand-IATA-ATA'' ''set-brand-IATA-ATA'' 636 [0x67, 0x2a, 0x08, 0x01],
    built_in ''set-brand-Diners'' ''set-brand-Diners'' 637 [0x67, 0x2a, 0x08, 0x1e],
    built_in ''set-brand-AmericanExpress'' ''set-brand-AmericanExpress'' 638 [0x67, 0x2a, 0x08, 0x22],
    built_in ''set-brand-JCB'' ''set-brand-JCB'' 639 [0x67, 0x2a, 0x08, 0x23],
    built_in ''set-brand-Visa'' ''set-brand-Visa'' 640 [0x67, 0x2a, 0x08, 0x04]]"

definition kObjects_32 :: "asn1_object list" where
  "kObjects_32 = [
    built_in ''set-brand-MasterCard'' ''set-brand-MasterCard'' 641 [0x67, 0x2a, 0x08, 0x05],
    built_in ''set-brand-Novus'' ''set-brand-Novus'' 642 [0x67, 0x2a, 0x08, 0xae, 0x7b],
    built_in ''DES-CDMF'' ''des-cdmf'' 643 [0x2a, 0x86, 0x48, 0x86, 0xf7, 0x0d, 0x03, 0x0a],
    built_in ''rsaOAEPEncryptionSET'' ''rsaOAEPEncryptionSET'' 644 [0x2a, 0x86, 0x48, 0x86, 0xf7, 0x0d, 0x01, 0x01, 0x06],
    built_in ''ITU-T'' ''itu-t'' 645 [],
    built_in ''JOINT-ISO-ITU-T'' ''joint-iso-itu-t'' 646 [],
    built_in ''international-organizations'' ''International Organizations'' 647 [0x67],
    built_in ''msSmartcardLogin'' ''Microsoft Smartcardlogin'' 648 [0x2b, 0x06, 0x01, 0x04, 0x01, 0x82, 0x37, 0x14, 0x02, 0x02],
    built_in ''msUPN'' ''Microsoft Universal Principal Name'' 649 [0x2b, 0x06, 0x01, 0x04, 0x01, 0x82, 0x37, 0x14, 0x02, 0x03],
    built_in ''AES-128-CFB1'' ''aes-128-cfb1'' 650 [],
    built_in ''AES-192-CFB1'' ''aes-192-cfb1'' 651 [],
    built_in ''AES-256-CFB1'' ''aes-256-cfb1'' 652 [],
    built_in ''AES-128-CFB8'' ''aes-128-cfb8'' 653 [],
    built_in ''AES-192-CFB8'' ''aes-192-cfb8'' 654 [],
    built_in ''AES-256-CFB8'' ''aes-256-cfb8'' 655 [],
    built_in ''DES-CFB1'' ''des-cfb1'' 656 [],
    built_in ''DES-CFB8'' ''des-cfb8'' 657 [],
    built_in ''DES-EDE3-CFB1'' ''des-ede3-cfb1'' 658 [],
    built_in ''DES-EDE3-CFB8'' ''des-ede3-cfb8'' 659 [],
    built_in ''street'' ''streetAddress'' 660 [0x55, 0x04, 0x09]]"

definition kObjects_33 :: "asn1_object list" where
  "kObjects_33 = [
    built_in ''postalCode'' ''postalCode'' 661 [0x55, 0x04, 0x11],
    built_in ''id-ppl'' ''id-ppl'' 662 [0x2b, 0x06, 0x01, 0x05, 0x05, 0x07, 0x15],
    built_in ''proxyCertInfo'' ''Proxy Certificate Information'' 663 [0x2b, 0x06, 0x01, 0x05, 0x05, 0x07, 0x01, 0x0e],
    built_in ''id-ppl-anyLanguage'' ''Any language'' 664 [0x2b, 0x06, 0x01, 0x05, 0x05, 0x07, 0x15, 0x00],
    built_in ''id-ppl-inheritAll'' ''Inherit all'' 665 [0x2b, 0x06, 0x01, 0x05, 0x05, 0x07, 0x15, 0x01],
    built_in ''nameConstraints'' ''X509v3 Name Constraints'' 666 [0x55, 0x1d, 0x1e],
    built_in ''id-ppl-independent'' ''Independent'' 667 [0x2b, 0x06, 0x01, 0x05, 0x05, 0x07, 0x15, 0x02],
    built_in ''RSA-SHA256'' ''sha256WithRSAEncryption'' 668 [0x2a, 0x86, 0x48, 0x86, 0xf7, 0x0d, 0x01, 0x01, 0x0b],
    built_in ''RSA-SHA384'' ''sha384WithRSAEncryption'' 669 [0x2a, 0x86, 0x48, 0x86, 0xf7, 0x0d, 0x01, 0x01, 0x0c],
    built_in ''RSA-SHA512'' ''sha512WithRSAEncryption'' 670 [0x2a, 0x86, 0x48, 0x86, 0xf7, 0x0d, 0x01, 0x01, 0x0d],
    built_in ''RSA-SHA224'' ''sha224WithRSAEncryption'' 671 [0x2a, 0x86, 0x48, 0x86, 0xf7, 0x0d, 0x01, 0x01, 0x0e],
    built_in ''SHA256'' ''sha256'' 672 [0x60, 0x86, 0x48, 0x01, 0x65, 0x03, 0x04, 0x02, 0x01],
    built_in ''SHA384'' ''sha384'' 673 [0x60, 0x86, 0x48, 0x01, 0x65, 0x03, 0x04, 0x02, 0x02],
    built_in ''SHA512'' ''sha512'' 674 [0x60, 0x86, 0x48, 0x01, 0x65, 0x03, 0x04, 0x02, 0x03],
    built_in ''SHA224'' ''sha224'' 675 [0x60, 0x86, 0x48, 0x01, 0x65, 0x03, 0x04, 0x02, 0x04],
    built_in ''identified-organization'' ''identified-organization'' 676 [0x2b],
    built_in ''certicom-arc'' ''certicom-arc'' 677 [0x2b, 0x81, 0x04],
    built_in ''wap'' ''wap'' 678 [0x67, 0x2b],
    built_in ''wap-wsg'' ''wap-wsg'' 679 [0x67, 0x2b, 0x01],
    built_in ''id-characteristic-two-basis'' ''id-characteristic-two-basis'' 680 [0x2a, 0x86, 0x48, 0xce, 0x3d, 0x01, 0x02, 0x03]]"

definition kObjects_34 :: "asn1_object list" where
  "kObjects_34 = [
    built_in ''onBasis'' ''onBasis'' 681 [0x2a, 0x86, 0x48, 0xce, 0x3d, 0x01, 0x02, 0x03, 0x01],
    built_in ''tpBasis'' ''tpBasis'' 682 [0x2a, 0x86, 0x48, 0xce, 0x3d, 0x01, 0x02, 0x03, 0x02],
    built_in ''ppBasis'' ''ppBasis'' 683 [0x2a, 0x86, 0x48, 0xce, 0x3d, 0x01, 0x02, 0x03, 0x03],
    built_in ''c2pnb163v1'' ''c2pnb163v1'' 684 [0x2a, 0x86, 0x48, 0xce, 0x3d, 0x03, 0x00, 0x01],
    built_in ''c2pnb163v2'' ''c2pnb163v2'' 685 [0x2a, 0x86, 0x48, 0xce, 0x3d, 0x03, 0x00, 0x02],
    built_in ''c2pnb163v3'' ''c2pnb163v3'' 686 [0x2a, 0x86, 0x48, 0xce, 0x3d, 0x03, 0x00, 0x03],
    built_in ''c2pnb176v1'' ''c2pnb176v1'' 687 [0x2a, 0x86, 0x48, 0xce, 0x3d, 0x03, 0x00, 0x04],
    built_in ''c2tnb191v1'' ''c2tnb191v1'' 688 [0x2a, 0x86, 0x48, 0xce, 0x3d, 0x03, 0x00, 0x05],
    built_in ''c2tnb191v2'' ''c2tnb191v2'' 689 [0x2a, 0x86, 0x48, 0xce, 0x3d, 0x03, 0x00, 0x06],
    built_in ''c2tnb191v3'' ''c2tnb191v3'' 690 [0x2a, 0x86, 0x48, 0xce, 0x3d, 0x03, 0x00, 0x07],
    built_in ''c2onb191v4'' ''c2onb191v4'' 691 [0x2a, 0x86, 0x48, 0xce, 0x3d, 0x03, 0x00, 0x08],
    built_in ''c2onb191v5'' ''c2onb191v5'' 692 [0x2a, 0x86, 0x48, 0xce, 0x3d, 0x03, 0x00, 0x09],
    built_in ''c2pnb208w1'' ''c2pnb208w1'' 693 [0x2a, 0x86, 0x48, 0xce, 0x3d, 0x03, 0x00, 0x0a],
    built_in ''c2tnb239v1'' ''c2tnb239v1'' 694 [0x2a, 0x86, 0x48, 0xce, 0x3d, 0x03, 0x00, 0x0b],
    built_in ''c2tnb239v2'' ''c2tnb239v2'' 695 [0x2a, 0x86, 0x48, 0xce, 0x3d, 0x03, 0x00, 0x0c],
    built_in ''c2tnb239v3'' ''c2tnb239v3'' 696 [0x2a, 0x86, 0x48, 0xce, 0x3d, 0x03, 0x00, 0x0d],
    built_in ''c2onb239v4'' ''c2onb239v4'' 697 [0x2a, 0x86, 0x48, 0xce, 0x3d, 0x03, 0x00, 0x0e],
    built_in ''c2onb239v5'' ''c2onb239v5'' 698 [0x2a, 0x86, 0x48, 0xce, 0x3d, 0x03, 0x00, 0x0f],
    built_in ''c2pnb272w1'' ''c2pnb272w1'' 699 [0x2a, 0x86, 0x48, 0xce, 0x3d, 0x03, 0x00, 0x10],
    built_in ''c2pnb304w1'' ''c2pnb304w1'' 700 [0x2a, 0x86, 0x48, 0xce, 0x3d, 0x03, 0x00, 0x11]]"

definition kObjects_35 :: "asn1_object list" where
  "kObjects_35 = [
    built_in ''c2tnb359v1'' ''c2tnb359v1'' 701 [0x2a, 0x86, 0x48, 0xce, 0x3d, 0x03, 0x00, 0x12],
    built_in ''c2pnb368w1'' ''c2pnb368w1'' 702 [0x2a, 0x86, 0x48, 0xce, 0x3d, 0x03, 0x00, 0x13],
    built_in ''c2tnb431r1'' ''c2tnb431r1'' 703 [0x2a, 0x86, 0x48, 0xce, 0x3d, 0x03, 0x00, 0x14],
    built_in ''secp112r1'' ''secp112r1'' 704 [0x2b, 0x81, 0x04, 0x00, 0x06],
    built_in ''secp112r2'' ''secp112r2'' 705 [0x2b, 0x81, 0x04, 0x00, 0x07],
    built_in ''secp128r1'' ''secp128r1'' 706 [0x2b, 0x81, 0x04, 0x00, 0x1c],
    built_in ''secp128r2'' ''secp128r2'' 707 [0x2b, 0x81, 0x04, 0x00, 0x1d],
    built_in ''secp160k1'' ''secp160k1'' 708 [0x2b, 0x81, 0x04, 0x00, 0x09],
    built_in ''secp160r1'' ''secp160r1'' 709 [0x2b, 0x81, 0x04, 0x00, 0x08],
    built_in ''secp160r2'' ''secp160r2'' 710 [0x2b, 0x81, 0x04, 0x00, 0x1e],
    built_in ''secp192k1'' ''secp192k1'' 711 [0x2b, 0x81, 0x04, 0x00, 0x1f],
    built_in ''secp224k1'' ''secp224k1'' 712 [0x2b, 0x81, 0x04, 0x00, 0x20],
    built_in ''secp224r1'' ''secp224r1'' 713 [0x2b, 0x81, 0x04, 0x00, 0x21],
    built_in ''secp256k1'' ''secp256k1'' 714 [0x2b, 0x81, 0x04, 0x00, 0x0a],
    built_in ''secp384r1'' ''secp384r1'' 715 [0x2b, 0x81, 0x04, 0x00, 0x22],
    built_in ''secp521r1'' ''secp521r1'' 716 [0x2b, 0x81, 0x04, 0x00, 0x23],
    built_in ''sect113r1'' ''sect113r1'' 717 [0x2b, 0x81, 0x04, 0x00, 0x04],
    built_in ''sect113r2'' ''sect113r2'' 718 [0x2b, 0x81, 0x04, 0x00, 0x05],
    built_in ''sect131r1'' ''sect131r1'' 719 [0x2b, 0x81, 0x04, 0x00, 0x16],
    built_in ''sect131r2'' ''sect131r2'' 720 [0x2b, 0x81, 0x04, 0x00, 0x17]]"

definition kObjects_36 :: "asn1_object list" where
  "kObjects_36 = [
    built_in ''sect163k1'' ''sect163k1'' 721 [0x2b, 0x81, 0x04, 0x00, 0x01],
    built_in ''sect163r1'' ''sect163r1'' 722 [0x2b, 0x81, 0x04, 0x00, 0x02],
    built_in ''sect163r2'' ''sect163r2'' 723 [0x2b, 0x81, 0x04, 0x00, 0x0f],
    built_in ''sect193r1'' ''sect193r1'' 724 [0x2b, 0x81, 0x04, 0x00, 0x18],
    built_in ''sect193r2'' ''sect193r2'' 725 [0x2b, 0x81, 0x04, 0x00, 0x19],
    built_in ''sect233k1'' ''sect233k1'' 726 [0x2b, 0x81, 0x04, 0x00, 0x1a],
    built_in ''sect233r1'' ''sect233r1'' 727 [0x2b, 0x81, 0x04, 0x00, 0x1b],
    built_in ''sect239k1'' ''sect239k1'' 728 [0x2b, 0x81, 0x04, 0x00, 0x03],
    built_in ''sect283k1'' ''sect283k1'' 729 [0x2b, 0x81, 0x04, 0x00, 0x10],
    built_in ''sect283r1'' ''sect283r1'' 730 [0x2b, 0x81, 0x04, 0x00, 0x11],
    built_in ''sect409k1'' ''sect409k1'' 731 [0x2b, 0x81, 0x04, 0x00, 0x24],
    built_in ''sect409r1'' ''sect409r1'' 732 [0x2b, 0x81, 0x04, 0x00, 0x25],
    built_in ''sect571k1'' ''sect571k1'' 733 [0x2b, 0x81, 0x04, 0x00, 0x26],
    built_in ''sect571r1'' ''sect571r1'' 734 [0x2b, 0x81, 0x04, 0x00, 0x27],
    built_in ''wap-wsg-idm-ecid-wtls1'' ''wap-wsg-idm-ecid-wtls1'' 735 [0x67, 0x2b, 0x01, 0x04, 0x01],
    built_in ''wap-wsg-idm-ecid-wtls3'' ''wap-wsg-idm-ecid-wtls3'' 736 [0x67, 0x2b, 0x01, 0x04, 0x03],
    built_in ''wap-wsg-idm-ecid-wtls4'' ''wap-wsg-idm-ecid-wtls4'' 737 [0x67, 0x2b, 0x01, 0x04, 0x04],
    built_in ''wap-wsg-idm-ecid-wtls5'' ''wap-wsg-idm-ecid-wtls5'' 738 [0x67, 0x2b, 0x01, 0x04, 0x05],
    built_in ''wap-wsg-idm-ecid-wtls6'' ''wap-wsg-idm-ecid-wtls6'' 739 [0x67, 0x2b, 0x01, 0x04, 0x06],
    built_in ''wap-wsg-idm-ecid-wtls7'' ''wap-wsg-idm-ecid-wtls7'' 740 [0x67, 0x2b, 0x01, 0x04, 0x07]]"

definition kObjects_37 :: "asn1_object list" where
  "kObjects_37 = [
    built_in ''wap-wsg-idm-ecid-wtls8'' ''wap-wsg-idm-ecid-wtls8'' 741 [0x67, 0x2b, 0x01, 0x04, 0x08],
    built_in ''wap-wsg-idm-ecid-wtls9'' ''wap-wsg-idm-ecid-wtls9'' 742 [0x67, 0x2b, 0x01, 0x04, 0x09],
    built_in ''wap-wsg-idm-ecid-wtls10'' ''wap-wsg-idm-ecid-wtls10'' 743 [0x67, 0x2b, 0x01, 0x04, 0x0a],
    built_in ''wap-wsg-idm-ecid-wtls11'' ''wap-wsg-idm-ecid-wtls11'' 744 [0x67, 0x2b, 0x01, 0x04, 0x0b],
    built_in ''wap-wsg-idm-ecid-wtls12'' ''wap-wsg-idm-ecid-wtls12'' 745 [0x67, 0x2b, 0x01, 0x04, 0x0c],
    built_in ''anyPolicy'' ''X509v3 Any Policy'' 746 [0x55, 0x1d, 0x20, 0x00],
    built_in ''policyMappings'' ''X509v3 Policy Mappings'' 747 [0x55, 0x1d, 0x21],
    built_in ''inhibitAnyPolicy'' ''X509v3 Inhibit Any Policy'' 748 [0x55, 0x1d, 0x36],
    built_in ''Oakley-EC2N-3'' ''ipsec3'' 749 [],
    built_in ''Oakley-EC2N-4'' ''ipsec4'' 750 [],
    built_in ''CAMELLIA-128-CBC'' ''camellia-128-cbc'' 751 [0x2a, 0x83, 0x08, 0x8c, 0x9a, 0x4b, 0x3d, 0x01, 0x01, 0x01, 0x02],
    built_in ''CAMELLIA-192-CBC'' ''camellia-192-cbc'' 752 [0x2a, 0x83, 0x08, 0x8c, 0x9a, 0x4b, 0x3d, 0x01, 0x01, 0x01, 0x03],
    built_in ''CAMELLIA-256-CBC'' ''camellia-256-cbc'' 753 [0x2a, 0x83, 0x08, 0x8c, 0x9a, 0x4b, 0x3d, 0x01, 0x01, 0x01, 0x04],
    built_in ''CAMELLIA-128-ECB'' ''camellia-128-ecb'' 754 [0x03, 0xa2, 0x31, 0x05, 0x03, 0x01, 0x09, 0x01],
    built_in ''CAMELLIA-192-ECB'' ''camellia-192-ecb'' 755 [0x03, 0xa2, 0x31, 0x05, 0x03, 0x01, 0x09, 0x15],
    built_in ''CAMELLIA-256-ECB'' ''camellia-256-ecb'' 756 [0x03, 0xa2, 0x31, 0x05, 0x03, 0x01, 0x09, 0x29],
    built_in ''CAMELLIA-128-CFB'' ''camellia-128-cfb'' 757 [0x03, 0xa2, 0x31, 0x05, 0x03, 0x01, 0x09, 0x04],
    built_in ''CAMELLIA-192-CFB'' ''camellia-192-cfb'' 758 [0x03, 0xa2, 0x31, 0x05, 0x03, 0x01, 0x09, 0x18],
    built_in ''CAMELLIA-256-CFB'' ''camellia-256-cfb'' 759 [0x03, 0xa2, 0x31, 0x05, 0x03, 0x01, 0x09, 0x2c],
    built_in ''CAMELLIA-128-CFB1'' ''camellia-128-cfb1'' 760 []]"

definition kObjects_38 :: "asn1_object list" where
  "kObjects_38 = [
    built_in ''CAMELLIA-192-CFB1'' ''camellia-192-cfb1'' 761 [],
    built_in ''CAMELLIA-256-CFB1'' ''camellia-256-cfb1'' 762 [],
    built_in ''CAMELLIA-128-CFB8'' ''camellia-128-cfb8'' 763 [],
    built_in ''CAMELLIA-192-CFB8'' ''camellia-192-cfb8'' 764 [],
    built_in ''CAMELLIA-256-CFB8'' ''camellia-256-cfb8'' 765 [],
    built_in ''CAMELLIA-128-OFB'' ''camellia-128-ofb'' 766 [0x03, 0xa2, 0x31, 0x05, 0x03, 0x01, 0x09, 0x03],
    built_in ''CAMELLIA-192-OFB'' ''camellia-192-ofb'' 767 [0x03, 0xa2, 0x31, 0x05, 0x03, 0x01, 0x09, 0x17],
    built_in ''CAMELLIA-256-OFB'' ''camellia-256-ofb'' 768 [0x03, 0xa2, 0x31, 0x05, 0x03, 0x01, 0x09, 0x2b],
    built_in ''subjectDirectoryAttributes'' ''X509v3 Subject Directory Attributes'' 769 [0x55, 0x1d, 0x09],
    built_in ''issuingDistributionPoint'' ''X509v3 Issuing Distribution Point'' 770 [0x55, 0x1d, 0x1c],
    built_in ''certificateIssuer'' ''X509v3 Certificate Issuer'' 771 [0x55, 0x1d, 0x1d],
    no_object,
    built_in ''KISA'' ''kisa'' 773 [0x2a, 0x83, 0x1a, 0x8c, 0x9a, 0x44],
    no_object,
    no_object,
    built_in ''SEED-ECB'' ''seed-ecb'' 776 [0x2a, 0x83, 0x1a, 0x8c, 0x9a, 0x44, 0x01, 0x03],
    built_in ''SEED-CBC'' ''seed-cbc'' 777 [0x2a, 0x83, 0x1a, 0x8c, 0x9a, 0x44, 0x01, 0x04],
    built_in ''SEED-OFB'' ''seed-ofb'' 778 [0x2a, 0x83, 0x1a, 0x8c, 0x9a, 0x44, 0x01, 0x06],
    built_in ''SEED-CFB'' ''seed-cfb'' 779 [0x2a, 0x83, 0x1a, 0x8c, 0x9a, 0x44, 0x01, 0x05],
    built_in ''HMAC-MD5'' ''hmac-md5'' 780 [0x2b, 0x06, 0x01, 0x05, 0x05, 0x08, 0x01, 0x01]]"

definition kObjects_39 :: "asn1_object list" where
  "kObjects_39 = [
    built_in ''HMAC-SHA1'' ''hmac-sha1'' 781 [0x2b, 0x06, 0x01, 0x05, 0x05, 0x08, 0x01, 0x02],
    built_in ''id-PasswordBasedMAC'' ''password based MAC'' 782 [0x2a, 0x86, 0x48, 0x86, 0xf6, 0x7d, 0x07, 0x42, 0x0d],
    built_in ''id-DHBasedMac'' ''Diffie-Hellman based MAC'' 783 [0x2a, 0x86, 0x48, 0x86, 0xf6, 0x7d, 0x07, 0x42, 0x1e],
    built_in ''id-it-suppLangTags'' ''id-it-suppLangTags'' 784 [0x2b, 0x06, 0x01, 0x05, 0x05, 0x07, 0x04, 0x10],
    built_in ''caRepository'' ''CA Repository'' 785 [0x2b, 0x06, 0x01, 0x05, 0x05, 0x07, 0x30, 0x05],
    built_in ''id-smime-ct-compressedData'' ''id-smime-ct-compressedData'' 786 [0x2a, 0x86, 0x48, 0x86, 0xf7, 0x0d, 0x01, 0x09, 0x10, 0x01, 0x09],
    built_in ''id-ct-asciiTextWithCRLF'' ''id-ct-asciiTextWithCRLF'' 787 [0x2a, 0x86, 0x48, 0x86, 0xf7, 0x0d, 0x01, 0x09, 0x10, 0x01, 0x1b],
    built_in ''id-aes128-wrap'' ''id-aes128-wrap'' 788 [0x60, 0x86, 0x48, 0x01, 0x65, 0x03, 0x04, 0x01, 0x05],
    built_in ''id-aes192-wrap'' ''id-aes192-wrap'' 789 [0x60, 0x86, 0x48, 0x01, 0x65, 0x03, 0x04, 0x01, 0x19],
    built_in ''id-aes256-wrap'' ''id-aes256-wrap'' 790 [0x60, 0x86, 0x48, 0x01, 0x65, 0x03, 0x04, 0x01, 0x2d],
    built_in ''ecdsa-with-Recommended'' ''ecdsa-with-Recommended'' 791 [0x2a, 0x86, 0x48, 0xce, 0x3d, 0x04, 0x02],
    built_in ''ecdsa-with-Specified'' ''ecdsa-with-Specified'' 792 [0x2a, 0x86, 0x48, 0xce, 0x3d, 0x04, 0x03],
    built_in ''ecdsa-with-SHA224'' ''ecdsa-with-SHA224'' 793 [0x2a, 0x86, 0x48, 0xce, 0x3d, 0x04, 0x03, 0x01],
    built_in ''ecdsa-with-SHA256'' ''ecdsa-with-SHA256'' 794 [0x2a, 0x86, 0x48, 0xce, 0x3d, 0x04, 0x03, 0x02],
    built_in ''ecdsa-with-SHA384'' ''ecdsa-with-SHA384'' 795 [0x2a, 0x86, 0x48, 0xce, 0x3d, 0x04, 0x03, 0x03],
    built_in ''ecdsa-with-SHA512'' ''ecdsa-with-SHA512'' 796 [0x2a, 0x86, 0x48, 0xce, 0x3d, 0x04, 0x03, 0x04],
    built_in ''hmacWithMD5'' ''hmacWithMD5'' 797 [0x2a, 0x86, 0x48, 0x86, 0xf7, 0x0d, 0x02, 0x06],
    built_in ''hmacWithSHA224'' ''hmacWithSHA224'' 798 [0x2a, 0x86, 0x48, 0x86, 0xf7, 0x0d, 0x02, 0x08],
    built_in ''hmacWithSHA256'' ''hmacWithSHA256'' 799 [0x2a, 0x86, 0x48, 0x86, 0xf7, 0x0d, 0x02, 0x09],
    built_in ''hmacWithSHA384'' ''hmacWithSHA384'' 800 [0x2a, 0x86, 0x48, 0x86, 0xf7, 0x0d, 0x02, 0x0a]]"

definition kObjects_40 :: "asn1_object list" where
  "kObjects_40 = [
    built_in ''hmacWithSHA512'' ''hmacWithSHA512'' 801 [0x2a, 0x86, 0x48, 0x86, 0xf7, 0x0d, 0x02, 0x0b],
    built_in ''dsa_with_SHA224'' ''dsa_with_SHA224'' 802 [0x60, 0x86, 0x48, 0x01, 0x65, 0x03, 0x04, 0x03, 0x01],
    built_in ''dsa_with_SHA256'' ''dsa_with_SHA256'' 803 [0x60, 0x86, 0x48, 0x01, 0x65, 0x03, 0x04, 0x03, 0x02],
    built_in ''whirlpool'' ''whirlpool'' 804 [0x28, 0xcf, 0x06, 0x03, 0x00, 0x37],
    built_in ''cryptopro'' ''cryptopro'' 805 [0x2a, 0x85, 0x03, 0x02, 0x02],
    built_in ''cryptocom'' ''cryptocom'' 806 [0x2a, 0x85, 0x03, 0x02, 0x09],
    built_in ''id-GostR3411-94-with-GostR3410-2001'' ''GOST R 34.11-94 with GOST R 34.10-2001'' 807 [0x2a, 0x85, 0x03, 0x02, 0x02, 0x03],
    built_in ''id-GostR3411-94-with-GostR3410-94'' ''GOST R 34.11-94 with GOST R 34.10-94'' 808 [0x2a, 0x85, 0x03, 0x02, 0x02, 0x04],
    built_in ''md_gost94'' ''GOST R 34.11-94'' 809 [0x2a, 0x85, 0x03, 0x02, 0x02, 0x09],
    built_in ''id-HMACGostR3411-94'' ''HMAC GOST 34.11-94'' 810 [0x2a, 0x85, 0x03, 0x02, 0x02, 0x0a],
    built_in ''gost2001'' ''GOST R 34.10-2001'' 811 [0x2a, 0x85, 0x03, 0x02, 0x02, 0x13],
    built_in ''gost94'' ''GOST R 34.10-94'' 812 [0x2a, 0x85, 0x03, 0x02, 0x02, 0x14],
    built_in ''gost89'' ''GOST 28147-89'' 813 [0x2a, 0x85, 0x03, 0x02, 0x02, 0x15],
    built_in ''gost89-cnt'' ''gost89-cnt'' 814 [],
    built_in ''gost-mac'' ''GOST 28147-89 MAC'' 815 [0x2a, 0x85, 0x03, 0x02, 0x02, 0x16],
    built_in ''prf-gostr3411-94'' ''GOST R 34.11-94 PRF'' 816 [0x2a, 0x85, 0x03, 0x02, 0x02, 0x17],
    built_in ''id-GostR3410-2001DH'' ''GOST R 34.10-2001 DH'' 817 [0x2a, 0x85, 0x03, 0x02, 0x02, 0x62],
    built_in ''id-GostR3410-94DH'' ''GOST R 34.10-94 DH'' 818 [0x2a, 0x85, 0x03, 0x02, 0x02, 0x63],
    built_in ''id-Gost28147-89-CryptoPro-KeyMeshing'' ''id-Gost28147-89-CryptoPro-KeyMeshing'' 819 [0x2a, 0x85, 0x03, 0x02, 0x02, 0x0e, 0x01],
    built_in ''id-Gost28147-89-None-KeyMeshing'' ''id-Gost28147-89-None-KeyMeshing'' 820 [0x2a, 0x85, 0x03, 0x02, 0x02, 0x0e, 0x00]]"

definition kObjects_41 :: "asn1_object list" where
  "kObjects_41 = [
    built_in ''id-GostR3411-94-TestParamSet'' ''id-GostR3411-94-TestParamSet'' 821 [0x2a, 0x85, 0x03, 0x02, 0x02, 0x1e, 0x00],
    built_in ''id-GostR3411-94-CryptoProParamSet'' ''id-GostR3411-94-CryptoProParamSet'' 822 [0x2a, 0x85, 0x03, 0x02, 0x02, 0x1e, 0x01],
    built_in ''id-Gost28147-89-TestParamSet'' ''id-Gost28147-89-TestParamSet'' 823 [0x2a, 0x85, 0x03, 0x02, 0x02, 0x1f, 0x00],
    built_in ''id-Gost28147-89-CryptoPro-A-ParamSet'' ''id-Gost28147-89-CryptoPro-A-ParamSet'' 824 [0x2a, 0x85, 0x03, 0x02, 0x02, 0x1f, 0x01],
    built_in ''id-Gost28147-89-CryptoPro-B-ParamSet'' ''id-Gost28147-89-CryptoPro-B-ParamSet'' 825 [0x2a, 0x85, 0x03, 0x02, 0x02, 0x1f, 0x02],
    built_in ''id-Gost28147-89-CryptoPro-C-ParamSet'' ''id-Gost28147-89-CryptoPro-C-ParamSet'' 826 [0x2a, 0x85, 0x03, 0x02, 0x02, 0x1f, 0x03],
    built_in ''id-Gost28147-89-CryptoPro-D-ParamSet'' ''id-Gost28147-89-CryptoPro-D-ParamSet'' 827 [0x2a, 0x85, 0x03, 0x02, 0x02, 0x1f, 0x04],
    built_in ''id-Gost28147-89-CryptoPro-Oscar-1-1-ParamSet'' ''id-Gost28147-89-CryptoPro-Oscar-1-1-ParamSet'' 828 [0x2a, 0x85, 0x03, 0x02, 0x02, 0x1f, 0x05],
    built_in ''id-Gost28147-89-CryptoPro-Oscar-1-0-ParamSet'' ''id-Gost28147-89-CryptoPro-Oscar-1-0-ParamSet'' 829 [0x2a, 0x85, 0x03, 0x02, 0x02, 0x1f, 0x06],
    built_in ''id-Gost28147-89-CryptoPro-RIC-1-ParamSet'' ''id-Gost28147-89-CryptoPro-RIC-1-ParamSet'' 830 [0x2a, 0x85, 0x03, 0x02, 0x02, 0x1f, 0x07],
    built_in ''id-GostR3410-94-TestParamSet'' ''id-GostR3410-94-TestParamSet'' 831 [0x2a, 0x85, 0x03, 0x02, 0x02, 0x20, 0x00],
    built_in ''id-GostR3410-94-CryptoPro-A-ParamSet'' ''id-GostR3410-94-CryptoPro-A-ParamSet'' 832 [0x2a, 0x85, 0x03, 0x02, 0x02, 0x20, 0x02],
    built_in ''id-GostR3410-94-CryptoPro-B-ParamSet'' ''id-GostR3410-94-CryptoPro-B-ParamSet'' 833 [0x2a, 0x85, 0x03, 0x02, 0x02, 0x20, 0x03],
    built_in ''id-GostR3410-94-CryptoPro-C-ParamSet'' ''id-GostR3410-94-CryptoPro-C-ParamSet'' 834 [0x2a, 0x85, 0x03, 0x02, 0x02, 0x20, 0x04],
    built_in ''id-GostR3410-94-CryptoPro-D-ParamSet'' ''id-GostR3410-94-CryptoPro-D-ParamSet'' 835 [0x2a, 0x85, 0x03, 0x02, 0x02, 0x20, 0x05],
    built_in ''id-GostR3410-94-CryptoPro-XchA-ParamSet'' ''id-GostR3410-94-CryptoPro-XchA-ParamSet'' 836 [0x2a, 0x85, 0x03, 0x02, 0x02, 0x21, 0x01],
    built_in ''id-GostR3410-94-CryptoPro-XchB-ParamSet'' ''id-GostR3410-94-CryptoPro-XchB-ParamSet'' 837 [0x2a, 0x85, 0x03, 0x02, 0x02, 0x21, 0x02],
    built_in ''id-GostR3410-94-CryptoPro-XchC-ParamSet'' ''id-GostR3410-94-CryptoPro-XchC-ParamSet'' 838 [0x2a, 0x85, 0x03, 0x02, 0x02, 0x21, 0x03],
    built_in ''id-GostR3410-2001-TestParamSet'' ''id-GostR3410-2001-TestParamSet'' 839 [0x2a, 0x85, 0x03, 0x02, 0x02, 0x23, 0x00],
    built_in ''id-GostR3410-2001-CryptoPro-A-ParamSet'' ''id-GostR3410-2001-CryptoPro-A-ParamSet'' 840 [0x2a, 0x85, 0x03, 0x02, 0x02, 0x23, 0x01]]"

definition kObjects_42 :: "asn1_object list" where
  "kObjects_42 = [
    built_in ''id-GostR3410-2001-CryptoPro-B-ParamSet'' ''id-GostR3410-2001-CryptoPro-B-ParamSet'' 841 [0x2a, 0x85, 0x03, 0x02, 0x02, 0x23, 0x02],
    built_in ''id-GostR3410-2001-CryptoPro-C-ParamSet'' ''id-GostR3410-2001-CryptoPro-C-ParamSet'' 842 [0x2a, 0x85, 0x03, 0x02, 0x02, 0x23, 0x03],
    built_in ''id-GostR3410-2001-CryptoPro-XchA-ParamSet'' ''id-GostR3410-2001-CryptoPro-XchA-ParamSet'' 843 [0x2a, 0x85, 0x03, 0x02, 0x02, 0x24, 0x00],
    built_in ''id-GostR3410-2001-CryptoPro-XchB-ParamSet'' ''id-GostR3410-2001-CryptoPro-XchB-ParamSet'' 844 [0x2a, 0x85, 0x03, 0x02, 0x02, 0x24, 0x01],
    built_in ''id-GostR3410-94-a'' ''id-GostR3410-94-a'' 845 [0x2a, 0x85, 0x03, 0x02, 0x02, 0x14, 0x01],
    built_in ''id-GostR3410-94-aBis'' ''id-GostR3410-94-aBis'' 846 [0x2a, 0x85, 0x03, 0x02, 0x02, 0x14, 0x02],
    built_in ''id-GostR3410-94-b'' ''id-GostR3410-94-b'' 847 [0x2a, 0x85, 0x03, 0x02, 0x02, 0x14, 0x03],
    built_in ''id-GostR3410-94-bBis'' ''id-GostR3410-94-bBis'' 848 [0x2a, 0x85, 0x03, 0x02, 0x02, 0x14, 0x04],
    built_in ''id-Gost28147-89-cc'' ''GOST 28147-89 Cryptocom ParamSet'' 849 [0x2a, 0x85, 0x03, 0x02, 0x09, 0x01, 0x06, 0x01],
    built_in ''gost94cc'' ''GOST 34.10-94 Cryptocom'' 850 [0x2a, 0x85, 0x03, 0x02, 0x09, 0x01, 0x05, 0x03],
    built_in ''gost2001cc'' ''GOST 34.10-2001 Cryptocom'' 851 [0x2a, 0x85, 0x03, 0x02, 0x09, 0x01, 0x05, 0x04],
    built_in ''id-GostR3411-94-with-GostR3410-94-cc'' ''GOST R 34.11-94 with GOST R 34.10-94 Cryptocom'' 852 [0x2a, 0x85, 0x03, 0x02, 0x09, 0x01, 0x03, 0x03],
    built_in ''id-GostR3411-94-with-GostR3410-2001-cc'' ''GOST R 34.11-94 with GOST R 34.10-2001 Cryptocom'' 853 [0x2a, 0x85, 0x03, 0x02, 0x09, 0x01, 0x03, 0x04],
    built_in ''id-GostR3410-2001-ParamSet-cc'' ''GOST R 3410-2001 Parameter Set Cryptocom'' 854 [0x2a, 0x85, 0x03, 0x02, 0x09, 0x01, 0x08, 0x01],
    built_in ''HMAC'' ''hmac'' 855 [],
    built_in ''LocalKeySet'' ''Microsoft Local Key set'' 856 [0x2b, 0x06, 0x01, 0x04, 0x01, 0x82, 0x37, 0x11, 0x02],
    built_in ''freshestCRL'' ''X509v3 Freshest CRL'' 857 [0x55, 0x1d, 0x2e],
    built_in ''id-on-permanentIdentifier'' ''Permanent Identifier'' 858 [0x2b, 0x06, 0x01, 0x05, 0x05, 0x07, 0x08, 0x03],
    built_in ''searchGuide'' ''searchGuide'' 859 [0x55, 0x04, 0x0e],
    built_in ''businessCategory'' ''businessCategory'' 860 [0x55, 0x04, 0x0f]]"

definition kObjects_43 :: "asn1_object list" where
  "kObjects_43 = [
    built_in ''postalAddress'' ''postalAddress'' 861 [0x55, 0x04, 0x10],
    built_in ''postOfficeBox'' ''postOfficeBox'' 862 [0x55, 0x04, 0x12],
    built_in ''physicalDeliveryOfficeName'' ''physicalDeliveryOfficeName'' 863 [0x55, 0x04, 0x13],
    built_in ''telephoneNumber'' ''telephoneNumber'' 864 [0x55, 0x04, 0x14],
    built_in ''telexNumber'' ''telexNumber'' 865 [0x55, 0x04, 0x15],
    built_in ''teletexTerminalIdentifier'' ''teletexTerminalIdentifier'' 866 [0x55, 0x04, 0x16],
    built_in ''facsimileTelephoneNumber'' ''facsimileTelephoneNumber'' 867 [0x55, 0x04, 0x17],
    built_in ''x121Address'' ''x121Address'' 868 [0x55, 0x04, 0x18],
    built_in ''internationaliSDNNumber'' ''internationaliSDNNumber'' 869 [0x55, 0x04, 0x19],
    built_in ''registeredAddress'' ''registeredAddress'' 870 [0x55, 0x04, 0x1a],
    built_in ''destinationIndicator'' ''destinationIndicator'' 871 [0x55, 0x04, 0x1b],
    built_in ''preferredDeliveryMethod'' ''preferredDeliveryMethod'' 872 [0x55, 0x04, 0x1c],
    built_in ''presentationAddress'' ''presentationAddress'' 873 [0x55, 0x04, 0x1d],
    built_in ''supportedApplicationContext'' ''supportedApplicationContext'' 874 [0x55, 0x04, 0x1e],
    built_in ''member'' ''member'' 875 [0x55, 0x04, 0x1f],
    built_in ''owner'' ''owner'' 876 [0x55, 0x04, 0x20],
    built_in ''roleOccupant'' ''roleOccupant'' 877 [0x55, 0x04, 0x21],
    built_in ''seeAlso'' ''seeAlso'' 878 [0x55, 0x04, 0x22],
    built_in ''userPassword'' ''userPassword'' 879 [0x55, 0x04, 0x23],
    built_in ''userCertificate'' ''userCertificate'' 880 [0x55, 0x04, 0x24]]"

definition kObjects_44 :: "asn1_object list" where
  "kObjects_44 = [
    built_in ''cACertificate'' ''cACertificate'' 881 [0x55, 0x04, 0x25],
    built_in ''authorityRevocationList'' ''authorityRevocationList'' 882 [0x55, 0x04, 0x26],
    built_in ''certificateRevocationList'' ''certificateRevocationList'' 883 [0x55, 0x04, 0x27],
    built_in ''crossCertificatePair'' ''crossCertificatePair'' 884 [0x55, 0x04, 0x28],
    built_in ''enhancedSearchGuide'' ''enhancedSearchGuide'' 885 [0x55, 0x04, 0x2f],
    built_in ''protocolInformation'' ''protocolInformation'' 886 [0x55, 0x04, 0x30],
    built_in ''distinguishedName'' ''distinguishedName'' 887 [0x55, 0x04, 0x31],
    built_in ''uniqueMember'' ''uniqueMember'' 888 [0x55, 0x04, 0x32],
    built_in ''houseIdentifier'' ''houseIdentifier'' 889 [0x55, 0x04, 0x33],
    built_in ''supportedAlgorithms'' ''supportedAlgorithms'' 890 [0x55, 0x04, 0x34],
    built_in ''deltaRevocationList'' ''deltaRevocationList'' 891 [0x55, 0x04, 0x35],
    built_in ''dmdName'' ''dmdName'' 892 [0x55, 0x04, 0x36],
    built_in ''id-alg-PWRI-KEK'' ''id-alg-PWRI-KEK'' 893 [0x2a, 0x86, 0x48, 0x86, 0xf7, 0x0d, 0x01, 0x09, 0x10, 0x03, 0x09],
    built_in ''CMAC'' ''cmac'' 894 [],
    built_in ''id-aes128-GCM'' ''aes-128-gcm'' 895 [0x60, 0x86, 0x48, 0x01, 0x65, 0x03, 0x04, 0x01, 0x06],
    built_in ''id-aes128-CCM'' ''aes-128-ccm'' 896 [0x60, 0x86, 0x48, 0x01, 0x65, 0x03, 0x04, 0x01, 0x07],
    built_in ''id-aes128-wrap-pad'' ''id-aes128-wrap-pad'' 897 [0x60, 0x86, 0x48, 0x01, 0x65, 0x03, 0x04, 0x01, 0x08],
    built_in ''id-aes192-GCM'' ''aes-192-gcm'' 898 [0x60, 0x86, 0x48, 0x01, 0x65, 0x03, 0x04, 0x01, 0x1a],
    built_in ''id-aes192-CCM'' ''aes-192-ccm'' 899 [0x60, 0x86, 0x48, 0x01, 0x65, 0x03, 0x04, 0x01, 0x1b],
    built_in ''id-aes192-wrap-pad'' ''id-aes192-wrap-pad'' 900 [0x60, 0x86, 0x48, 0x01, 0x65, 0x03, 0x04, 0x01, 0x1c]]"

definition kObjects_45 :: "asn1_object list" where
  "kObjects_45 = [
    built_in ''id-aes256-GCM'' ''aes-256-gcm'' 901 [0x60, 0x86, 0x48, 0x01, 0x65, 0x03, 0x04, 0x01, 0x2e],
    built_in ''id-aes256-CCM'' ''aes-256-ccm'' 902 [0x60, 0x86, 0x48, 0x01, 0x65, 0x03, 0x04, 0x01, 0x2f],
    built_in ''id-aes256-wrap-pad'' ''id-aes256-wrap-pad'' 903 [0x60, 0x86, 0x48, 0x01, 0x65, 0x03, 0x04, 0x01, 0x30],
    built_in ''AES-128-CTR'' ''aes-128-ctr'' 904 [],
    built_in ''AES-192-CTR'' ''aes-192-ctr'' 905 [],
    built_in ''AES-256-CTR'' ''aes-256-ctr'' 906 [],
    built_in ''id-camellia128-wrap'' ''id-camellia128-wrap'' 907 [0x2a, 0x83, 0x08, 0x8c, 0x9a, 0x4b, 0x3d, 0x01, 0x01, 0x03, 0x02],
    built_in ''id-camellia192-wrap'' ''id-camellia192-wrap'' 908 [0x2a, 0x83, 0x08, 0x8c, 0x9a, 0x4b, 0x3d, 0x01, 0x01, 0x03, 0x03],
    built_in ''id-camellia256-wrap'' ''id-camellia256-wrap'' 909 [0x2a, 0x83, 0x08, 0x8c, 0x9a, 0x4b, 0x3d, 0x01, 0x01, 0x03, 0x04],
    built_in ''anyExtendedKeyUsage'' ''Any Extended Key Usage'' 910 [0x55, 0x1d, 0x25, 0x00],
    built_in ''MGF1'' ''mgf1'' 911 [0x2a, 0x86, 0x48, 0x86, 0xf7, 0x0d, 0x01, 0x01, 0x08],
    built_in ''RSASSA-PSS'' ''rsassaPss'' 912 [0x2a, 0x86, 0x48, 0x86, 0xf7, 0x0d, 0x01, 0x01, 0x0a],
    built_in ''AES-128-XTS'' ''aes-128-xts'' 913 [],
    built_in ''AES-256-XTS'' ''aes-256-xts'' 914 [],
    built_in ''RC4-HMAC-MD5'' ''rc4-hmac-md5'' 915 [],
    built_in ''AES-128-CBC-HMAC-SHA1'' ''aes-128-cbc-hmac-sha1'' 916 [],
    built_in ''AES-192-CBC-HMAC-SHA1'' ''aes-192-cbc-hmac-sha1'' 917 [],
    built_in ''AES-256-CBC-HMAC-SHA1'' ''aes-256-cbc-hmac-sha1'' 918 [],
    built_in ''RSAES-OAEP'' ''rsaesOaep'' 919 [0x2a, 0x86, 0x48, 0x86, 0xf7, 0x0d, 0x01, 0x01, 0x07],
    built_in ''dhpublicnumber'' ''X9.42 DH'' 920 [0x2a, 0x86, 0x48, 0xce, 0x3e, 0x02, 0x01]]"

definition kObjects_46 :: "asn1_object list" where
  "kObjects_46 = [
    built_in ''brainpoolP160r1'' ''brainpoolP160r1'' 921 [0x2b, 0x24, 0x03, 0x03, 0x02, 0x08, 0x01, 0x01, 0x01],
    built_in ''brainpoolP160t1'' ''brainpoolP160t1'' 922 [0x2b, 0x24, 0x03, 0x03, 0x02, 0x08, 0x01, 0x01, 0x02],
    built_in ''brainpoolP192r1'' ''brainpoolP192r1'' 923 [0x2b, 0x24, 0x03, 0x03, 0x02, 0x08, 0x01, 0x01, 0x03],
    built_in ''brainpoolP192t1'' ''brainpoolP192t1'' 924 [0x2b, 0x24, 0x03, 0x03, 0x02, 0x08, 0x01, 0x01, 0x04],
    built_in ''brainpoolP224r1'' ''brainpoolP224r1'' 925 [0x2b, 0x24, 0x03, 0x03, 0x02, 0x08, 0x01, 0x01, 0x05],
    built_in ''brainpoolP224t1'' ''brainpoolP224t1'' 926 [0x2b, 0x24, 0x03, 0x03, 0x02, 0x08, 0x01, 0x01, 0x06],
    built_in ''brainpoolP256r1'' ''brainpoolP256r1'' 927 [0x2b, 0x24, 0x03, 0x03, 0x02, 0x08, 0x01, 0x01, 0x07],
    built_in ''brainpoolP256t1'' ''brainpoolP256t1'' 928 [0x2b, 0x24, 0x03, 0x03, 0x02, 0x08, 0x01, 0x01, 0x08],
    built_in ''brainpoolP320r1'' ''brainpoolP320r1'' 929 [0x2b, 0x24, 0x03, 0x03, 0x02, 0x08, 0x01, 0x01, 0x09],
    built_in ''brainpoolP320t1'' ''brainpoolP320t1'' 930 [0x2b, 0x24, 0x03, 0x03, 0x02, 0x08, 0x01, 0x01, 0x0a],
    built_in ''brainpoolP384r1'' ''brainpoolP384r1'' 931 [0x2b, 0x24, 0x03, 0x03, 0x02, 0x08, 0x01, 0x01, 0x0b],
    built_in ''brainpoolP384t1'' ''brainpoolP384t1'' 932 [0x2b, 0x24, 0x03, 0x03, 0x02, 0x08, 0x01, 0x01, 0x0c],
    built_in ''brainpoolP512r1'' ''brainpoolP512r1'' 933 [0x2b, 0x24, 0x03, 0x03, 0x02, 0x08, 0x01, 0x01, 0x0d],
    built_in ''brainpoolP512t1'' ''brainpoolP512t1'' 934 [0x2b, 0x24, 0x03, 0x03, 0x02, 0x08, 0x01, 0x01, 0x0e],
    built_in ''PSPECIFIED'' ''pSpecified'' 935 [0x2a, 0x86, 0x48, 0x86, 0xf7, 0x0d, 0x01, 0x01, 0x09],
    built_in ''dhSinglePass-stdDH-sha1kdf-scheme'' ''dhSinglePass-stdDH-sha1kdf-scheme'' 936 [0x2b, 0x81, 0x05, 0x10, 0x86, 0x48, 0x3f, 0x00, 0x02],
    built_in ''dhSinglePass-stdDH-sha224kdf-scheme'' ''dhSinglePass-stdDH-sha224kdf-scheme'' 937 [0x2b, 0x81, 0x04, 0x01, 0x0b, 0x00],
    built_in ''dhSinglePass-stdDH-sha256kdf-scheme'' ''dhSinglePass-stdDH-sha256kdf-scheme'' 938 [0x2b, 0x81, 0x04, 0x01, 0x0b, 0x01],
    built_in ''dhSinglePass-stdDH-sha384kdf-scheme'' ''dhSinglePass-stdDH-sha384kdf-scheme'' 939 [0x2b, 0x81, 0x04, 0x01, 0x0b, 0x02],
    built_in ''dhSinglePass-stdDH-sha512kdf-scheme'' ''dhSinglePass-stdDH-sha512kdf-scheme'' 940 [0x2b, 0x81, 0x04, 0x01, 0x0b, 0x03]]"

definition kObjects_47 :: "asn1_object list" where
  "kObjects_47 = [
    built_in ''dhSinglePass-cofactorDH-sha1kdf-scheme'' ''dhSinglePass-cofactorDH-sha1kdf-scheme'' 941 [0x2b, 0x81, 0x05, 0x10, 0x86, 0x48, 0x3f, 0x00, 0x03],
    built_in ''dhSinglePass-cofactorDH-sha224kdf-scheme'' ''dhSinglePass-cofactorDH-sha224kdf-scheme'' 942 [0x2b, 0x81, 0x04, 0x01, 0x0e, 0x00],
    built_in ''dhSinglePass-cofactorDH-sha256kdf-scheme'' ''dhSinglePass-cofactorDH-sha256kdf-scheme'' 943 [0x2b, 0x81, 0x04, 0x01, 0x0e, 0x01],
    built_in ''dhSinglePass-cofactorDH-sha384kdf-scheme'' ''dhSinglePass-cofactorDH-sha384kdf-scheme'' 944 [0x2b, 0x81, 0x04, 0x01, 0x0e, 0x02],
    built_in ''dhSinglePass-cofactorDH-sha512kdf-scheme'' ''dhSinglePass-cofactorDH-sha512kdf-scheme'' 945 [0x2b, 0x81, 0x04, 0x01, 0x0e, 0x03],
    built_in ''dh-std-kdf'' ''dh-std-kdf'' 946 [],
    built_in ''dh-cofactor-kdf'' ''dh-cofactor-kdf'' 947 [],
    built_in ''X25519'' ''X25519'' 948 [0x2b, 0x65, 0x6e],
    built_in ''ED25519'' ''ED25519'' 949 [0x2b, 0x65, 0x70],
    built_in ''ChaCha20-Poly1305'' ''chacha20-poly1305'' 950 [],
    built_in ''KxRSA'' ''kx-rsa'' 951 [],
    built_in ''KxECDHE'' ''kx-ecdhe'' 952 [],
    built_in ''KxPSK'' ''kx-psk'' 953 [],
    built_in ''AuthRSA'' ''auth-rsa'' 954 [],
    built_in ''AuthECDSA'' ''auth-ecdsa'' 955 [],
    built_in ''AuthPSK'' ''auth-psk'' 956 [],
    built_in ''KxANY'' ''kx-any'' 957 [],
    built_in ''AuthANY'' ''auth-any'' 958 [],
    no_object,
    built_in ''ED448'' ''ED448'' 960 [0x2b, 0x65, 0x71]]"

definition kObjects_48 :: "asn1_object list" where
  "kObjects_48 = [
    built_in ''X448'' ''X448'' 961 [0x2b, 0x65, 0x6f],
    built_in ''SHA512-256'' ''sha512-256'' 962 [0x60, 0x86, 0x48, 0x01, 0x65, 0x03, 0x04, 0x02, 0x06],
    built_in ''HKDF'' ''hkdf'' 963 [],
    built_in ''X25519Kyber768Draft00'' ''X25519Kyber768Draft00'' 964 [],
    no_object]"

definition kNIDsInShortNameOrder_0 :: "nat list" where
  "kNIDsInShortNameOrder_0 = [
    364, 419, 916, 421, 650, 653, 904, 418, 420, 913, 423, 917, 425, 651, 654, 905, 422, 424, 427, 918, 429, 652, 655, 906, 426, 428, 914,
    958, 955, 956, 954, 91, 93, 92, 94, 14, 751, 757, 760, 763, 754, 766, 752, 758, 761, 764, 755, 767, 753, 759, 762, 765, 756, 768, 108,
    110, 109, 111, 894, 13, 141, 417, 950, 367, 391, 31, 643, 30, 656, 657, 29, 32, 43, 60, 62, 33, 44, 61, 658, 659, 63, 45, 80, 380, 116,
    66, 113, 70, 67, 297, 949, 960, 99, 963, 855, 780, 781, 381, 34, 35]"

definition kNIDsInShortNameOrder_1 :: "nat list" where
  "kNIDsInShortNameOrder_1 = [
    36, 46, 181, 183, 645, 646, 773, 957, 952, 953, 951, 15, 856, 3, 257, 4, 114, 95, 911, 388, 57, 366, 17, 178, 180, 379, 18, 749, 750, 9,
    168, 10, 169, 147, 146, 170, 148, 149, 68, 144, 145, 161, 69, 162, 127, 935, 98, 166, 37, 39, 38, 40, 5, 97, 915, 120, 122, 121, 123,
    117, 19, 7, 396, 8, 96, 104, 119, 42, 65, 115, 671, 668, 669, 670, 919, 912, 777, 779, 776, 778, 41, 64, 675, 672, 673, 674, 962, 188,
    167, 100, 16, 143, 458, 948, 964, 961, 11, 378, 12, 184]"

definition kNIDsInShortNameOrder_2 :: "nat list" where
  "kNIDsInShortNameOrder_2 = [
    185, 125, 478, 289, 287, 397, 288, 368, 446, 363, 376, 405, 910, 746, 370, 484, 485, 501, 177, 90, 882, 87, 365, 285, 921, 922, 923,
    924, 925, 926, 927, 928, 929, 930, 931, 932, 933, 934, 494, 860, 691, 692, 697, 698, 684, 685, 686, 687, 693, 699, 700, 702, 688, 689,
    690, 694, 695, 696, 701, 703, 881, 483, 179, 785, 443, 152, 677, 771, 89, 883, 54, 407, 395, 130, 131, 50, 53, 153, 103, 88, 884, 806,
    805, 500, 451, 495, 434, 390, 140, 891, 107, 871, 947, 946, 28, 941, 942, 943, 944, 945]"

definition kNIDsInShortNameOrder_3 :: "nat list" where
  "kNIDsInShortNameOrder_3 = [
    936, 937, 938, 939, 940, 920, 382, 887, 892, 174, 447, 471, 468, 472, 502, 449, 469, 470, 392, 452, 802, 803, 791, 416, 793, 794, 795,
    796, 792, 48, 132, 885, 389, 384, 172, 56, 126, 372, 867, 462, 857, 453, 490, 156, 509, 815, 811, 851, 813, 814, 812, 850, 797, 163,
    798, 799, 800, 801, 432, 430, 431, 433, 486, 473, 466, 889, 442, 783, 824, 825, 826, 827, 819, 829, 828, 830, 820, 823, 849, 840, 841,
    842, 843, 844, 854, 839, 817, 832, 833, 834, 835, 836, 837, 838, 831, 845, 846, 847, 848, 818]"

definition kNIDsInShortNameOrder_4 :: "nat list" where
  "kNIDsInShortNameOrder_4 = [
    822, 821, 807, 853, 808, 852, 810, 782, 266, 355, 354, 356, 399, 357, 358, 176, 896, 895, 788, 897, 899, 898, 789, 900, 902, 901, 790,
    903, 262, 893, 323, 326, 325, 324, 907, 908, 909, 268, 361, 362, 360, 81, 680, 263, 334, 346, 330, 336, 335, 339, 338, 328, 329, 337,
    344, 345, 343, 333, 341, 342, 340, 332, 327, 331, 787, 408, 508, 507, 260, 302, 298, 311, 303, 300, 310, 308, 307, 312, 301, 309, 299,
    305, 306, 784, 304, 128, 280, 274, 277, 284, 273, 283, 275, 276, 282, 278, 279, 281, 264, 858]"

definition kNIDsInShortNameOrder_5 :: "nat list" where
  "kNIDsInShortNameOrder_5 = [
    347, 265, 352, 353, 348, 351, 349, 175, 261, 258, 269, 271, 270, 272, 662, 664, 667, 665, 267, 359, 259, 164, 165, 313, 316, 319, 318,
    317, 320, 315, 314, 322, 321, 512, 191, 215, 218, 221, 240, 217, 222, 220, 232, 233, 238, 237, 234, 227, 231, 236, 230, 235, 226, 229,
    228, 219, 214, 216, 212, 213, 239, 223, 224, 225, 192, 243, 246, 247, 245, 241, 242, 244, 193, 248, 190, 210, 211, 208, 207, 205, 786,
    209, 206, 204, 195, 255, 256, 253, 251, 252, 254, 189, 196, 197, 202, 203, 200, 201, 199, 198]"

definition kNIDsInShortNameOrder_6 :: "nat list" where
  "kNIDsInShortNameOrder_6 = [
    194, 250, 249, 676, 461, 748, 101, 647, 869, 142, 294, 295, 296, 86, 770, 492, 150, 83, 477, 476, 157, 480, 460, 493, 467, 809, 875,
    182, 51, 383, 504, 506, 505, 488, 136, 135, 134, 138, 171, 137, 648, 649, 481, 173, 666, 369, 403, 72, 76, 74, 58, 79, 71, 78, 59, 75,
    73, 139, 77, 681, 491, 475, 876, 489, 374, 112, 499, 487, 464, 863, 437, 439, 438, 479, 456, 441, 444, 440, 455, 445, 2, 186, 27, 187,
    20, 21, 25, 26, 23, 24, 22, 151, 47, 401, 747, 862, 861, 661, 683, 872]"

definition kNIDsInShortNameOrder_7 :: "nat list" where
  "kNIDsInShortNameOrder_7 = [
    873, 816, 406, 409, 410, 411, 412, 413, 414, 415, 385, 84, 886, 663, 510, 435, 286, 457, 450, 870, 400, 877, 448, 463, 6, 644, 377, 1,
    482, 155, 291, 290, 292, 159, 859, 704, 705, 706, 707, 708, 709, 710, 711, 712, 713, 714, 715, 716, 154, 474, 717, 718, 719, 720, 721,
    722, 723, 724, 725, 726, 727, 728, 729, 730, 731, 732, 733, 734, 386, 878, 394, 105, 129, 371, 625, 515, 518, 638, 637, 636, 639, 641,
    642, 640, 517, 513, 514, 516, 607, 624, 620, 631, 623, 628, 630, 629, 621, 635, 632, 633]"

definition kNIDsInShortNameOrder_8 :: "nat list" where
  "kNIDsInShortNameOrder_8 = [
    634, 627, 626, 622, 619, 615, 616, 618, 617, 611, 609, 608, 610, 613, 614, 612, 540, 576, 570, 534, 527, 571, 572, 535, 536, 528, 577,
    541, 529, 542, 578, 579, 543, 573, 537, 600, 558, 592, 559, 593, 599, 598, 580, 581, 544, 545, 546, 582, 583, 584, 547, 548, 549, 585,
    538, 530, 574, 575, 539, 560, 566, 563, 595, 596, 564, 565, 597, 586, 587, 550, 551, 552, 588, 589, 590, 553, 554, 555, 591, 567, 526,
    561, 522, 519, 521, 520, 556, 557, 523, 532, 524, 525, 568, 569, 531, 533, 594, 562, 606, 601]"

definition kNIDsInShortNameOrder_9 :: "nat list" where
  "kNIDsInShortNameOrder_9 = [
    602, 604, 603, 605, 52, 454, 496, 387, 660, 85, 769, 398, 82, 498, 497, 890, 874, 402, 864, 866, 865, 459, 293, 133, 106, 682, 375, 436,
    888, 55, 49, 880, 465, 879, 373, 678, 679, 735, 743, 744, 745, 736, 737, 738, 739, 740, 741, 742, 804, 868, 503, 158, 160]"

definition kNIDsInLongNameOrder_0 :: "nat list" where
  "kNIDsInLongNameOrder_0 = [
    363, 405, 368, 910, 664, 177, 365, 285, 179, 785, 131, 783, 382, 392, 132, 949, 960, 389, 384, 372, 172, 813, 849, 815, 851, 850, 811,
    817, 812, 818, 809, 816, 807, 853, 808, 852, 854, 810, 432, 430, 431, 433, 634, 294, 295, 296, 182, 183, 667, 665, 647, 142, 504, 388,
    383, 417, 135, 138, 171, 134, 856, 137, 648, 136, 649, 72, 76, 74, 71, 58, 79, 78, 57, 59, 75, 73, 77, 139, 178, 370, 367, 369, 366,
    371, 180, 161, 69, 162, 127, 858, 164, 165, 385, 663, 1, 2, 188, 167, 387, 512]"

definition kNIDsInLongNameOrder_1 :: "nat list" where
  "kNIDsInLongNameOrder_1 = [
    386, 394, 143, 398, 130, 129, 133, 375, 948, 964, 961, 12, 402, 746, 90, 87, 103, 88, 141, 771, 89, 140, 126, 857, 748, 86, 770, 83,
    666, 403, 401, 747, 84, 85, 769, 82, 920, 184, 185, 478, 289, 287, 397, 288, 446, 364, 606, 419, 916, 896, 421, 650, 653, 904, 418, 895,
    420, 913, 423, 917, 899, 425, 651, 654, 905, 422, 898, 424, 427, 918, 902, 429, 652, 655, 906, 426, 901, 428, 914, 376, 484, 485, 501,
    958, 955, 956, 954, 882, 91, 93, 92, 94, 921, 922, 923, 924, 925, 926, 927, 928]"

definition kNIDsInLongNameOrder_2 :: "nat list" where
  "kNIDsInLongNameOrder_2 = [
    929, 930, 931, 932, 933, 934, 494, 860, 691, 692, 697, 698, 684, 685, 686, 687, 693, 699, 700, 702, 688, 689, 690, 694, 695, 696, 701,
    703, 881, 483, 751, 757, 760, 763, 754, 766, 752, 758, 761, 764, 755, 767, 753, 759, 762, 765, 756, 768, 443, 108, 110, 109, 111, 152,
    677, 517, 883, 950, 54, 407, 395, 633, 894, 13, 513, 50, 53, 14, 153, 884, 806, 805, 500, 451, 495, 434, 390, 891, 31, 643, 30, 656,
    657, 29, 32, 43, 60, 62, 33, 44, 61, 658, 659, 63, 45, 107, 871, 80, 947, 946]"

definition kNIDsInLongNameOrder_3 :: "nat list" where
  "kNIDsInLongNameOrder_3 = [
    28, 941, 942, 943, 944, 945, 936, 937, 938, 939, 940, 11, 378, 887, 892, 174, 447, 471, 468, 472, 502, 449, 469, 470, 380, 391, 452,
    116, 67, 66, 113, 70, 802, 803, 297, 791, 416, 793, 794, 795, 796, 792, 48, 632, 885, 56, 867, 462, 453, 490, 156, 631, 509, 601, 99,
    814, 963, 855, 780, 781, 797, 163, 798, 799, 800, 801, 486, 473, 466, 889, 442, 381, 824, 825, 826, 827, 819, 829, 828, 830, 820, 823,
    840, 841, 842, 843, 844, 839, 832, 833, 834, 835, 836, 837, 838, 831, 845, 846, 847, 848]"

definition kNIDsInLongNameOrder_4 :: "nat list" where
  "kNIDsInLongNameOrder_4 = [
    822, 821, 266, 355, 354, 356, 399, 357, 358, 176, 788, 897, 789, 900, 790, 903, 262, 893, 323, 326, 325, 324, 907, 908, 909, 268, 361,
    362, 360, 81, 680, 263, 334, 346, 330, 336, 335, 339, 338, 328, 329, 337, 344, 345, 343, 333, 341, 342, 340, 332, 327, 331, 787, 408,
    508, 507, 260, 302, 298, 311, 303, 300, 310, 308, 307, 312, 301, 309, 299, 305, 306, 784, 304, 128, 280, 274, 277, 284, 273, 283, 275,
    276, 282, 278, 279, 281, 264, 347, 265, 352, 353, 348, 351, 349, 175, 261, 258, 269, 271, 270]"

definition kNIDsInLongNameOrder_5 :: "nat list" where
  "kNIDsInLongNameOrder_5 = [
    272, 662, 267, 359, 259, 313, 316, 319, 318, 317, 320, 315, 314, 322, 321, 191, 215, 218, 221, 240, 217, 222, 220, 232, 233, 238, 237,
    234, 227, 231, 236, 230, 235, 226, 229, 228, 219, 214, 216, 212, 213, 239, 223, 224, 225, 192, 243, 246, 247, 245, 241, 242, 244, 193,
    248, 190, 210, 211, 208, 207, 205, 786, 209, 206, 204, 195, 255, 256, 253, 251, 252, 254, 189, 196, 197, 202, 203, 200, 201, 199, 198,
    194, 250, 249, 34, 35, 36, 46, 676, 461, 101, 869, 749, 750, 181, 623, 645, 492, 646, 150]"

definition kNIDsInLongNameOrder_6 :: "nat list" where
  "kNIDsInLongNameOrder_6 = [
    773, 957, 952, 953, 951, 477, 476, 157, 15, 480, 493, 467, 3, 7, 257, 396, 4, 114, 104, 8, 95, 96, 875, 602, 514, 51, 911, 506, 505,
    488, 481, 173, 681, 379, 17, 491, 18, 475, 876, 935, 489, 782, 374, 621, 9, 168, 112, 10, 169, 148, 144, 147, 146, 149, 145, 170, 68,
    499, 487, 464, 863, 437, 439, 438, 479, 456, 441, 444, 440, 455, 445, 186, 27, 187, 20, 21, 25, 26, 23, 24, 22, 151, 47, 862, 861, 661,
    683, 872, 873, 406, 409, 410, 411, 412, 413, 414, 415, 886, 510, 435]"

definition kNIDsInLongNameOrder_7 :: "nat list" where
  "kNIDsInLongNameOrder_7 = [
    286, 457, 450, 98, 166, 37, 39, 38, 40, 5, 97, 915, 120, 122, 121, 123, 870, 460, 117, 119, 400, 877, 448, 463, 19, 6, 644, 377, 919,
    912, 482, 155, 291, 290, 292, 159, 859, 704, 705, 706, 707, 708, 709, 710, 711, 712, 713, 714, 715, 716, 154, 474, 717, 718, 719, 720,
    721, 722, 723, 724, 725, 726, 727, 728, 729, 730, 731, 732, 733, 734, 635, 878, 777, 779, 776, 778, 105, 625, 515, 518, 638, 637, 636,
    639, 641, 642, 640, 516, 607, 624, 620, 628, 630, 629, 627, 626, 622, 619, 615, 616]"

definition kNIDsInLongNameOrder_8 :: "nat list" where
  "kNIDsInLongNameOrder_8 = [
    618, 617, 611, 609, 608, 610, 613, 614, 612, 540, 576, 570, 534, 527, 571, 572, 535, 536, 528, 577, 541, 529, 542, 578, 579, 543, 573,
    537, 600, 558, 592, 559, 593, 599, 598, 580, 581, 544, 545, 546, 582, 583, 584, 547, 548, 549, 585, 538, 530, 574, 575, 539, 560, 566,
    563, 595, 596, 564, 565, 597, 586, 587, 550, 551, 552, 588, 589, 590, 553, 554, 555, 591, 567, 526, 561, 522, 519, 521, 520, 556, 557,
    523, 532, 524, 525, 568, 569, 531, 533, 594, 562, 604, 603, 605, 41, 64, 115, 65, 675, 671]"

definition kNIDsInLongNameOrder_9 :: "nat list" where
  "kNIDsInLongNameOrder_9 = [
    672, 668, 673, 669, 674, 962, 670, 42, 52, 454, 496, 16, 660, 498, 497, 890, 874, 100, 864, 866, 865, 459, 293, 106, 682, 436, 888, 55,
    49, 880, 465, 458, 879, 373, 678, 679, 735, 743, 744, 745, 736, 737, 738, 739, 740, 741, 742, 804, 868, 503, 158, 160, 125]"

definition kNIDsInOIDOrder_0 :: "nat list" where
  "kNIDsInOIDOrder_0 = [
    434, 182, 379, 676, 11, 647, 380, 12, 378, 81, 512, 678, 435, 183, 381, 948, 961, 949, 960, 677, 394, 13, 100, 105, 14, 15, 16, 660, 17,
    18, 106, 107, 859, 860, 861, 661, 862, 863, 864, 865, 866, 867, 868, 869, 870, 871, 872, 873, 874, 875, 876, 877, 878, 879, 880, 881,
    882, 883, 884, 173, 99, 101, 509, 503, 174, 885, 886, 887, 888, 889, 890, 891, 892, 510, 400, 769, 82, 83, 84, 85, 86, 87, 88, 141, 430,
    142, 140, 770, 771, 666, 103, 89, 747, 90, 401, 126, 857, 748, 402, 403]"

definition kNIDsInOIDOrder_1 :: "nat list" where
  "kNIDsInOIDOrder_1 = [
    513, 514, 515, 516, 517, 518, 679, 382, 383, 384, 385, 386, 387, 388, 376, 395, 19, 96, 95, 746, 910, 519, 520, 521, 522, 523, 524, 525,
    526, 527, 528, 529, 530, 531, 532, 533, 534, 535, 536, 537, 538, 539, 540, 541, 542, 543, 544, 545, 546, 547, 548, 549, 550, 551, 552,
    553, 554, 555, 556, 557, 558, 559, 560, 561, 562, 563, 564, 565, 566, 567, 568, 569, 570, 571, 572, 573, 574, 575, 576, 577, 578, 579,
    580, 581, 582, 583, 584, 585, 586, 587, 588, 589, 590, 591, 592, 593, 594, 595, 596, 597]"

definition kNIDsInOIDOrder_2 :: "nat list" where
  "kNIDsInOIDOrder_2 = [
    598, 599, 600, 601, 602, 603, 604, 605, 606, 620, 621, 622, 623, 607, 608, 609, 610, 611, 612, 613, 614, 615, 616, 617, 618, 619, 636,
    640, 641, 637, 638, 639, 805, 806, 184, 405, 389, 504, 104, 29, 31, 45, 30, 377, 67, 66, 42, 32, 41, 64, 70, 115, 117, 143, 721, 722,
    728, 717, 718, 704, 705, 709, 708, 714, 723, 729, 730, 719, 720, 724, 725, 726, 727, 706, 707, 710, 711, 712, 713, 715, 716, 731, 732,
    733, 734, 624, 625, 626, 627, 628, 629, 630, 642, 735, 736, 737, 738, 739, 740, 741]"

definition kNIDsInOIDOrder_3 :: "nat list" where
  "kNIDsInOIDOrder_3 = [
    742, 743, 744, 745, 804, 773, 807, 808, 809, 810, 811, 812, 813, 815, 816, 817, 818, 1, 185, 127, 505, 506, 119, 937, 938, 939, 940,
    942, 943, 944, 945, 631, 632, 633, 634, 635, 436, 820, 819, 845, 846, 847, 848, 821, 822, 823, 824, 825, 826, 827, 828, 829, 830, 831,
    832, 833, 834, 835, 836, 837, 838, 839, 840, 841, 842, 843, 844, 2, 431, 432, 433, 116, 113, 406, 407, 408, 416, 791, 792, 920, 258,
    175, 259, 128, 260, 261, 262, 263, 264, 265, 266, 267, 268, 662, 176, 507, 508, 57, 754, 766]"

definition kNIDsInOIDOrder_4 :: "nat list" where
  "kNIDsInOIDOrder_4 = [
    757, 755, 767, 758, 756, 768, 759, 437, 776, 777, 779, 778, 852, 853, 850, 851, 849, 854, 186, 27, 187, 20, 47, 3, 257, 4, 797, 163,
    798, 799, 800, 801, 37, 5, 44, 120, 643, 680, 684, 685, 686, 687, 688, 689, 690, 691, 692, 693, 694, 695, 696, 697, 698, 699, 700, 701,
    702, 703, 409, 410, 411, 412, 413, 414, 415, 793, 794, 795, 796, 269, 270, 271, 272, 273, 274, 275, 276, 277, 278, 279, 280, 281, 282,
    283, 284, 177, 285, 286, 287, 288, 289, 290, 291, 292, 397, 398, 663, 164, 165, 293]"

definition kNIDsInOIDOrder_5 :: "nat list" where
  "kNIDsInOIDOrder_5 = [
    129, 130, 131, 132, 294, 295, 296, 133, 180, 297, 298, 299, 300, 301, 302, 303, 304, 305, 306, 307, 308, 309, 310, 311, 312, 784, 313,
    314, 323, 324, 325, 326, 327, 328, 329, 330, 331, 332, 333, 334, 335, 336, 337, 338, 339, 340, 341, 342, 343, 344, 345, 346, 347, 858,
    348, 349, 351, 352, 353, 354, 355, 356, 357, 358, 399, 359, 360, 361, 362, 664, 665, 667, 178, 179, 363, 364, 785, 780, 781, 58, 59,
    438, 439, 440, 441, 108, 112, 782, 783, 6, 7, 396, 8, 65, 644, 919, 911, 935, 912, 668]"

definition kNIDsInOIDOrder_6 :: "nat list" where
  "kNIDsInOIDOrder_6 = [
    669, 670, 671, 28, 9, 10, 168, 169, 170, 68, 69, 161, 162, 21, 22, 23, 24, 25, 26, 48, 49, 50, 51, 52, 53, 54, 55, 56, 172, 167, 188,
    156, 157, 681, 682, 683, 417, 856, 390, 91, 315, 316, 317, 318, 319, 320, 321, 322, 365, 366, 367, 368, 369, 370, 371, 372, 373, 374,
    375, 921, 922, 923, 924, 925, 926, 927, 928, 929, 930, 931, 932, 933, 934, 936, 941, 418, 419, 420, 421, 788, 895, 896, 897, 422, 423,
    424, 425, 789, 898, 899, 900, 426, 427, 428, 429, 790, 901, 902, 903, 672]"

definition kNIDsInOIDOrder_7 :: "nat list" where
  "kNIDsInOIDOrder_7 = [
    673, 674, 675, 962, 802, 803, 71, 72, 73, 74, 75, 76, 77, 78, 79, 139, 458, 459, 460, 461, 462, 463, 464, 465, 466, 467, 468, 469, 470,
    471, 472, 473, 474, 475, 476, 477, 391, 478, 479, 480, 481, 482, 483, 484, 485, 486, 487, 488, 489, 490, 491, 492, 493, 494, 495, 496,
    497, 498, 499, 500, 501, 502, 442, 443, 444, 445, 446, 447, 448, 449, 392, 450, 451, 452, 453, 454, 455, 456, 457, 189, 190, 191, 192,
    193, 194, 195, 158, 159, 160, 144, 145, 146, 147, 148, 149, 171, 134, 135, 136, 137]"

definition kNIDsInOIDOrder_8 :: "nat list" where
  "kNIDsInOIDOrder_8 = [
    138, 648, 649, 751, 752, 753, 907, 908, 909, 196, 197, 198, 199, 200, 201, 202, 203, 204, 205, 206, 207, 208, 209, 210, 211, 786, 787,
    212, 213, 214, 215, 216, 217, 218, 219, 220, 221, 222, 223, 224, 225, 226, 227, 228, 229, 230, 231, 232, 233, 234, 235, 236, 237, 238,
    239, 240, 241, 242, 243, 244, 245, 246, 247, 125, 893, 248, 249, 250, 251, 252, 253, 254, 255, 256, 150, 151, 152, 153, 154, 155, 34]"

definition kObjects_parts :: "asn1_object list list" where
  "kObjects_parts = [
    kObjects_0, kObjects_1, kObjects_2, kObjects_3, kObjects_4, kObjects_5, kObjects_6, kObjects_7, kObjects_8, kObjects_9, kObjects_10,
    kObjects_11, kObjects_12, kObjects_13, kObjects_14, kObjects_15, kObjects_16, kObjects_17, kObjects_18, kObjects_19, kObjects_20,
    kObjects_21, kObjects_22, kObjects_23, kObjects_24, kObjects_25, kObjects_26, kObjects_27, kObjects_28, kObjects_29, kObjects_30,
    kObjects_31, kObjects_32, kObjects_33, kObjects_34, kObjects_35, kObjects_36, kObjects_37, kObjects_38, kObjects_39, kObjects_40,
    kObjects_41, kObjects_42, kObjects_43, kObjects_44, kObjects_45, kObjects_46, kObjects_47, kObjects_48]"

definition obj_dat :: obj_tables where
  "obj_dat = \<lparr> kObjects = concat kObjects_parts,
     kNIDsInShortNameOrder = concat [
       kNIDsInShortNameOrder_0, kNIDsInShortNameOrder_1, kNIDsInShortNameOrder_2, kNIDsInShortNameOrder_3, kNIDsInShortNameOrder_4,
       kNIDsInShortNameOrder_5, kNIDsInShortNameOrder_6, kNIDsInShortNameOrder_7, kNIDsInShortNameOrder_8, kNIDsInShortNameOrder_9],
     kNIDsInLongNameOrder = concat [
       kNIDsInLongNameOrder_0, kNIDsInLongNameOrder_1, kNIDsInLongNameOrder_2, kNIDsInLongNameOrder_3, kNIDsInLongNameOrder_4,
       kNIDsInLongNameOrder_5, kNIDsInLongNameOrder_6, kNIDsInLongNameOrder_7, kNIDsInLongNameOrder_8, kNIDsInLongNameOrder_9],
     kNIDsInOIDOrder = concat [
       kNIDsInOIDOrder_0, kNIDsInOIDOrder_1, kNIDsInOIDOrder_2, kNIDsInOIDOrder_3, kNIDsInOIDOrder_4, kNIDsInOIDOrder_5, kNIDsInOIDOrder_6,
       kNIDsInOIDOrder_7, kNIDsInOIDOrder_8] \<rparr>"

section \<open>Looking up an object\<close>

lemma built_in_sels [simp]:
  "obj_sn (built_in sn ln nid data) = Some (c_str sn)" "obj_ln (built_in sn ln nid data) = Some (c_str ln)"
  "obj_nid (built_in sn ln nid data) = int nid" "obj_data (built_in sn ln nid data) = data"
  "obj_sn no_object = None" "obj_ln no_object = None" "obj_nid no_object = 0" "obj_data no_object = []"
  by (simp_all add: built_in_def no_object_def)

lemma nth_20:
  "xs = [a0, a1, a2, a3, a4, a5, a6, a7, a8, a9, b0, b1, b2, b3, b4, b5, b6, b7, b8, b9] \<Longrightarrow>
     xs ! 0 = a0 \<and> xs ! Suc 0 = a1 \<and> xs ! 2 = a2 \<and> xs ! 3 = a3 \<and> xs ! 4 = a4 \<and> xs ! 5 = a5 \<and> xs ! 6 = a6 \<and> xs ! 7 = a7
     \<and> xs ! 8 = a8 \<and> xs ! 9 = a9 \<and> xs ! 10 = b0 \<and> xs ! 11 = b1 \<and> xs ! 12 = b2 \<and> xs ! 13 = b3 \<and> xs ! 14 = b4 \<and> xs ! 15 = b5
     \<and> xs ! 16 = b6 \<and> xs ! 17 = b7 \<and> xs ! 18 = b8 \<and> xs ! 19 = b9"
  by simp

lemma nth_5: "xs = [a0, a1, a2, a3, a4] \<Longrightarrow> xs ! 0 = a0 \<and> xs ! Suc 0 = a1 \<and> xs ! 2 = a2 \<and> xs ! 3 = a3 \<and> xs ! 4 = a4"
  by simp

text \<open>The object of a NID.\<close>

definition object_at :: "nat \<Rightarrow> asn1_object" where
  "object_at n = kObjects_parts ! ((n - 1) div 20) ! ((n - 1) mod 20)"

text \<open>The number of objects in a list with short names, long names and octets.\<close>

definition short_names :: "asn1_object list \<Rightarrow> nat" where "short_names xs = length (filter (\<lambda>obj. obj_sn obj \<noteq> None) xs)"
definition long_names :: "asn1_object list \<Rightarrow> nat" where "long_names xs = length (filter (\<lambda>obj. obj_ln obj \<noteq> None) xs)"
definition octet_strings :: "asn1_object list \<Rightarrow> nat" where "octet_strings xs = length (filter (\<lambda>obj. obj_data obj \<noteq> []) xs)"

lemma count_simps:
  "short_names [] = 0" "short_names (no_object # xs) = short_names xs" "short_names (built_in sn ln nid data # xs) = short_names xs + 1"
  "long_names [] = 0" "long_names (no_object # xs) = long_names xs" "long_names (built_in sn ln nid data # xs) = long_names xs + 1"
  "octet_strings [] = 0" "octet_strings (no_object # xs) = octet_strings xs" "octet_strings (built_in sn ln nid [] # xs) = octet_strings xs"
  "octet_strings (built_in sn ln nid (b # data) # xs) = octet_strings xs + 1"
  by (simp_all add: short_names_def long_names_def octet_strings_def)

text \<open>The comparisons of the three orders.\<close>

lemma of_char_u8:
  "of_char c = (of_char d :: u8) \<longleftrightarrow> c = d" "of_char c < (of_char d :: u8) \<longleftrightarrow> (of_char c :: nat) < of_char d"
proof -
  have u: "unat (of_char c :: u8) = (of_char c :: nat)" for c
  proof -
    have "(of_char c :: u8) = of_nat (of_char c)" by (rule of_nat_of_char [symmetric])
    moreover have "(of_char c :: nat) < 256" by (rule nat_of_char_less_256)
    ultimately show ?thesis by (simp add: unat_of_nat del: of_nat_of_char)
  qed
  show "of_char c = (of_char d :: u8) \<longleftrightarrow> c = d" by (metis u of_char_eq_iff)
  show "of_char c < (of_char d :: u8) \<longleftrightarrow> (of_char c :: nat) < of_char d" by (simp add: word_less_nat_alt u)
qed

lemma strcmp_c_str:
  "strcmp (c_str []) (c_str []) < 0 \<longleftrightarrow> False" "strcmp (c_str []) (c_str (d # t)) < 0 \<longleftrightarrow> True"
  "strcmp (c_str (c # s)) (c_str []) < 0 \<longleftrightarrow> False"
  "c \<noteq> d \<Longrightarrow> strcmp (c_str (c # s)) (c_str (d # t)) < 0 \<longleftrightarrow> (of_char c :: nat) < of_char d"
  "strcmp (c_str (c # s)) (c_str (c # t)) < 0 \<longleftrightarrow> strcmp (c_str s) (c_str t) < 0"
  by (simp_all add: c_str_def of_char_u8)

definition short_name_less :: "asn1_object \<Rightarrow> asn1_object \<Rightarrow> bool" where
  "short_name_less a b \<longleftrightarrow> strcmp (bytes_of (obj_sn a)) (bytes_of (obj_sn b)) < 0"

definition long_name_less :: "asn1_object \<Rightarrow> asn1_object \<Rightarrow> bool" where
  "long_name_less a b \<longleftrightarrow> strcmp (bytes_of (obj_ln a)) (bytes_of (obj_ln b)) < 0"

text \<open>\<open>OBJ_cmp\<close> in one pass: \<open>r\<close> is the order of the first octets that differ, which counts if the lengths are the same.\<close>

fun octets_less :: "bool option \<Rightarrow> bytes \<Rightarrow> bytes \<Rightarrow> bool" where
  "octets_less r [] [] = (r = Some True)"
| "octets_less r [] (c # cs) = True"
| "octets_less r (b # bs) [] = False"
| "octets_less None (b # bs) (c # cs) = octets_less (if b = c then None else Some (b < c)) bs cs"
| "octets_less (Some r) (b # bs) (c # cs) = octets_less (Some r) bs cs"

lemma octets_less_decided: "octets_less (Some r) bs cs \<longleftrightarrow> length bs < length cs \<or> length bs = length cs \<and> r"
  by (induction bs cs rule: list_induct2') auto

lemma octets_less_cmp: "octets_less None (obj_data a) (obj_data b) \<longleftrightarrow> OBJ_cmp a b < 0"
proof -
  have "octets_less None bs cs \<longleftrightarrow> length bs < length cs \<or> length bs = length cs \<and> memcmp bs cs < 0" for bs cs
    by (induction bs cs rule: list_induct2') (auto simp: octets_less_decided)
  then show ?thesis by (auto simp: OBJ_cmp_def)
qed

lemma octets_less_step:
  "b \<noteq> c \<Longrightarrow> octets_less None (b # bs) (c # cs) = octets_less (Some (b < c)) bs cs"
  "octets_less None (b # bs) (b # cs) = octets_less None bs cs"
  by simp_all

declare octets_less.simps(4) [simp del]

text \<open>The objects 379 and 676, \<open>org\<close> and \<open>identified-organization\<close>, have the same octets.\<close>

definition oid_less :: "asn1_object \<Rightarrow> asn1_object \<Rightarrow> bool" where
  "oid_less a b \<longleftrightarrow> octets_less None (obj_data a) (obj_data b) \<or> obj_nid a = 379 \<and> obj_nid b = 676 \<and> obj_data a = obj_data b"

text \<open>
  One pass over an order: each NID is that of an object in the table, with what the order is for, and the objects ascend from
  \<open>a\<close> on.
\<close>

fun order_check ::
    "(asn1_object \<Rightarrow> bool) \<Rightarrow> (asn1_object \<Rightarrow> asn1_object \<Rightarrow> bool) \<Rightarrow> asn1_object \<Rightarrow> nat list \<Rightarrow> bool"
  and entry_check ::
    "(asn1_object \<Rightarrow> bool) \<Rightarrow> (asn1_object \<Rightarrow> asn1_object \<Rightarrow> bool) \<Rightarrow> asn1_object \<Rightarrow> asn1_object \<Rightarrow> nat \<Rightarrow> nat list \<Rightarrow> bool" where
  "order_check p lt a [] = True"
| "order_check p lt a (n # ns) = entry_check p lt a (object_at n) n ns"
| "entry_check p lt a b n ns = (0 < n \<and> n < 965 \<and> p b \<and> obj_nid b = int n \<and> lt a b \<and> order_check p lt b ns)"

definition has_short_name :: "asn1_object \<Rightarrow> bool" where "has_short_name obj \<longleftrightarrow> obj_sn obj \<noteq> None"
definition has_long_name :: "asn1_object \<Rightarrow> bool" where "has_long_name obj \<longleftrightarrow> obj_ln obj \<noteq> None"
definition has_octets :: "asn1_object \<Rightarrow> bool" where "has_octets obj \<longleftrightarrow> obj_data obj \<noteq> []"

lemma nth_concat_parts:
  "\<forall>p \<in> set (butlast ps). length p = k \<Longrightarrow> length (last ps) \<le> k \<Longrightarrow> 0 < k \<Longrightarrow> i < length (concat ps) \<Longrightarrow>
     concat ps ! i = ps ! (i div k) ! (i mod k)"
proof (induction ps arbitrary: i)
  case (Cons p ps)
  show ?case
  proof (cases "i < length p")
    case True
    then have "i < k" using Cons.prems(1,2) by (cases "ps = []") auto
    then show ?thesis using True by (simp add: nth_append)
  next
    case False
    then have "ps \<noteq> []" using Cons.prems(4) by auto
    then have ps: "ps \<noteq> []" "length p = k" using Cons.prems(1) by simp_all
    then have "concat ps ! (i - k) = ps ! ((i - k) div k) ! ((i - k) mod k)" using Cons.prems False by (intro Cons.IH) auto
    moreover have "k \<le> i" using False ps(2) by simp
    ultimately show ?thesis using ps(2) Cons.prems(3) False by (simp add: nth_append le_div_geq le_mod_geq)
  qed
qed simp

lemma bytes_of_c_str: "bytes_of (Some s) = s" "bytes_of None = c_str []"
  by (simp_all add: bytes_of_def c_str_def)

lemmas kObjects_at =
  kObjects_0_def [THEN nth_20]
  kObjects_1_def [THEN nth_20]
  kObjects_2_def [THEN nth_20]
  kObjects_3_def [THEN nth_20]
  kObjects_4_def [THEN nth_20]
  kObjects_5_def [THEN nth_20]
  kObjects_6_def [THEN nth_20]
  kObjects_7_def [THEN nth_20]
  kObjects_8_def [THEN nth_20]
  kObjects_9_def [THEN nth_20]
  kObjects_10_def [THEN nth_20]
  kObjects_11_def [THEN nth_20]
  kObjects_12_def [THEN nth_20]
  kObjects_13_def [THEN nth_20]
  kObjects_14_def [THEN nth_20]
  kObjects_15_def [THEN nth_20]
  kObjects_16_def [THEN nth_20]
  kObjects_17_def [THEN nth_20]
  kObjects_18_def [THEN nth_20]
  kObjects_19_def [THEN nth_20]
  kObjects_20_def [THEN nth_20]
  kObjects_21_def [THEN nth_20]
  kObjects_22_def [THEN nth_20]
  kObjects_23_def [THEN nth_20]
  kObjects_24_def [THEN nth_20]
  kObjects_25_def [THEN nth_20]
  kObjects_26_def [THEN nth_20]
  kObjects_27_def [THEN nth_20]
  kObjects_28_def [THEN nth_20]
  kObjects_29_def [THEN nth_20]
  kObjects_30_def [THEN nth_20]
  kObjects_31_def [THEN nth_20]
  kObjects_32_def [THEN nth_20]
  kObjects_33_def [THEN nth_20]
  kObjects_34_def [THEN nth_20]
  kObjects_35_def [THEN nth_20]
  kObjects_36_def [THEN nth_20]
  kObjects_37_def [THEN nth_20]
  kObjects_38_def [THEN nth_20]
  kObjects_39_def [THEN nth_20]
  kObjects_40_def [THEN nth_20]
  kObjects_41_def [THEN nth_20]
  kObjects_42_def [THEN nth_20]
  kObjects_43_def [THEN nth_20]
  kObjects_44_def [THEN nth_20]
  kObjects_45_def [THEN nth_20]
  kObjects_46_def [THEN nth_20]
  kObjects_47_def [THEN nth_20]
  kObjects_48_def [THEN nth_5]

lemma kObjects_parts_at:
  "kObjects_parts ! 0 = kObjects_0" "kObjects_parts ! Suc 0 = kObjects_1" "kObjects_parts ! 2 = kObjects_2"
  "kObjects_parts ! 3 = kObjects_3" "kObjects_parts ! 4 = kObjects_4" "kObjects_parts ! 5 = kObjects_5"
  "kObjects_parts ! 6 = kObjects_6" "kObjects_parts ! 7 = kObjects_7" "kObjects_parts ! 8 = kObjects_8"
  "kObjects_parts ! 9 = kObjects_9" "kObjects_parts ! 10 = kObjects_10" "kObjects_parts ! 11 = kObjects_11"
  "kObjects_parts ! 12 = kObjects_12" "kObjects_parts ! 13 = kObjects_13" "kObjects_parts ! 14 = kObjects_14"
  "kObjects_parts ! 15 = kObjects_15" "kObjects_parts ! 16 = kObjects_16" "kObjects_parts ! 17 = kObjects_17"
  "kObjects_parts ! 18 = kObjects_18" "kObjects_parts ! 19 = kObjects_19" "kObjects_parts ! 20 = kObjects_20"
  "kObjects_parts ! 21 = kObjects_21" "kObjects_parts ! 22 = kObjects_22" "kObjects_parts ! 23 = kObjects_23"
  "kObjects_parts ! 24 = kObjects_24" "kObjects_parts ! 25 = kObjects_25" "kObjects_parts ! 26 = kObjects_26"
  "kObjects_parts ! 27 = kObjects_27" "kObjects_parts ! 28 = kObjects_28" "kObjects_parts ! 29 = kObjects_29"
  "kObjects_parts ! 30 = kObjects_30" "kObjects_parts ! 31 = kObjects_31" "kObjects_parts ! 32 = kObjects_32"
  "kObjects_parts ! 33 = kObjects_33" "kObjects_parts ! 34 = kObjects_34" "kObjects_parts ! 35 = kObjects_35"
  "kObjects_parts ! 36 = kObjects_36" "kObjects_parts ! 37 = kObjects_37" "kObjects_parts ! 38 = kObjects_38"
  "kObjects_parts ! 39 = kObjects_39" "kObjects_parts ! 40 = kObjects_40" "kObjects_parts ! 41 = kObjects_41"
  "kObjects_parts ! 42 = kObjects_42" "kObjects_parts ! 43 = kObjects_43" "kObjects_parts ! 44 = kObjects_44"
  "kObjects_parts ! 45 = kObjects_45" "kObjects_parts ! 46 = kObjects_46" "kObjects_parts ! 47 = kObjects_47"
  "kObjects_parts ! 48 = kObjects_48"
  by (simp_all add: kObjects_parts_def)

lemma kObjects_lengths:
  "length kObjects_0 = 20" "length kObjects_1 = 20" "length kObjects_2 = 20" "length kObjects_3 = 20" "length kObjects_4 = 20"
  "length kObjects_5 = 20" "length kObjects_6 = 20" "length kObjects_7 = 20" "length kObjects_8 = 20" "length kObjects_9 = 20"
  "length kObjects_10 = 20" "length kObjects_11 = 20" "length kObjects_12 = 20" "length kObjects_13 = 20"
  "length kObjects_14 = 20" "length kObjects_15 = 20" "length kObjects_16 = 20" "length kObjects_17 = 20"
  "length kObjects_18 = 20" "length kObjects_19 = 20" "length kObjects_20 = 20" "length kObjects_21 = 20"
  "length kObjects_22 = 20" "length kObjects_23 = 20" "length kObjects_24 = 20" "length kObjects_25 = 20"
  "length kObjects_26 = 20" "length kObjects_27 = 20" "length kObjects_28 = 20" "length kObjects_29 = 20"
  "length kObjects_30 = 20" "length kObjects_31 = 20" "length kObjects_32 = 20" "length kObjects_33 = 20"
  "length kObjects_34 = 20" "length kObjects_35 = 20" "length kObjects_36 = 20" "length kObjects_37 = 20"
  "length kObjects_38 = 20" "length kObjects_39 = 20" "length kObjects_40 = 20" "length kObjects_41 = 20"
  "length kObjects_42 = 20" "length kObjects_43 = 20" "length kObjects_44 = 20" "length kObjects_45 = 20"
  "length kObjects_46 = 20" "length kObjects_47 = 20" "length kObjects_48 = 5"
  by (simp_all only: list.size kObjects_0_def kObjects_1_def kObjects_2_def kObjects_3_def kObjects_4_def kObjects_5_def kObjects_6_def kObjects_7_def kObjects_8_def kObjects_9_def kObjects_10_def kObjects_11_def kObjects_12_def kObjects_13_def kObjects_14_def kObjects_15_def kObjects_16_def kObjects_17_def kObjects_18_def kObjects_19_def kObjects_20_def kObjects_21_def kObjects_22_def kObjects_23_def kObjects_24_def kObjects_25_def kObjects_26_def kObjects_27_def kObjects_28_def kObjects_29_def kObjects_30_def kObjects_31_def kObjects_32_def kObjects_33_def kObjects_34_def kObjects_35_def kObjects_36_def kObjects_37_def kObjects_38_def kObjects_39_def kObjects_40_def kObjects_41_def kObjects_42_def kObjects_43_def kObjects_44_def kObjects_45_def kObjects_46_def kObjects_47_def kObjects_48_def)

lemma order_parts:
  "last kNIDsInShortNameOrder_0 = 35" "length kNIDsInShortNameOrder_0 = 100"
  "last kNIDsInShortNameOrder_1 = 184" "length kNIDsInShortNameOrder_1 = 100"
  "last kNIDsInShortNameOrder_2 = 945" "length kNIDsInShortNameOrder_2 = 100"
  "last kNIDsInShortNameOrder_3 = 818" "length kNIDsInShortNameOrder_3 = 100"
  "last kNIDsInShortNameOrder_4 = 858" "length kNIDsInShortNameOrder_4 = 100"
  "last kNIDsInShortNameOrder_5 = 198" "length kNIDsInShortNameOrder_5 = 100"
  "last kNIDsInShortNameOrder_6 = 872" "length kNIDsInShortNameOrder_6 = 100"
  "last kNIDsInShortNameOrder_7 = 633" "length kNIDsInShortNameOrder_7 = 100"
  "last kNIDsInShortNameOrder_8 = 601" "length kNIDsInShortNameOrder_8 = 100"
  "last kNIDsInShortNameOrder_9 = 160" "length kNIDsInShortNameOrder_9 = 53"
  "last kNIDsInLongNameOrder_0 = 512" "length kNIDsInLongNameOrder_0 = 100"
  "last kNIDsInLongNameOrder_1 = 928" "length kNIDsInLongNameOrder_1 = 100"
  "last kNIDsInLongNameOrder_2 = 946" "length kNIDsInLongNameOrder_2 = 100"
  "last kNIDsInLongNameOrder_3 = 848" "length kNIDsInLongNameOrder_3 = 100"
  "last kNIDsInLongNameOrder_4 = 270" "length kNIDsInLongNameOrder_4 = 100"
  "last kNIDsInLongNameOrder_5 = 150" "length kNIDsInLongNameOrder_5 = 100"
  "last kNIDsInLongNameOrder_6 = 435" "length kNIDsInLongNameOrder_6 = 100"
  "last kNIDsInLongNameOrder_7 = 616" "length kNIDsInLongNameOrder_7 = 100"
  "last kNIDsInLongNameOrder_8 = 671" "length kNIDsInLongNameOrder_8 = 100"
  "last kNIDsInLongNameOrder_9 = 125" "length kNIDsInLongNameOrder_9 = 53"
  "last kNIDsInOIDOrder_0 = 403" "length kNIDsInOIDOrder_0 = 100" "last kNIDsInOIDOrder_1 = 597" "length kNIDsInOIDOrder_1 = 100"
  "last kNIDsInOIDOrder_2 = 741" "length kNIDsInOIDOrder_2 = 100" "last kNIDsInOIDOrder_3 = 766" "length kNIDsInOIDOrder_3 = 100"
  "last kNIDsInOIDOrder_4 = 293" "length kNIDsInOIDOrder_4 = 100" "last kNIDsInOIDOrder_5 = 668" "length kNIDsInOIDOrder_5 = 100"
  "last kNIDsInOIDOrder_6 = 672" "length kNIDsInOIDOrder_6 = 100" "last kNIDsInOIDOrder_7 = 137" "length kNIDsInOIDOrder_7 = 100"
  "last kNIDsInOIDOrder_8 = 34" "length kNIDsInOIDOrder_8 = 81"
  by (simp_all add: kNIDsInShortNameOrder_0_def kNIDsInShortNameOrder_1_def kNIDsInShortNameOrder_2_def kNIDsInShortNameOrder_3_def kNIDsInShortNameOrder_4_def kNIDsInShortNameOrder_5_def kNIDsInShortNameOrder_6_def kNIDsInShortNameOrder_7_def kNIDsInShortNameOrder_8_def kNIDsInShortNameOrder_9_def kNIDsInLongNameOrder_0_def kNIDsInLongNameOrder_1_def kNIDsInLongNameOrder_2_def kNIDsInLongNameOrder_3_def kNIDsInLongNameOrder_4_def kNIDsInLongNameOrder_5_def kNIDsInLongNameOrder_6_def kNIDsInLongNameOrder_7_def kNIDsInLongNameOrder_8_def kNIDsInLongNameOrder_9_def kNIDsInOIDOrder_0_def kNIDsInOIDOrder_1_def kNIDsInOIDOrder_2_def kNIDsInOIDOrder_3_def kNIDsInOIDOrder_4_def kNIDsInOIDOrder_5_def kNIDsInOIDOrder_6_def kNIDsInOIDOrder_7_def kNIDsInOIDOrder_8_def)

lemma kObjects_counts:
  "short_names kObjects_0 = 20" "long_names kObjects_0 = 20" "octet_strings kObjects_0 = 20" "short_names kObjects_1 = 20"
  "long_names kObjects_1 = 20" "octet_strings kObjects_1 = 14" "short_names kObjects_2 = 20" "long_names kObjects_2 = 20"
  "octet_strings kObjects_2 = 17" "short_names kObjects_3 = 20" "long_names kObjects_3 = 20" "octet_strings kObjects_3 = 16"
  "short_names kObjects_4 = 20" "long_names kObjects_4 = 20" "octet_strings kObjects_4 = 15" "short_names kObjects_5 = 18"
  "long_names kObjects_5 = 18" "octet_strings kObjects_5 = 14" "short_names kObjects_6 = 19" "long_names kObjects_6 = 19"
  "octet_strings kObjects_6 = 16" "short_names kObjects_7 = 20" "long_names kObjects_7 = 20" "octet_strings kObjects_7 = 20"
  "short_names kObjects_8 = 20" "long_names kObjects_8 = 20" "octet_strings kObjects_8 = 19" "short_names kObjects_9 = 20"
  "long_names kObjects_9 = 20" "octet_strings kObjects_9 = 19" "short_names kObjects_10 = 20" "long_names kObjects_10 = 20"
  "octet_strings kObjects_10 = 20" "short_names kObjects_11 = 20" "long_names kObjects_11 = 20" "octet_strings kObjects_11 = 20"
  "short_names kObjects_12 = 20" "long_names kObjects_12 = 20" "octet_strings kObjects_12 = 20" "short_names kObjects_13 = 20"
  "long_names kObjects_13 = 20" "octet_strings kObjects_13 = 20" "short_names kObjects_14 = 20" "long_names kObjects_14 = 20"
  "octet_strings kObjects_14 = 20" "short_names kObjects_15 = 20" "long_names kObjects_15 = 20" "octet_strings kObjects_15 = 20"
  "short_names kObjects_16 = 20" "long_names kObjects_16 = 20" "octet_strings kObjects_16 = 20" "short_names kObjects_17 = 19"
  "long_names kObjects_17 = 19" "octet_strings kObjects_17 = 19" "short_names kObjects_18 = 20" "long_names kObjects_18 = 20"
  "octet_strings kObjects_18 = 20" "short_names kObjects_19 = 19" "long_names kObjects_19 = 19" "octet_strings kObjects_19 = 19"
  "short_names kObjects_20 = 19" "long_names kObjects_20 = 19" "octet_strings kObjects_20 = 19" "short_names kObjects_21 = 20"
  "long_names kObjects_21 = 20" "octet_strings kObjects_21 = 20" "short_names kObjects_22 = 20" "long_names kObjects_22 = 20"
  "octet_strings kObjects_22 = 20" "short_names kObjects_23 = 20" "long_names kObjects_23 = 20" "octet_strings kObjects_23 = 20"
  "short_names kObjects_24 = 20" "long_names kObjects_24 = 20" "octet_strings kObjects_24 = 20" "short_names kObjects_25 = 19"
  "long_names kObjects_25 = 19" "octet_strings kObjects_25 = 19" "short_names kObjects_26 = 20" "long_names kObjects_26 = 20"
  "octet_strings kObjects_26 = 20" "short_names kObjects_27 = 20" "long_names kObjects_27 = 20" "octet_strings kObjects_27 = 20"
  "short_names kObjects_28 = 20" "long_names kObjects_28 = 20" "octet_strings kObjects_28 = 20" "short_names kObjects_29 = 20"
  "long_names kObjects_29 = 20" "octet_strings kObjects_29 = 20" "short_names kObjects_30 = 20" "long_names kObjects_30 = 20"
  "octet_strings kObjects_30 = 20" "short_names kObjects_31 = 20" "long_names kObjects_31 = 20" "octet_strings kObjects_31 = 20"
  "short_names kObjects_32 = 20" "long_names kObjects_32 = 20" "octet_strings kObjects_32 = 8" "short_names kObjects_33 = 20"
  "long_names kObjects_33 = 20" "octet_strings kObjects_33 = 20" "short_names kObjects_34 = 20" "long_names kObjects_34 = 20"
  "octet_strings kObjects_34 = 20" "short_names kObjects_35 = 20" "long_names kObjects_35 = 20" "octet_strings kObjects_35 = 20"
  "short_names kObjects_36 = 20" "long_names kObjects_36 = 20" "octet_strings kObjects_36 = 20" "short_names kObjects_37 = 20"
  "long_names kObjects_37 = 20" "octet_strings kObjects_37 = 17" "short_names kObjects_38 = 17" "long_names kObjects_38 = 17"
  "octet_strings kObjects_38 = 12" "short_names kObjects_39 = 20" "long_names kObjects_39 = 20" "octet_strings kObjects_39 = 20"
  "short_names kObjects_40 = 20" "long_names kObjects_40 = 20" "octet_strings kObjects_40 = 19" "short_names kObjects_41 = 20"
  "long_names kObjects_41 = 20" "octet_strings kObjects_41 = 20" "short_names kObjects_42 = 20" "long_names kObjects_42 = 20"
  "octet_strings kObjects_42 = 19" "short_names kObjects_43 = 20" "long_names kObjects_43 = 20" "octet_strings kObjects_43 = 20"
  "short_names kObjects_44 = 20" "long_names kObjects_44 = 20" "octet_strings kObjects_44 = 19" "short_names kObjects_45 = 20"
  "long_names kObjects_45 = 20" "octet_strings kObjects_45 = 11" "short_names kObjects_46 = 20" "long_names kObjects_46 = 20"
  "octet_strings kObjects_46 = 20" "short_names kObjects_47 = 19" "long_names kObjects_47 = 19" "octet_strings kObjects_47 = 8"
  "short_names kObjects_48 = 4" "long_names kObjects_48 = 4" "octet_strings kObjects_48 = 2"
  by (simp_all only: count_simps kObjects_0_def kObjects_1_def kObjects_2_def kObjects_3_def kObjects_4_def kObjects_5_def kObjects_6_def kObjects_7_def kObjects_8_def kObjects_9_def kObjects_10_def kObjects_11_def kObjects_12_def kObjects_13_def kObjects_14_def kObjects_15_def kObjects_16_def kObjects_17_def kObjects_18_def kObjects_19_def kObjects_20_def kObjects_21_def kObjects_22_def kObjects_23_def kObjects_24_def kObjects_25_def kObjects_26_def kObjects_27_def kObjects_28_def kObjects_29_def kObjects_30_def kObjects_31_def kObjects_32_def kObjects_33_def kObjects_34_def kObjects_35_def kObjects_36_def kObjects_37_def kObjects_38_def kObjects_39_def kObjects_40_def kObjects_41_def kObjects_42_def kObjects_43_def kObjects_44_def kObjects_45_def kObjects_46_def kObjects_47_def kObjects_48_def)

declare object_at_def [simp] kObjects_parts_at [simp] kObjects_at [simp] bytes_of_c_str [simp] strcmp_c_str [simp] octets_less_step [simp]

lemma short_name_order_0: "order_check has_short_name short_name_less no_object kNIDsInShortNameOrder_0"
  by (simp add: kNIDsInShortNameOrder_0_def has_short_name_def short_name_less_def)

lemma short_name_order_1: "order_check has_short_name short_name_less (object_at 35) kNIDsInShortNameOrder_1"
  by (simp add: kNIDsInShortNameOrder_1_def has_short_name_def short_name_less_def)

lemma short_name_order_2: "order_check has_short_name short_name_less (object_at 184) kNIDsInShortNameOrder_2"
  by (simp add: kNIDsInShortNameOrder_2_def has_short_name_def short_name_less_def)

lemma short_name_order_3: "order_check has_short_name short_name_less (object_at 945) kNIDsInShortNameOrder_3"
  by (simp add: kNIDsInShortNameOrder_3_def has_short_name_def short_name_less_def)

lemma short_name_order_4: "order_check has_short_name short_name_less (object_at 818) kNIDsInShortNameOrder_4"
  by (simp add: kNIDsInShortNameOrder_4_def has_short_name_def short_name_less_def)

lemma short_name_order_5: "order_check has_short_name short_name_less (object_at 858) kNIDsInShortNameOrder_5"
  by (simp add: kNIDsInShortNameOrder_5_def has_short_name_def short_name_less_def)

lemma short_name_order_6: "order_check has_short_name short_name_less (object_at 198) kNIDsInShortNameOrder_6"
  by (simp add: kNIDsInShortNameOrder_6_def has_short_name_def short_name_less_def)

lemma short_name_order_7: "order_check has_short_name short_name_less (object_at 872) kNIDsInShortNameOrder_7"
  by (simp add: kNIDsInShortNameOrder_7_def has_short_name_def short_name_less_def)

lemma short_name_order_8: "order_check has_short_name short_name_less (object_at 633) kNIDsInShortNameOrder_8"
  by (simp add: kNIDsInShortNameOrder_8_def has_short_name_def short_name_less_def)

lemma short_name_order_9: "order_check has_short_name short_name_less (object_at 601) kNIDsInShortNameOrder_9"
  by (simp add: kNIDsInShortNameOrder_9_def has_short_name_def short_name_less_def)

lemma long_name_order_0: "order_check has_long_name long_name_less no_object kNIDsInLongNameOrder_0"
  by (simp add: kNIDsInLongNameOrder_0_def has_long_name_def long_name_less_def)

lemma long_name_order_1: "order_check has_long_name long_name_less (object_at 512) kNIDsInLongNameOrder_1"
  by (simp add: kNIDsInLongNameOrder_1_def has_long_name_def long_name_less_def)

lemma long_name_order_2: "order_check has_long_name long_name_less (object_at 928) kNIDsInLongNameOrder_2"
  by (simp add: kNIDsInLongNameOrder_2_def has_long_name_def long_name_less_def)

lemma long_name_order_3: "order_check has_long_name long_name_less (object_at 946) kNIDsInLongNameOrder_3"
  by (simp add: kNIDsInLongNameOrder_3_def has_long_name_def long_name_less_def)

lemma long_name_order_4: "order_check has_long_name long_name_less (object_at 848) kNIDsInLongNameOrder_4"
  by (simp add: kNIDsInLongNameOrder_4_def has_long_name_def long_name_less_def)

lemma long_name_order_5: "order_check has_long_name long_name_less (object_at 270) kNIDsInLongNameOrder_5"
  by (simp add: kNIDsInLongNameOrder_5_def has_long_name_def long_name_less_def)

lemma long_name_order_6: "order_check has_long_name long_name_less (object_at 150) kNIDsInLongNameOrder_6"
  by (simp add: kNIDsInLongNameOrder_6_def has_long_name_def long_name_less_def)

lemma long_name_order_7: "order_check has_long_name long_name_less (object_at 435) kNIDsInLongNameOrder_7"
  by (simp add: kNIDsInLongNameOrder_7_def has_long_name_def long_name_less_def)

lemma long_name_order_8: "order_check has_long_name long_name_less (object_at 616) kNIDsInLongNameOrder_8"
  by (simp add: kNIDsInLongNameOrder_8_def has_long_name_def long_name_less_def)

lemma long_name_order_9: "order_check has_long_name long_name_less (object_at 671) kNIDsInLongNameOrder_9"
  by (simp add: kNIDsInLongNameOrder_9_def has_long_name_def long_name_less_def)

lemma oid_order_0: "order_check has_octets oid_less no_object kNIDsInOIDOrder_0"
  by (simp add: kNIDsInOIDOrder_0_def has_octets_def oid_less_def)

lemma oid_order_1: "order_check has_octets oid_less (object_at 403) kNIDsInOIDOrder_1"
  by (simp add: kNIDsInOIDOrder_1_def has_octets_def oid_less_def)

lemma oid_order_2: "order_check has_octets oid_less (object_at 597) kNIDsInOIDOrder_2"
  by (simp add: kNIDsInOIDOrder_2_def has_octets_def oid_less_def)

lemma oid_order_3: "order_check has_octets oid_less (object_at 741) kNIDsInOIDOrder_3"
  by (simp add: kNIDsInOIDOrder_3_def has_octets_def oid_less_def)

lemma oid_order_4: "order_check has_octets oid_less (object_at 766) kNIDsInOIDOrder_4"
  by (simp add: kNIDsInOIDOrder_4_def has_octets_def oid_less_def)

lemma oid_order_5: "order_check has_octets oid_less (object_at 293) kNIDsInOIDOrder_5"
  by (simp add: kNIDsInOIDOrder_5_def has_octets_def oid_less_def)

lemma oid_order_6: "order_check has_octets oid_less (object_at 668) kNIDsInOIDOrder_6"
  by (simp add: kNIDsInOIDOrder_6_def has_octets_def oid_less_def)

lemma oid_order_7: "order_check has_octets oid_less (object_at 672) kNIDsInOIDOrder_7"
  by (simp add: kNIDsInOIDOrder_7_def has_octets_def oid_less_def)

lemma oid_order_8: "order_check has_octets oid_less (object_at 137) kNIDsInOIDOrder_8"
  by (simp add: kNIDsInOIDOrder_8_def has_octets_def oid_less_def)

declare object_at_def [simp del] kObjects_parts_at [simp del] kObjects_at [simp del] bytes_of_c_str [simp del] strcmp_c_str [simp del]
  octets_less_step [simp del]

lemmas order_checks =
  short_name_order_0 short_name_order_1 short_name_order_2 short_name_order_3 short_name_order_4 short_name_order_5
  short_name_order_6 short_name_order_7 short_name_order_8 short_name_order_9 long_name_order_0 long_name_order_1
  long_name_order_2 long_name_order_3 long_name_order_4 long_name_order_5 long_name_order_6 long_name_order_7
  long_name_order_8 long_name_order_9 oid_order_0 oid_order_1 oid_order_2 oid_order_3 oid_order_4 oid_order_5 oid_order_6
  oid_order_7 oid_order_8

section \<open>The tables as a whole\<close>

lemma order_check_append:
  "ns \<noteq> [] \<Longrightarrow> order_check p lt a (ns @ ms) \<longleftrightarrow> order_check p lt a ns \<and> order_check p lt (object_at (last ns)) ms"
proof (induction ns arbitrary: a)
  case (Cons n ns)
  then show ?case by (cases ns) auto
qed simp

lemma order_check_entries:
  "order_check p lt a ns \<Longrightarrow> n \<in> set ns \<Longrightarrow> 0 < n \<and> n < 965 \<and> p (object_at n) \<and> obj_nid (object_at n) = int n"
  by (induction ns arbitrary: a) auto

lemma order_check_sorted:
  assumes "\<And>x y z. lt x y \<Longrightarrow> lt y z \<Longrightarrow> lt x z"
  shows "order_check p lt a ns \<Longrightarrow> sorted_wrt (\<lambda>m n. lt (object_at m) (object_at n)) ns \<and> (\<forall>n \<in> set ns. lt a (object_at n))"
  by (induction ns arbitrary: a) (auto dest: assms)

lemma order_parts_nonempty: "0 < length ns \<Longrightarrow> ns \<noteq> []"
  by auto

lemma orders_checked:
  "order_check has_short_name short_name_less no_object (kNIDsInShortNameOrder obj_dat)"
  "order_check has_long_name long_name_less no_object (kNIDsInLongNameOrder obj_dat)"
  "order_check has_octets oid_less no_object (kNIDsInOIDOrder obj_dat)"
  by (simp_all add: obj_dat_def order_check_append order_parts order_checks order_parts_nonempty del: order_check.simps)

lemma orders_length:
  "length (kNIDsInShortNameOrder obj_dat) = 953" "length (kNIDsInLongNameOrder obj_dat) = 953" "length (kNIDsInOIDOrder obj_dat) = 881"
  by (simp_all add: obj_dat_def order_parts)

lemma counts_append:
  "short_names (xs @ ys) = short_names xs + short_names ys" "long_names (xs @ ys) = long_names xs + long_names ys"
  "octet_strings (xs @ ys) = octet_strings xs + octet_strings ys"
  by (simp_all add: short_names_def long_names_def octet_strings_def)

lemma counts_obj_dat:
  "short_names (kObjects obj_dat) = 953" "long_names (kObjects obj_dat) = 953" "octet_strings (kObjects obj_dat) = 881"
  by (simp_all add: obj_dat_def kObjects_parts_def counts_append kObjects_counts)

lemma NUM_NID_obj_dat: "NUM_NID obj_dat = 965"
  by (simp add: obj_dat_def kObjects_parts_def kObjects_lengths)

lemma object_at_eq:
  assumes "0 < n" "n \<le> 965"
  shows "object_at n = get_builtin_object obj_dat n"
proof -
  have "concat kObjects_parts ! (n - 1) = kObjects_parts ! ((n - 1) div 20) ! ((n - 1) mod 20)"
  proof (rule nth_concat_parts)
    show "\<forall>p \<in> set (butlast kObjects_parts). length p = 20" by (simp add: kObjects_parts_def kObjects_lengths)
    show "length (last kObjects_parts) \<le> 20" by (simp add: kObjects_parts_def kObjects_lengths)
    show "n - 1 < length (concat kObjects_parts)" using NUM_NID_obj_dat assms by (simp add: obj_dat_def)
  qed simp
  then show ?thesis by (simp add: object_at_def get_builtin_object_def obj_dat_def)
qed

lemma last_object: "get_builtin_object obj_dat 965 = no_object"
  using object_at_eq [of 965] by (simp add: object_at_def kObjects_parts_at kObjects_at)

text \<open>An order with as many different NIDs as there are objects of the kind lists them all.\<close>

lemma lists_objectsI:
  assumes entries: "\<And>n. n \<in> set ns \<Longrightarrow> 0 < n \<and> n < 965 \<and> p (object_at n) \<and> obj_nid (object_at n) = int n"
    and "distinct ns" and len: "length ns = length (filter p (kObjects obj_dat))" and "\<not> p no_object"
  shows "lists_objects obj_dat p ns"
proof -
  let ?S = "{n. 0 < n \<and> n < 965 \<and> p (get_builtin_object obj_dat n)}" and ?I = "{i. i < 965 \<and> p (kObjects obj_dat ! i)}"
  have "?S = Suc ` ?I"
  proof (intro set_eqI iffI)
    fix n assume n: "n \<in> ?S"
    then have "n = Suc (n - 1)" "n - 1 \<in> ?I" by (auto simp: get_builtin_object_def)
    then show "n \<in> Suc ` ?I" by (rule image_eqI)
  next
    fix n assume "n \<in> Suc ` ?I"
    then obtain i where i: "n = Suc i" "i < 965" "p (kObjects obj_dat ! i)" by blast
    have "i \<noteq> 964"
    proof
      assume "i = 964"
      then have "kObjects obj_dat ! i = no_object" using last_object by (simp add: get_builtin_object_def)
      then show False using i(3) assms(4) by simp
    qed
    then show "n \<in> ?S" using i by (simp add: get_builtin_object_def)
  qed
  then have "card ?S = card ?I" by (simp add: card_image)
  also have "\<dots> = length ns" unfolding len using length_filter_conv_card [of p "kObjects obj_dat"] NUM_NID_obj_dat by simp
  finally have "card ?S = card (set ns)" using assms(2) by (simp add: distinct_card)
  moreover have "set ns \<subseteq> ?S"
  proof
    fix n assume "n \<in> set ns"
    then show "n \<in> ?S" using entries [of n] object_at_eq [of n] by simp
  qed
  moreover have "finite ?S" by simp
  ultimately have "set ns = ?S" by (metis card_subset_eq)
  moreover have "obj_nid (get_builtin_object obj_dat n) = int n" if "n \<in> set ns" for n
    using entries [OF that] object_at_eq [of n] by simp
  ultimately show ?thesis unfolding lists_objects_def NUM_NID_obj_dat by blast
qed

lemma distinct_sorted: "sorted_wrt R ns \<Longrightarrow> (\<And>n. \<not> R n n) \<Longrightarrow> distinct ns"
  by (induction ns) auto

lemma name_less_trans:
  "short_name_less x y \<Longrightarrow> short_name_less y z \<Longrightarrow> short_name_less x z" "long_name_less x y \<Longrightarrow> long_name_less y z \<Longrightarrow> long_name_less x z"
  using strcmp_trans unfolding short_name_less_def long_name_less_def by (meson less_imp_le)+

lemma oid_less_trans: "oid_less x y \<Longrightarrow> oid_less y z \<Longrightarrow> oid_less x z"
  unfolding oid_less_def octets_less_cmp using OBJ_cmp_trans [of x y z] by (auto simp: OBJ_cmp_def)

lemmas short_names_sorted = order_check_sorted [OF name_less_trans(1) orders_checked(1), THEN conjunct1]
lemmas long_names_sorted = order_check_sorted [OF name_less_trans(2) orders_checked(2), THEN conjunct1]
lemmas oids_sorted = order_check_sorted [OF oid_less_trans orders_checked(3), THEN conjunct1]

lemma strcmp_same: "strcmp s s = 0" "OBJ_cmp a a = 0"
  by (simp_all add: OBJ_cmp_eq_0)

lemma less_irrefl_objects: "\<not> short_name_less a a" "\<not> long_name_less a a"
  by (simp_all add: short_name_less_def long_name_less_def strcmp_same)

lemma oid_less_irrefl: "\<not> oid_less a a"
  by (simp add: oid_less_def octets_less_cmp strcmp_same)

lemma no_object_lacks: "\<not> has_short_name no_object" "\<not> has_long_name no_object" "\<not> has_octets no_object"
  by (simp_all add: has_short_name_def has_long_name_def has_octets_def)

lemma orders_length_counts:
  "length (kNIDsInShortNameOrder obj_dat) = length (filter has_short_name (kObjects obj_dat))"
  "length (kNIDsInLongNameOrder obj_dat) = length (filter has_long_name (kObjects obj_dat))"
  "length (kNIDsInOIDOrder obj_dat) = length (filter has_octets (kObjects obj_dat))"
  unfolding has_short_name_def [abs_def] has_long_name_def [abs_def] has_octets_def [abs_def] orders_length
  using counts_obj_dat unfolding short_names_def long_names_def octet_strings_def by (simp_all only:)

lemma orders_list_objects:
  "lists_objects obj_dat has_short_name (kNIDsInShortNameOrder obj_dat)"
  "lists_objects obj_dat has_long_name (kNIDsInLongNameOrder obj_dat)"
  "lists_objects obj_dat has_octets (kNIDsInOIDOrder obj_dat)"
proof -
  show "lists_objects obj_dat has_short_name (kNIDsInShortNameOrder obj_dat)"
    by (rule lists_objectsI [OF _ distinct_sorted [OF short_names_sorted less_irrefl_objects(1)] orders_length_counts(1) no_object_lacks(1)])
      (rule order_check_entries [OF orders_checked(1)])
  show "lists_objects obj_dat has_long_name (kNIDsInLongNameOrder obj_dat)"
    by (rule lists_objectsI [OF _ distinct_sorted [OF long_names_sorted less_irrefl_objects(2)] orders_length_counts(2) no_object_lacks(2)])
      (rule order_check_entries [OF orders_checked(2)])
  show "lists_objects obj_dat has_octets (kNIDsInOIDOrder obj_dat)"
    by (rule lists_objectsI [OF _ distinct_sorted [OF oids_sorted oid_less_irrefl] orders_length_counts(3) no_object_lacks(3)])
      (rule order_check_entries [OF orders_checked(3)])
qed

lemma sorted_on_builtin:
  assumes "sorted_wrt (\<lambda>m n. lt (object_at m) (object_at n)) ns" "\<And>n. n \<in> set ns \<Longrightarrow> 0 < n \<and> n < 965"
    and "\<And>x y. lt x y \<Longrightarrow> lt' x y"
  shows "sorted_wrt (\<lambda>m n. lt' (get_builtin_object obj_dat m) (get_builtin_object obj_dat n)) ns"
proof (rule sorted_wrt_mono_rel [OF _ assms(1)])
  fix m n assume mn: "m \<in> set ns" "n \<in> set ns" "lt (object_at m) (object_at n)"
  then have "lt' (object_at m) (object_at n)" by (intro assms(3))
  then show "lt' (get_builtin_object obj_dat m) (get_builtin_object obj_dat n)"
    using assms(2) [OF mn(1)] assms(2) [OF mn(2)] object_at_eq [of m] object_at_eq [of n] by simp
qed

lemma less_weaken:
  "oid_less x y \<Longrightarrow> OBJ_cmp x y \<le> 0" "short_name_less x y \<Longrightarrow> strcmp (bytes_of (obj_sn x)) (bytes_of (obj_sn y)) < 0"
  "long_name_less x y \<Longrightarrow> strcmp (bytes_of (obj_ln x)) (bytes_of (obj_ln y)) < 0"
proof -
  assume "oid_less x y"
  then have "OBJ_cmp x y < 0 \<or> OBJ_cmp x y = 0" unfolding oid_less_def octets_less_cmp OBJ_cmp_eq_0 by blast
  then show "OBJ_cmp x y \<le> 0" by linarith
qed (simp_all add: short_name_less_def long_name_less_def)

lemma orders_in_range:
  "n \<in> set (kNIDsInShortNameOrder obj_dat) \<Longrightarrow> 0 < n \<and> n < 965" "n \<in> set (kNIDsInLongNameOrder obj_dat) \<Longrightarrow> 0 < n \<and> n < 965"
  "n \<in> set (kNIDsInOIDOrder obj_dat) \<Longrightarrow> 0 < n \<and> n < 965"
  using order_check_entries [OF orders_checked(1)] order_check_entries [OF orders_checked(2)] order_check_entries [OF orders_checked(3)]
  by blast+

lemma obj_dat_ok: "tables_ok obj_dat"
  unfolding tables_ok_def
  using orders_list_objects [unfolded has_short_name_def [abs_def] has_long_name_def [abs_def] has_octets_def [abs_def]]
    sorted_on_builtin [OF oids_sorted orders_in_range(3) less_weaken(1)]
    sorted_on_builtin [OF short_names_sorted orders_in_range(1) less_weaken(2)]
    sorted_on_builtin [OF long_names_sorted orders_in_range(2) less_weaken(3)]
  by (intro conjI)

text \<open>Different built-in objects with the same octets: only the two above.\<close>

lemma sorted_wrt_total: "sorted_wrt R ns \<Longrightarrow> m \<in> set ns \<Longrightarrow> n \<in> set ns \<Longrightarrow> m = n \<or> R m n \<or> R n m"
  by (induction ns) auto

lemma builtin_octets_unique:
  assumes "0 < m" "m < 965" "0 < n" "n < 965" "obj_data (get_builtin_object obj_dat m) = obj_data (get_builtin_object obj_dat n)"
    and "obj_data (get_builtin_object obj_dat n) \<noteq> []"
  shows "m = n \<or> {m, n} = {379, 676}"
proof -
  have "m \<in> set (kNIDsInOIDOrder obj_dat)" "n \<in> set (kNIDsInOIDOrder obj_dat)"
    using orders_list_objects(3) assms unfolding lists_objects_def NUM_NID_obj_dat has_octets_def by simp_all
  then have "obj_nid (object_at m) = int m" "obj_nid (object_at n) = int n"
    and "m = n \<or> oid_less (object_at m) (object_at n) \<or> oid_less (object_at n) (object_at m)"
    using order_check_entries [OF orders_checked(3)] by (blast, blast, intro sorted_wrt_total [OF oids_sorted])
  moreover have "OBJ_cmp (object_at m) (object_at n) = 0" "OBJ_cmp (object_at n) (object_at m) = 0"
    unfolding OBJ_cmp_eq_0 using assms object_at_eq [of m] object_at_eq [of n] by simp_all
  ultimately show ?thesis by (auto simp: oid_less_def octets_less_cmp)
qed

section \<open>Properties\<close>

lemma find_at_start:
  "find_data (obj_start T) d = None" "find_short_name (obj_start T) s = None" "find_long_name (obj_start T) s = None"
  by (simp_all add: obj_start_def find_short_name_def find_long_name_def find_data_def lh_lookup_def)

text \<open>C27: The binary searches of \<open>obj.c\<close> on the tables of \<open>obj_dat.h\<close>, before any object is added. \<open>OBJ_sn2nid\<close> and
  \<open>OBJ_ln2nid\<close> return exactly the NID of the built-in object of that name, and \<open>NID_undef\<close> when there is none. \<open>OBJ_cbs2nid\<close>
  on octets returns \<open>NID_undef\<close> exactly when no built-in object has them, and else the NID of an object that has; the object is
  the only one, except that NIDs 379 and 676 (\<open>org\<close> and \<open>identified-organization\<close>) share theirs.\<close>
theorem OBJ_builtin_lookups:
  "(OBJ_sn2nid obj_dat (obj_start obj_dat) s = nid \<longleftrightarrow>
      (if nid = 0 then \<forall>n. 0 < n \<and> n < 965 \<longrightarrow> obj_sn (get_builtin_object obj_dat n) \<noteq> Some s
       else \<exists>n. 0 < n \<and> n < 965 \<and> obj_sn (get_builtin_object obj_dat n) = Some s \<and> nid = int n))
    \<and> (OBJ_ln2nid obj_dat (obj_start obj_dat) s = nid \<longleftrightarrow>
      (if nid = 0 then \<forall>n. 0 < n \<and> n < 965 \<longrightarrow> obj_ln (get_builtin_object obj_dat n) \<noteq> Some s
       else \<exists>n. 0 < n \<and> n < 965 \<and> obj_ln (get_builtin_object obj_dat n) = Some s \<and> nid = int n))
    \<and> (d \<noteq> [] \<and> length d \<le> INT_MAX \<longrightarrow>
        (OBJ_cbs2nid obj_dat (obj_start obj_dat) d = 0 \<longleftrightarrow> (\<forall>n. 0 < n \<and> n < 965 \<longrightarrow> obj_data (get_builtin_object obj_dat n) \<noteq> d))
        \<and> (\<forall>n. 0 < n \<and> n < 965 \<and> obj_data (get_builtin_object obj_dat n) = d \<longrightarrow>
             OBJ_cbs2nid obj_dat (obj_start obj_dat) d = int n \<or> n \<in> {379, 676} \<and> OBJ_cbs2nid obj_dat (obj_start obj_dat) d \<in> {379, 676}))"
proof (intro conjI impI)
  note sn = builtin_by_short_name [OF obj_dat_ok find_at_start(2), where s = s, unfolded NUM_NID_obj_dat]
  note ln = builtin_by_long_name [OF obj_dat_ok find_at_start(3), where s = s, unfolded NUM_NID_obj_dat]
  note unique = builtin_names_unique [OF obj_dat_ok, unfolded NUM_NID_obj_dat, where s = s]
  show "OBJ_sn2nid obj_dat (obj_start obj_dat) s = nid \<longleftrightarrow>
      (if nid = 0 then \<forall>n. 0 < n \<and> n < 965 \<longrightarrow> obj_sn (get_builtin_object obj_dat n) \<noteq> Some s
       else \<exists>n. 0 < n \<and> n < 965 \<and> obj_sn (get_builtin_object obj_dat n) = Some s \<and> nid = int n)"
    using sn unique(1) by (metis of_nat_0_less_iff less_irrefl)
  show "OBJ_ln2nid obj_dat (obj_start obj_dat) s = nid \<longleftrightarrow>
      (if nid = 0 then \<forall>n. 0 < n \<and> n < 965 \<longrightarrow> obj_ln (get_builtin_object obj_dat n) \<noteq> Some s
       else \<exists>n. 0 < n \<and> n < 965 \<and> obj_ln (get_builtin_object obj_dat n) = Some s \<and> nid = int n)"
    using ln unique(2) by (metis of_nat_0_less_iff less_irrefl)
  assume d: "d \<noteq> [] \<and> length d \<le> INT_MAX"
  note oid = builtin_by_data [OF obj_dat_ok find_at_start(1), where d = d, unfolded NUM_NID_obj_dat]
  show "OBJ_cbs2nid obj_dat (obj_start obj_dat) d = 0 \<longleftrightarrow> (\<forall>n. 0 < n \<and> n < 965 \<longrightarrow> obj_data (get_builtin_object obj_dat n) \<noteq> d)"
    using oid d by blast
  show "\<forall>n. 0 < n \<and> n < 965 \<and> obj_data (get_builtin_object obj_dat n) = d \<longrightarrow>
     OBJ_cbs2nid obj_dat (obj_start obj_dat) d = int n \<or> n \<in> {379, 676} \<and> OBJ_cbs2nid obj_dat (obj_start obj_dat) d \<in> {379, 676}"
  proof (intro allI impI)
    fix n assume n: "0 < n \<and> n < 965 \<and> obj_data (get_builtin_object obj_dat n) = d"
    then obtain m where m: "0 < m" "m < 965" "obj_data (get_builtin_object obj_dat m) = d" "OBJ_cbs2nid obj_dat (obj_start obj_dat) d = int m"
      using oid d by blast
    then have "m = n \<or> {m, n} = {379, 676}" using builtin_octets_unique [of m n] n d by simp
    then show "OBJ_cbs2nid obj_dat (obj_start obj_dat) d = int n
        \<or> n \<in> {379, 676} \<and> OBJ_cbs2nid obj_dat (obj_start obj_dat) d \<in> {379, 676}"
      using m(4) by (auto simp: doubleton_eq_iff)
  qed
qed

theorem OBJ_builtin_lookups_witness:
  "OBJ_sn2nid obj_dat (obj_start obj_dat) (c_str ''CN'') = 13 \<and> OBJ_cbs2nid obj_dat (obj_start obj_dat) [0x55, 0x04, 0x03] = 13
    \<and> OBJ_cbs2nid obj_dat (obj_start obj_dat) [0x2b] \<in> {379, 676}"
proof -
  have at: "get_builtin_object obj_dat 13 = built_in ''CN'' ''commonName'' 13 [0x55, 0x04, 0x03]"
    "get_builtin_object obj_dat 379 = built_in ''ORG'' ''org'' 379 [0x2b]"
    using object_at_eq [of 13] object_at_eq [of 379] by (simp_all add: object_at_def kObjects_parts_at kObjects_at)
  have "OBJ_sn2nid obj_dat (obj_start obj_dat) (c_str ''CN'') = 13"
    using OBJ_builtin_lookups [of "c_str ''CN''" 13 "[]", THEN conjunct1] at(1) by (auto intro!: exI [of _ 13])
  moreover have "OBJ_cbs2nid obj_dat (obj_start obj_dat) [0x55, 0x04, 0x03] = 13"
    using OBJ_builtin_lookups [of "[]" 0 "[0x55, 0x04, 0x03]", THEN conjunct2, THEN conjunct2] at(1) by (auto dest: spec [of _ 13])
  moreover have "OBJ_cbs2nid obj_dat (obj_start obj_dat) [0x2b] \<in> {379, 676}"
    using OBJ_builtin_lookups [of "[]" 0 "[0x2b]", THEN conjunct2, THEN conjunct2] at(2) by (auto dest: spec [of _ 379])
  ultimately show ?thesis by blast
qed

end
