(* ===== verification/Spec2Isabelle.thy ===== *)
theory Spec2Isabelle
  imports Asn1Values Stack Lhash CbbState CbbCalls PosixTime Base64 Unicode Ber OidText Obj ObjDat
begin

text \<open>
  A verification library for the byte-string, encoding and container core of BoringSSL as vendored
  in \<open>src/ios/Pods_old/BoringSSL-GRPC/src/crypto\<close> (paths below are relative to that directory). It is
  written for LP64 targets: \<open>size_t\<close> and \<open>crypto_word_t\<close> have 64 bits, \<open>int\<close> has 32.

  \<^bold>\<open>The program and the theories.\<close> The parts lie in layers, and the theories follow them.

  \<^item> \<open>Prelude\<close>: the machine integers and byte strings, \<open>size_t\<close> arithmetic (\<open>size_add\<close>, \<open>size_mul\<close> wrap at
    \<open>2 ^ 64\<close>), little and big endian numerals, and the readers: functions from the rest of the input to a result
    and the new rest, with \<open>rd_bind\<close> for a sequence of calls with early return.
  \<^item> \<open>ConstTime\<close> (\<open>internal.h\<close>): masks, selects, byte swaps, loads and stores, rotations, carries. Each comparison mask is
    shown to be the comparison.
  \<^item> \<open>Mem\<close> (\<open>mem.c\<close>): allocation, whose failure is a parameter \<open>malloc\<close> on the size asked for, comparison, hashing,
    character classes. \<open>Buf\<close> (\<open>buf/buf.c\<close> and the C strings of \<open>mem.c\<close>): \<open>BUF_MEM\<close>, \<open>OPENSSL_strlcpy\<close>.
  \<^item> \<open>Bytestring\<close>, \<open>Asn1\<close>, \<open>Asn1Values\<close>, \<open>OidText\<close> (\<open>bytestring/cbs.c\<close>): a \<open>CBS\<close> is the list of bytes it still
    covers; every \<open>CBS_get_\<close> function is a reader, and the locale \<open>codec\<close> is the contract between an encoding and its exact
    reader. Length-prefixed data; tags, elements and BER or DER lengths; the values inside
    the elements; object identifiers as text. The lemmas characterise each reader as the inverse of an independent encoding
    (\<open>der_element\<close>, \<open>asn1_int\<close>, \<open>base128\<close>, \<open>decimal\<close>), so that acceptance is exact and the error branches are all other inputs.
  \<^item> \<open>Cbb\<close> (\<open>bytestring/cbb.c\<close>): the byte builder as the code keeps it, one growing or fixed buffer with a list of open
    children. The \<open>CBB\<close> objects of the C code are levels \<open>h\<close> of that list. \<open>CbbTree\<close> gives the abstract state, a root and
    nested children with their pending length prefixes, the relation \<open>cbb_rep\<close> between the two and the simulation
    \<open>cbb_implements\<close> of every operation; \<open>CbbValues\<close> adds the values written and object identifiers read from text;
    \<open>CbbState\<close> the invariants of the operations, the sticky error, SET OF sorting (\<open>qsort\<close> is the interface
    \<open>c_qsort\<close>, which the heap sort of \<open>Stack\<close> satisfies) and the round trips through the readers. \<open>CbbCalls\<close> takes all the functions
    of \<open>bytestring.h\<close> that act on a \<open>CBB\<close> together, those of \<open>Unicode\<close> included: which states their calls reach, and what each
    leaves behind when it fails.
  \<^item> \<open>Stack\<close> (\<open>stack/stack.c\<close>): the pointer stack with its heap sort and binary search, against lists. \<open>Lhash\<close>
    (\<open>lhash/lhash.c\<close>): the chained hash table, against maps; the contract of its callbacks is the locale
    \<open>lhash_callbacks\<close>, interpreted by the four key functions of \<open>obj.c\<close>.
  \<^item> \<open>PosixTime\<close> (\<open>asn1/posix_time.c\<close> and the time parsers of \<open>cbs.c\<close>), against a calendar that walks from day to day.
  \<^item> \<open>Base64\<close> (\<open>base64/base64.c\<close>): the block and the streaming coder, the latter against the former. \<open>Unicode\<close>
    (\<open>bytestring/unicode.c\<close>): the four character encodings. Both use \<open>ConstTime\<close>, the readers and the builder.
  \<^item> \<open>Ber\<close> (\<open>bytestring/ber.c\<close>, \<open>bytestring/asn1_compat.c\<close>): conversion of BER to DER by the readers and the builder, against
    trees of BER values.
  \<^item> \<open>Obj\<close> (\<open>obj/obj.c\<close>, \<open>asn1/a_object.c\<close>): the registry of object identifiers, the top client: hash tables for what
    is added, binary searches in constant tables (the contract of a comparison with a key is the locale \<open>search_order\<close>), text by the
    builder and the readers, and DER. Its invariant \<open>obj_reach_inv\<close> covers every sequence of calls of \<open>OBJ_create\<close>.
  \<^item> \<open>ObjDat\<close> (\<open>obj/obj_dat.h\<close>): the tables themselves, in parts. One pass over each order, part by part, shows it complete and
    ascending (\<open>order_check\<close>), so that the tables have the property \<open>tables_ok\<close> that the searches need, and which built-in
    objects they find. NIDs 379 and 676 have the same octets; all other octets, and all names, are unique.

  \<^bold>\<open>Conventions.\<close> An out-parameter is a component of the result, a null result \<open>None\<close>. Memory the code writes into is passed and
  returned as a list. Loops are structural recursions, or functions with a measure; bytes that an allocation leaves
  uninitialised have the arbitrary value \<open>env_fill\<close>.

  \<^bold>\<open>Fuel.\<close> Only \<open>cbs_convert_ber\<close>, which recurses on inputs that other readers cut out, takes fuel; it is
  called with one more than the length of its input, and \<open>cbs_convert_ber_terminates\<close> shows that this is enough for every
  input. The recursion depth limit of the code is kept as it is.

  \<^bold>\<open>Bounds.\<close> The refinement of the builder asks for output below \<open>2 ^ 61\<close> bytes where it claims success (the doubling of the
  capacity may wrap beyond), that of the hash table for fewer than \<open>2 ^ 64\<close> items, the registry for fewer than \<open>2 ^ 31 - 1\<close>
  NIDs, which are \<open>int\<close>s of the code.

  \<^bold>\<open>Not modelled.\<close> Within the files above: releasing memory, locks and reference counts, \<open>printf\<close>-style and \<open>BIO\<close> output
  (\<open>i2a_ASN1_OBJECT\<close>), the hook for failing allocations in tests, and callbacks that change a hash table while it is
  iterated. Allocation fails by the size asked for, so within one call requests of the same size fail together, except in
  \<open>obj_add_object\<close>. The abort of \<open>BSSL_CHECK\<close> in \<open>get_builtin_object\<close> is not a result of the model; the callers and the tables exclude it. NIDs are
  integers without overflow. \<open>CBB_discard_child\<close> drops the children of the child too, and \<open>struct tm\<close> has no \<open>tm_gmtoff\<close> and \<open>tm_zone\<close>. The rest of BoringSSL (bignums, curves, digests, ciphers, X.509 and its template interpreter, TLS), the other
  pods (gRPC, abseil, LevelDB, nanopb, Firebase) and the Flutter application with its platform runners are
  left out: numerical kernels, C++, Objective-C, Swift or Dart code, or glue around services.
\<close>

end
